(* ===== verification/Prelude.thy ===== *)
theory Prelude
  imports Main "HOL-Library.Word" "HOL-Library.Multiset"
begin

text \<open>
  The shared vocabulary of the development: the machine types of the C++ sources, the
  failure values that stand for every \<^verbatim>\<open>throw\<close>, failed \<^verbatim>\<open>assert\<close> and undefined memory
  access, bounds-checked access to byte arrays, and the little-endian and big-endian
  encodings that the packed structures of the wire formats rely on.
  The target is the one the sources assume (\<^verbatim>\<open>shared/includes/bitcoin.hpp\<close>): a
  little-endian machine with a 64-bit \<^verbatim>\<open>size_t\<close>; sizes are natural numbers, and fields of
  fixed width are words of that width.
\<close>

unbundle bit_operations_syntax

section \<open>Types and failures\<close>

type_synonym byte = "8 word"
type_synonym u8 = "8 word"
type_synonym u16 = "16 word"
type_synonym u32 = "32 word"
type_synonym u64 = "64 word"

datatype err =
    Assert_Fail       \<comment> \<open>a failed \<^verbatim>\<open>assert\<close>\<close>
  | Invalid_Buffer    \<comment> \<open>\<^verbatim>\<open>runtime_error("Invalid buffer")\<close> or \<^verbatim>\<open>"bad buffer"\<close>\<close>
  | Invalid_Argument  \<comment> \<open>\<^verbatim>\<open>invalid_argument\<close>\<close>
  | Alloc_Fail        \<comment> \<open>\<^verbatim>\<open>runtime_error\<close> after a failed \<^verbatim>\<open>malloc\<close>, \<^verbatim>\<open>realloc\<close>, \<^verbatim>\<open>mmap\<close>, \<^verbatim>\<open>mremap\<close>\<close>
  | Out_Of_Bounds     \<comment> \<open>an access outside the bytes of an object\<close>
  | Dangling          \<comment> \<open>an access through a freed or unallocated address\<close>
  | Runtime_Error     \<comment> \<open>any other \<^verbatim>\<open>runtime_error\<close>\<close>

type_synonym 'a res = "err + 'a"

fun bindR :: "'a res \<Rightarrow> ('a \<Rightarrow> 'b res) \<Rightarrow> 'b res" where
  "bindR (Inl e) f = Inl e"
| "bindR (Inr x) f = f x"

definition assertR :: "bool \<Rightarrow> unit res" where
  "assertR b = (if b then Inr () else Inl Assert_Fail)"

named_theorems res_simps \<open>unfolding of the result type\<close>
named_theorems byte_simps \<open>lengths and round trips of byte encodings\<close>

lemma bindR_Inr_iff [res_simps]: "bindR m f = Inr y \<longleftrightarrow> (\<exists>x. m = Inr x \<and> f x = Inr y)"
  by (cases m) auto

lemma bindR_Inl_iff: "bindR m f = Inl e \<longleftrightarrow> m = Inl e \<or> (\<exists>x. m = Inr x \<and> f x = Inl e)"
  by (cases m) auto

lemma bindR_assoc: "bindR (bindR m f) g = bindR m (\<lambda>x. bindR (f x) g)"
  by (cases m) auto

lemma bindR_cong [fundef_cong]:
  "m = m' \<Longrightarrow> (\<And>x. m' = Inr x \<Longrightarrow> f x = f' x) \<Longrightarrow> bindR m f = bindR m' f'"
  by (cases m') auto

lemma assertR_Inr [res_simps]: "assertR b = Inr u \<longleftrightarrow> b"
  by (simp add: assertR_def)

lemma assertR_True [simp]: "assertR True = Inr ()"
  by (simp add: assertR_def)

lemma unat_lt: "unat (w :: 'a::len word) < 2 ^ LENGTH('a)"
  by (rule unsigned_less)

section \<open>Byte arrays\<close>

text \<open>
  \<open>rd xs off n\<close> reads \<open>n\<close> bytes at \<open>off\<close>, \<open>wr xs off ys\<close> overwrites the bytes at
  \<open>off\<close> by \<open>ys\<close> (\<^verbatim>\<open>memcpy\<close>, \<^verbatim>\<open>std::copy\<close>); both fail outside the array.
\<close>

definition rd :: "byte list \<Rightarrow> nat \<Rightarrow> nat \<Rightarrow> byte list res" where
  "rd xs off n = (if off + n \<le> length xs then Inr (take n (drop off xs)) else Inl Out_Of_Bounds)"

definition wr :: "byte list \<Rightarrow> nat \<Rightarrow> byte list \<Rightarrow> byte list res" where
  "wr xs off ys =
     (if off + length ys \<le> length xs
      then Inr (take off xs @ ys @ drop (off + length ys) xs) else Inl Out_Of_Bounds)"

abbreviation zeros :: "nat \<Rightarrow> byte list" where
  "zeros n \<equiv> replicate n 0"

lemma rd_Inr [res_simps]: "rd xs off n = Inr ys \<longleftrightarrow> off + n \<le> length xs \<and> ys = take n (drop off xs)"
  by (auto simp: rd_def)

lemma wr_Inr [res_simps]:
  "wr xs off ys = Inr zs \<longleftrightarrow>
     off + length ys \<le> length xs \<and> zs = take off xs @ ys @ drop (off + length ys) xs"
  by (auto simp: wr_def)

lemma length_wr: "wr xs off ys = Inr zs \<Longrightarrow> length zs = length xs"
  by (auto simp: wr_Inr)

lemma length_rd: "rd xs off n = Inr ys \<Longrightarrow> length ys = n"
  by (auto simp: rd_Inr)

lemma rd_wr_same: "wr xs off ys = Inr zs \<Longrightarrow> rd zs off (length ys) = Inr ys"
  by (auto simp: wr_Inr rd_Inr)

lemma take_append_wr:
  "wr xs off ys = Inr zs \<Longrightarrow> take (off + length ys) zs = take off xs @ ys"
  by (auto simp: wr_Inr)

lemma wr_append:
  assumes "wr x c xs = Inr x1" and "wr x1 (c + length xs) ys = Inr x2"
  shows "wr x c (xs @ ys) = Inr x2"
proof -
  have len: "c + length xs + length ys \<le> length x" "length (take c x @ xs) = c + length xs"
    using assms by (auto simp: wr_Inr)
  have x1: "x1 = (take c x @ xs) @ drop (c + length xs) x" using assms(1) by (simp add: wr_Inr)
  have "x2 = take (c + length xs) x1 @ ys @ drop (c + length xs + length ys) x1"
    using assms(2) by (simp add: wr_Inr)
  also have "take (c + length xs) x1 = take c x @ xs" using x1 len(2) by simp
  also have "drop (c + length xs + length ys) x1 = drop (c + length (xs @ ys)) x"
    unfolding x1 drop_append len(2) using len(2) by (simp add: add.assoc add.commute [of "length ys"])
  finally show ?thesis using len(1) by (simp add: wr_Inr)
qed

lemma rd_append1: "off + n \<le> length xs \<Longrightarrow> rd (xs @ ys) off n = rd xs off n"
  by (auto simp: rd_def)

lemma rd_append2: "length xs \<le> off \<Longrightarrow> rd (xs @ ys) off n = rd ys (off - length xs) n"
  by (auto simp: rd_def)

lemma rd_take: "off + n \<le> m \<Longrightarrow> m \<le> length xs \<Longrightarrow> rd (take m xs) off n = rd xs off n"
  by (simp add: rd_def drop_take min_def)

text \<open>The bytes of a string literal.\<close>

definition ascii :: "string \<Rightarrow> byte list" where
  "ascii s = map (\<lambda>c. of_nat (of_char c)) s"

text \<open>A store into a structure whose size is known to cover it.\<close>

definition put :: "nat \<Rightarrow> 'a list \<Rightarrow> 'a list \<Rightarrow> 'a list" where
  "put off ys xs = take off xs @ ys @ drop (off + length ys) xs"

definition field :: "nat \<Rightarrow> nat \<Rightarrow> 'a list \<Rightarrow> 'a list" where
  "field off n xs = take n (drop off xs)"

lemma length_put: "off + length ys \<le> length xs \<Longrightarrow> length (put off ys xs) = length xs"
  by (simp add: put_def)

lemma length_field: "off + n \<le> length xs \<Longrightarrow> length (field off n xs) = n"
  by (simp add: field_def)

lemma field_put_same: "off + length ys \<le> length xs \<Longrightarrow> n = length ys \<Longrightarrow> field off n (put off ys xs) = ys"
  by (simp add: field_def put_def)

lemma field_put_other:
  assumes "off + length ys \<le> length xs" and "k + n \<le> off \<or> off + length ys \<le> k"
  shows "field k n (put off ys xs) = field k n xs"
  using assms(2)
proof
  assume k: "k + n \<le> off"
  have "take (k + n) (put off ys xs) = take (k + n) xs"
    using k assms(1) by (simp add: put_def min_def)
  then have "drop k (take (k + n) (put off ys xs)) = drop k (take (k + n) xs)" by simp
  then show ?thesis by (simp add: field_def drop_take)
next
  assume k: "off + length ys \<le> k"
  have "drop k (put off ys xs) = drop (k - (off + length ys)) (drop (off + length ys) xs)"
    using k assms(1) by (simp add: put_def drop_Cons' add.commute)
  also have "\<dots> = drop k xs" using k by simp
  finally show ?thesis by (simp add: field_def)
qed

section \<open>Integer encodings\<close>

text \<open>
  \<open>enc_le n v\<close> is the memory image of the \<open>n\<close>-byte unsigned integer \<open>v\<close>,
  \<open>enc_be\<close> its network byte order.
\<close>

fun enc_le :: "nat \<Rightarrow> nat \<Rightarrow> byte list" where
  "enc_le 0 v = []"
| "enc_le (Suc n) v = of_nat v # enc_le n (v div 256)"

fun dec_le :: "byte list \<Rightarrow> nat" where
  "dec_le [] = 0"
| "dec_le (b # bs) = unat b + 256 * dec_le bs"

definition enc_be :: "nat \<Rightarrow> nat \<Rightarrow> byte list" where
  "enc_be n v = rev (enc_le n v)"

definition dec_be :: "byte list \<Rightarrow> nat" where
  "dec_be bs = dec_le (rev bs)"

lemma length_enc_le [simp, byte_simps]: "length (enc_le n v) = n"
  by (induction n arbitrary: v) auto

lemma length_enc_be [simp, byte_simps]: "length (enc_be n v) = n"
  by (simp add: enc_be_def)

lemma dec_le_bound: "dec_le bs < 256 ^ length bs"
proof (induction bs)
  case (Cons b bs)
  have "unat b < 256" using unat_lt [of b] by simp
  with Cons show ?case by simp
qed simp

lemma dec_be_bound: "dec_be bs < 256 ^ length bs"
  using dec_le_bound [of "rev bs"] by (simp add: dec_be_def)

lemma unat_of_nat_byte: "unat (of_nat v :: byte) = v mod 256"
  by (simp add: unat_of_nat)

lemma dec_enc_le: "dec_le (enc_le n v) = v mod 256 ^ n"
proof (induction n arbitrary: v)
  case (Suc n)
  then show ?case
    by (simp add: unat_of_nat_byte mod_mult2_eq)
qed simp

lemma dec_enc_le_id [byte_simps]: "v < 256 ^ n \<Longrightarrow> dec_le (enc_le n v) = v"
  by (simp add: dec_enc_le)

lemma dec_enc_be_id [byte_simps]: "v < 256 ^ n \<Longrightarrow> dec_be (enc_be n v) = v"
  by (simp add: dec_be_def enc_be_def dec_enc_le_id)

lemma enc_dec_le: "enc_le (length bs) (dec_le bs) = bs"
proof (induction bs)
  case (Cons b bs)
  have "unat b < 256" using unat_lt [of b] by simp
  then have "(unat b + 256 * dec_le bs) div 256 = dec_le bs" by simp
  moreover have "(of_nat (unat b + 256 * dec_le bs) :: byte) = b"
    by (rule word_unat_eq_iff [THEN iffD2])
       (use \<open>unat b < 256\<close> in \<open>simp only: unat_of_nat_byte, simp\<close>)
  ultimately show ?case using Cons by simp
qed simp

lemma enc_dec_be: "enc_be (length bs) (dec_be bs) = bs"
  using enc_dec_le [of "rev bs"] by (simp add: enc_be_def dec_be_def)

text \<open>Fields of fixed width as words.\<close>

definition le16 :: "u16 \<Rightarrow> byte list" where "le16 w = enc_le 2 (unat w)"
definition le32 :: "u32 \<Rightarrow> byte list" where "le32 w = enc_le 4 (unat w)"
definition le64 :: "u64 \<Rightarrow> byte list" where "le64 w = enc_le 8 (unat w)"
definition be32 :: "u32 \<Rightarrow> byte list" where "be32 w = enc_be 4 (unat w)"
definition be64 :: "u64 \<Rightarrow> byte list" where "be64 w = enc_be 8 (unat w)"

definition get16 :: "byte list \<Rightarrow> u16" where "get16 bs = of_nat (dec_le bs)"
definition get32 :: "byte list \<Rightarrow> u32" where "get32 bs = of_nat (dec_le bs)"
definition get64 :: "byte list \<Rightarrow> u64" where "get64 bs = of_nat (dec_le bs)"
definition getb32 :: "byte list \<Rightarrow> u32" where "getb32 bs = of_nat (dec_be bs)"
definition getb64 :: "byte list \<Rightarrow> u64" where "getb64 bs = of_nat (dec_be bs)"

lemmas enc_defs = le16_def le32_def le64_def be32_def be64_def
lemmas get_defs = get16_def get32_def get64_def getb32_def getb64_def

lemma length_enc_words [simp, byte_simps]:
  "length (le16 a) = 2" "length (le32 b) = 4" "length (le64 c) = 8"
  "length (be32 b) = 4" "length (be64 c) = 8"
  by (simp_all add: enc_defs)

lemma get16_le16 [simp, byte_simps]: "get16 (le16 w) = w"
  using unat_lt [of w] by (simp add: enc_defs get_defs dec_enc_le_id)

lemma get32_le32 [simp, byte_simps]: "get32 (le32 w) = w"
  using unat_lt [of w] by (simp add: enc_defs get_defs dec_enc_le_id)

lemma get64_le64 [simp, byte_simps]: "get64 (le64 w) = w"
  using unat_lt [of w] by (simp add: enc_defs get_defs dec_enc_le_id)

lemma getb32_be32 [simp, byte_simps]: "getb32 (be32 w) = w"
  using unat_lt [of w] by (simp add: enc_defs get_defs dec_enc_be_id)

lemma getb64_be64 [simp, byte_simps]: "getb64 (be64 w) = w"
  using unat_lt [of w] by (simp add: enc_defs get_defs dec_enc_be_id)

lemma le32_get32: "length bs = 4 \<Longrightarrow> le32 (get32 bs) = bs"
  using dec_le_bound [of bs] enc_dec_le [of bs]
  by (simp add: enc_defs get_defs unat_of_nat)

lemma be32_getb32: "length bs = 4 \<Longrightarrow> be32 (getb32 bs) = bs"
  using dec_be_bound [of bs] enc_dec_be [of bs]
  by (simp add: enc_defs get_defs unat_of_nat)

section \<open>Network byte order (shared/includes/network.hpp)\<close>

text \<open>
  \<^verbatim>\<open>hton\<close> and \<^verbatim>\<open>ntoh\<close> swap the bytes of the host representation. The overloads at the
  widths 16, 32 and 64 are separate definitions.
\<close>

definition hton16 :: "u16 \<Rightarrow> u16" where "hton16 x = get16 (rev (le16 x))"
definition hton32 :: "u32 \<Rightarrow> u32" where "hton32 x = get32 (rev (le32 x))"
definition hton64 :: "u64 \<Rightarrow> u64" where "hton64 x = get64 (rev (le64 x))"
definition ntoh16 :: "u16 \<Rightarrow> u16" where "ntoh16 x = get16 (rev (le16 x))"
definition ntoh32 :: "u32 \<Rightarrow> u32" where "ntoh32 x = get32 (rev (le32 x))"
definition ntoh64 :: "u64 \<Rightarrow> u64" where "ntoh64 x = get64 (rev (le64 x))"

lemma enc_le_get: "length bs = n \<Longrightarrow> v = dec_le bs \<Longrightarrow> enc_le n v = bs"
  using enc_dec_le by blast

lemma le16_get16: "length bs = 2 \<Longrightarrow> le16 (get16 bs) = bs"
  using dec_le_bound [of bs] enc_dec_le [of bs]
  by (simp add: enc_defs get_defs unat_of_nat)

lemma le64_get64: "length bs = 8 \<Longrightarrow> le64 (get64 bs) = bs"
  using dec_le_bound [of bs] enc_dec_le [of bs]
  by (simp add: enc_defs get_defs unat_of_nat)

lemma le32_hton32: "le32 (hton32 x) = be32 x"
  by (simp add: hton32_def le32_get32) (simp add: enc_defs enc_be_def)

lemma le64_hton64: "le64 (hton64 x) = be64 x"
  by (simp add: hton64_def le64_get64) (simp add: enc_defs enc_be_def)

lemma ntoh32_get32: "length bs = 4 \<Longrightarrow> ntoh32 (get32 bs) = getb32 bs"
  by (simp add: ntoh32_def le32_get32) (simp add: get_defs dec_be_def)

lemma ntoh_hton [simp]:
  "ntoh16 (hton16 a) = a" "ntoh32 (hton32 b) = b" "ntoh64 (hton64 c) = c"
  by (simp_all add: ntoh16_def hton16_def ntoh32_def hton32_def ntoh64_def hton64_def
      le16_get16 le32_get32 le64_get64)

lemma hton_ntoh [simp]:
  "hton16 (ntoh16 a) = a" "hton32 (ntoh32 b) = b" "hton64 (ntoh64 c) = c"
  by (simp_all add: ntoh16_def hton16_def ntoh32_def hton32_def ntoh64_def hton64_def
      le16_get16 le32_get32 le64_get64)

section \<open>Framed records\<close>

text \<open>\<^verbatim>\<open>logger.hpp\<close>: all logs are preceded by a 32-bit length prefix in network order.\<close>

definition enc_frame :: "byte list \<Rightarrow> byte list" where
  "enc_frame r = be32 (of_nat (length r)) @ r"

lemma length_enc_frame [simp]: "length (enc_frame r) = 4 + length r"
  by (simp add: enc_frame_def)

end
