(* ===== verification/Cow_Heap.thy ===== *)
theory Cow_Heap
  imports Prelude
begin

text \<open>
  The memory under the copy-on-write buffers of \<^verbatim>\<open>shared/\<close>: an explicit heap of byte
  blocks and reference-count cells, the objects that point into it, the ownership
  invariant that ties the two together, and the six elementary transitions of that
  invariant from which the proofs about \<^verbatim>\<open>alloc_buffer\<close> and \<^verbatim>\<open>mmap_buffer\<close> are built.
\<close>

section \<open>Heap and objects\<close>

type_synonym addr = nat

text \<open>
  \<open>blocks\<close> holds what \<^verbatim>\<open>malloc\<close> and \<^verbatim>\<open>mmap\<close> returned and is not yet freed, \<open>counts\<close>
  the cells made by \<^verbatim>\<open>new size_type(1)\<close>. \<open>can_alloc\<close> says for which sizes the system
  grants memory and \<open>junk\<close> is the content of memory that \<^verbatim>\<open>malloc\<close> does not initialise:
  both are parameters of the model.
\<close>

record heap =
  blocks :: "addr \<rightharpoonup> byte list"
  counts :: "addr \<rightharpoonup> nat"
  next_addr :: addr
  can_alloc :: "nat \<Rightarrow> bool"
  junk :: byte

text \<open>The three data members shared by \<^verbatim>\<open>alloc_buffer\<close> and \<^verbatim>\<open>mmap_buffer\<close>.\<close>

record cow =
  c_allocated :: nat
  c_buffer :: "addr option"
  c_refcount :: "addr option"

definition c_malloc :: "heap \<Rightarrow> nat \<Rightarrow> (heap \<times> addr) res" where
  "c_malloc h n =
     (if can_alloc h n
      then Inr (h\<lparr>blocks := (blocks h)(next_addr h \<mapsto> replicate n (junk h)),
                  next_addr := Suc (next_addr h)\<rparr>, next_addr h)
      else Inl Alloc_Fail)"

text \<open>An anonymous private mapping is zero-filled by the kernel.\<close>

definition c_mmap :: "heap \<Rightarrow> nat \<Rightarrow> (heap \<times> addr) res" where
  "c_mmap h n =
     (if can_alloc h n
      then Inr (h\<lparr>blocks := (blocks h)(next_addr h \<mapsto> zeros n),
                  next_addr := Suc (next_addr h)\<rparr>, next_addr h)
      else Inl Alloc_Fail)"

definition c_free :: "heap \<Rightarrow> addr \<Rightarrow> heap res" where
  "c_free h a =
     (case blocks h a of None \<Rightarrow> Inl Dangling
      | Some _ \<Rightarrow> Inr (h\<lparr>blocks := (blocks h)(a := None)\<rparr>))"

definition new_count :: "heap \<Rightarrow> nat \<Rightarrow> heap \<times> addr" where
  "new_count h k =
     (h\<lparr>counts := (counts h)(next_addr h \<mapsto> k), next_addr := Suc (next_addr h)\<rparr>, next_addr h)"

definition get_count :: "heap \<Rightarrow> addr \<Rightarrow> nat res" where
  "get_count h r = (case counts h r of None \<Rightarrow> Inl Dangling | Some k \<Rightarrow> Inr k)"

definition set_count :: "heap \<Rightarrow> addr \<Rightarrow> nat \<Rightarrow> heap" where
  "set_count h r k = h\<lparr>counts := (counts h)(r \<mapsto> k)\<rparr>"

definition del_count :: "heap \<Rightarrow> addr \<Rightarrow> heap" where
  "del_count h r = h\<lparr>counts := (counts h)(r := None)\<rparr>"

definition mem_read :: "heap \<Rightarrow> addr \<Rightarrow> nat \<Rightarrow> nat \<Rightarrow> byte list res" where
  "mem_read h a off n = (case blocks h a of None \<Rightarrow> Inl Dangling | Some bs \<Rightarrow> rd bs off n)"

definition mem_write :: "heap \<Rightarrow> addr \<Rightarrow> nat \<Rightarrow> byte list \<Rightarrow> heap res" where
  "mem_write h a off ys =
     (case blocks h a of None \<Rightarrow> Inl Dangling
      | Some bs \<Rightarrow> bindR (wr bs off ys) (\<lambda>bs'. Inr (h\<lparr>blocks := (blocks h)(a \<mapsto> bs')\<rparr>)))"

text \<open>The bytes an object shows.\<close>

definition view :: "heap \<Rightarrow> cow \<Rightarrow> byte list" where
  "view h c = (case c_buffer c of None \<Rightarrow> [] | Some b \<Rightarrow>
     (case blocks h b of None \<Rightarrow> [] | Some bs \<Rightarrow> bs))"

section \<open>The ownership invariant\<close>

text \<open>
  \<open>heap_ok h cs\<close> says that \<open>cs\<close> is the list of all live objects and that the heap is
  consistent with it: every object is null or owns an allocated block of exactly
  \<open>c_allocated\<close> bytes; objects that share a count or a block are equal; every count is
  the number of objects that refer to it; every block and every count belongs to a live
  object (nothing leaks); and fresh addresses are fresh.
\<close>

definition refs :: "cow list \<Rightarrow> addr \<Rightarrow> nat" where
  "refs cs r = length (filter (\<lambda>c. c_refcount c = Some r) cs)"

definition cow_wf :: "heap \<Rightarrow> cow \<Rightarrow> bool" where
  "cow_wf h c =
     (case c_buffer c of None \<Rightarrow> c_refcount c = None \<and> c_allocated c = 0
      | Some b \<Rightarrow> c_refcount c \<noteq> None \<and>
          (case blocks h b of None \<Rightarrow> False | Some bs \<Rightarrow> length bs = c_allocated c \<and> bs \<noteq> []))"

definition heap_ok :: "heap \<Rightarrow> cow list \<Rightarrow> bool" where
  "heap_ok h cs \<longleftrightarrow>
     (\<forall>c\<in>set cs. cow_wf h c) \<and>
     (\<forall>c\<in>set cs. \<forall>d\<in>set cs. \<forall>r. c_refcount c = Some r \<and> c_refcount d = Some r \<longrightarrow> c = d) \<and>
     (\<forall>c\<in>set cs. \<forall>d\<in>set cs. \<forall>b. c_buffer c = Some b \<and> c_buffer d = Some b \<longrightarrow> c = d) \<and>
     (\<forall>r. counts h r = (if refs cs r = 0 then None else Some (refs cs r))) \<and>
     (\<forall>b. blocks h b \<noteq> None \<longleftrightarrow> (\<exists>c\<in>set cs. c_buffer c = Some b)) \<and>
     (\<forall>a\<ge>next_addr h. blocks h a = None \<and> counts h a = None)"

definition same_views :: "heap \<Rightarrow> heap \<Rightarrow> cow list \<Rightarrow> bool" where
  "same_views h h' cs \<longleftrightarrow> (\<forall>d\<in>set cs. view h' d = view h d)"

lemma refs_Nil [simp]: "refs [] r = 0"
  by (simp add: refs_def)

lemma refs_Cons [simp]: "refs (c # cs) r = (if c_refcount c = Some r then 1 else 0) + refs cs r"
  by (simp add: refs_def)

lemma refs_append [simp]: "refs (cs @ ds) r = refs cs r + refs ds r"
  by (simp add: refs_def)

lemma refs_pos: "refs cs r \<noteq> 0 \<longleftrightarrow> (\<exists>c\<in>set cs. c_refcount c = Some r)"
  by (induction cs) auto

lemma refs_perm: "mset cs = mset ds \<Longrightarrow> refs cs r = refs ds r"
  unfolding refs_def by (metis mset_filter size_mset)

lemma heap_okI:
  assumes "\<And>c. c \<in> set cs \<Longrightarrow> cow_wf h c"
    and "\<And>c d r. c \<in> set cs \<Longrightarrow> d \<in> set cs \<Longrightarrow> c_refcount c = Some r \<Longrightarrow> c_refcount d = Some r \<Longrightarrow> c = d"
    and "\<And>c d b. c \<in> set cs \<Longrightarrow> d \<in> set cs \<Longrightarrow> c_buffer c = Some b \<Longrightarrow> c_buffer d = Some b \<Longrightarrow> c = d"
    and "\<And>r. counts h r = (if refs cs r = 0 then None else Some (refs cs r))"
    and "\<And>b. blocks h b \<noteq> None \<longleftrightarrow> (\<exists>c\<in>set cs. c_buffer c = Some b)"
    and "\<And>a. next_addr h \<le> a \<Longrightarrow> blocks h a = None \<and> counts h a = None"
  shows "heap_ok h cs"
  unfolding heap_ok_def using assms by blast

lemma heap_ok_wf: "heap_ok h cs \<Longrightarrow> c \<in> set cs \<Longrightarrow> cow_wf h c"
  by (simp add: heap_ok_def)

lemma heap_ok_ref_inj:
  "heap_ok h cs \<Longrightarrow> c \<in> set cs \<Longrightarrow> d \<in> set cs \<Longrightarrow> c_refcount c = Some r \<Longrightarrow> c_refcount d = Some r \<Longrightarrow> c = d"
  unfolding heap_ok_def by blast

lemma heap_ok_buf_inj:
  "heap_ok h cs \<Longrightarrow> c \<in> set cs \<Longrightarrow> d \<in> set cs \<Longrightarrow> c_buffer c = Some b \<Longrightarrow> c_buffer d = Some b \<Longrightarrow> c = d"
  unfolding heap_ok_def by blast

lemma heap_ok_counts: "heap_ok h cs \<Longrightarrow> counts h r = (if refs cs r = 0 then None else Some (refs cs r))"
  unfolding heap_ok_def by blast

lemma heap_ok_blocks: "heap_ok h cs \<Longrightarrow> blocks h b \<noteq> None \<longleftrightarrow> (\<exists>c\<in>set cs. c_buffer c = Some b)"
  unfolding heap_ok_def by blast

lemma heap_ok_next: "heap_ok h cs \<Longrightarrow> next_addr h \<le> a \<Longrightarrow> blocks h a = None \<and> counts h a = None"
  unfolding heap_ok_def by blast

lemma heap_ok_perm: "mset cs = mset ds \<Longrightarrow> heap_ok h cs = heap_ok h ds"
  unfolding heap_ok_def using refs_perm [of cs ds] mset_eq_setD [of cs ds] by simp

lemma heap_ok_swap: "heap_ok h (c # d # cs) = heap_ok h (d # c # cs)"
  by (rule heap_ok_perm) simp

lemma refs_fresh: "heap_ok h cs \<Longrightarrow> next_addr h \<le> r \<Longrightarrow> refs cs r = 0"
  using heap_ok_next [of h cs r] heap_ok_counts [of h cs r] by (simp split: if_splits)

lemma refs_bound: "heap_ok h cs \<Longrightarrow> refs cs r \<noteq> 0 \<Longrightarrow> r < next_addr h"
  using refs_fresh [of h cs r] by (cases "r < next_addr h") auto

lemma block_bound: "heap_ok h cs \<Longrightarrow> c \<in> set cs \<Longrightarrow> c_buffer c = Some b \<Longrightarrow> b < next_addr h"
  using heap_ok_next [of h cs b] heap_ok_blocks [of h cs b] not_le by blast

lemma cow_wf_blocks_eq:
  "cow_wf h c \<Longrightarrow> (\<And>b. c_buffer c = Some b \<Longrightarrow> blocks h' b = blocks h b) \<Longrightarrow> cow_wf h' c"
  by (auto simp: cow_wf_def split: option.splits)

lemma heap_ok_wf_mono:
  "heap_ok h cs \<Longrightarrow> d \<in> set cs \<Longrightarrow> (\<And>b. c_buffer d = Some b \<Longrightarrow> blocks h' b = blocks h b) \<Longrightarrow> cow_wf h' d"
  using cow_wf_blocks_eq heap_ok_wf by blast

lemma same_viewsI:
  assumes "\<And>c b. c \<in> set cs \<Longrightarrow> c_buffer c = Some b \<Longrightarrow> blocks h' b = blocks h b"
  shows "same_views h h' cs"
  unfolding same_views_def
proof
  show "view h' c = view h c" if "c \<in> set cs" for c
    using assms [OF that] by (cases "c_buffer c") (simp_all add: view_def)
qed

lemma same_views_refl [simp]: "same_views h h cs"
  by (simp add: same_views_def)

lemma same_views_trans: "same_views h h' cs \<Longrightarrow> same_views h' h'' cs \<Longrightarrow> same_views h h'' cs"
  by (simp add: same_views_def)

lemma same_views_Cons [simp]:
  "same_views h h' (c # cs) \<longleftrightarrow> view h' c = view h c \<and> same_views h h' cs"
  by (auto simp: same_views_def)

lemma same_views_append [simp]:
  "same_views h h' (cs @ ds) \<longleftrightarrow> same_views h h' cs \<and> same_views h h' ds"
  by (auto simp: same_views_def)

lemma cow_wf_view_length: "cow_wf h c \<Longrightarrow> length (view h c) = c_allocated c"
  by (auto simp: cow_wf_def view_def split: option.splits)

lemma heap_ok_live:
  assumes "heap_ok h (c # cs)" and "c_buffer c = Some b"
  obtains r where "c_refcount c = Some r" and "blocks h b = Some (view h c)"
    and "length (view h c) = c_allocated c" and "view h c \<noteq> []"
    and "counts h r = Some (Suc (refs cs r))"
proof -
  have wf: "cow_wf h c" using heap_ok_wf [OF assms(1)] by simp
  with assms(2) obtain r where r: "c_refcount c = Some r" by (auto simp: cow_wf_def)
  have "counts h r = Some (Suc (refs cs r))"
    using heap_ok_counts [OF assms(1)] r by simp
  with wf assms(2) r that show thesis
    by (auto simp: cow_wf_def view_def split: option.splits)
qed

lemma heap_ok_refcount_live:
  "heap_ok h (c # cs) \<Longrightarrow> c_refcount c = Some r \<Longrightarrow> \<exists>b. c_buffer c = Some b"
  using heap_ok_wf [of h "c # cs" c] by (auto simp: cow_wf_def split: option.splits)

text \<open>A sole owner shares neither its count nor its block.\<close>

lemma sole_owner:
  assumes "heap_ok h (c # cs)" and "c_refcount c = Some r" and "c_buffer c = Some b"
    and "refs cs r = 0" and "d \<in> set cs"
  shows "c_refcount d \<noteq> Some r" and "c_buffer d \<noteq> Some b"
proof -
  show nr: "c_refcount d \<noteq> Some r" using assms(4,5) refs_pos by metis
  show "c_buffer d \<noteq> Some b"
    using heap_ok_buf_inj [OF assms(1), of c d b] assms(2,3,5) nr by auto
qed

section \<open>Elementary transitions\<close>

text \<open>A null object owns nothing.\<close>

definition null_cow :: cow where
  "null_cow = \<lparr>c_allocated = 0, c_buffer = None, c_refcount = None\<rparr>"

abbreviation cow_of :: "nat \<Rightarrow> addr \<Rightarrow> addr \<Rightarrow> cow" where
  "cow_of n b r \<equiv> \<lparr>c_allocated = n, c_buffer = Some b, c_refcount = Some r\<rparr>"

lemma null_cow_simps [simp]:
  "c_allocated null_cow = 0" "c_buffer null_cow = None" "c_refcount null_cow = None"
  "view h null_cow = []" "cow_wf h null_cow"
  by (simp_all add: null_cow_def view_def cow_wf_def)

lemma cow_null_iff: "cow_wf h c \<Longrightarrow> c_buffer c = None \<Longrightarrow> c = null_cow"
  by (simp add: cow_wf_def null_cow_def)

lemma heap_ok_null [simp]: "heap_ok h (null_cow # cs) = heap_ok h cs"
proof
  assume ok: "heap_ok h (null_cow # cs)"
  show "heap_ok h cs"
  proof (rule heap_okI)
    show "counts h r = (if refs cs r = 0 then None else Some (refs cs r))" for r
      using heap_ok_counts [OF ok, of r] by simp
    show "blocks h b \<noteq> None \<longleftrightarrow> (\<exists>c\<in>set cs. c_buffer c = Some b)" for b
      using heap_ok_blocks [OF ok, of b] by simp
  qed (use ok in \<open>auto dest: heap_ok_wf heap_ok_ref_inj heap_ok_buf_inj heap_ok_next\<close>)
next
  assume ok: "heap_ok h cs"
  show "heap_ok h (null_cow # cs)"
  proof (rule heap_okI)
    show "counts h r = (if refs (null_cow # cs) r = 0 then None else Some (refs (null_cow # cs) r))" for r
      using heap_ok_counts [OF ok, of r] by simp
    show "blocks h b \<noteq> None \<longleftrightarrow> (\<exists>c\<in>set (null_cow # cs). c_buffer c = Some b)" for b
      using heap_ok_blocks [OF ok, of b] by simp
  qed (use ok in \<open>auto dest: heap_ok_wf heap_ok_ref_inj heap_ok_buf_inj heap_ok_next\<close>)
qed

lemma heap_ok_fresh:
  assumes ok: "heap_ok h cs" and ne: "bs \<noteq> []"
    and bl: "blocks h' = (blocks h)(b \<mapsto> bs)" and ct: "counts h' = (counts h)(r \<mapsto> 1)"
    and b: "next_addr h \<le> b" "b < next_addr h'" and r: "next_addr h \<le> r" "r < next_addr h'"
  shows "heap_ok h' (cow_of (length bs) b r # cs)" and "same_views h h' cs"
proof -
  have nb: "c_buffer c \<noteq> Some b" if "c \<in> set cs" for c
    using block_bound [OF ok that] b by force
  have r0: "refs cs r = 0" using refs_fresh [OF ok r(1)] .
  then have nr: "c_refcount c \<noteq> Some r" if "c \<in> set cs" for c
    using that refs_pos by metis
  show "heap_ok h' (cow_of (length bs) b r # cs)"
  proof (rule heap_okI)
    show "cow_wf h' c" if "c \<in> set (cow_of (length bs) b r # cs)" for c
      using that ne bl nb heap_ok_wf_mono [OF ok, of c h']
      by (cases "c \<in> set cs") (fastforce, simp add: cow_wf_def)
    show "counts h' x = (if refs (cow_of (length bs) b r # cs) x = 0 then None
        else Some (refs (cow_of (length bs) b r # cs) x))" for x
      using heap_ok_counts [OF ok, of x] ct r0 by simp
    show "blocks h' x \<noteq> None \<longleftrightarrow> (\<exists>c\<in>set (cow_of (length bs) b r # cs). c_buffer c = Some x)" for x
      using heap_ok_blocks [OF ok, of x] bl by auto
    show "blocks h' a = None \<and> counts h' a = None" if "next_addr h' \<le> a" for a
      using heap_ok_next [OF ok, of a] that b r bl ct by auto
  qed (use nb nr heap_ok_ref_inj [OF ok] heap_ok_buf_inj [OF ok] in auto)
  show "same_views h h' cs"
    by (rule same_viewsI) (use nb bl in auto)
qed

lemma heap_ok_add_ref:
  assumes ok: "heap_ok h (c # cs)" and r: "c_refcount c = Some r"
    and bl: "blocks h' = blocks h" and ct: "counts h' = (counts h)(r \<mapsto> Suc (Suc (refs cs r)))"
    and nx: "next_addr h' = next_addr h"
  shows "heap_ok h' (c # c # cs)" and "same_views h h' (c # cs)"
proof -
  have rb: "r < next_addr h" using refs_bound [OF ok, of r] r by simp
  show "heap_ok h' (c # c # cs)"
  proof (rule heap_okI)
    show "cow_wf h' d" if "d \<in> set (c # c # cs)" for d
      using that bl heap_ok_wf_mono [OF ok, of d h'] by auto
    show "counts h' x = (if refs (c # c # cs) x = 0 then None else Some (refs (c # c # cs) x))" for x
      using heap_ok_counts [OF ok, of x] ct r by simp
    show "blocks h' x \<noteq> None \<longleftrightarrow> (\<exists>d\<in>set (c # c # cs). c_buffer d = Some x)" for x
      using heap_ok_blocks [OF ok, of x] bl by simp
    show "blocks h' a = None \<and> counts h' a = None" if "next_addr h' \<le> a" for a
      using heap_ok_next [OF ok, of a] that rb bl ct nx by auto
  qed (use ok in \<open>auto intro: heap_ok_ref_inj heap_ok_buf_inj\<close>)
  show "same_views h h' (c # cs)"
    by (rule same_viewsI) (simp add: bl)
qed

lemma heap_ok_drop_ref:
  assumes ok: "heap_ok h (c # cs)" and r: "c_refcount c = Some r" and pos: "refs cs r \<noteq> 0"
    and bl: "blocks h' = blocks h" and ct: "counts h' = (counts h)(r \<mapsto> refs cs r)"
    and nx: "next_addr h' = next_addr h"
  shows "heap_ok h' cs" and "same_views h h' cs"
proof -
  from pos obtain d where "d \<in> set cs" "c_refcount d = Some r"
    using refs_pos by metis
  then have c: "c \<in> set cs" using heap_ok_ref_inj [OF ok, of c d r] r by simp
  have rb: "r < next_addr h" using refs_bound [OF ok, of r] r by simp
  show "heap_ok h' cs"
  proof (rule heap_okI)
    show "cow_wf h' d" if "d \<in> set cs" for d
      using that bl heap_ok_wf_mono [OF ok, of d h'] by auto
    show "counts h' x = (if refs cs x = 0 then None else Some (refs cs x))" for x
      using heap_ok_counts [OF ok, of x] ct r pos by simp
    show "blocks h' x \<noteq> None \<longleftrightarrow> (\<exists>d\<in>set cs. c_buffer d = Some x)" for x
      using heap_ok_blocks [OF ok, of x] bl c by auto
    show "blocks h' a = None \<and> counts h' a = None" if "next_addr h' \<le> a" for a
      using heap_ok_next [OF ok, of a] that rb bl ct nx by auto
  qed (use ok in \<open>auto intro: heap_ok_ref_inj heap_ok_buf_inj\<close>)
  show "same_views h h' cs"
    by (rule same_viewsI) (simp add: bl)
qed

lemma heap_ok_drop_last:
  assumes ok: "heap_ok h (c # cs)" and r: "c_refcount c = Some r" and b: "c_buffer c = Some b"
    and sole: "refs cs r = 0"
    and bl: "blocks h' = (blocks h)(b := None)" and ct: "counts h' = (counts h)(r := None)"
    and nx: "next_addr h' = next_addr h"
  shows "heap_ok h' cs" and "same_views h h' cs"
proof -
  note own = sole_owner [OF ok r b sole]
  show "heap_ok h' cs"
  proof (rule heap_okI)
    show "cow_wf h' d" if "d \<in> set cs" for d
      using that bl own heap_ok_wf_mono [OF ok, of d h'] by fastforce
    show "counts h' x = (if refs cs x = 0 then None else Some (refs cs x))" for x
      using heap_ok_counts [OF ok, of x] ct r sole by simp
    show "blocks h' x \<noteq> None \<longleftrightarrow> (\<exists>d\<in>set cs. c_buffer d = Some x)" for x
      using heap_ok_blocks [OF ok, of x] bl own b by auto
    show "blocks h' a = None \<and> counts h' a = None" if "next_addr h' \<le> a" for a
      using heap_ok_next [OF ok, of a] that bl ct nx by auto
  qed (use ok in \<open>auto intro: heap_ok_ref_inj heap_ok_buf_inj\<close>)
  show "same_views h h' cs"
    by (rule same_viewsI) (use own bl in auto)
qed

text \<open>A sole owner may replace its block, in place or by a fresh one.\<close>

lemma heap_ok_replace:
  assumes ok: "heap_ok h (c # cs)" and r: "c_refcount c = Some r" and b: "c_buffer c = Some b"
    and sole: "refs cs r = 0" and ne: "bs \<noteq> []"
    and b': "b' = b \<or> next_addr h \<le> b'" "b' < next_addr h'" and nx: "next_addr h \<le> next_addr h'"
    and bl: "blocks h' = (blocks h)(b := None, b' \<mapsto> bs)" and ct: "counts h' = counts h"
  shows "heap_ok h' (cow_of (length bs) b' r # cs)" and "same_views h h' cs"
proof -
  note own = sole_owner [OF ok r b sole]
  have nb': "c_buffer d \<noteq> Some b'" if "d \<in> set cs" for d
    using own(2) [OF that] block_bound [OF ok, of d] that b' by force
  show "heap_ok h' (cow_of (length bs) b' r # cs)"
  proof (rule heap_okI)
    show "cow_wf h' d" if "d \<in> set (cow_of (length bs) b' r # cs)" for d
      using that ne bl nb' own heap_ok_wf_mono [OF ok, of d h']
      by (cases "d \<in> set cs") (fastforce, simp add: cow_wf_def)
    show "counts h' x = (if refs (cow_of (length bs) b' r # cs) x = 0 then None
        else Some (refs (cow_of (length bs) b' r # cs) x))" for x
      using heap_ok_counts [OF ok, of x] ct r by simp
    show "blocks h' x \<noteq> None \<longleftrightarrow> (\<exists>d\<in>set (cow_of (length bs) b' r # cs). c_buffer d = Some x)" for x
      using heap_ok_blocks [OF ok, of x] bl own b by auto
    show "blocks h' a = None \<and> counts h' a = None" if "next_addr h' \<le> a" for a
      using heap_ok_next [OF ok, of a] that b' bl ct nx by auto
    show "x = y" if "x \<in> set (cow_of (length bs) b' r # cs)" "y \<in> set (cow_of (length bs) b' r # cs)"
      "c_refcount x = Some q" "c_refcount y = Some q" for x y q
      using that own heap_ok_ref_inj [OF ok, of x y q] by auto
    show "x = y" if "x \<in> set (cow_of (length bs) b' r # cs)" "y \<in> set (cow_of (length bs) b' r # cs)"
      "c_buffer x = Some q" "c_buffer y = Some q" for x y q
      using that nb' heap_ok_buf_inj [OF ok, of x y q] by auto
  qed
  show "same_views h h' cs"
    by (rule same_viewsI) (use own nb' bl in auto)
qed

end
