(* ===== verification/Cow_Buffer.thy ===== *)
theory Cow_Buffer
  imports Cow_Heap
begin

text \<open>
  \<^verbatim>\<open>alloc_buffer\<close> and \<^verbatim>\<open>mmap_buffer\<close> (\<^verbatim>\<open>shared/src/alloc_buffer.cpp\<close>,
  \<^verbatim>\<open>shared/src/mmap_buffer.cpp\<close>): reference-counted copy-on-write byte buffers on the
  explicit heap. The element width \<open>w\<close> is \<^verbatim>\<open>sizeof(POD_T)\<close>, \<open>ps\<close> the page size that
  \<^verbatim>\<open>sysconf\<close> reports. The locale \<open>cow_buffer\<close> is the contract both classes offer; the
  isolation of copies is proved once inside it and both classes interpret it.
\<close>

section \<open>alloc\_buffer\<close>

definition ab_new :: cow where
  "ab_new = \<lparr>c_allocated = 0, c_buffer = None, c_refcount = None\<rparr>"

definition ab_new_n :: "nat \<Rightarrow> nat \<Rightarrow> heap \<Rightarrow> (heap \<times> cow) res" where
  "ab_new_n w n h =
     (if n \<noteq> 0 then
        (let (h1, r) = new_count h 1 in
         bindR (c_malloc h1 (n * w)) (\<lambda>(h2, b).
         bindR (mem_write h2 b 0 (zeros (n * w))) (\<lambda>h3.
         Inr (h3, \<lparr>c_allocated = n * w, c_buffer = Some b, c_refcount = Some r\<rparr>))))
      else Inr (h, \<lparr>c_allocated = n * w, c_buffer = None, c_refcount = None\<rparr>))"

definition ab_copy :: "heap \<Rightarrow> cow \<Rightarrow> (heap \<times> cow) res" where
  "ab_copy h c =
     (case c_refcount c of None \<Rightarrow> Inr (h, c)
      | Some r \<Rightarrow> bindR (get_count h r) (\<lambda>k. Inr (set_count h r (k + 1), c)))"

text \<open>The move constructor returns the new object and what is left of the source.\<close>

definition ab_move :: "cow \<Rightarrow> cow \<times> cow" where
  "ab_move moved = (moved, \<lparr>c_allocated = 0, c_buffer = None, c_refcount = None\<rparr>)"

definition ab_destroy :: "heap \<Rightarrow> cow \<Rightarrow> heap res" where
  "ab_destroy h c =
     (case c_refcount c of None \<Rightarrow> Inr h
      | Some r \<Rightarrow> bindR (get_count h r) (\<lambda>k.
          if k - 1 = 0
          then (case c_buffer c of None \<Rightarrow> Inr (del_count h r)
                | Some b \<Rightarrow> c_free (del_count h r) b)
          else Inr (set_count h r (k - 1))))"

text \<open>
  \<^verbatim>\<open>operator=\<close> takes its argument by value, swaps, and the argument, now the old content,
  is destroyed on return.
\<close>

definition ab_assign :: "heap \<Rightarrow> cow \<Rightarrow> cow \<Rightarrow> (heap \<times> cow) res" where
  "ab_assign h this other = bindR (ab_destroy h this) (\<lambda>h'. Inr (h', other))"

definition ab_ptr :: "heap \<Rightarrow> cow \<Rightarrow> (heap \<times> cow) res" where
  "ab_ptr h c =
     (case (c_buffer c, c_refcount c) of
        (Some b, Some r) \<Rightarrow> bindR (get_count h r) (\<lambda>k.
          if k > 1 then
            bindR (c_malloc h (c_allocated c)) (\<lambda>(h1, newbuf).
            bindR (mem_read h1 b 0 (c_allocated c)) (\<lambda>bs.
            bindR (mem_write h1 newbuf 0 bs) (\<lambda>h2.
            let h3 = set_count h2 r (k - 1); (h4, r') = new_count h3 1 in
            Inr (h4, c\<lparr>c_buffer := Some newbuf, c_refcount := Some r'\<rparr>))))
          else Inr (h, c))
      | (None, _) \<Rightarrow> Inl Invalid_Buffer
      | _ \<Rightarrow> Inl Dangling)"

text \<open>\<^verbatim>\<open>memcpy(x.ptr() + off, bs, n)\<close>, with \<^verbatim>\<open>ptr\<close> of either class.\<close>

definition write_via :: "(heap \<Rightarrow> cow \<Rightarrow> (heap \<times> cow) res) \<Rightarrow> heap \<Rightarrow> cow \<Rightarrow> nat \<Rightarrow> byte list
    \<Rightarrow> (heap \<times> cow) res" where
  "write_via ptr h c off bs =
     bindR (ptr h c) (\<lambda>(h1, c1).
       case c_buffer c1 of None \<Rightarrow> Inl Dangling
       | Some b \<Rightarrow> bindR (mem_write h1 b off bs) (\<lambda>h2. Inr (h2, c1)))"

text \<open>
  The C library's \<^verbatim>\<open>realloc\<close>: the block moves, its content is kept up to the smaller
  size, and the bytes beyond are not initialised; for size 0 the block is freed and a
  null pointer is returned.
\<close>

definition c_realloc :: "heap \<Rightarrow> addr option \<Rightarrow> nat \<Rightarrow> (heap \<times> addr) res" where
  "c_realloc h p sz =
     (case p of None \<Rightarrow> c_malloc h sz
      | Some b \<Rightarrow> (case blocks h b of None \<Rightarrow> Inl Dangling
          | Some bs \<Rightarrow>
              if sz = 0 \<or> \<not> can_alloc h sz then Inl Alloc_Fail
              else Inr (h\<lparr>blocks := (blocks h)(b := None,
                             next_addr h \<mapsto> take sz bs @ replicate (sz - length bs) (junk h)),
                           next_addr := Suc (next_addr h)\<rparr>, next_addr h)))"

text \<open>
  \<^verbatim>\<open>newbuf + allocated_\<close> and \<^verbatim>\<open>tmp.ptr() + n\<close> are pointer arithmetic on elements: the
  byte offset is \<open>w\<close> times the byte count \<^verbatim>\<open>allocated_\<close>.
\<close>

definition ab_realloc :: "nat \<Rightarrow> nat \<Rightarrow> heap \<Rightarrow> cow \<Rightarrow> (heap \<times> cow) res" where
  "ab_realloc w new_elt_cnt h c =
     (let sz = new_elt_cnt * w in
      if sz = c_allocated c then Inr (h, c)
      else
        (let (h1, r) = (case c_refcount c of None \<Rightarrow> new_count h 1 | Some r \<Rightarrow> (h, r)) in
         bindR (get_count h1 r) (\<lambda>k.
         bindR (if k = 1 then
             bindR (c_realloc h1 (c_buffer c) sz) (\<lambda>(h2, newbuf).
             bindR (if sz > c_allocated c
                    then mem_write h2 newbuf (w * c_allocated c) (zeros (sz - c_allocated c))
                    else Inr h2) (\<lambda>h3.
             Inr (h3, \<lparr>c_allocated = sz, c_buffer = Some newbuf, c_refcount = Some r\<rparr>)))
           else
             bindR (ab_new_n w new_elt_cnt h1) (\<lambda>(h2, tmp).
             let n = min (c_allocated tmp) (c_allocated c) in
             bindR (if n < c_allocated tmp
                    then write_via ab_ptr h2 tmp (w * n) (zeros (c_allocated tmp - n))
                    else Inr (h2, tmp)) (\<lambda>(h3, tmp1).
             bindR (case c_buffer c of None \<Rightarrow> Inl Dangling | Some b \<Rightarrow> mem_read h3 b 0 n) (\<lambda>bs.
             bindR (write_via ab_ptr h3 tmp1 0 bs) (\<lambda>(h4, tmp2).
             bindR (ab_copy h4 tmp2) (\<lambda>(h5, other).
             bindR (ab_assign h5 c other) (\<lambda>(h6, this).
             bindR (ab_destroy h6 tmp2) (\<lambda>h7. Inr (h7, this)))))))))
         (\<lambda>(h', c'). bindR (assertR (c_allocated c' = sz)) (\<lambda>_. Inr (h', c'))))))"

definition ab_valid :: "cow \<Rightarrow> bool" where
  "ab_valid c = (c_buffer c \<noteq> None)"

definition ab_const_ptr :: "heap \<Rightarrow> cow \<Rightarrow> byte list res" where
  "ab_const_ptr h c =
     (if ab_valid c then
        (case c_buffer c of None \<Rightarrow> Inl Invalid_Buffer | Some b \<Rightarrow> mem_read h b 0 (c_allocated c))
      else Inl Invalid_Buffer)"

definition ab_use_count :: "heap \<Rightarrow> cow \<Rightarrow> nat res" where
  "ab_use_count h c = (case c_refcount c of None \<Rightarrow> Inr 0 | Some r \<Rightarrow> get_count h r)"

section \<open>mmap\_buffer\<close>

definition round_to_page :: "nat \<Rightarrow> nat \<Rightarrow> nat" where
  "round_to_page ps sz =
     (let lower = sz div ps;
          sz' = (if lower * ps < sz then (lower + 1) * ps else sz)
      in if sz' \<noteq> 0 then sz' else ps)"

definition mb_new :: cow where
  "mb_new = \<lparr>c_allocated = 0, c_buffer = None, c_refcount = None\<rparr>"

definition mb_new_n :: "nat \<Rightarrow> nat \<Rightarrow> nat \<Rightarrow> heap \<Rightarrow> (heap \<times> cow) res" where
  "mb_new_n ps w n h =
     (if n > 0 then
        (let sz = round_to_page ps (n * w); (h1, r) = new_count h 1 in
         bindR (c_mmap h1 sz) (\<lambda>(h2, b).
         Inr (h2, \<lparr>c_allocated = sz, c_buffer = Some b, c_refcount = Some r\<rparr>)))
      else Inr (h, mb_new))"

text \<open>
  Copying, moving, destroying and assigning are the same code in both classes, with
  \<^verbatim>\<open>munmap\<close> in place of \<^verbatim>\<open>free\<close>.
\<close>

definition mb_copy :: "heap \<Rightarrow> cow \<Rightarrow> (heap \<times> cow) res" where
  "mb_copy = ab_copy"

definition mb_move :: "cow \<Rightarrow> cow \<times> cow" where
  "mb_move = ab_move"

definition mb_destroy :: "heap \<Rightarrow> cow \<Rightarrow> heap res" where
  "mb_destroy = ab_destroy"

definition mb_assign :: "heap \<Rightarrow> cow \<Rightarrow> cow \<Rightarrow> (heap \<times> cow) res" where
  "mb_assign h this other = bindR (mb_destroy h this) (\<lambda>h'. Inr (h', other))"

text \<open>\<^verbatim>\<open>mremap\<close> keeps the pages and adds zero pages.\<close>

definition c_mremap :: "heap \<Rightarrow> addr option \<Rightarrow> nat \<Rightarrow> (heap \<times> addr) res" where
  "c_mremap h p sz =
     (case p of None \<Rightarrow> Inl Dangling
      | Some b \<Rightarrow> (case blocks h b of None \<Rightarrow> Inl Dangling
          | Some bs \<Rightarrow>
              if sz = 0 \<or> \<not> can_alloc h sz then Inl Alloc_Fail
              else Inr (h\<lparr>blocks := (blocks h)(b := None,
                             next_addr h \<mapsto> take sz bs @ zeros (sz - length bs)),
                           next_addr := Suc (next_addr h)\<rparr>, next_addr h)))"

definition mb_ptr :: "heap \<Rightarrow> cow \<Rightarrow> (heap \<times> cow) res" where
  "mb_ptr h c =
     (case (c_buffer c, c_refcount c) of
        (Some b, Some r) \<Rightarrow> bindR (get_count h r) (\<lambda>k.
          if k > 1 then
            bindR (c_mmap h (c_allocated c)) (\<lambda>(h1, newbuf).
            bindR (mem_read h1 b 0 (c_allocated c)) (\<lambda>bs.
            bindR (mem_write h1 newbuf 0 bs) (\<lambda>h2.
            let h3 = set_count h2 r (k - 1); (h4, r') = new_count h3 1 in
            Inr (h4, c\<lparr>c_buffer := Some newbuf, c_refcount := Some r'\<rparr>))))
          else Inr (h, c))
      | (None, _) \<Rightarrow> Inl Invalid_Buffer
      | _ \<Rightarrow> Inl Dangling)"

definition mb_realloc :: "nat \<Rightarrow> nat \<Rightarrow> nat \<Rightarrow> heap \<Rightarrow> cow \<Rightarrow> (heap \<times> cow) res" where
  "mb_realloc ps w new_elt_cnt h c =
     (let sz = round_to_page ps (new_elt_cnt * w) in
      bindR (assertR (sz \<ge> new_elt_cnt * w)) (\<lambda>_.
      if sz = c_allocated c then Inr (h, c)
      else
        bindR (case c_refcount c of
          None \<Rightarrow>
            bindR (c_mmap h sz) (\<lambda>(h1, b).
            let (h2, r) = new_count h1 1 in
            Inr (h2, \<lparr>c_allocated = sz, c_buffer = Some b, c_refcount = Some r\<rparr>))
        | Some r \<Rightarrow> bindR (get_count h r) (\<lambda>k.
            if k = 1 then
              bindR (c_mremap h (c_buffer c) sz) (\<lambda>(h1, newbuf).
              Inr (h1, \<lparr>c_allocated = sz, c_buffer = Some newbuf, c_refcount = Some r\<rparr>))
            else
              bindR (mb_new_n ps w new_elt_cnt h) (\<lambda>(h1, tmp).
              let n = min (c_allocated tmp) (c_allocated c) in
              bindR (case c_buffer c of None \<Rightarrow> Inl Dangling | Some b \<Rightarrow> mem_read h1 b 0 n) (\<lambda>bs.
              bindR (write_via mb_ptr h1 tmp 0 bs) (\<lambda>(h2, tmp1).
              bindR (mb_copy h2 tmp1) (\<lambda>(h3, other).
              bindR (mb_assign h3 c other) (\<lambda>(h4, this).
              bindR (mb_destroy h4 tmp1) (\<lambda>h5. Inr (h5, this)))))))))
        (\<lambda>(h', c'). bindR (assertR (c_allocated c' = sz)) (\<lambda>_. Inr (h', c')))))"

section \<open>Correctness of the operations\<close>

lemma mem_write_sole:
  assumes ok: "heap_ok h (c # cs)" and r: "c_refcount c = Some r" and b: "c_buffer c = Some b"
    and sole: "refs cs r = 0" and wr: "mem_write h b off bs = Inr h'"
  shows "heap_ok h' (c # cs)" and "wr (view h c) off bs = Inr (view h' c)" and "same_views h h' cs"
    and "can_alloc h' = can_alloc h"
proof -
  from heap_ok_live [OF ok b] have blk: "blocks h b = Some (view h c)"
    and len: "length (view h c) = c_allocated c" and ne: "view h c \<noteq> []" by blast+
  from wr blk obtain v where v: "wr (view h c) off bs = Inr v"
    and h': "h' = h\<lparr>blocks := (blocks h)(b \<mapsto> v)\<rparr>"
    by (auto simp: mem_write_def res_simps)
  have lv: "length v = c_allocated c" using length_wr [OF v] len by simp
  then have c: "c = cow_of (length v) b r" using r b by simp
  have "v \<noteq> []" using lv len ne by auto
  have "b < next_addr h" using block_bound [OF ok _ b] by simp
  note rep = heap_ok_replace [OF ok r b sole \<open>v \<noteq> []\<close>, of b h']
  have "heap_ok h' (cow_of (length v) b r # cs)" and sv: "same_views h h' cs"
    using rep \<open>b < next_addr h\<close> h' by simp_all
  with c show "heap_ok h' (c # cs)" and "same_views h h' cs" by simp_all
  show "wr (view h c) off bs = Inr (view h' c)"
    using v h' b by (simp add: view_def)
  show "can_alloc h' = can_alloc h" by (simp add: h')
qed

text \<open>Both \<^verbatim>\<open>ptr\<close> functions give a shared object a private copy of its bytes.\<close>

definition unshared :: "heap \<Rightarrow> cow \<Rightarrow> cow list \<Rightarrow> addr \<Rightarrow> heap" where
  "unshared h c cs r =
     h\<lparr>blocks := (blocks h)(next_addr h \<mapsto> view h c),
       counts := (counts h)(r \<mapsto> refs cs r, Suc (next_addr h) \<mapsto> 1),
       next_addr := Suc (Suc (next_addr h))\<rparr>"

lemma unshared_ok:
  assumes ok: "heap_ok h (c # cs)" and b: "c_buffer c = Some b" and r: "c_refcount c = Some r"
    and sh: "refs cs r \<noteq> 0"
  defines "c' \<equiv> cow_of (c_allocated c) (next_addr h) (Suc (next_addr h))"
  shows "heap_ok (unshared h c cs r) (c' # cs)" and "same_views h (unshared h c cs r) cs"
    and "view (unshared h c cs r) c' = view h c" and "refs cs (Suc (next_addr h)) = 0"
proof -
  from heap_ok_live [OF ok b] have len: "length (view h c) = c_allocated c"
    and ne: "view h c \<noteq> []" by blast+
  let ?h1 = "h\<lparr>blocks := (blocks h)(next_addr h \<mapsto> view h c),
      counts := (counts h)(Suc (next_addr h) \<mapsto> 1), next_addr := Suc (Suc (next_addr h))\<rparr>"
  have rb: "r < next_addr h" using refs_bound [OF ok, of r] r by simp
  have "heap_ok ?h1 (cow_of (length (view h c)) (next_addr h) (Suc (next_addr h)) # c # cs)"
    and v1: "same_views h ?h1 (c # cs)"
    using heap_ok_fresh [OF ok ne, of ?h1 "next_addr h" "Suc (next_addr h)"] by simp_all
  then have ok1: "heap_ok ?h1 (c # c' # cs)"
    using heap_ok_swap len unfolding c'_def by simp
  have rs: "refs (c' # cs) r = refs cs r" using rb by (simp add: c'_def)
  have "counts (unshared h c cs r) = (counts ?h1)(r \<mapsto> refs (c' # cs) r)"
    using rs rb unfolding unshared_def by (auto simp: fun_upd_twist)
  then have "heap_ok (unshared h c cs r) (c' # cs)"
    and v2: "same_views ?h1 (unshared h c cs r) (c' # cs)"
    using heap_ok_drop_ref [OF ok1 r, of "unshared h c cs r"] sh rs by (simp_all add: unshared_def)
  then show "heap_ok (unshared h c cs r) (c' # cs)" by simp
  show "same_views h (unshared h c cs r) cs"
    using v1 v2 by (auto intro: same_views_trans)
  show "view (unshared h c cs r) c' = view h c"
    by (simp add: unshared_def view_def c'_def)
  show "refs cs (Suc (next_addr h)) = 0"
    using refs_fresh [OF ok, of "Suc (next_addr h)"] by simp
qed

lemma get_count_ok: "heap_ok h (c # cs) \<Longrightarrow> c_refcount c = Some r \<Longrightarrow> get_count h r = Inr (Suc (refs cs r))"
  using heap_ok_counts [of h "c # cs" r] by (simp add: get_count_def)

lemma ptr_eq:
  assumes ok: "heap_ok h (c # cs)" and b: "c_buffer c = Some b" and r: "c_refcount c = Some r"
    and p: "p = ab_ptr \<or> p = mb_ptr"
  shows "p h c =
     (if refs cs r = 0 then Inr (h, c)
      else if can_alloc h (c_allocated c)
      then Inr (unshared h c cs r, cow_of (c_allocated c) (next_addr h) (Suc (next_addr h)))
      else Inl Alloc_Fail)"
proof -
  from heap_ok_live [OF ok b] have blk: "blocks h b = Some (view h c)"
    and len: "length (view h c) = c_allocated c" by blast+
  have "b < next_addr h" using block_bound [OF ok _ b] by simp
  with blk len b r get_count_ok [OF ok r] p show ?thesis
    by (auto simp: ab_ptr_def mb_ptr_def c_malloc_def c_mmap_def mem_read_def mem_write_def
        rd_def wr_def set_count_def new_count_def unshared_def Let_def fun_upd_twist)
qed

lemma ab_copy_ok:
  assumes ok: "heap_ok h (c # cs)"
  shows "\<exists>h'. ab_copy h c = Inr (h', c) \<and> heap_ok h' (c # c # cs) \<and> same_views h h' (c # cs)
    \<and> can_alloc h' = can_alloc h"
proof (cases "c_refcount c")
  case None
  then have "c = null_cow"
    using heap_ok_wf [OF ok, of c] by (auto simp: cow_wf_def null_cow_def split: option.splits)
  with ok show ?thesis by (simp add: ab_copy_def)
next
  case (Some r)
  let ?h = "set_count h r (Suc (refs cs r) + 1)"
  have "ab_copy h c = Inr (?h, c)"
    using Some get_count_ok [OF ok Some] by (simp add: ab_copy_def)
  moreover have "heap_ok ?h (c # c # cs)" "same_views h ?h (c # cs)"
    using heap_ok_add_ref [OF ok Some, of ?h] by (simp_all add: set_count_def)
  moreover have "can_alloc ?h = can_alloc h" by (simp add: set_count_def)
  ultimately show ?thesis by blast
qed

lemma ab_destroy_ok:
  assumes ok: "heap_ok h (c # cs)"
  shows "\<exists>h'. ab_destroy h c = Inr h' \<and> heap_ok h' cs \<and> same_views h h' cs
    \<and> can_alloc h' = can_alloc h"
proof (cases "c_refcount c")
  case None
  then have "c = null_cow"
    using heap_ok_wf [OF ok, of c] by (auto simp: cow_wf_def null_cow_def split: option.splits)
  with ok show ?thesis by (simp add: ab_destroy_def)
next
  case (Some r)
  obtain b where b: "c_buffer c = Some b" using heap_ok_refcount_live [OF ok Some] by blast
  from heap_ok_live [OF ok b] have blk: "blocks h b = Some (view h c)" by blast
  show ?thesis
  proof (cases "refs cs r = 0")
    case True
    let ?h = "h\<lparr>blocks := (blocks h)(b := None), counts := (counts h)(r := None)\<rparr>"
    have "ab_destroy h c = Inr ?h"
      using Some b blk True get_count_ok [OF ok Some]
      by (simp add: ab_destroy_def c_free_def del_count_def)
    moreover have "heap_ok ?h cs" "same_views h ?h cs"
      using heap_ok_drop_last [OF ok Some b True, of ?h] by simp_all
    moreover have "can_alloc ?h = can_alloc h" by simp
    ultimately show ?thesis by blast
  next
    case False
    let ?h = "set_count h r (refs cs r)"
    have "ab_destroy h c = Inr ?h"
      using Some False get_count_ok [OF ok Some] by (simp add: ab_destroy_def)
    moreover have "heap_ok ?h cs" "same_views h ?h cs"
      using heap_ok_drop_ref [OF ok Some False, of ?h] by (simp_all add: set_count_def)
    moreover have "can_alloc ?h = can_alloc h" by (simp add: set_count_def)
    ultimately show ?thesis by blast
  qed
qed

text \<open>\<^verbatim>\<open>*this = tmp\<close> at the end of both copy-on-write reallocations.\<close>

lemma adopt_ok:
  assumes ok: "heap_ok h (tmp # c # cs)"
  shows "\<exists>h'. bindR (ab_copy h tmp) (\<lambda>(h5, other). bindR (ab_assign h5 c other) (\<lambda>(h6, this).
           bindR (ab_destroy h6 tmp) (\<lambda>h7. Inr (h7, this)))) = Inr (h', tmp) \<and>
     heap_ok h' (tmp # cs) \<and> same_views h h' (tmp # cs) \<and> can_alloc h' = can_alloc h"
proof -
  obtain h5 where 5: "ab_copy h tmp = Inr (h5, tmp)" "heap_ok h5 (tmp # tmp # c # cs)"
    "same_views h h5 (tmp # c # cs)" "can_alloc h5 = can_alloc h"
    using ab_copy_ok [OF ok] by blast
  have "heap_ok h5 (c # tmp # tmp # cs)"
    using 5(2) heap_ok_perm [of "tmp # tmp # c # cs" "c # tmp # tmp # cs" h5] by simp
  then obtain h6 where 6: "ab_destroy h5 c = Inr h6" "heap_ok h6 (tmp # tmp # cs)"
    "same_views h5 h6 (tmp # tmp # cs)" "can_alloc h6 = can_alloc h5"
    using ab_destroy_ok by blast
  then obtain h7 where 7: "ab_destroy h6 tmp = Inr h7" "heap_ok h7 (tmp # cs)"
    "same_views h6 h7 (tmp # cs)" "can_alloc h7 = can_alloc h6"
    using ab_destroy_ok by blast
  have "same_views h h7 (tmp # cs)"
    using 5(3) 6(3) 7(3) by (auto simp: same_views_def)
  with 5 6 7 show ?thesis by (auto simp: ab_assign_def)
qed

lemma fresh_object_ok:
  assumes ok: "heap_ok h cs" and n: "0 < n"
    and h': "h' = h\<lparr>blocks := (blocks h)(b \<mapsto> zeros n), counts := (counts h)(r \<mapsto> 1), next_addr := m\<rparr>"
    and "next_addr h \<le> b" "b < m" "next_addr h \<le> r" "r < m"
  shows "heap_ok h' (cow_of n b r # cs)" and "same_views h h' cs"
    and "view h' (cow_of n b r) = zeros n" and "refs cs r = 0"
  using heap_ok_fresh [OF ok, of "zeros n" h' b r] refs_fresh [OF ok, of r] assms
  by (simp_all add: view_def)

lemma ab_new_n_ok:
  assumes ok: "heap_ok h cs" and w: "0 < w" and new: "ab_new_n w n h = Inr (h', c)"
  shows "heap_ok h' (c # cs)" and "same_views h h' cs" and "view h' c = zeros (n * w)"
    and "c_allocated c = n * w"
    and "n \<noteq> 0 \<Longrightarrow> c = cow_of (n * w) (Suc (next_addr h)) (next_addr h)"
    and "can_alloc h' = can_alloc h"
proof -
  consider (null) "n = 0" "h' = h" "c = null_cow"
    | (live) "n \<noteq> 0" "h' = h\<lparr>blocks := (blocks h)(Suc (next_addr h) \<mapsto> zeros (n * w)),
        counts := (counts h)(next_addr h \<mapsto> 1), next_addr := Suc (Suc (next_addr h))\<rparr>"
      "c = cow_of (n * w) (Suc (next_addr h)) (next_addr h)"
    using new by (cases "n = 0")
      (auto simp: ab_new_n_def null_cow_def new_count_def c_malloc_def mem_write_def wr_def Let_def
        split: if_splits)
  note cs = this
  from cs show "heap_ok h' (c # cs)"
    by cases (use ok w fresh_object_ok(1) [OF ok, where n = "n * w" and h' = h' and b = "Suc (next_addr h)" and r = "next_addr h"] in auto)
  from cs show "same_views h h' cs"
    by cases (use w fresh_object_ok(2) [OF ok, where n = "n * w" and h' = h' and b = "Suc (next_addr h)" and r = "next_addr h"] in auto)
  from cs show "view h' c = zeros (n * w)"
    by cases (auto simp: view_def)
  from cs show "c_allocated c = n * w" by cases auto
  from cs show "n \<noteq> 0 \<Longrightarrow> c = cow_of (n * w) (Suc (next_addr h)) (next_addr h)" by cases auto
  from cs show "can_alloc h' = can_alloc h" by cases auto
qed

lemma round_to_page_bounds:
  assumes "0 < ps"
  shows "n \<le> round_to_page ps n" and "0 < round_to_page ps n" and "ps dvd round_to_page ps n"
    and "round_to_page ps n < n + ps \<or> n = 0"
proof -
  obtain q m where n: "n = q * ps + m" and q: "n div ps = q" and m: "m < ps"
    using assms by (metis div_mult_mod_eq mod_less_divisor)
  show "n \<le> round_to_page ps n" using n q m by (auto simp: round_to_page_def Let_def)
  show "0 < round_to_page ps n" using assms by (auto simp: round_to_page_def Let_def)
  show "ps dvd round_to_page ps n" using n q m by (auto simp: round_to_page_def Let_def)
  show "round_to_page ps n < n + ps \<or> n = 0" using n q m by (auto simp: round_to_page_def Let_def)
qed

lemma mb_new_n_ok:
  assumes ok: "heap_ok h cs" and ps: "0 < ps" and new: "mb_new_n ps w n h = Inr (h', c)"
  shows "heap_ok h' (c # cs)" and "same_views h h' cs"
    and "view h' c = (if n = 0 then [] else zeros (round_to_page ps (n * w)))"
    and "n \<noteq> 0 \<Longrightarrow> c = cow_of (round_to_page ps (n * w)) (Suc (next_addr h)) (next_addr h)"
    and "can_alloc h' = can_alloc h"
proof -
  let ?n = "round_to_page ps (n * w)"
  have pos: "0 < ?n" using round_to_page_bounds(2) [OF ps] .
  consider (null) "n = 0" "h' = h" "c = null_cow"
    | (live) "n \<noteq> 0" "h' = h\<lparr>blocks := (blocks h)(Suc (next_addr h) \<mapsto> zeros ?n),
        counts := (counts h)(next_addr h \<mapsto> 1), next_addr := Suc (Suc (next_addr h))\<rparr>"
      "c = cow_of ?n (Suc (next_addr h)) (next_addr h)"
    using new by (cases "n = 0")
      (auto simp: mb_new_n_def mb_new_def null_cow_def new_count_def c_mmap_def Let_def split: if_splits)
  note cs = this
  from cs show "heap_ok h' (c # cs)"
    by cases (use ok pos fresh_object_ok(1) [OF ok, where n = ?n and h' = h' and b = "Suc (next_addr h)" and r = "next_addr h"] in auto)
  from cs show "same_views h h' cs"
    by cases (use pos fresh_object_ok(2) [OF ok, where n = ?n and h' = h' and b = "Suc (next_addr h)" and r = "next_addr h"] in auto)
  from cs show "view h' c = (if n = 0 then [] else zeros ?n)"
    by cases (auto simp: view_def)
  from cs show "n \<noteq> 0 \<Longrightarrow> c = cow_of ?n (Suc (next_addr h)) (next_addr h)" by cases auto
  from cs show "can_alloc h' = can_alloc h" by cases auto
qed

lemma write_via_ok:
  assumes ok: "heap_ok h (c # cs)" and p: "p = ab_ptr \<or> p = mb_ptr"
    and wv: "write_via p h c off bs = Inr (h', c')"
  shows "heap_ok h' (c' # cs)" and "same_views h h' cs"
    and "wr (view h c) off bs = Inr (view h' c')" and "can_alloc h' = can_alloc h"
    and "\<exists>r. c_refcount c' = Some r \<and> refs cs r = 0" and "c_allocated c' = c_allocated c"
proof -
  have "c_buffer c \<noteq> None"
    using wv p by (auto simp: write_via_def ab_ptr_def mb_ptr_def split: option.splits)
  then obtain b where b: "c_buffer c = Some b" by auto
  obtain r where r: "c_refcount c = Some r" using heap_ok_live [OF ok b] by blast
  obtain h1 c1 b1 where ptr: "p h c = Inr (h1, c1)" and b1: "c_buffer c1 = Some b1"
    and mw: "mem_write h1 b1 off bs = Inr h'" and c': "c' = c1"
    using wv by (auto simp: write_via_def res_simps split: option.splits)
  have sole: "\<exists>r1. c_refcount c1 = Some r1 \<and> refs cs r1 = 0 \<and> heap_ok h1 (c1 # cs) \<and>
      same_views h h1 cs \<and> view h1 c1 = view h c \<and> can_alloc h1 = can_alloc h \<and>
      c_allocated c1 = c_allocated c"
  proof (cases "refs cs r = 0")
    case True
    with ptr ptr_eq [OF ok b r p] ok r show ?thesis by simp
  next
    case False
    with ptr ptr_eq [OF ok b r p] have e: "h1 = unshared h c cs r"
      "c1 = cow_of (c_allocated c) (next_addr h) (Suc (next_addr h))"
      by (simp_all split: if_splits)
    have "can_alloc (unshared h c cs r) = can_alloc h" by (simp add: unshared_def)
    with unshared_ok [OF ok b r False] e show ?thesis by simp
  qed
  then obtain r1 where r1: "c_refcount c1 = Some r1" "refs cs r1 = 0" "heap_ok h1 (c1 # cs)"
      "same_views h h1 cs" "view h1 c1 = view h c" "can_alloc h1 = can_alloc h"
      "c_allocated c1 = c_allocated c"
    by blast
  note w = mem_write_sole [OF r1(3,1) b1 r1(2) mw]
  from w r1 c' show "heap_ok h' (c' # cs)" "wr (view h c) off bs = Inr (view h' c')"
      "can_alloc h' = can_alloc h" "\<exists>r. c_refcount c' = Some r \<and> refs cs r = 0"
      "c_allocated c' = c_allocated c"
    by simp_all
  show "same_views h h' cs" using w(3) r1(4) by (rule same_views_trans [rotated])
qed

lemma write_via_total:
  assumes ok: "heap_ok h (c # cs)" and p: "p = ab_ptr \<or> p = mb_ptr"
    and mem: "\<And>n. can_alloc h n" and fits: "off + length bs \<le> c_allocated c" and live: "0 < c_allocated c"
  shows "\<exists>h' c'. write_via p h c off bs = Inr (h', c')"
proof -
  have wf: "cow_wf h c" using heap_ok_wf [OF ok] by simp
  with live obtain b where b: "c_buffer c = Some b" by (auto simp: cow_wf_def split: option.splits)
  obtain r where r: "c_refcount c = Some r" and blk: "blocks h b = Some (view h c)"
    and len: "length (view h c) = c_allocated c"
    using heap_ok_live [OF ok b] by blast
  show ?thesis
    unfolding write_via_def ptr_eq [OF ok b r p]
    using mem fits blk len b by (simp add: mem_write_def wr_def unshared_def)
qed

definition resized :: "nat \<Rightarrow> byte list \<Rightarrow> byte list" where
  "resized n bs = take n bs @ zeros (n - length bs)"

lemma length_resized [simp]: "length (resized n bs) = n"
  by (simp add: resized_def)

lemma resized_id [simp]: "length bs = n \<Longrightarrow> resized n bs = bs"
  by (simp add: resized_def)

lemma take_resized: "m \<le> n \<Longrightarrow> m \<le> length bs \<Longrightarrow> take m (resized n bs) = take m bs"
  by (simp add: resized_def min_def)

text \<open>The three ways of \<^verbatim>\<open>alloc_buffer::realloc\<close>, for byte elements.\<close>

lemma ab_realloc_null:
  assumes "n \<noteq> 0"
  shows "ab_realloc 1 n h null_cow =
    (if can_alloc h n
     then Inr (h\<lparr>blocks := (blocks h)(Suc (next_addr h) \<mapsto> zeros n),
                 counts := (counts h)(next_addr h \<mapsto> 1), next_addr := Suc (Suc (next_addr h))\<rparr>,
               cow_of n (Suc (next_addr h)) (next_addr h))
     else Inl Alloc_Fail)"
  using assms
  by (simp add: ab_realloc_def new_count_def get_count_def c_realloc_def c_malloc_def
      mem_write_def wr_def Let_def)

lemma ab_realloc_sole:
  assumes ok: "heap_ok h (c # cs)" and b: "c_buffer c = Some b" and r: "c_refcount c = Some r"
    and sole: "refs cs r = 0" and n: "n \<noteq> c_allocated c"
  shows "ab_realloc 1 n h c =
    (if n \<noteq> 0 \<and> can_alloc h n
     then Inr (h\<lparr>blocks := (blocks h)(b := None, next_addr h \<mapsto> resized n (view h c)),
                 next_addr := Suc (next_addr h)\<rparr>, cow_of n (next_addr h) r)
     else Inl Alloc_Fail)"
proof -
  from heap_ok_live [OF ok b] have blk: "blocks h b = Some (view h c)"
    and len: "length (view h c) = c_allocated c" by blast+
  show ?thesis
    using n b r sole blk len get_count_ok [OF ok r]
    by (cases "c_allocated c < n")
       (simp_all add: ab_realloc_def c_realloc_def mem_write_def wr_def resized_def Let_def)
qed

lemma ab_realloc_shared_ok:
  assumes ok: "heap_ok h (c # cs)" and b: "c_buffer c = Some b" and r: "c_refcount c = Some r"
    and sh: "refs cs r \<noteq> 0" and n: "n \<noteq> c_allocated c" and re: "ab_realloc 1 n h c = Inr (h', c')"
  shows "heap_ok h' (c' # cs) \<and> same_views h h' cs \<and> view h' c' = resized n (view h c)
    \<and> can_alloc h' = can_alloc h"
proof -
  from heap_ok_live [OF ok b] have len: "length (view h c) = c_allocated c" by blast
  obtain h2 tmp h3 tmp1 bs h4 tmp2 where
    new: "ab_new_n 1 n h = Inr (h2, tmp)"
    and ms: "(if min (c_allocated tmp) (c_allocated c) < c_allocated tmp
         then write_via ab_ptr h2 tmp (Suc 0 * min (c_allocated tmp) (c_allocated c))
                (zeros (c_allocated tmp - min (c_allocated tmp) (c_allocated c)))
         else Inr (h2, tmp)) = Inr (h3, tmp1)"
    and rdv: "mem_read h3 b 0 (min (c_allocated tmp) (c_allocated c)) = Inr bs"
    and mc: "write_via ab_ptr h3 tmp1 0 bs = Inr (h4, tmp2)"
    and ad: "bindR (ab_copy h4 tmp2) (\<lambda>(h5, other). bindR (ab_assign h5 c other) (\<lambda>(h6, this).
           bindR (ab_destroy h6 tmp2) (\<lambda>h7. Inr (h7, this)))) = Inr (h', c')"
    using re n b r sh get_count_ok [OF ok r]
    by (auto simp: ab_realloc_def Let_def res_simps split: prod.splits)
  note N = ab_new_n_ok [OF ok zero_less_one new]
  let ?m = "min n (c_allocated c)"
  have tmp: "c_allocated tmp = n" using N(4) by simp
  have M: "heap_ok h3 (tmp1 # c # cs) \<and> same_views h2 h3 (c # cs) \<and> view h3 tmp1 = zeros n
      \<and> can_alloc h3 = can_alloc h2"
  proof (cases "?m < n")
    case True
    with ms tmp have "write_via ab_ptr h2 tmp ?m (zeros (n - ?m)) = Inr (h3, tmp1)"
      by (simp add: min_def split: if_splits)
    note W = write_via_ok [OF N(1) _ this, simplified]
    have "wr (zeros n) ?m (zeros (n - ?m)) = Inr (zeros n)"
      using True by (simp add: wr_def flip: replicate_add)
    with W N(3) show ?thesis by simp
  qed (use ms tmp N in simp)
  have "blocks h3 b = Some (view h c)"
  proof -
    have "view h3 c = view h c" using M N(2) by simp
    moreover have "blocks h3 b = Some (view h3 c)"
      using heap_ok_live [OF _ b, of h3 "tmp1 # cs"] M heap_ok_swap by blast
    ultimately show ?thesis by simp
  qed
  then have bs: "bs = take ?m (view h c)"
    using rdv tmp len by (simp add: mem_read_def res_simps)
  note W = write_via_ok [OF conjunct1 [OF M] _ mc, simplified]
  have v4: "view h4 tmp2 = resized n (view h c)"
    using W(3) M bs len by (auto simp: res_simps resized_def min_def)
  obtain h7 where "bindR (ab_copy h4 tmp2) (\<lambda>(h5, other). bindR (ab_assign h5 c other) (\<lambda>(h6, this).
           bindR (ab_destroy h6 tmp2) (\<lambda>h7. Inr (h7, this)))) = Inr (h7, tmp2)"
     and A: "heap_ok h7 (tmp2 # cs)" "same_views h4 h7 (tmp2 # cs)" "can_alloc h7 = can_alloc h4"
    using adopt_ok [OF W(1)] by blast
  with ad have "h' = h7" "c' = tmp2" by simp_all
  with A v4 W M N show ?thesis by (auto simp: same_views_def)
qed

lemma ab_realloc_ok:
  assumes ok: "heap_ok h (c # cs)" and re: "ab_realloc 1 n h c = Inr (h', c')"
  shows "heap_ok h' (c' # cs) \<and> same_views h h' cs \<and> view h' c' = resized n (view h c)
    \<and> can_alloc h' = can_alloc h"
proof (cases "n = c_allocated c")
  case True
  then have "h' = h" "c' = c" using re by (simp_all add: ab_realloc_def)
  with True ok cow_wf_view_length [OF heap_ok_wf [OF ok, of c]] show ?thesis by simp
next
  case n: False
  show ?thesis
  proof (cases "c_buffer c")
    case None
    then have c: "c = null_cow" using cow_null_iff [OF heap_ok_wf [OF ok, of c]] by simp
    with n have "n \<noteq> 0" by simp
    with re c ab_realloc_null [OF this, of h] have
      h': "h' = h\<lparr>blocks := (blocks h)(Suc (next_addr h) \<mapsto> zeros n),
             counts := (counts h)(next_addr h \<mapsto> 1), next_addr := Suc (Suc (next_addr h))\<rparr>"
      and c': "c' = cow_of n (Suc (next_addr h)) (next_addr h)"
      by (simp_all split: if_splits)
    have "heap_ok h cs" using ok c by simp
    from fresh_object_ok [OF this _ h'] \<open>n \<noteq> 0\<close> c c' h' show ?thesis
      by (simp add: resized_def)
  next
    case (Some b)
    obtain r where r: "c_refcount c = Some r" and ne: "view h c \<noteq> []"
      using heap_ok_live [OF ok Some] by blast
    show ?thesis
    proof (cases "refs cs r = 0")
      case True
      note R = ab_realloc_sole [OF ok Some r True n]
      from re R have n0: "n \<noteq> 0" and
        h': "h' = h\<lparr>blocks := (blocks h)(b := None, next_addr h \<mapsto> resized n (view h c)),
                 next_addr := Suc (next_addr h)\<rparr>" and c': "c' = cow_of n (next_addr h) r"
        by (simp_all split: if_splits)
      have "resized n (view h c) \<noteq> []" using n0 by (metis length_0_conv length_resized)
      from heap_ok_replace [OF ok r Some True this, of "next_addr h" h'] h' c' show ?thesis
        by (simp add: view_def)
    next
      case False
      show ?thesis by (rule ab_realloc_shared_ok [OF ok Some r False n re])
    qed
  qed
qed

text \<open>The same for \<^verbatim>\<open>mmap_buffer::realloc\<close>.\<close>

lemma mb_realloc_null:
  assumes ps: "0 < ps"
  shows "mb_realloc ps 1 n h null_cow =
    (if can_alloc h (round_to_page ps n)
     then Inr (h\<lparr>blocks := (blocks h)(next_addr h \<mapsto> zeros (round_to_page ps n)),
                 counts := (counts h)(Suc (next_addr h) \<mapsto> 1), next_addr := Suc (Suc (next_addr h))\<rparr>,
               cow_of (round_to_page ps n) (next_addr h) (Suc (next_addr h)))
     else Inl Alloc_Fail)"
  using round_to_page_bounds(1,2) [OF ps, of n]
  by (simp add: mb_realloc_def new_count_def c_mmap_def Let_def)

lemma mb_realloc_sole:
  assumes ps: "0 < ps" and ok: "heap_ok h (c # cs)" and b: "c_buffer c = Some b"
    and r: "c_refcount c = Some r" and sole: "refs cs r = 0" and n: "round_to_page ps n \<noteq> c_allocated c"
  shows "mb_realloc ps 1 n h c =
    (if can_alloc h (round_to_page ps n)
     then Inr (h\<lparr>blocks := (blocks h)(b := None, next_addr h \<mapsto> resized (round_to_page ps n) (view h c)),
                 next_addr := Suc (next_addr h)\<rparr>, cow_of (round_to_page ps n) (next_addr h) r)
     else Inl Alloc_Fail)"
proof -
  from heap_ok_live [OF ok b] have blk: "blocks h b = Some (view h c)" by blast
  show ?thesis
    using n b r sole blk get_count_ok [OF ok r] round_to_page_bounds(1,2) [OF ps, of n]
    by (simp add: mb_realloc_def c_mremap_def resized_def Let_def)
qed

lemma mb_realloc_shared_ok:
  assumes ps: "0 < ps" and ok: "heap_ok h (c # cs)" and b: "c_buffer c = Some b"
    and r: "c_refcount c = Some r" and sh: "refs cs r \<noteq> 0" and n: "round_to_page ps n \<noteq> c_allocated c"
    and re: "mb_realloc ps 1 n h c = Inr (h', c')"
  shows "heap_ok h' (c' # cs) \<and> same_views h h' cs \<and> view h' c' = resized (round_to_page ps n) (view h c)
    \<and> can_alloc h' = can_alloc h"
proof -
  from heap_ok_live [OF ok b] have len: "length (view h c) = c_allocated c" by blast
  obtain h1 tmp bs h2 tmp1 where
    new: "mb_new_n ps 1 n h = Inr (h1, tmp)"
    and rdv: "mem_read h1 b 0 (min (c_allocated tmp) (c_allocated c)) = Inr bs"
    and mc: "write_via mb_ptr h1 tmp 0 bs = Inr (h2, tmp1)"
    and ad: "bindR (ab_copy h2 tmp1) (\<lambda>(h5, other). bindR (ab_assign h5 c other) (\<lambda>(h6, this).
           bindR (ab_destroy h6 tmp1) (\<lambda>h7. Inr (h7, this)))) = Inr (h', c')"
    using re n b r sh get_count_ok [OF ok r] round_to_page_bounds(1,2) [OF ps, of n]
    by (auto simp: mb_realloc_def Let_def res_simps mb_copy_def mb_assign_def ab_assign_def
        mb_destroy_def split: prod.splits)
  note N = mb_new_n_ok [OF ok ps new]
  let ?s = "round_to_page ps n"
  have "n \<noteq> 0"
  proof
    assume "n = 0"
    with new have "tmp = mb_new" by (simp add: mb_new_n_def)
    with mc show False by (simp add: write_via_def mb_ptr_def mb_new_def)
  qed
  then have tmp: "c_allocated tmp = ?s" "view h1 tmp = zeros ?s" using N(3,4) by simp_all
  have "blocks h1 b = Some (view h c)"
  proof -
    have "blocks h1 b = Some (view h1 c)"
      using heap_ok_live [OF _ b, of h1 "tmp # cs"] N(1) heap_ok_swap by blast
    with N(2) show ?thesis by simp
  qed
  then have bs: "bs = take (min ?s (c_allocated c)) (view h c)"
    using rdv tmp len by (simp add: mem_read_def res_simps)
  note W = write_via_ok [OF N(1) _ mc, simplified]
  have v: "view h2 tmp1 = resized ?s (view h c)"
    using W(3) tmp bs len by (auto simp: res_simps resized_def min_def)
  obtain h7 where "bindR (ab_copy h2 tmp1) (\<lambda>(h5, other). bindR (ab_assign h5 c other) (\<lambda>(h6, this).
           bindR (ab_destroy h6 tmp1) (\<lambda>h7. Inr (h7, this)))) = Inr (h7, tmp1)"
     and A: "heap_ok h7 (tmp1 # cs)" "same_views h2 h7 (tmp1 # cs)" "can_alloc h7 = can_alloc h2"
    using adopt_ok [OF W(1)] by blast
  with ad have "h' = h7" "c' = tmp1" by simp_all
  with A v W N show ?thesis by (auto simp: same_views_def)
qed

lemma mb_realloc_ok:
  assumes ps: "0 < ps" and ok: "heap_ok h (c # cs)" and re: "mb_realloc ps 1 n h c = Inr (h', c')"
  shows "heap_ok h' (c' # cs) \<and> same_views h h' cs \<and> view h' c' = resized (round_to_page ps n) (view h c)
    \<and> can_alloc h' = can_alloc h"
proof (cases "round_to_page ps n = c_allocated c")
  case True
  then have "h' = h" "c' = c"
    using re round_to_page_bounds(1) [OF ps, of n] by (simp_all add: mb_realloc_def)
  with True ok cow_wf_view_length [OF heap_ok_wf [OF ok, of c]] show ?thesis by simp
next
  case n: False
  have pos: "0 < round_to_page ps n" using round_to_page_bounds(2) [OF ps] .
  show ?thesis
  proof (cases "c_buffer c")
    case None
    then have c: "c = null_cow" using cow_null_iff [OF heap_ok_wf [OF ok, of c]] by simp
    from re c mb_realloc_null [OF ps, of n h] have
      h': "h' = h\<lparr>blocks := (blocks h)(next_addr h \<mapsto> zeros (round_to_page ps n)),
             counts := (counts h)(Suc (next_addr h) \<mapsto> 1), next_addr := Suc (Suc (next_addr h))\<rparr>"
      and c': "c' = cow_of (round_to_page ps n) (next_addr h) (Suc (next_addr h))"
      by (simp_all split: if_splits)
    have "heap_ok h cs" using ok c by simp
    from fresh_object_ok [OF this pos h'] c c' h' show ?thesis
      by (simp add: resized_def)
  next
    case (Some b)
    obtain r where r: "c_refcount c = Some r"
      using heap_ok_live [OF ok Some] by blast
    show ?thesis
    proof (cases "refs cs r = 0")
      case True
      note R = mb_realloc_sole [OF ps ok Some r True n]
      from re R have
        h': "h' = h\<lparr>blocks := (blocks h)(b := None, next_addr h \<mapsto> resized (round_to_page ps n) (view h c)),
                 next_addr := Suc (next_addr h)\<rparr>" and c': "c' = cow_of (round_to_page ps n) (next_addr h) r"
        by (simp_all split: if_splits)
      have "resized (round_to_page ps n) (view h c) \<noteq> []"
        using pos by (metis length_0_conv length_resized less_irrefl)
      from heap_ok_replace [OF ok r Some True this, of "next_addr h" h'] h' c' show ?thesis
        by (simp add: view_def)
    next
      case False
      show ?thesis by (rule mb_realloc_shared_ok [OF ps ok Some r False n re])
    qed
  qed
qed

section \<open>The contract of a copy-on-write buffer\<close>

text \<open>
  What the clients of both classes rely on: copying never copies bytes and never fails,
  destroying one owner leaves the others alone, \<^verbatim>\<open>ptr\<close> makes its object the sole owner
  of its bytes, and reallocation keeps the common prefix and zeroes the rest.
\<close>

locale cow_buffer =
  fixes obj_copy :: "heap \<Rightarrow> cow \<Rightarrow> (heap \<times> cow) res"
    and obj_destroy :: "heap \<Rightarrow> cow \<Rightarrow> heap res"
    and obj_write :: "heap \<Rightarrow> cow \<Rightarrow> nat \<Rightarrow> byte list \<Rightarrow> (heap \<times> cow) res"
    and obj_realloc :: "nat \<Rightarrow> heap \<Rightarrow> cow \<Rightarrow> (heap \<times> cow) res"
    and granted :: "nat \<Rightarrow> nat"
  assumes copy_law: "heap_ok h (c # cs) \<Longrightarrow>
      \<exists>h'. obj_copy h c = Inr (h', c) \<and> heap_ok h' (c # c # cs) \<and> same_views h h' (c # cs)
        \<and> can_alloc h' = can_alloc h"
    and destroy_law: "heap_ok h (c # cs) \<Longrightarrow>
      \<exists>h'. obj_destroy h c = Inr h' \<and> heap_ok h' cs \<and> same_views h h' cs \<and> can_alloc h' = can_alloc h"
    and write_law: "heap_ok h (c # cs) \<Longrightarrow> obj_write h c off bs = Inr (h', c') \<Longrightarrow>
      heap_ok h' (c' # cs) \<and> same_views h h' cs \<and> wr (view h c) off bs = Inr (view h' c')
        \<and> can_alloc h' = can_alloc h"
    and realloc_law: "heap_ok h (c # cs) \<Longrightarrow> obj_realloc n h c = Inr (h', c') \<Longrightarrow>
      heap_ok h' (c' # cs) \<and> same_views h h' cs \<and> view h' c' = resized (granted n) (view h c)
        \<and> can_alloc h' = can_alloc h"
begin

text \<open>A copy is a snapshot: later writes and reallocations of the original do not reach it.\<close>

lemma snapshot_write:
  assumes "heap_ok h (c # cs)" and "obj_copy h c = Inr (h1, d)"
    and "obj_write h1 c off bs = Inr (h2, c')"
  shows "heap_ok h2 (c' # d # cs) \<and> view h2 d = view h c \<and> same_views h h2 cs
    \<and> wr (view h c) off bs = Inr (view h2 c')"
proof -
  from copy_law [OF assms(1)] assms(2) have d: "d = c" and ok: "heap_ok h1 (c # c # cs)"
    and sv: "same_views h h1 (c # cs)" by auto
  from write_law [OF ok assms(3)] sv d show ?thesis
    by (auto simp: same_views_def)
qed

lemma snapshot_realloc:
  assumes "heap_ok h (c # cs)" and "obj_copy h c = Inr (h1, d)"
    and "obj_realloc n h1 c = Inr (h2, c')"
  shows "heap_ok h2 (c' # d # cs) \<and> view h2 d = view h c \<and> same_views h h2 cs
    \<and> view h2 c' = resized (granted n) (view h c)"
proof -
  from copy_law [OF assms(1)] assms(2) have d: "d = c" and ok: "heap_ok h1 (c # c # cs)"
    and sv: "same_views h h1 (c # cs)" by auto
  from realloc_law [OF ok assms(3)] sv d show ?thesis
    by (auto simp: same_views_def)
qed

text \<open>Destroying every live object empties the heap: nothing leaks and nothing is freed twice.\<close>

lemma destroy_all:
  assumes "heap_ok h cs"
  shows "\<exists>h'. fold (\<lambda>c m. bindR m (\<lambda>h. obj_destroy h c)) cs (Inr h) = Inr h' \<and> heap_ok h' []"
  using assms
proof (induction cs arbitrary: h)
  case Nil
  then show ?case by simp
next
  case (Cons c cs)
  from destroy_law [OF Cons.prems] obtain h' where "obj_destroy h c = Inr h'" "heap_ok h' cs"
    by blast
  with Cons.IH show ?case by simp
qed

end

interpretation ab: cow_buffer ab_copy ab_destroy "write_via ab_ptr" "ab_realloc 1" "\<lambda>n. n"
proof
  fix h c cs off bs n h' c'
  show "heap_ok h (c # cs) \<Longrightarrow> \<exists>h'. ab_copy h c = Inr (h', c) \<and> heap_ok h' (c # c # cs) \<and>
      same_views h h' (c # cs) \<and> can_alloc h' = can_alloc h"
    by (rule ab_copy_ok)
  show "heap_ok h (c # cs) \<Longrightarrow> \<exists>h'. ab_destroy h c = Inr h' \<and> heap_ok h' cs \<and> same_views h h' cs \<and>
      can_alloc h' = can_alloc h"
    by (rule ab_destroy_ok)
  show "heap_ok h' (c' # cs) \<and> same_views h h' cs \<and> wr (view h c) off bs = Inr (view h' c') \<and>
      can_alloc h' = can_alloc h"
    if "heap_ok h (c # cs)" "write_via ab_ptr h c off bs = Inr (h', c')"
    using write_via_ok [OF that(1) _ that(2)] by simp
  show "heap_ok h' (c' # cs) \<and> same_views h h' cs \<and> view h' c' = resized n (view h c) \<and>
      can_alloc h' = can_alloc h"
    if "heap_ok h (c # cs)" "ab_realloc 1 n h c = Inr (h', c')"
    using ab_realloc_ok [OF that] .
qed

lemma mb_cow_buffer:
  assumes ps: "0 < ps"
  shows "cow_buffer mb_copy mb_destroy (write_via mb_ptr) (mb_realloc ps 1) (round_to_page ps)"
proof
  fix h c cs off bs n h' c'
  show "heap_ok h (c # cs) \<Longrightarrow> \<exists>h'. mb_copy h c = Inr (h', c) \<and> heap_ok h' (c # c # cs) \<and>
      same_views h h' (c # cs) \<and> can_alloc h' = can_alloc h"
    unfolding mb_copy_def by (rule ab_copy_ok)
  show "heap_ok h (c # cs) \<Longrightarrow> \<exists>h'. mb_destroy h c = Inr h' \<and> heap_ok h' cs \<and> same_views h h' cs \<and>
      can_alloc h' = can_alloc h"
    unfolding mb_destroy_def by (rule ab_destroy_ok)
  show "heap_ok h' (c' # cs) \<and> same_views h h' cs \<and> wr (view h c) off bs = Inr (view h' c') \<and>
      can_alloc h' = can_alloc h"
    if "heap_ok h (c # cs)" "write_via mb_ptr h c off bs = Inr (h', c')"
    using write_via_ok [OF that(1) _ that(2)] by simp
  show "heap_ok h' (c' # cs) \<and> same_views h h' cs \<and> view h' c' = resized (round_to_page ps n) (view h c) \<and>
      can_alloc h' = can_alloc h"
    if "heap_ok h (c # cs)" "mb_realloc ps 1 n h c = Inr (h', c')"
    using mb_realloc_ok [OF ps that] .
qed

interpretation mb: cow_buffer mb_copy mb_destroy "write_via mb_ptr" "mb_realloc (Suc p) 1" "round_to_page (Suc p)"
  for p :: nat
  by (rule mb_cow_buffer) simp

end
