(* ===== verification/Wrapped_Buffer.thy ===== *)
theory Wrapped_Buffer
  imports Cow_Buffer
begin

text \<open>
  \<^verbatim>\<open>wrapped_buffer<uint8_t>\<close> (\<^verbatim>\<open>shared/src/wrapped_buffer.cpp\<close>): an \<^verbatim>\<open>alloc_buffer\<close> up to
  \<^verbatim>\<open>MMAP_THRESHOLD\<close> bytes and an \<^verbatim>\<open>mmap_buffer\<close> above it. The first part is the class on
  the explicit heap; the second is the value-level buffer \<open>vbuf\<close> that the rest of the
  development computes with; the third proves that the class refines it, with any number
  of other live buffers around it.
\<close>

section \<open>The class\<close>

definition MMAP_THRESHOLD :: nat where
  "MMAP_THRESHOLD = 50000"

record wrapped =
  w_mbuffer :: "cow option"
  w_abuffer :: "cow option"

definition wb_new :: wrapped where
  "wb_new = \<lparr>w_mbuffer = None, w_abuffer = None\<rparr>"

definition wb_new_n :: "nat \<Rightarrow> nat \<Rightarrow> heap \<Rightarrow> (heap \<times> wrapped) res" where
  "wb_new_n ps n h =
     (if n \<noteq> 0 then
        (if n > MMAP_THRESHOLD
         then bindR (mb_new_n ps 1 n h) (\<lambda>(h', m). Inr (h', \<lparr>w_mbuffer = Some m, w_abuffer = None\<rparr>))
         else bindR (ab_new_n 1 n h) (\<lambda>(h', a). Inr (h', \<lparr>w_mbuffer = None, w_abuffer = Some a\<rparr>)))
      else Inr (h, wb_new))"

definition wb_copy :: "heap \<Rightarrow> wrapped \<Rightarrow> (heap \<times> wrapped) res" where
  "wb_copy h x =
     (case w_mbuffer x of
        Some m \<Rightarrow> bindR (mb_copy h m) (\<lambda>(h', m'). Inr (h', \<lparr>w_mbuffer = Some m', w_abuffer = None\<rparr>))
      | None \<Rightarrow> (case w_abuffer x of
          Some a \<Rightarrow> bindR (ab_copy h a) (\<lambda>(h', a'). Inr (h', \<lparr>w_mbuffer = None, w_abuffer = Some a'\<rparr>))
        | None \<Rightarrow> Inr (h, wb_new)))"

definition wb_move :: "wrapped \<Rightarrow> wrapped \<times> wrapped" where
  "wb_move moved = (moved, \<lparr>w_mbuffer = None, w_abuffer = None\<rparr>)"

definition wb_destroy :: "heap \<Rightarrow> wrapped \<Rightarrow> heap res" where
  "wb_destroy h x =
     bindR (case w_mbuffer x of None \<Rightarrow> Inr h | Some m \<Rightarrow> mb_destroy h m) (\<lambda>h1.
     case w_abuffer x of None \<Rightarrow> Inr h1 | Some a \<Rightarrow> ab_destroy h1 a)"

definition wb_assign :: "heap \<Rightarrow> wrapped \<Rightarrow> wrapped \<Rightarrow> (heap \<times> wrapped) res" where
  "wb_assign h this other = bindR (wb_destroy h this) (\<lambda>h'. Inr (h', other))"

definition wb_realloc :: "nat \<Rightarrow> nat \<Rightarrow> heap \<Rightarrow> wrapped \<Rightarrow> (heap \<times> wrapped) res" where
  "wb_realloc ps n h x =
     (if n > MMAP_THRESHOLD then
        (case (w_mbuffer x, w_abuffer x) of
           (Some m, ao) \<Rightarrow> bindR (mb_realloc ps 1 n h m) (\<lambda>(h', m').
             Inr (h', \<lparr>w_mbuffer = Some m', w_abuffer = ao\<rparr>))
         | (None, Some a) \<Rightarrow>
             bindR (mb_new_n ps 1 n h) (\<lambda>(h1, m).
             bindR (ab_const_ptr h1 a) (\<lambda>src.
             bindR (write_via mb_ptr h1 m 0 (take (min (c_allocated m) (c_allocated a)) src)) (\<lambda>(h2, m').
             bindR (ab_destroy h2 a) (\<lambda>h3.
             Inr (h3, \<lparr>w_mbuffer = Some m', w_abuffer = None\<rparr>)))))
         | (None, None) \<Rightarrow> bindR (mb_new_n ps 1 n h) (\<lambda>(h', m).
             Inr (h', \<lparr>w_mbuffer = Some m, w_abuffer = None\<rparr>)))
      else
        (case (w_mbuffer x, w_abuffer x) of
           (Some m, _) \<Rightarrow>
             bindR (ab_new_n 1 n h) (\<lambda>(h1, a).
             bindR (ab_const_ptr h1 m) (\<lambda>src.
             bindR (write_via ab_ptr h1 a 0 (take (min (c_allocated m) (c_allocated a)) src)) (\<lambda>(h2, a').
             bindR (mb_destroy h2 m) (\<lambda>h3.
             Inr (h3, \<lparr>w_mbuffer = None, w_abuffer = Some a'\<rparr>)))))
         | (None, Some a) \<Rightarrow> bindR (ab_realloc 1 n h a) (\<lambda>(h', a').
             Inr (h', \<lparr>w_mbuffer = None, w_abuffer = Some a'\<rparr>))
         | (None, None) \<Rightarrow> bindR (ab_new_n 1 n h) (\<lambda>(h', a).
             Inr (h', \<lparr>w_mbuffer = None, w_abuffer = Some a\<rparr>))))"

definition wb_valid :: "wrapped \<Rightarrow> bool" where
  "wb_valid x = (w_mbuffer x \<noteq> None \<or> w_abuffer x \<noteq> None)"

text \<open>\<^verbatim>\<open>ptr()\<close> followed by a store of \<open>bs\<close> at offset \<open>off\<close>.\<close>

definition wb_write :: "heap \<Rightarrow> wrapped \<Rightarrow> nat \<Rightarrow> byte list \<Rightarrow> (heap \<times> wrapped) res" where
  "wb_write h x off bs =
     (case w_mbuffer x of
        Some m \<Rightarrow> bindR (write_via mb_ptr h m off bs) (\<lambda>(h', m'). Inr (h', x\<lparr>w_mbuffer := Some m'\<rparr>))
      | None \<Rightarrow> (case w_abuffer x of
          Some a \<Rightarrow> bindR (write_via ab_ptr h a off bs) (\<lambda>(h', a'). Inr (h', x\<lparr>w_abuffer := Some a'\<rparr>))
        | None \<Rightarrow> Inl Invalid_Buffer))"

definition wb_const_ptr :: "heap \<Rightarrow> wrapped \<Rightarrow> byte list res" where
  "wb_const_ptr h x =
     (case w_mbuffer x of Some m \<Rightarrow> ab_const_ptr h m
      | None \<Rightarrow> (case w_abuffer x of Some a \<Rightarrow> ab_const_ptr h a | None \<Rightarrow> Inl Invalid_Buffer))"

definition wb_allocated :: "wrapped \<Rightarrow> nat" where
  "wb_allocated x =
     (case w_mbuffer x of Some m \<Rightarrow> c_allocated m
      | None \<Rightarrow> (case w_abuffer x of Some a \<Rightarrow> c_allocated a | None \<Rightarrow> 0))"

definition wb_use_count :: "heap \<Rightarrow> wrapped \<Rightarrow> nat res" where
  "wb_use_count h x =
     (case w_mbuffer x of Some m \<Rightarrow> ab_use_count h m
      | None \<Rightarrow> (case w_abuffer x of Some a \<Rightarrow> ab_use_count h a | None \<Rightarrow> Inr 0))"

section \<open>Value-level buffers\<close>

text \<open>
  A buffer as a value: which of the two classes holds the bytes matters because it
  decides how much memory a reallocation grants. \<open>VAlloc []\<close> is an \<^verbatim>\<open>alloc_buffer\<close> of
  size 0, whose pointer is null.
\<close>

datatype vbuf = VNull | VAlloc "byte list" | VMmap "byte list"

fun vb_bytes :: "vbuf \<Rightarrow> byte list" where
  "vb_bytes VNull = []"
| "vb_bytes (VAlloc bs) = bs"
| "vb_bytes (VMmap bs) = bs"

definition vb_allocated :: "vbuf \<Rightarrow> nat" where
  "vb_allocated v = length (vb_bytes v)"

definition vb_new_n :: "nat \<Rightarrow> nat \<Rightarrow> vbuf" where
  "vb_new_n ps n =
     (if n = 0 then VNull
      else if n > MMAP_THRESHOLD then VMmap (zeros (round_to_page ps n)) else VAlloc (zeros n))"

fun vb_realloc :: "nat \<Rightarrow> nat \<Rightarrow> vbuf \<Rightarrow> vbuf res" where
  "vb_realloc ps n VNull =
     Inr (if n > MMAP_THRESHOLD then VMmap (zeros (round_to_page ps n)) else VAlloc (zeros n))"
| "vb_realloc ps n (VAlloc bs) =
     (if n > MMAP_THRESHOLD
      then (if bs = [] then Inl Invalid_Buffer else Inr (VMmap (resized (round_to_page ps n) bs)))
      else if n = length bs then Inr (VAlloc bs)
      else if n = 0 then Inl Alloc_Fail else Inr (VAlloc (resized n bs)))"
| "vb_realloc ps n (VMmap bs) =
     (if n > MMAP_THRESHOLD then Inr (VMmap (resized (round_to_page ps n) bs))
      else if n = 0 then Inl Invalid_Buffer else Inr (VAlloc (resized n bs)))"

fun vb_write :: "vbuf \<Rightarrow> nat \<Rightarrow> byte list \<Rightarrow> vbuf res" where
  "vb_write VNull off ys = Inl Invalid_Buffer"
| "vb_write (VAlloc bs) off ys =
     (if bs = [] then Inl Invalid_Buffer else bindR (wr bs off ys) (\<lambda>bs'. Inr (VAlloc bs')))"
| "vb_write (VMmap bs) off ys = bindR (wr bs off ys) (\<lambda>bs'. Inr (VMmap bs'))"

definition vb_const_ptr :: "vbuf \<Rightarrow> byte list res" where
  "vb_const_ptr v = (if vb_bytes v = [] then Inl Invalid_Buffer else Inr (vb_bytes v))"

text \<open>A mapping is never empty.\<close>

definition vb_ok :: "vbuf \<Rightarrow> bool" where
  "vb_ok v = (v \<noteq> VMmap [])"

section \<open>The class refines the value-level buffer\<close>

definition wcows :: "wrapped \<Rightarrow> cow list" where
  "wcows x = (case w_mbuffer x of None \<Rightarrow> [] | Some m \<Rightarrow> [m]) @
             (case w_abuffer x of None \<Rightarrow> [] | Some a \<Rightarrow> [a])"

definition wb_wf :: "wrapped \<Rightarrow> bool" where
  "wb_wf x = (case w_mbuffer x of None \<Rightarrow> True | Some m \<Rightarrow> c_buffer m \<noteq> None \<and> w_abuffer x = None)"

definition wabs :: "heap \<Rightarrow> wrapped \<Rightarrow> vbuf" where
  "wabs h x =
     (case w_mbuffer x of Some m \<Rightarrow> VMmap (view h m)
      | None \<Rightarrow> (case w_abuffer x of Some a \<Rightarrow> VAlloc (view h a) | None \<Rightarrow> VNull))"

text \<open>\<open>wb_rel h x cs v\<close>: next to the other live objects \<open>cs\<close>, the buffer \<open>x\<close> is well formed and shows \<open>v\<close>.\<close>

definition wb_rel :: "heap \<Rightarrow> wrapped \<Rightarrow> cow list \<Rightarrow> vbuf \<Rightarrow> bool" where
  "wb_rel h x cs v \<longleftrightarrow> heap_ok h (wcows x @ cs) \<and> wb_wf x \<and> wabs h x = v"

lemma wb_cases:
  assumes "wb_rel h x cs v"
  obtains (null) "x = wb_new" "v = VNull" "heap_ok h cs"
  | (alloc) a where "x = \<lparr>w_mbuffer = None, w_abuffer = Some a\<rparr>" "v = VAlloc (view h a)" "heap_ok h (a # cs)"
  | (mmap) m where "x = \<lparr>w_mbuffer = Some m, w_abuffer = None\<rparr>" "v = VMmap (view h m)" "heap_ok h (m # cs)"
      "c_buffer m \<noteq> None"
proof (cases "w_mbuffer x")
  case None
  show thesis
  proof (cases "w_abuffer x")
    case N2: None
    with None assms that(1) show thesis by (cases x) (auto simp: wb_rel_def wb_new_def wcows_def wabs_def)
  next
    case (Some a)
    with None assms that(2) show thesis by (cases x) (auto simp: wb_rel_def wcows_def wabs_def)
  qed
next
  case (Some m)
  with assms that(3) show thesis by (cases x) (auto simp: wb_rel_def wcows_def wabs_def wb_wf_def)
qed

lemma wb_relI:
  "heap_ok h cs \<Longrightarrow> wb_rel h wb_new cs VNull"
  "heap_ok h (a # cs) \<Longrightarrow> wb_rel h \<lparr>w_mbuffer = None, w_abuffer = Some a\<rparr> cs (VAlloc (view h a))"
  "heap_ok h (m # cs) \<Longrightarrow> c_buffer m \<noteq> None \<Longrightarrow>
     wb_rel h \<lparr>w_mbuffer = Some m, w_abuffer = None\<rparr> cs (VMmap (view h m))"
  by (auto simp: wb_rel_def wcows_def wb_wf_def wabs_def wb_new_def)

lemma live_iff: "heap_ok h (c # cs) \<Longrightarrow> c_buffer c \<noteq> None \<longleftrightarrow> view h c \<noteq> []"
  using heap_ok_wf [of h "c # cs" c] by (auto simp: cow_wf_def view_def split: option.splits)

lemma const_ptr_view: "heap_ok h (c # cs) \<Longrightarrow> ab_const_ptr h c =
    (if view h c = [] then Inl Invalid_Buffer else Inr (view h c))"
  using heap_ok_wf [of h "c # cs" c]
  by (auto simp: ab_const_ptr_def ab_valid_def cow_wf_def view_def mem_read_def rd_def split: option.splits)

lemma wr_prefix: "length bs \<le> n \<Longrightarrow> wr (zeros n) 0 bs = Inr (bs @ zeros (n - length bs))"
  by (simp add: wr_def)

lemma wb_new_n_refines:
  assumes "0 < ps" and "heap_ok h cs" and "wb_new_n ps n h = Inr (h', x)"
  shows "wb_rel h' x cs (vb_new_n ps n) \<and> same_views h h' cs"
proof -
  consider (z) "n = 0" "h' = h" "x = wb_new"
    | (m) m where "n \<noteq> 0" "n > MMAP_THRESHOLD" "mb_new_n ps 1 n h = Inr (h', m)"
        "x = \<lparr>w_mbuffer = Some m, w_abuffer = None\<rparr>"
    | (a) a where "n \<noteq> 0" "\<not> n > MMAP_THRESHOLD" "ab_new_n 1 n h = Inr (h', a)"
        "x = \<lparr>w_mbuffer = None, w_abuffer = Some a\<rparr>"
    using assms(3) by (auto simp: wb_new_n_def res_simps split: if_splits)
  then show ?thesis
  proof cases
    case z
    with assms(2) wb_relI(1) show ?thesis by (simp add: vb_new_n_def)
  next
    case m
    note N = mb_new_n_ok [OF assms(2,1) m(3)]
    have "c_buffer m \<noteq> None" using N(4) m(1) by simp
    with wb_relI(3) [OF N(1)] N m show ?thesis by (simp add: vb_new_n_def)
  next
    case a
    note N = ab_new_n_ok [OF assms(2) zero_less_one a(3)]
    with wb_relI(2) [OF N(1)] a show ?thesis by (simp add: vb_new_n_def)
  qed
qed

lemma wb_copy_refines:
  assumes "wb_rel h x cs v"
  shows "\<exists>h'. wb_copy h x = Inr (h', x) \<and> wb_rel h' x (wcows x @ cs) v \<and> same_views h h' (wcows x @ cs)"
  using assms
proof (cases rule: wb_cases)
  case null
  with wb_relI(1) show ?thesis by (simp add: wb_copy_def wb_new_def wcows_def)
next
  case (alloc a)
  obtain h' where "ab_copy h a = Inr (h', a)" "heap_ok h' (a # a # cs)" "same_views h h' (a # cs)"
    using ab.copy_law [OF alloc(3)] by blast
  with alloc wb_relI(2) [of h' a "a # cs"] show ?thesis by (simp add: wb_copy_def wcows_def)
next
  case (mmap m)
  obtain h' where "mb_copy h m = Inr (h', m)" "heap_ok h' (m # m # cs)" "same_views h h' (m # cs)"
    using mb.copy_law [OF mmap(3)] by blast
  with mmap wb_relI(3) [of h' m "m # cs"] show ?thesis by (simp add: wb_copy_def wcows_def)
qed

lemma wb_destroy_refines:
  assumes "wb_rel h x cs v"
  shows "\<exists>h'. wb_destroy h x = Inr h' \<and> heap_ok h' cs \<and> same_views h h' cs"
  using assms
proof (cases rule: wb_cases)
  case null
  then show ?thesis by (simp add: wb_destroy_def wb_new_def)
next
  case (alloc a)
  then show ?thesis using ab.destroy_law [OF alloc(3)] by (auto simp: wb_destroy_def)
next
  case (mmap m)
  then show ?thesis using mb.destroy_law [OF mmap(3)] by (auto simp: wb_destroy_def)
qed

lemma write_via_live:
  "heap_ok h (c # cs) \<Longrightarrow> p = ab_ptr \<or> p = mb_ptr \<Longrightarrow> write_via p h c off bs = Inr (h', c') \<Longrightarrow>
     c_buffer c' \<noteq> None \<and> view h c \<noteq> []"
  by (auto simp: write_via_def res_simps ab_ptr_def mb_ptr_def
      dest: live_iff split: option.splits)

lemma wb_write_refines:
  assumes "wb_rel h x cs v" and "wb_write h x off bs = Inr (h', x')"
  shows "\<exists>v'. vb_write v off bs = Inr v' \<and> wb_rel h' x' cs v' \<and> same_views h h' cs"
  using assms(1)
proof (cases rule: wb_cases)
  case null
  with assms(2) show ?thesis by (simp add: wb_write_def wb_new_def)
next
  case (alloc a)
  with assms(2) obtain a' where W: "write_via ab_ptr h a off bs = Inr (h', a')"
    and x': "x' = \<lparr>w_mbuffer = None, w_abuffer = Some a'\<rparr>"
    by (auto simp: wb_write_def res_simps)
  from ab.write_law [OF alloc(3) W] write_via_live [OF alloc(3) _ W] alloc x' wb_relI(2) [of h' a' cs]
  show ?thesis by auto
next
  case (mmap m)
  with assms(2) obtain m' where W: "write_via mb_ptr h m off bs = Inr (h', m')"
    and x': "x' = \<lparr>w_mbuffer = Some m', w_abuffer = None\<rparr>"
    by (auto simp: wb_write_def res_simps)
  from mb.write_law [OF mmap(3) W] write_via_live [OF mmap(3) _ W] mmap x' wb_relI(3) [of h' m' cs]
  show ?thesis by auto
qed

text \<open>Crossing the threshold: the bytes move to a fresh object of the other class.\<close>

lemma migrate_ok:
  assumes ok: "heap_ok h (new # old # cs)" and p: "p = ab_ptr \<or> p = mb_ptr"
    and z: "view h new = zeros n" "c_allocated new = n"
    and W: "write_via p h new 0 (take (min (c_allocated old) n) (view h old)) = Inr (h1, new')"
    and D: "ab_destroy h1 old = Inr h2"
  shows "heap_ok h2 (new' # cs)" and "view h2 new' = resized n (view h old)" and "same_views h h2 cs"
    and "c_buffer new' \<noteq> None"
proof -
  note X = write_via_ok [OF ok p W]
  have len: "length (view h old) = c_allocated old"
    using cow_wf_view_length [OF heap_ok_wf [OF ok, of old]] by simp
  have v1: "view h1 new' = resized n (view h old)"
    using X(3) z len by (auto simp: res_simps resized_def min_def)
  have "heap_ok h1 (old # new' # cs)" using X(1) heap_ok_swap by simp
  from ab_destroy_ok [OF this] D have Y: "heap_ok h2 (new' # cs)" "same_views h1 h2 (new' # cs)"
    by auto
  then show "heap_ok h2 (new' # cs)" by simp
  show "view h2 new' = resized n (view h old)" using Y(2) v1 by simp
  show "same_views h h2 cs" using X(2) Y(2) by (auto simp: same_views_def)
  show "c_buffer new' \<noteq> None" using write_via_live [OF ok p W] by simp
qed

lemma vb_realloc_fits:
  "n \<noteq> 0 \<Longrightarrow> vb_realloc ps n (VAlloc bs) =
     (if n > MMAP_THRESHOLD then (if bs = [] then Inl Invalid_Buffer
      else Inr (VMmap (resized (round_to_page ps n) bs))) else Inr (VAlloc (resized n bs)))"
  by simp

lemma wb_realloc_alloc_refines:
  assumes ps: "0 < ps" and ok: "heap_ok h (a # cs)"
    and re: "wb_realloc ps n h \<lparr>w_mbuffer = None, w_abuffer = Some a\<rparr> = Inr (h', x')"
  shows "\<exists>v'. vb_realloc ps n (VAlloc (view h a)) = Inr v' \<and> wb_rel h' x' cs v' \<and> same_views h h' cs"
proof (cases "n > MMAP_THRESHOLD")
  case True
  with re obtain h1 m src h2 m' where new: "mb_new_n ps 1 n h = Inr (h1, m)"
    and src: "ab_const_ptr h1 a = Inr src"
    and W: "write_via mb_ptr h1 m 0 (take (min (c_allocated m) (c_allocated a)) src) = Inr (h2, m')"
    and D: "ab_destroy h2 a = Inr h'" and x': "x' = \<lparr>w_mbuffer = Some m', w_abuffer = None\<rparr>"
    by (auto simp: wb_realloc_def res_simps)
  note N = mb_new_n_ok [OF ok ps new]
  from True have n: "n \<noteq> 0" by simp
  have "heap_ok h1 (a # m # cs)" using N(1) heap_ok_swap by simp
  from const_ptr_view [OF this] src N(2) have s: "src = view h a" "view h a \<noteq> []" "view h1 a = view h a"
    by (simp_all split: if_splits)
  let ?N = "round_to_page ps n"
  from W s have W': "write_via mb_ptr h1 m 0 (take (min (c_allocated a) ?N) (view h1 a)) = Inr (h2, m')"
    using N(4) n by (simp add: min.commute)
  note M = migrate_ok [OF N(1) _ _ _ W' D]
  have "heap_ok h' (m' # cs)" "view h' m' = resized ?N (view h a)" "same_views h1 h' cs" "c_buffer m' \<noteq> None"
    using M N(3,4) n s by simp_all
  moreover have "same_views h h' cs"
    using \<open>same_views h1 h' cs\<close> N(2) by (auto simp: same_views_def)
  ultimately show ?thesis using True s x' wb_relI(3) [of h' m' cs] by auto
next
  case False
  with re obtain a' where R: "ab_realloc 1 n h a = Inr (h', a')"
    and x': "x' = \<lparr>w_mbuffer = None, w_abuffer = Some a'\<rparr>"
    by (auto simp: wb_realloc_def res_simps)
  have len: "length (view h a) = c_allocated a"
    using cow_wf_view_length [OF heap_ok_wf [OF ok, of a]] by simp
  have nz: "n \<noteq> 0 \<or> n = length (view h a)"
  proof (rule ccontr)
    assume neg: "\<not> (n \<noteq> 0 \<or> n = length (view h a))"
    then have v: "view h a \<noteq> []" "n = 0" by auto
    then obtain b where b: "c_buffer a = Some b" using live_iff [OF ok] by auto
    obtain r where r: "c_refcount a = Some r" using heap_ok_live [OF ok b] by blast
    have "n \<noteq> c_allocated a" using neg len by simp
    with R v(2) ab_realloc_sole [OF ok b r, of n] have "refs cs r \<noteq> 0" by auto
    moreover have "write_via ab_ptr h null_cow off bs \<noteq> Inr z" for h off bs z
      by (simp add: write_via_def ab_ptr_def)
    ultimately show False
      using R v(2) \<open>n \<noteq> c_allocated a\<close> b r get_count_ok [OF ok r]
      by (auto simp: ab_realloc_def ab_new_n_def null_cow_def [symmetric] res_simps Let_def split: if_splits)
  qed
  from ab.realloc_law [OF ok R] have L: "heap_ok h' (a' # cs)" "same_views h h' cs"
    "view h' a' = resized n (view h a)" by auto
  from wb_relI(2) [OF L(1)] L x' False nz show ?thesis by auto
qed

lemma wb_realloc_mmap_refines:
  assumes ps: "0 < ps" and ok: "heap_ok h (m # cs)" and live: "c_buffer m \<noteq> None"
    and re: "wb_realloc ps n h \<lparr>w_mbuffer = Some m, w_abuffer = None\<rparr> = Inr (h', x')"
  shows "\<exists>v'. vb_realloc ps n (VMmap (view h m)) = Inr v' \<and> wb_rel h' x' cs v' \<and> same_views h h' cs"
proof (cases "n > MMAP_THRESHOLD")
  case True
  with re obtain m' where R: "mb_realloc ps 1 n h m = Inr (h', m')"
    and x': "x' = \<lparr>w_mbuffer = Some m', w_abuffer = None\<rparr>"
    by (auto simp: wb_realloc_def res_simps)
  from mb_realloc_ok [OF ps ok R] have L: "heap_ok h' (m' # cs)" "same_views h h' cs"
    "view h' m' = resized (round_to_page ps n) (view h m)" by auto
  have "view h' m' \<noteq> []"
    using L(3) round_to_page_bounds(2) [OF ps, of n] by (metis length_resized list.size(3) less_irrefl)
  then have "c_buffer m' \<noteq> None" using live_iff [OF L(1)] by simp
  from wb_relI(3) [OF L(1) this] L x' True show ?thesis by auto
next
  case False
  with re obtain h1 a src h2 a' where new: "ab_new_n 1 n h = Inr (h1, a)"
    and src: "ab_const_ptr h1 m = Inr src"
    and W: "write_via ab_ptr h1 a 0 (take (min (c_allocated m) (c_allocated a)) src) = Inr (h2, a')"
    and D: "mb_destroy h2 m = Inr h'" and x': "x' = \<lparr>w_mbuffer = None, w_abuffer = Some a'\<rparr>"
    by (auto simp: wb_realloc_def res_simps)
  note N = ab_new_n_ok [OF ok zero_less_one new]
  have "view h1 a \<noteq> []" using write_via_live [OF N(1) _ W] by simp
  then have n: "n \<noteq> 0" using N(3) by auto
  have "heap_ok h1 (m # a # cs)" using N(1) heap_ok_swap by simp
  from const_ptr_view [OF this] src N(2) have s: "src = view h m" "view h1 m = view h m"
    by (simp_all split: if_splits)
  from W s N(4) have W': "write_via ab_ptr h1 a 0 (take (min (c_allocated m) n) (view h1 m)) = Inr (h2, a')"
    by simp
  note M = migrate_ok [OF N(1) _ _ _ W' D [unfolded mb_destroy_def]]
  have "heap_ok h' (a' # cs)" "view h' a' = resized n (view h m)" "same_views h1 h' cs"
    using M N(3,4) s by simp_all
  moreover have "same_views h h' cs"
    using \<open>same_views h1 h' cs\<close> N(2) by (auto simp: same_views_def)
  ultimately show ?thesis using False n x' wb_relI(2) [of h' a' cs] by auto
qed

lemma wb_realloc_refines:
  assumes ps: "0 < ps" and rel: "wb_rel h x cs v" and re: "wb_realloc ps n h x = Inr (h', x')"
  shows "\<exists>v'. vb_realloc ps n v = Inr v' \<and> wb_rel h' x' cs v' \<and> same_views h h' cs"
  using rel
proof (cases rule: wb_cases)
  case null
  show ?thesis
  proof (cases "n > MMAP_THRESHOLD")
    case True
    with re null obtain m where new: "mb_new_n ps 1 n h = Inr (h', m)"
      and x': "x' = \<lparr>w_mbuffer = Some m, w_abuffer = None\<rparr>"
      by (auto simp: wb_realloc_def wb_new_def res_simps)
    note N = mb_new_n_ok [OF null(3) ps new]
    from True have "n \<noteq> 0" by simp
    with N wb_relI(3) [OF N(1)] null x' True show ?thesis by auto
  next
    case False
    with re null obtain a where new: "ab_new_n 1 n h = Inr (h', a)"
      and x': "x' = \<lparr>w_mbuffer = None, w_abuffer = Some a\<rparr>"
      by (auto simp: wb_realloc_def wb_new_def res_simps)
    note N = ab_new_n_ok [OF null(3) zero_less_one new]
    from N wb_relI(2) [OF N(1)] null x' False show ?thesis by auto
  qed
next
  case (alloc a)
  with wb_realloc_alloc_refines [OF ps alloc(3)] re show ?thesis by simp
next
  case (mmap m)
  with wb_realloc_mmap_refines [OF ps mmap(3,4)] re show ?thesis by simp
qed

lemma wb_const_ptr_refines: "wb_rel h x cs v \<Longrightarrow> wb_const_ptr h x = vb_const_ptr v"
  by (erule wb_cases) (auto simp: wb_const_ptr_def vb_const_ptr_def wb_new_def const_ptr_view)

lemma wb_allocated_refines: "wb_rel h x cs v \<Longrightarrow> wb_allocated x = vb_allocated v"
proof (erule wb_cases)
  show "x = wb_new \<Longrightarrow> v = VNull \<Longrightarrow> wb_allocated x = vb_allocated v"
    by (simp add: wb_allocated_def vb_allocated_def wb_new_def)
qed (use cow_wf_view_length heap_ok_wf in \<open>auto simp: wb_allocated_def vb_allocated_def\<close>)

section \<open>With memory available the class fails only where the value-level buffer does\<close>

lemma ab_new_n_total: "(\<And>k. can_alloc h k) \<Longrightarrow> \<exists>h' c. ab_new_n w n h = Inr (h', c)"
  by (simp add: ab_new_n_def new_count_def c_malloc_def mem_write_def wr_def Let_def)

lemma mb_new_n_total: "(\<And>k. can_alloc h k) \<Longrightarrow> \<exists>h' c. mb_new_n ps w n h = Inr (h', c)"
  by (simp add: mb_new_n_def new_count_def c_mmap_def Let_def)

lemma mem_read_view:
  assumes "heap_ok h (d # c # cs)" and "c_buffer c = Some b" and "n \<le> c_allocated c"
  shows "mem_read h b 0 n = Inr (take n (view h c))"
proof -
  have "heap_ok h (c # d # cs)" using assms(1) heap_ok_swap by simp
  from heap_ok_live [OF this assms(2)] have "blocks h b = Some (view h c)"
    "length (view h c) = c_allocated c" by blast+
  with assms(3) show ?thesis by (simp add: mem_read_def rd_def)
qed

lemma ab_realloc_shared_total:
  assumes mem: "\<And>k. can_alloc h k" and ok: "heap_ok h (c # cs)" and b: "c_buffer c = Some b"
    and r: "c_refcount c = Some r" and sh: "refs cs r \<noteq> 0" and n: "n \<noteq> c_allocated c" "n \<noteq> 0"
  shows "\<exists>h' c'. ab_realloc 1 n h c = Inr (h', c')"
proof -
  obtain h2 tmp where new: "ab_new_n 1 n h = Inr (h2, tmp)" using ab_new_n_total [OF mem] by blast
  note N = ab_new_n_ok [OF ok zero_less_one new]
  have tmp: "c_allocated tmp = n" using N(4) by simp
  let ?m = "min n (c_allocated c)"
  have "\<exists>h3 tmp1. (if ?m < n then write_via ab_ptr h2 tmp (1 * ?m) (zeros (n - ?m)) else Inr (h2, tmp)) = Inr (h3, tmp1)
      \<and> heap_ok h3 (tmp1 # c # cs) \<and> (\<forall>k. can_alloc h3 k) \<and> c_allocated tmp1 = n"
  proof (cases "?m < n")
    case True
    then obtain h3 tmp1 where W: "write_via ab_ptr h2 tmp ?m (zeros (n - ?m)) = Inr (h3, tmp1)"
      using write_via_total [OF N(1), of ab_ptr ?m "zeros (n - ?m)"] mem N(6) tmp n by auto
    from write_via_ok [OF N(1) _ W] W True mem N(6) tmp show ?thesis by auto
  qed (use N mem tmp in auto)
  then obtain h3 tmp1 where ms: "(if ?m < n then write_via ab_ptr h2 tmp (1 * ?m) (zeros (n - ?m)) else Inr (h2, tmp)) = Inr (h3, tmp1)"
    and ok3: "heap_ok h3 (tmp1 # c # cs)" and mem3: "\<And>k. can_alloc h3 k" and a3: "c_allocated tmp1 = n"
    by blast
  have rdv: "mem_read h3 b 0 ?m = Inr (take ?m (view h3 c))"
    by (rule mem_read_view [OF ok3 b]) simp
  obtain h4 tmp2 where W: "write_via ab_ptr h3 tmp1 0 (take ?m (view h3 c)) = Inr (h4, tmp2)"
    using write_via_total [OF ok3, of ab_ptr 0 "take ?m (view h3 c)"] mem3 a3 n by (auto simp: min_le_iff_disj)
  from write_via_ok [OF ok3 _ W] have ok4: "heap_ok h4 (tmp2 # c # cs)" and a4: "c_allocated tmp2 = n"
    using a3 by auto
  obtain h7 where A: "bindR (ab_copy h4 tmp2) (\<lambda>(h5, other). bindR (ab_assign h5 c other) (\<lambda>(h6, this).
           bindR (ab_destroy h6 tmp2) (\<lambda>h7. Inr (h7, this)))) = Inr (h7, tmp2)"
    using adopt_ok [OF ok4] by blast
  have "ab_realloc 1 n h c = Inr (h7, tmp2)"
    using n b r sh get_count_ok [OF ok r] new ms rdv W A a4 tmp
    by (cases "c_allocated c < n") (simp_all add: ab_realloc_def Let_def min_def)
  then show ?thesis by blast
qed

lemma ab_realloc_total:
  assumes mem: "\<And>k. can_alloc h k" and ok: "heap_ok h (c # cs)" and n: "n = c_allocated c \<or> n \<noteq> 0"
  shows "\<exists>h' c'. ab_realloc 1 n h c = Inr (h', c')"
proof (cases "n = c_allocated c")
  case True
  then show ?thesis by (simp add: ab_realloc_def)
next
  case False
  with n have n0: "n \<noteq> 0" by simp
  show ?thesis
  proof (cases "c_buffer c")
    case None
    then have "c = null_cow" using cow_null_iff [OF heap_ok_wf [OF ok, of c]] by simp
    with ab_realloc_null [OF n0] mem show ?thesis by auto
  next
    case (Some b)
    obtain r where r: "c_refcount c = Some r" using heap_ok_live [OF ok Some] by blast
    show ?thesis
      using ab_realloc_sole [OF ok Some r _ False] ab_realloc_shared_total [OF mem ok Some r _ False n0] mem n0
      by (cases "refs cs r = 0") auto
  qed
qed

lemma mb_realloc_shared_total:
  assumes ps: "0 < ps" and mem: "\<And>k. can_alloc h k" and ok: "heap_ok h (c # cs)" and b: "c_buffer c = Some b"
    and r: "c_refcount c = Some r" and sh: "refs cs r \<noteq> 0"
    and n: "round_to_page ps n \<noteq> c_allocated c" "n \<noteq> 0"
  shows "\<exists>h' c'. mb_realloc ps 1 n h c = Inr (h', c')"
proof -
  let ?s = "round_to_page ps n"
  obtain h1 tmp where new: "mb_new_n ps 1 n h = Inr (h1, tmp)" using mb_new_n_total [OF mem] by blast
  note N = mb_new_n_ok [OF ok ps new]
  have tmp: "c_allocated tmp = ?s" using N(4) n by simp
  let ?m = "min ?s (c_allocated c)"
  have rdv: "mem_read h1 b 0 ?m = Inr (take ?m (view h1 c))"
    by (rule mem_read_view [OF N(1) b]) simp
  obtain h4 tmp2 where W: "write_via mb_ptr h1 tmp 0 (take ?m (view h1 c)) = Inr (h4, tmp2)"
    using write_via_total [OF N(1), of mb_ptr 0 "take ?m (view h1 c)"] mem N(5) tmp
      round_to_page_bounds(2) [OF ps, of n] by (auto simp: min_le_iff_disj)
  from write_via_ok [OF N(1) _ W] have ok4: "heap_ok h4 (tmp2 # c # cs)" and a4: "c_allocated tmp2 = ?s"
    using tmp by auto
  obtain h7 where A: "bindR (ab_copy h4 tmp2) (\<lambda>(h5, other). bindR (ab_assign h5 c other) (\<lambda>(h6, this).
           bindR (ab_destroy h6 tmp2) (\<lambda>h7. Inr (h7, this)))) = Inr (h7, tmp2)"
    using adopt_ok [OF ok4] by blast
  have "mb_realloc ps 1 n h c = Inr (h7, tmp2)"
    using n b r sh get_count_ok [OF ok r] new rdv W A a4 tmp round_to_page_bounds(1) [OF ps, of n]
    by (simp add: mb_realloc_def Let_def mb_copy_def mb_destroy_def mb_assign_def ab_assign_def)
  then show ?thesis by blast
qed

lemma mb_realloc_total:
  assumes ps: "0 < ps" and mem: "\<And>k. can_alloc h k" and ok: "heap_ok h (c # cs)" and n: "n \<noteq> 0"
  shows "\<exists>h' c'. mb_realloc ps 1 n h c = Inr (h', c')"
proof (cases "round_to_page ps n = c_allocated c")
  case True
  then show ?thesis using round_to_page_bounds(1) [OF ps, of n] by (simp add: mb_realloc_def)
next
  case False
  show ?thesis
  proof (cases "c_buffer c")
    case None
    then have "c = null_cow" using cow_null_iff [OF heap_ok_wf [OF ok, of c]] by simp
    with mb_realloc_null [OF ps] mem show ?thesis by auto
  next
    case (Some b)
    obtain r where r: "c_refcount c = Some r" using heap_ok_live [OF ok Some] by blast
    show ?thesis
      using mb_realloc_sole [OF ps ok Some r _ False] mb_realloc_shared_total [OF ps mem ok Some r _ False n] mem
      by (cases "refs cs r = 0") auto
  qed
qed

lemma migrate_total:
  assumes mem: "\<And>k. can_alloc h k" and ok: "heap_ok h (new # old # cs)" and p: "p = ab_ptr \<or> p = mb_ptr"
    and n: "0 < c_allocated new"
  shows "\<exists>h1 new' h2. write_via p h new 0 (take (min (c_allocated old) (c_allocated new)) (view h old)) = Inr (h1, new')
    \<and> ab_destroy h1 old = Inr h2"
proof -
  obtain h1 new' where W: "write_via p h new 0 (take (min (c_allocated old) (c_allocated new)) (view h old)) = Inr (h1, new')"
    using write_via_total [OF ok p mem, of 0 "take (min (c_allocated old) (c_allocated new)) (view h old)"] n
    by (auto simp: min_le_iff_disj)
  have "heap_ok h1 (old # new' # cs)" using write_via_ok(1) [OF ok p W] heap_ok_swap by simp
  with W ab_destroy_ok show ?thesis by blast
qed

lemma wb_realloc_total:
  assumes ps: "0 < ps" and mem: "\<And>k. can_alloc h k" and rel: "wb_rel h x cs v"
    and v: "vb_realloc ps n v = Inr v'"
  shows "\<exists>h' x'. wb_realloc ps n h x = Inr (h', x')"
  using rel
proof (cases rule: wb_cases)
  case null
  obtain h1 m h2 a where "mb_new_n ps 1 n h = Inr (h1, m)" "ab_new_n 1 n h = Inr (h2, a)"
    using mb_new_n_total [OF mem, of ps 1 n] ab_new_n_total [OF mem, of 1 n] by blast
  with null(1) show ?thesis by (simp add: wb_realloc_def wb_new_def)
next
  case (alloc a)
  show ?thesis
  proof (cases "n > MMAP_THRESHOLD")
    case True
    then have n: "n \<noteq> 0" by simp
    obtain h1 m where new: "mb_new_n ps 1 n h = Inr (h1, m)" using mb_new_n_total [OF mem] by blast
    note N = mb_new_n_ok [OF alloc(3) ps new]
    have m: "0 < c_allocated m" using N(4) n round_to_page_bounds(2) [OF ps, of n] by simp
    obtain h2 m' h3 where W: "write_via mb_ptr h1 m 0 (take (min (c_allocated a) (c_allocated m)) (view h1 a)) = Inr (h2, m')"
      and D: "ab_destroy h2 a = Inr h3"
      using migrate_total [OF _ N(1), of mb_ptr] mem N(5) m by auto
    have "view h a \<noteq> []" using v alloc(2) True by (auto split: if_splits)
    moreover have "heap_ok h1 (a # m # cs)" using N(1) heap_ok_swap by simp
    ultimately have "ab_const_ptr h1 a = Inr (view h1 a)" using const_ptr_view N(2) by simp
    with alloc(1) True new W D show ?thesis by (simp add: wb_realloc_def min.commute)
  next
    case False
    have "length (view h a) = c_allocated a"
      using cow_wf_view_length [OF heap_ok_wf [OF alloc(3), of a]] by simp
    with v alloc(2) False have "n = c_allocated a \<or> n \<noteq> 0" by (auto split: if_splits)
    then obtain h1 a1 where "ab_realloc 1 n h a = Inr (h1, a1)"
      using ab_realloc_total [OF mem alloc(3)] by blast
    with alloc(1) False show ?thesis by (simp add: wb_realloc_def)
  qed
next
  case (mmap m)
  show ?thesis
  proof (cases "n > MMAP_THRESHOLD")
    case True
    then have "n \<noteq> 0" by simp
    then obtain h1 m1 where "mb_realloc ps 1 n h m = Inr (h1, m1)"
      using mb_realloc_total [OF ps mem mmap(3)] by blast
    with mmap(1) True show ?thesis by (simp add: wb_realloc_def)
  next
    case False
    then have n: "n \<noteq> 0" using v mmap(2) by (auto split: if_splits)
    obtain h1 a where new: "ab_new_n 1 n h = Inr (h1, a)" using ab_new_n_total [OF mem] by blast
    note N = ab_new_n_ok [OF mmap(3) zero_less_one new]
    obtain h2 a' h3 where W: "write_via ab_ptr h1 a 0 (take (min (c_allocated m) (c_allocated a)) (view h1 m)) = Inr (h2, a')"
      and D: "ab_destroy h2 m = Inr h3"
      using migrate_total [OF _ N(1), of ab_ptr] mem N(4,6) n by auto
    have "view h m \<noteq> []" using live_iff [OF mmap(3)] mmap(4) by simp
    moreover have "heap_ok h1 (m # a # cs)" using N(1) heap_ok_swap by simp
    ultimately have "ab_const_ptr h1 m = Inr (view h1 m)" using const_ptr_view N(2) by simp
    with mmap(1) False new W D show ?thesis by (simp add: wb_realloc_def mb_destroy_def)
  qed
qed

lemma wb_write_total:
  assumes mem: "\<And>k. can_alloc h k" and rel: "wb_rel h x cs v" and v: "vb_write v off bs = Inr v'"
  shows "\<exists>h' x'. wb_write h x off bs = Inr (h', x')"
  using rel
proof (cases rule: wb_cases)
  case null
  with v show ?thesis by simp
next
  case (alloc a)
  have len: "length (view h a) = c_allocated a"
    using cow_wf_view_length [OF heap_ok_wf [OF alloc(3), of a]] by simp
  have "off + length bs \<le> c_allocated a" "0 < c_allocated a"
    using v alloc(2) by (auto simp: res_simps simp flip: len split: if_splits)
  with write_via_total [OF alloc(3) _ mem, of ab_ptr off bs] alloc(1) show ?thesis
    by (auto simp: wb_write_def)
next
  case (mmap m)
  have len: "length (view h m) = c_allocated m"
    using cow_wf_view_length [OF heap_ok_wf [OF mmap(3), of m]] by simp
  have "view h m \<noteq> []" using live_iff [OF mmap(3)] mmap(4) by simp
  then have "off + length bs \<le> c_allocated m" "0 < c_allocated m"
    using v mmap(2) by (auto simp: res_simps simp flip: len)
  with write_via_total [OF mmap(3) _ mem, of mb_ptr off bs] mmap(1) show ?thesis
    by (auto simp: wb_write_def)
qed

section \<open>Sample states\<close>

lemma wabs_same_views: "same_views h h' (wcows x) \<Longrightarrow> wabs h' x = wabs h x"
  by (auto simp: wabs_def wcows_def same_views_def split: option.splits)

lemma wb_rel_swap:
  assumes "wb_rel h x (wcows y @ cs) v" and "wb_wf y"
  shows "wb_rel h y (wcows x @ cs) (wabs h y)"
proof -
  have "heap_ok h (wcows x @ wcows y @ cs)" using assms(1) by (simp add: wb_rel_def)
  then have "heap_ok h (wcows y @ wcows x @ cs)"
    by (rule heap_ok_perm [THEN iffD1, rotated]) simp
  with assms(2) show ?thesis by (simp add: wb_rel_def)
qed

definition empty_heap :: heap where
  "empty_heap = \<lparr>blocks = Map.empty, counts = Map.empty, next_addr = 0,
                 can_alloc = (\<lambda>_. True), junk = 171\<rparr>"

lemma empty_heap_ok: "heap_ok empty_heap []"
  by (rule heap_okI) (auto simp: empty_heap_def)

lemma empty_heap_rel: "wb_rel empty_heap wb_new [] VNull"
  using wb_relI(1) [OF empty_heap_ok] .

lemma empty_heap_mem: "\<forall>k. can_alloc empty_heap k"
  by (simp add: empty_heap_def)

section \<open>Resizing and writing values\<close>

lemma vb_allocated_realloc:
  "0 < ps \<Longrightarrow> vb_realloc ps n v = Inr v' \<Longrightarrow> n \<le> vb_allocated v'"
  by (cases v) (auto simp: vb_allocated_def length_resized round_to_page_bounds split: if_splits)

lemma vb_write_ok:
  "off + length bs \<le> vb_allocated v \<Longrightarrow> 0 < vb_allocated v \<Longrightarrow> \<exists>v'. vb_write v off bs = Inr v'"
  by (cases v) (auto simp: vb_allocated_def wr_def)

lemma vb_write_allocated: "vb_write v off bs = Inr v' \<Longrightarrow> vb_allocated v' = vb_allocated v"
  by (cases v) (auto simp: vb_allocated_def res_simps split: if_splits)

lemma vb_write_Nil: "0 < vb_allocated v \<Longrightarrow> c \<le> vb_allocated v \<Longrightarrow> vb_write v c [] = Inr v"
  by (cases v) (auto simp: vb_allocated_def wr_def)

lemma vb_realloc_ok:
  assumes "0 < ps" and "0 < vb_allocated buf" and "0 < n" and "c \<le> vb_allocated buf" and "c \<le> n"
  shows "\<exists>b1. vb_realloc ps n buf = Inr b1 \<and> take c (vb_bytes b1) = take c (vb_bytes buf)"
proof -
  have "c \<le> round_to_page ps n" using round_to_page_bounds(1) [OF assms(1), of n] assms(5) by simp
  with assms show ?thesis
    by (cases buf) (auto simp: vb_allocated_def resized_def min_def)
qed

lemma vb_write_take:
  "vb_write v c xs = Inr v' \<Longrightarrow> take (c + length xs) (vb_bytes v') = take c (vb_bytes v) @ xs"
  by (cases v) (auto simp: bindR_Inr_iff dest: take_append_wr split: if_splits)

section \<open>Properties\<close>

text \<open>
  Property C28: reallocating a \<^verbatim>\<open>wrapped_buffer\<close> next to any other live buffers. If memory
  is available, the operation on the reference-counted heap succeeds exactly when the
  value-level buffer does; then the bytes it shows afterwards are those of the value-level
  result (old bytes kept up to the new size, zeros beyond, page-rounded above the
  threshold), the heap invariant (reference counts, no leak, no dangling pointer) holds
  again, and no other live buffer sees a change.
\<close>

theorem wrapped_realloc_refines_value:
  assumes "0 < ps" and "wb_rel h x cs v" and "\<forall>k. can_alloc h k"
  shows "case vb_realloc ps n v of
      Inl _ \<Rightarrow> (\<exists>e. wb_realloc ps n h x = Inl e)
    | Inr v' \<Rightarrow> (\<exists>h' x'. wb_realloc ps n h x = Inr (h', x') \<and> wb_rel h' x' cs v' \<and> same_views h h' cs)"
proof (cases "wb_realloc ps n h x")
  case (Inl e)
  have "vb_realloc ps n v \<noteq> Inr v'" for v'
    using wb_realloc_total [OF assms(1) _ assms(2), of n v'] assms(3) Inl by auto
  with Inl show ?thesis by (cases "vb_realloc ps n v") auto
next
  case (Inr hx)
  obtain h' x' where hx: "hx = (h', x')" by (cases hx)
  with Inr have re: "wb_realloc ps n h x = Inr (h', x')" by simp
  from wb_realloc_refines [OF assms(1,2) re] obtain v' where
    "vb_realloc ps n v = Inr v'" "wb_rel h' x' cs v'" "same_views h h' cs" by blast
  with re show ?thesis by simp
qed

theorem wrapped_realloc_refines_value_witness:
  "\<exists>h' x'. wb_realloc 4096 3 empty_heap wb_new = Inr (h', x') \<and>
     wb_rel h' x' [] (VAlloc [0, 0, 0])"
proof -
  have "zeros 3 = [0, 0, 0]" by (simp add: numeral_3_eq_3)
  then show ?thesis
    using wrapped_realloc_refines_value [of 4096, OF _ empty_heap_rel empty_heap_mem, of 3]
    by (auto simp: MMAP_THRESHOLD_def)
qed

text \<open>
  Property C29: copies are snapshots. After \<^verbatim>\<open>wrapped_buffer(const wrapped_buffer &)\<close>, which
  shares the bytes, a store through \<^verbatim>\<open>ptr()\<close> of the original changes the original as it
  would change a plain array and leaves the copy, and every other buffer, as it was.
\<close>

theorem wrapped_copy_is_snapshot:
  assumes "wb_rel h x cs v" and "wb_copy h x = Inr (h1, y)" and "wb_write h1 x off bs = Inr (h2, x')"
  shows "wb_rel h2 y (wcows x' @ cs) v \<and> same_views h h2 cs \<and>
    (\<exists>v'. vb_write v off bs = Inr v' \<and> wb_rel h2 x' (wcows y @ cs) v')"
proof -
  from wb_copy_refines [OF assms(1)] assms(2) have y: "y = x"
    and r1: "wb_rel h1 x (wcows x @ cs) v" and s1: "same_views h h1 (wcows x @ cs)" by auto
  from wb_write_refines [OF r1 assms(3)] obtain v' where
    v': "vb_write v off bs = Inr v'" and r2: "wb_rel h2 x' (wcows x @ cs) v'"
    and s2: "same_views h1 h2 (wcows x @ cs)" by blast
  have "wb_wf x" "wabs h1 x = v" using r1 by (simp_all add: wb_rel_def)
  moreover have "wabs h2 x = wabs h1 x" using s2 wabs_same_views by simp
  ultimately have "wb_rel h2 x (wcows x' @ cs) v" using wb_rel_swap [OF r2] by simp
  moreover have "same_views h h2 cs" using s1 s2 by (auto simp: same_views_def)
  ultimately show ?thesis using v' r2 y by blast
qed

definition demo_heap :: heap where
  "demo_heap = empty_heap\<lparr>blocks := [0 \<mapsto> [1, 2, 3]], counts := [1 \<mapsto> 1], next_addr := 2\<rparr>"

definition demo_buf :: wrapped where
  "demo_buf = \<lparr>w_mbuffer = None, w_abuffer = Some (cow_of 3 0 1)\<rparr>"

lemma demo_rel: "wb_rel demo_heap demo_buf [] (VAlloc [1, 2, 3])"
proof -
  have "heap_ok demo_heap (cow_of (length [1, 2, 3 :: byte]) 0 1 # [])"
    by (rule heap_ok_fresh [OF empty_heap_ok]) (auto simp: demo_heap_def empty_heap_def)
  then have "heap_ok demo_heap [cow_of 3 0 1]" by (simp add: numeral_3_eq_3)
  from wb_relI(2) [OF this] show ?thesis
    by (simp add: demo_buf_def view_def demo_heap_def empty_heap_def)
qed

lemma demo_copy: "\<exists>h1 h2 x'. wb_copy demo_heap demo_buf = Inr (h1, demo_buf) \<and>
    wb_write h1 demo_buf 1 [9] = Inr (h2, x')"
  by (simp add: wb_copy_def demo_buf_def ab_copy_def get_count_def demo_heap_def empty_heap_def
      set_count_def wb_write_def write_via_def ab_ptr_def c_malloc_def mem_read_def mem_write_def
      rd_def wr_def new_count_def Let_def)

theorem wrapped_copy_is_snapshot_witness:
  "\<exists>h2 x'. wb_rel h2 demo_buf (wcows x' @ []) (VAlloc [1, 2, 3]) \<and>
     wb_rel h2 x' (wcows demo_buf @ []) (VAlloc [1, 9, 3])"
proof -
  obtain h1 h2 x' where e: "wb_copy demo_heap demo_buf = Inr (h1, demo_buf)"
    "wb_write h1 demo_buf 1 [9] = Inr (h2, x')"
    using demo_copy by blast
  from wrapped_copy_is_snapshot [OF demo_rel e] show ?thesis
    by (auto simp: wr_def)
qed

text \<open>
  Property C30: nothing leaks and nothing is freed twice. Destroying the live objects of a
  consistent heap one by one, in any order that the list gives, never touches a dangling
  pointer and ends in a heap with no block and no reference count left.
\<close>

theorem cow_destroy_all_frees_all:
  assumes "heap_ok h cs"
  shows "\<exists>h'. fold (\<lambda>c m. bindR m (\<lambda>h. ab_destroy h c)) cs (Inr h) = Inr h' \<and>
    blocks h' = Map.empty \<and> counts h' = Map.empty"
proof -
  obtain h' where "fold (\<lambda>c m. bindR m (\<lambda>h. ab_destroy h c)) cs (Inr h) = Inr h'" "heap_ok h' []"
    using ab.destroy_all [OF assms] by blast
  moreover from this(2) have "blocks h' b = None" "counts h' r = None" for b r
    using heap_ok_blocks [of h' "[]" b] heap_ok_counts [of h' "[]" r] by auto
  ultimately show ?thesis by (auto simp: fun_eq_iff)
qed

theorem cow_destroy_all_frees_all_witness:
  "\<exists>h'. fold (\<lambda>c m. bindR m (\<lambda>h. ab_destroy h c)) (wcows demo_buf) (Inr demo_heap) = Inr h' \<and>
    blocks h' = Map.empty \<and> counts h' = Map.empty"
proof -
  have "heap_ok demo_heap (wcows demo_buf)" using demo_rel by (simp add: wb_rel_def)
  then show ?thesis by (rule cow_destroy_all_frees_all)
qed

text \<open>
  The reallocation of \<^verbatim>\<open>alloc_buffer\<close> computes the address of the bytes to
  clear in elements instead of bytes. For an element type wider than a byte, as in the
  instantiated \<^verbatim>\<open>alloc_buffer<uint32_t>\<close>, growing a sole owner writes past the block.
\<close>

theorem alloc_realloc_wide_elements_overflow:
  assumes "heap_ok h (c # cs)" and "c_refcount c = Some r" and "refs cs r = 0" and "1 < w"
    and "c_allocated c < n * w" and "can_alloc h (n * w)"
  shows "ab_realloc w n h c = Inl Out_Of_Bounds"
proof -
  obtain b where b: "c_buffer c = Some b" using heap_ok_refcount_live [OF assms(1,2)] by blast
  from heap_ok_live [OF assms(1) b] have blk: "blocks h b = Some (view h c)"
    and len: "length (view h c) = c_allocated c" and ne: "view h c \<noteq> []" by blast+
  have pos: "0 < c_allocated c" using len ne by (metis length_greater_0_conv)
  have "w * c_allocated c + (n * w - c_allocated c) > n * w"
    using assms(4,5) pos by (simp add: less_diff_conv)
  moreover have "0 < n" using assms(5) by (cases n) auto
  ultimately show ?thesis using assms b blk len get_count_ok [OF assms(1,2)]
    by (simp add: ab_realloc_def c_realloc_def mem_write_def wr_def Let_def)
qed

theorem alloc_realloc_wide_elements_overflow_witness:
  "ab_realloc 4 2 demo_heap (cow_of 3 0 1) = Inl Out_Of_Bounds"
proof -
  have "heap_ok demo_heap (cow_of 3 0 1 # [])" using demo_rel by (simp add: wb_rel_def wcows_def demo_buf_def)
  then show ?thesis
    by (rule alloc_realloc_wide_elements_overflow [where r = 1]) (simp_all add: demo_heap_def empty_heap_def)
qed

end
