(* ===== verification/Sys_IO.thy ===== *)
theory Sys_IO
  imports Prelude
begin

text \<open>
  The system calls the event handlers make on a non-blocking socket, as a script of what
  the kernel will answer. An input script lists the data that arrives and the errors in
  between; a \<^verbatim>\<open>recv\<close> that asks for fewer bytes than have arrived leaves the rest for the
  next call, an empty \<open>RecvData\<close> is the end of the stream, and an exhausted script answers
  \<^verbatim>\<open>EAGAIN\<close>. An output script says how many bytes each \<^verbatim>\<open>write\<close> accepts.
\<close>

datatype errno = EAGAIN | EINTR | EINPROGRESS | EALREADY | ECONNRESET | ECONNABORTED | EPIPE | Errno nat

abbreviation EWOULDBLOCK :: errno where
  "EWOULDBLOCK \<equiv> EAGAIN"

text \<open>The result of a read or write: the count, or -1 with \<^verbatim>\<open>errno\<close> set.\<close>

datatype io_ret = IOk nat | IErr errno

text \<open>The test that every event loop makes before it gives a connection up.\<close>

definition fatal :: "io_ret \<Rightarrow> bool" where
  "fatal r = (case r of IOk _ \<Rightarrow> False | IErr e \<Rightarrow> e \<noteq> EWOULDBLOCK \<and> e \<noteq> EAGAIN \<and> e \<noteq> EINTR)"

fun positive :: "io_ret \<Rightarrow> bool" where
  "positive (IOk k) = (0 < k)"
| "positive (IErr e) = False"

text \<open>The bytes moved by a call: none on an error.\<close>

fun ret_count :: "io_ret \<Rightarrow> nat" where
  "ret_count (IOk k) = k"
| "ret_count (IErr e) = 0"

lemma positive_count: "positive r \<longleftrightarrow> 0 < ret_count r"
  by (cases r) auto

section \<open>Input\<close>

datatype recv_ev = RecvData "byte list" | RecvErr errno

type_synonym sock_in = "recv_ev list"

fun sys_recv :: "nat \<Rightarrow> sock_in \<Rightarrow> (io_ret \<times> byte list) \<times> sock_in" where
  "sys_recv n [] = ((IErr EAGAIN, []), [])"
| "sys_recv n (RecvErr e # s) = ((IErr e, []), s)"
| "sys_recv n (RecvData bs # s) =
     (if length bs \<le> n then ((IOk (length bs), bs), s)
      else ((IOk n, take n bs), RecvData (drop n bs) # s))"

text \<open>All bytes of a script, and the bytes that can be read before the next error or end of stream.\<close>

fun total_in :: "sock_in \<Rightarrow> nat" where
  "total_in [] = 0"
| "total_in (RecvErr e # s) = total_in s"
| "total_in (RecvData bs # s) = length bs + total_in s"

fun avail :: "sock_in \<Rightarrow> byte list" where
  "avail [] = []"
| "avail (RecvErr e # s) = []"
| "avail (RecvData bs # s) = (if bs = [] then [] else bs @ avail s)"

text \<open>The first answer that is not data, and the script after it.\<close>

fun stop_ret :: "sock_in \<Rightarrow> io_ret \<times> sock_in" where
  "stop_ret [] = (IErr EAGAIN, [])"
| "stop_ret (RecvErr e # s) = (IErr e, s)"
| "stop_ret (RecvData bs # s) = (if bs = [] then (IOk 0, s) else stop_ret s)"

lemma sys_recv_cases:
  assumes "0 < n"
  obtains (stop) r s' where "sys_recv n s = ((r, []), s')" "stop_ret s = (r, s')" "avail s = []"
      "\<not> positive r" "total_in s' \<le> total_in s"
  | (data) k bs s' where "sys_recv n s = ((IOk k, bs), s')" "bs \<noteq> []" "k = length bs" "k \<le> n"
      "avail s = bs @ avail s'" "stop_ret s = stop_ret s'" "total_in s = length bs + total_in s'"
proof (cases "(n, s)" rule: sys_recv.cases)
  case (3 m bs s1)
  then have s: "s = RecvData bs # s1" by simp
  consider "bs = []" | "bs \<noteq> []" "length bs \<le> n" | "n < length bs" by linarith
  then show thesis
  proof cases
    case 1
    with s show thesis by (intro stop [of "IOk 0" s1]) auto
  next
    case 2
    with s show thesis by (intro data [of "length bs" bs s1]) auto
  next
    case 3
    with s assms show thesis by (intro data [of n "take n bs" "RecvData (drop n bs) # s1"]) auto
  qed
qed (use stop in auto)

lemma stop_ret_not_positive: "\<not> positive (fst (stop_ret s))"
  by (induction s rule: stop_ret.induct) auto

lemma avail_map_data: "\<forall>c\<in>set cs. c \<noteq> [] \<Longrightarrow> avail (map RecvData cs @ s) = concat cs @ avail s"
  by (induction cs) auto

lemma stop_ret_map_data: "\<forall>c\<in>set cs. c \<noteq> [] \<Longrightarrow> stop_ret (map RecvData cs @ s) = stop_ret s"
  by (induction cs) auto

section \<open>Output\<close>

datatype write_ev = WriteOk nat | WriteErr errno

record sock_out =
  so_script :: "write_ev list"
  so_written :: "byte list"

definition sys_write :: "byte list \<Rightarrow> sock_out \<Rightarrow> io_ret \<times> sock_out" where
  "sys_write bs o1 =
     (case so_script o1 of
        [] \<Rightarrow> (IErr EAGAIN, o1)
      | WriteErr e # s \<Rightarrow> (IErr e, o1\<lparr>so_script := s\<rparr>)
      | WriteOk k # s \<Rightarrow>
          (IOk (min k (length bs)), o1\<lparr>so_script := s, so_written := so_written o1 @ take k bs\<rparr>))"

lemma sys_write_spec:
  assumes "sys_write bs o1 = (r, o2)"
  shows "ret_count r \<le> length bs" and "so_written o2 = so_written o1 @ take (ret_count r) bs"
  using assms
  by (auto simp: sys_write_def min_def split: list.splits write_ev.splits if_splits)

end
