(* ===== verification/Read_Buffer.thy ===== *)
theory Read_Buffer
  imports Wrapped_Buffer Sys_IO
begin

text \<open>
  \<^verbatim>\<open>read_buffer\<close> (\<^verbatim>\<open>shared/src/read_buffer.cpp\<close>) and the loop that every reading handler of
  the program builds around it: read until the announced number of bytes is there, act on
  them, announce the next number, as long as the socket delivers. The buffer is the
  value-level \<open>vbuf\<close> that \<^verbatim>\<open>wrapped_buffer\<close> refines; the page size \<open>ps\<close> is a parameter.
  The main result is that the loop computes a function of the byte stream alone: how the
  kernel cuts the stream into \<^verbatim>\<open>recv\<close> results, and how often the event loop calls the
  handler, do not matter.
\<close>

section \<open>The class\<close>

text \<open>
  \<open>rb_recv\<close> is the part of \<^verbatim>\<open>recv_buffer_\<close> the last \<^verbatim>\<open>recv\<close> filled, so \<^verbatim>\<open>rb_size_\<close> is its length.
\<close>

record rbuf =
  rb_cursor :: nat
  rb_to_read :: nat
  rb_buffer :: vbuf
  rb_recv :: "byte list"
  rb_loc :: nat

definition rb_new :: "nat \<Rightarrow> nat \<Rightarrow> rbuf" where
  "rb_new ps n =
     \<lparr>rb_cursor = 0, rb_to_read = n, rb_buffer = vb_new_n ps (max n (2 ^ 10)), rb_recv = [], rb_loc = 0\<rparr>"

definition rb_do_read_n :: "nat \<Rightarrow> nat \<Rightarrow> rbuf \<Rightarrow> sock_in \<Rightarrow> ((io_ret \<times> bool) \<times> rbuf \<times> sock_in) res" where
  "rb_do_read_n ps sz rb s =
     (if sz > rb_to_read rb then Inl Invalid_Argument
      else
        bindR (vb_realloc ps (rb_cursor rb + sz) (rb_buffer rb)) (\<lambda>buf.
        bindR (assertR (vb_allocated buf \<ge> rb_cursor rb + sz)) (\<lambda>_.
        let (recv_ret, recv, loc, s1) =
              (if length (rb_recv rb) \<le> rb_loc rb
               then (case sys_recv 4096 s of ((r, bs), s') \<Rightarrow> (r, bs, 0, s'))
               else (IOk 0, rb_recv rb, rb_loc rb, s)) in
        if length recv \<le> loc
        then Inr ((recv_ret, rb_to_read rb = 0), rb\<lparr>rb_buffer := buf, rb_recv := recv, rb_loc := loc\<rparr>, s1)
        else
          let n = min sz (length recv - loc) in
          bindR (vb_write buf (rb_cursor rb) (take n (drop loc recv))) (\<lambda>buf'.
          Inr ((IOk n, rb_to_read rb - n = 0),
            \<lparr>rb_cursor = rb_cursor rb + n, rb_to_read = rb_to_read rb - n, rb_buffer = buf',
             rb_recv = recv, rb_loc = loc + n\<rparr>, s1)))))"

definition rb_do_read :: "nat \<Rightarrow> rbuf \<Rightarrow> sock_in \<Rightarrow> ((io_ret \<times> bool) \<times> rbuf \<times> sock_in) res" where
  "rb_do_read ps rb s = rb_do_read_n ps (rb_to_read rb) rb s"

definition rb_set_to_read :: "nat \<Rightarrow> rbuf \<Rightarrow> rbuf" where
  "rb_set_to_read x rb = rb\<lparr>rb_to_read := x\<rparr>"

definition rb_set_cursor :: "nat \<Rightarrow> rbuf \<Rightarrow> rbuf res" where
  "rb_set_cursor loc rb =
     bindR (assertR (loc < vb_allocated (rb_buffer rb))) (\<lambda>_. Inr (rb\<lparr>rb_cursor := loc\<rparr>))"

definition rb_hungry :: "rbuf \<Rightarrow> bool" where
  "rb_hungry rb = (rb_to_read rb > 0)"

definition rb_extract_buffer :: "rbuf \<Rightarrow> vbuf" where
  "rb_extract_buffer rb = rb_buffer rb"

text \<open>Bytes received but not yet copied into the buffer.\<close>

definition rb_pending :: "rbuf \<Rightarrow> byte list" where
  "rb_pending rb = drop (rb_loc rb) (rb_recv rb)"

definition load :: "rbuf \<Rightarrow> sock_in \<Rightarrow> nat" where
  "load rb s = length (rb_pending rb) + total_in s"

section \<open>One call of do_read\<close>

text \<open>
  What a call of \<^verbatim>\<open>do_read(fd)\<close> does to a hungry buffer, in terms of the bytes that are there.
\<close>

lemma rb_do_read_stop:
  assumes "0 < ps" and "vb_realloc ps (rb_cursor rb + rb_to_read rb) (rb_buffer rb) = Inr buf"
    and "rb_pending rb = []" and "avail s = []" and "stop_ret s = (r, s')"
  shows "rb_do_read ps rb s =
    Inr ((r, rb_to_read rb = 0), rb\<lparr>rb_buffer := buf, rb_recv := [], rb_loc := 0\<rparr>, s')"
proof -
  have "sys_recv 4096 s = ((r, []), s')"
    by (rule sys_recv_cases [of 4096 s]) (use assms in auto)
  moreover have "length (rb_recv rb) \<le> rb_loc rb" using assms(3) by (simp add: rb_pending_def)
  ultimately show ?thesis
    using assms(2) vb_allocated_realloc [OF assms(1,2)]
    by (simp add: rb_do_read_def rb_do_read_n_def)
qed

lemma rb_do_read_data:
  assumes "0 < ps" and R: "vb_realloc ps (rb_cursor rb + rb_to_read rb) (rb_buffer rb) = Inr buf"
    and "0 < rb_to_read rb" and "rb_pending rb @ avail s \<noteq> []"
  obtains k buf' rb' s' where
    "rb_do_read ps rb s = Inr ((IOk k, rb_to_read rb = k), rb', s')"
    "0 < k" "k \<le> rb_to_read rb" "rb_cursor rb' = rb_cursor rb + k" "rb_to_read rb' = rb_to_read rb - k"
    "rb_buffer rb' = buf'"
    "vb_write buf (rb_cursor rb) (take k (rb_pending rb @ avail s)) = Inr buf'"
    "rb_pending rb' @ avail s' = drop k (rb_pending rb @ avail s)" "k \<le> length (rb_pending rb @ avail s)"
    "stop_ret s' = stop_ret s" "load rb s = k + load rb' s'"
proof -
  let ?c = "rb_cursor rb" and ?n = "rb_to_read rb"
  note outer = that and A = vb_allocated_realloc [OF assms(1) R]
  have fin: thesis if P: "bs \<noteq> []" "bs = drop loc recv" "(if length (rb_recv rb) \<le> rb_loc rb
               then (case sys_recv 4096 s of ((r, bs), s') \<Rightarrow> (r, bs, 0, s'))
               else (IOk 0, rb_recv rb, rb_loc rb, s)) = (rr, recv, loc, s1)"
      and Q: "rb_pending rb @ avail s = bs @ avail s1" "stop_ret s = stop_ret s1"
        "load rb s = length bs + total_in s1" for bs rr recv loc s1
  proof -
    define k where "k = min ?n (length bs)"
    have lb: "length bs = length recv - loc" "\<not> length recv \<le> loc" using P(1,2) by auto
    have k: "0 < k" "k \<le> ?n" "k \<le> length bs"
      using P(1) assms(3) unfolding k_def by auto
    have tk: "take k bs = take k (rb_pending rb @ avail s)" using Q(1) k by simp
    have "length (take k bs) = k" using k by simp
    with k A have "?c + length (take k bs) \<le> vb_allocated buf" "0 < vb_allocated buf" by linarith+
    from vb_write_ok [OF this]
    obtain buf' where W: "vb_write buf ?c (take k bs) = Inr buf'" by blast
    let ?rb = "\<lparr>rb_cursor = ?c + k, rb_to_read = ?n - k, rb_buffer = buf', rb_recv = recv, rb_loc = loc + k\<rparr>"
    have d: "(?n - k = 0) = (?n = k)" using k(2) by auto
    have D: "rb_do_read ps rb s = Inr ((IOk k, ?n = k), ?rb, s1)"
      unfolding rb_do_read_def rb_do_read_n_def P(3)
      using R A W lb k_def P(2) d by (simp add: Let_def)
    have pd: "rb_pending ?rb = drop k bs"
      by (simp add: rb_pending_def P(2) add.commute)
    have F: "rb_pending ?rb @ avail s1 = drop k (rb_pending rb @ avail s)"
      "k \<le> length (rb_pending rb @ avail s)"
      unfolding pd Q(1) using k(3) by simp_all
    have L: "load rb s = k + load ?rb s1" using Q(3) k(3) unfolding load_def pd by simp
    show thesis
      by (rule outer [OF D k(1,2) _ _ _ W [unfolded tk] F Q(2) [symmetric] L]) simp_all
  qed
  show thesis
  proof (cases "length (rb_recv rb) \<le> rb_loc rb")
    case True
    then have pe: "rb_pending rb = []" by (simp add: rb_pending_def)
    show thesis
    proof (cases rule: sys_recv_cases [of 4096 s, OF zero_less_numeral, case_names stop data])
      case (data k bs s')
      with True pe show thesis by (intro fin [of bs 0 bs "IOk k" s']) (auto simp: load_def)
    qed (use assms(4) pe in auto)
  next
    case False
    then have "rb_pending rb \<noteq> []" by (simp add: rb_pending_def)
    with False show thesis
      by (intro fin [of "rb_pending rb" "rb_loc rb" "rb_recv rb" "IOk 0" s]) (auto simp: rb_pending_def load_def)
  qed
qed

section \<open>The read loops\<close>

lemma rb_do_read_consumes:
  assumes "rb_do_read ps rb s = Inr ((r, d), rb', s')" and "positive r"
  shows "rb_to_read rb' < rb_to_read rb" and "load rb' s' < load rb s"
proof -
  obtain rr recv loc s1 where E: "(if length (rb_recv rb) \<le> rb_loc rb
               then (case sys_recv 4096 s of ((r, bs), s') \<Rightarrow> (r, bs, 0, s'))
               else (IOk 0, rb_recv rb, rb_loc rb, s)) = (rr, recv, loc, s1)" (is "?e = _")
    by (cases ?e) auto
  have L: "length recv - loc + total_in s1 \<le> load rb s" "length recv \<le> loc \<Longrightarrow> \<not> positive rr"
    using E by (auto simp: load_def rb_pending_def split: if_splits
        intro: sys_recv_cases [of 4096 s] dest: sym
        elim!: sys_recv_cases [of 4096 s, OF zero_less_numeral])
  from assms L E show "rb_to_read rb' < rb_to_read rb" "load rb' s' < load rb s"
    unfolding rb_do_read_def rb_do_read_n_def
    by (auto simp: res_simps Let_def load_def rb_pending_def split: if_splits)
qed

text \<open>The inner loop: read until the announced bytes are there or the socket has no more.\<close>

function read_fill :: "nat \<Rightarrow> rbuf \<Rightarrow> sock_in \<Rightarrow> (io_ret \<times> rbuf \<times> sock_in) res" where
  "read_fill ps rb s =
     bindR (rb_do_read ps rb s) (\<lambda>(res, rb', s').
       if positive (fst res) \<and> rb_hungry rb' then read_fill ps rb' s' else Inr (fst res, rb', s'))"
  by pat_completeness auto
termination by (relation "measure (\<lambda>(ps, rb, s). rb_to_read rb)") (auto dest: rb_do_read_consumes)

declare read_fill.simps [simp del]

text \<open>
  What a handler does with the completed bytes is a function of its own state, the cursor
  and the buffer; it ends by announcing how many bytes to read next, either behind the
  ones that are there or from the start of the buffer.
\<close>

datatype frame_cmd =
    Extend nat    \<comment> \<open>\<^verbatim>\<open>read_queue.to_read(n)\<close>\<close>
  | Restart nat   \<comment> \<open>\<^verbatim>\<open>read_queue.cursor(0); read_queue.to_read(n)\<close>\<close>

fun apply_cmd :: "frame_cmd \<Rightarrow> rbuf \<Rightarrow> rbuf res" where
  "apply_cmd (Extend n) rb = Inr (rb_set_to_read n rb)"
| "apply_cmd (Restart n) rb = bindR (rb_set_cursor 0 rb) (\<lambda>rb'. Inr (rb_set_to_read n rb'))"

type_synonym 's complete = "'s \<Rightarrow> nat \<Rightarrow> vbuf \<Rightarrow> ('s \<times> frame_cmd) res"

lemma read_fill_consumes:
  "read_fill ps rb s = Inr (r, rb', s') \<Longrightarrow> positive r \<Longrightarrow> load rb' s' < load rb s"
proof (induction ps rb s arbitrary: r rb' s' rule: read_fill.induct)
  case (1 ps rb s)
  from "1.prems"(1) obtain res rb1 s1 where D: "rb_do_read ps rb s = Inr (res, rb1, s1)"
    and C: "(if positive (fst res) \<and> rb_hungry rb1 then read_fill ps rb1 s1
      else Inr (fst res, rb1, s1)) = Inr (r, rb', s')"
    by (auto simp: read_fill.simps [of ps rb s] bindR_Inr_iff)
  have L: "positive (fst res) \<Longrightarrow> load rb1 s1 < load rb s"
    using rb_do_read_consumes(2) [of ps rb s "fst res" "snd res" rb1 s1] D by simp
  show ?case
  proof (cases "positive (fst res) \<and> rb_hungry rb1")
    case True
    with C have "read_fill ps rb1 s1 = Inr (r, rb', s')" by simp
    from "1.IH" [OF D refl refl True this "1.prems"(2)] L True show ?thesis by simp
  next
    case False
    with C "1.prems"(2) L show ?thesis by auto
  qed
qed

lemma apply_cmd_load: "apply_cmd cmd rb = Inr rb' \<Longrightarrow> \<forall>s. load rb' s = load rb s"
  by (cases cmd) (auto simp: rb_set_to_read_def rb_set_cursor_def load_def rb_pending_def res_simps)

text \<open>
  The outer loop: the result is the final state, the buffer, the socket and the last
  return value, which is \<open>None\<close> when the loop ended because nothing is announced.
\<close>

function read_loop :: "nat \<Rightarrow> 's complete \<Rightarrow> 's \<Rightarrow> rbuf \<Rightarrow> sock_in
    \<Rightarrow> ('s \<times> rbuf \<times> sock_in \<times> io_ret option) res" where
  "read_loop ps f st rb s =
     (if rb_hungry rb then
        bindR (read_fill ps rb s) (\<lambda>(r, rb1, s1).
          if positive r then
            bindR (f st (rb_cursor rb1) (rb_extract_buffer rb1)) (\<lambda>(st', cmd).
            bindR (apply_cmd cmd rb1) (\<lambda>rb2.
            read_loop ps f st' rb2 s1))
          else Inr (st, rb1, s1, Some r))
      else Inr (st, rb, s, None))"
  by pat_completeness auto
termination
  by (relation "measure (\<lambda>(ps, f, st, rb, s). load rb s)") (auto dest!: read_fill_consumes apply_cmd_load)

declare read_loop.simps [simp del]

section \<open>The loop as a function of the byte stream\<close>

text \<open>
  The reference: consume the announced number of bytes, act on them, go on; what is left
  over is a partial frame in the buffer.
\<close>

function stream_run :: "nat \<Rightarrow> 's complete \<Rightarrow> 's \<Rightarrow> nat \<Rightarrow> nat \<Rightarrow> vbuf \<Rightarrow> byte list
    \<Rightarrow> ('s \<times> nat \<times> nat \<times> vbuf \<times> byte list) res" where
  "stream_run ps f st c n buf bytes =
     (if n = 0 then Inr (st, c, 0, buf, bytes)
      else
        bindR (vb_realloc ps (c + n) buf) (\<lambda>b1.
        if length bytes < n
        then bindR (vb_write b1 c bytes) (\<lambda>b2. Inr (st, c + length bytes, n - length bytes, b2, []))
        else
          bindR (vb_write b1 c (take n bytes)) (\<lambda>b2.
          bindR (f st (c + n) b2) (\<lambda>(st', cmd).
          case cmd of
            Extend m \<Rightarrow> stream_run ps f st' (c + n) m b2 (drop n bytes)
          | Restart m \<Rightarrow> stream_run ps f st' 0 m b2 (drop n bytes)))))"
  by pat_completeness auto
termination by (relation "measure (\<lambda>(ps, f, st, c, n, buf, bytes). length bytes)") auto

declare stream_run.simps [simp del]

lemma vb_write_append:
  assumes "vb_write v c xs = Inr v1" and "vb_write v1 (c + length xs) ys = Inr v2"
  shows "vb_write v c (xs @ ys) = Inr v2"
  using assms by (cases v) (auto simp: bindR_Inr_iff wr_append split: if_splits)

lemma vb_realloc_write_idem:
  assumes "0 < ps" and "vb_realloc ps N v = Inr v1" and "vb_write v1 c xs = Inr v2"
  shows "vb_realloc ps N v2 = Inr v2"
  using assms
  by (cases v) (auto simp: bindR_Inr_iff split: if_splits dest!: length_wr)

text \<open>The inner loop, by the number of bytes that are there.\<close>

lemma read_fill_stream:
  assumes "0 < ps" and "0 < rb_to_read rb"
    and "vb_realloc ps (rb_cursor rb + rb_to_read rb) (rb_buffer rb) = Inr buf"
  shows "\<exists>r rb' s' buf'. read_fill ps rb s = Inr (r, rb', s') \<and>
    vb_write buf (rb_cursor rb) (take (rb_to_read rb) (rb_pending rb @ avail s)) = Inr buf' \<and> rb_buffer rb' = buf' \<and>
    (if length (rb_pending rb @ avail s) < rb_to_read rb
     then (r, s') = stop_ret s \<and> rb_recv rb' = [] \<and> rb_loc rb' = 0 \<and>
       rb_cursor rb' = rb_cursor rb + length (rb_pending rb @ avail s) \<and>
       rb_to_read rb' = rb_to_read rb - length (rb_pending rb @ avail s)
     else positive r \<and> rb_cursor rb' = rb_cursor rb + rb_to_read rb \<and> rb_to_read rb' = 0 \<and>
       rb_pending rb' @ avail s' = drop (rb_to_read rb) (rb_pending rb @ avail s) \<and> stop_ret s' = stop_ret s)"
  using assms
proof (induction "rb_to_read rb" arbitrary: rb s buf rule: less_induct)
  case less
  let ?n = "rb_to_read rb" and ?c = "rb_cursor rb"
  obtain bs where bs: "rb_pending rb @ avail s = bs" by blast
  note A = vb_allocated_realloc [OF less.prems(1,3)]
  show ?case
  proof (cases "bs = []")
    case True
    obtain r s' where st: "stop_ret s = (r, s')" by (cases "stop_ret s")
    from True have "rb_pending rb = []" "avail s = []" using bs by auto
    from rb_do_read_stop [OF less.prems(1,3) this st] stop_ret_not_positive [of s] st
    have "read_fill ps rb s = Inr (r, rb\<lparr>rb_buffer := buf, rb_recv := [], rb_loc := 0\<rparr>, s')"
      by (simp add: read_fill.simps [of ps rb s])
    moreover have "vb_write buf ?c [] = Inr buf" using A less.prems(2) by (intro vb_write_Nil) auto
    ultimately show ?thesis using True st less.prems(2) by (simp add: bs)
  next
    case False
    then have ne: "rb_pending rb @ avail s \<noteq> []" using bs by simp
    obtain k buf1 rb1 s1 where D: "rb_do_read ps rb s = Inr ((IOk k, ?n = k), rb1, s1)"
      and k: "0 < k" "k \<le> ?n" "k \<le> length bs"
      and rb1: "rb_cursor rb1 = ?c + k" "rb_to_read rb1 = ?n - k" "rb_buffer rb1 = buf1"
      and W: "vb_write buf ?c (take k bs) = Inr buf1"
      and rest: "rb_pending rb1 @ avail s1 = drop k bs" "stop_ret s1 = stop_ret s"
      by (rule rb_do_read_data [OF less.prems(1,3,2) ne, unfolded bs]) blast
    show ?thesis
    proof (cases "?n = k")
      case True
      with D k rb1 have "read_fill ps rb s = Inr (IOk k, rb1, s1)"
        by (simp add: read_fill.simps [of ps rb s] rb_hungry_def)
      with True W rb1 rest k show ?thesis by (auto simp: bs)
    next
      case n: False
      with k rb1 have h: "0 < rb_to_read rb1" "rb_to_read rb1 < ?n" "rb_cursor rb1 + rb_to_read rb1 = ?c + ?n"
        by auto
      have R1: "vb_realloc ps (rb_cursor rb1 + rb_to_read rb1) (rb_buffer rb1) = Inr buf1"
        using vb_realloc_write_idem [OF less.prems(1,3) W] rb1(3) h(3) by simp
      have F: "read_fill ps rb s = read_fill ps rb1 s1"
        using D k h by (simp add: read_fill.simps [of ps rb s] rb_hungry_def)
      from less.hyps [OF h(2) less.prems(1) h(1) R1, of s1] obtain r rb' s' buf' where
        I: "read_fill ps rb1 s1 = Inr (r, rb', s')"
          "vb_write buf1 (rb_cursor rb1) (take (rb_to_read rb1) (drop k bs)) = Inr buf'" "rb_buffer rb' = buf'"
          "if length (drop k bs) < rb_to_read rb1
           then (r, s') = stop_ret s1 \<and> rb_recv rb' = [] \<and> rb_loc rb' = 0 \<and>
             rb_cursor rb' = rb_cursor rb1 + length (drop k bs) \<and>
             rb_to_read rb' = rb_to_read rb1 - length (drop k bs)
           else positive r \<and> rb_cursor rb' = rb_cursor rb1 + rb_to_read rb1 \<and> rb_to_read rb' = 0 \<and>
             rb_pending rb' @ avail s' = drop (rb_to_read rb1) (drop k bs) \<and> stop_ret s' = stop_ret s1"
        unfolding rest(1) by blast
      have tk: "take k bs @ take (?n - k) (drop k bs) = take ?n bs"
        using k(2) by (metis le_add_diff_inverse take_add)
      have "length (take k bs) = k" using k(3) by simp
      then have "vb_write buf ?c (take ?n bs) = Inr buf'"
        using vb_write_append [OF W, of "take (?n - k) (drop k bs)" buf'] I(2) unfolding rb1 tk by metis
      moreover have "(length (drop k bs) < rb_to_read rb1) = (length bs < ?n)"
        using k rb1(2) by (simp only: length_drop) linarith
      moreover have "drop (rb_to_read rb1) (drop k bs) = drop ?n bs"
        using k rb1(2) by (simp only: drop_drop) simp
      moreover have "length (drop k bs) = length bs - k" by simp
      ultimately show ?thesis
        using F I(1,3,4) rb1 rest(2) k h(3) by (cases "length bs < ?n") (simp_all add: bs)
    qed
  qed
qed

lemma read_fill_realloc_err:
  "vb_realloc ps (rb_cursor rb + rb_to_read rb) (rb_buffer rb) = Inl e \<Longrightarrow> read_fill ps rb s = Inl e"
  by (simp add: read_fill.simps [of ps rb s] rb_do_read_def rb_do_read_n_def)

text \<open>
  \<open>agrees\<close> relates a result of the loop to the result of the reference on the same bytes:
  the same error, or the same state, cursor, announced length and buffer. If nothing is
  announced any more the bytes left over are still to be read; otherwise all were read and
  the loop ended on the first answer of the socket that is not data.
\<close>

definition agrees :: "sock_in \<Rightarrow> ('s \<times> nat \<times> nat \<times> vbuf \<times> byte list) res
    \<Rightarrow> ('s \<times> rbuf \<times> sock_in \<times> io_ret option) res \<Rightarrow> bool" where
  "agrees s x y =
     (case (x, y) of
        (Inl e, Inl e') \<Rightarrow> e = e'
      | (Inr (st, c, n, buf, rest), Inr (st', rb, s', r)) \<Rightarrow>
          st' = st \<and> rb_cursor rb = c \<and> rb_to_read rb = n \<and> rb_buffer rb = buf \<and>
          (if n = 0 then r = None \<and> rb_pending rb @ avail s' = rest \<and> stop_ret s' = stop_ret s
           else rest = [] \<and> rb_pending rb = [] \<and> r = Some (fst (stop_ret s)) \<and> s' = snd (stop_ret s))
      | _ \<Rightarrow> False)"

lemma apply_cmd_completed:
  "0 < vb_allocated (rb_buffer rb) \<Longrightarrow> apply_cmd cmd rb =
     Inr (case cmd of Extend m \<Rightarrow> rb\<lparr>rb_to_read := m\<rparr> | Restart m \<Rightarrow> rb\<lparr>rb_cursor := 0, rb_to_read := m\<rparr>)"
  by (cases cmd) (simp_all add: rb_set_cursor_def rb_set_to_read_def)

lemma rb_pending_update [simp]:
  "rb_pending (rb\<lparr>rb_to_read := n\<rparr>) = rb_pending rb" "rb_pending (rb\<lparr>rb_cursor := n\<rparr>) = rb_pending rb"
  by (simp_all add: rb_pending_def)

lemma agrees_stop: "stop_ret s' = stop_ret s \<Longrightarrow> agrees s' x y = agrees s x y"
  by (simp add: agrees_def split: sum.split prod.split)

lemma stream_run_fed [simp]: "stream_run ps f st c 0 buf bs = Inr (st, c, 0, buf, bs)"
  by (simp add: stream_run.simps)

lemma read_loop_stream:
  assumes "0 < ps"
  shows "agrees s (stream_run ps f st (rb_cursor rb) (rb_to_read rb) (rb_buffer rb) (rb_pending rb @ avail s))
    (read_loop ps f st rb s)"
  using assms
proof (induction ps f st rb s rule: read_loop.induct)
  case (1 ps f st rb s)
  let ?n = "rb_to_read rb" and ?c = "rb_cursor rb"
  obtain bs where bs: "rb_pending rb @ avail s = bs" by blast
  note L = read_loop.simps [of ps f st rb s] and S = stream_run.simps [of ps f st ?c ?n "rb_buffer rb" bs]
  consider (fed) "?n = 0" | (err) e where "0 < ?n" "vb_realloc ps (?c + ?n) (rb_buffer rb) = Inl e"
    | (ok) buf where "0 < ?n" "vb_realloc ps (?c + ?n) (rb_buffer rb) = Inr buf"
    by (cases "vb_realloc ps (?c + ?n) (rb_buffer rb)") auto
  then show ?case
  proof cases
    case fed
    then show ?thesis by (simp add: L bs agrees_def rb_hungry_def)
  next
    case err
    then show ?thesis by (simp add: L S bs agrees_def rb_hungry_def read_fill_realloc_err)
  next
    case ok
    from read_fill_stream [OF 1(2) ok, of s, unfolded bs] obtain r rb1 s1 buf1 where
      F: "read_fill ps rb s = Inr (r, rb1, s1)" "rb_buffer rb1 = buf1"
      and W: "vb_write buf ?c (take ?n bs) = Inr buf1"
      and P: "if length bs < ?n
        then (r, s1) = stop_ret s \<and> rb_recv rb1 = [] \<and> rb_loc rb1 = 0 \<and>
          rb_cursor rb1 = ?c + length bs \<and> rb_to_read rb1 = ?n - length bs
        else positive r \<and> rb_cursor rb1 = ?c + ?n \<and> rb_to_read rb1 = 0 \<and>
          rb_pending rb1 @ avail s1 = drop ?n bs \<and> stop_ret s1 = stop_ret s" by blast
    show ?thesis
    proof (cases "length bs < ?n")
      case True
      with P have "(r, s1) = stop_ret s" "\<not> positive r" using stop_ret_not_positive [of s] by (simp_all add: prod_eq_iff)
      with True ok F W P bs show ?thesis
        by (auto simp: L S agrees_def rb_hungry_def rb_pending_def prod_eq_iff)
    next
      case False
      with P have P': "positive r" "rb_cursor rb1 = ?c + ?n" "rb_to_read rb1 = 0"
        "rb_pending rb1 @ avail s1 = drop ?n bs" "stop_ret s1 = stop_ret s" by simp_all
      have "0 < vb_allocated buf1"
        using vb_allocated_realloc [OF 1(2) ok(2)] vb_write_allocated [OF W] ok(1) by simp
      then have AC: "apply_cmd cmd rb1 = Inr (case cmd of Extend m \<Rightarrow> rb1\<lparr>rb_to_read := m\<rparr>
          | Restart m \<Rightarrow> rb1\<lparr>rb_cursor := 0, rb_to_read := m\<rparr>)" for cmd
        using apply_cmd_completed [of rb1] F(2) by simp
      show ?thesis
      proof (cases "f st (?c + ?n) buf1")
        case (Inl e)
        with False ok F W P' bs show ?thesis by (simp add: L S agrees_def rb_hungry_def rb_extract_buffer_def)
      next
        case (Inr res)
        obtain st' cmd where res: "res = (st', cmd)" by (cases res)
        with Inr have f: "f st (rb_cursor rb1) (rb_extract_buffer rb1) = Inr (st', cmd)"
          using F(2) P'(2) by (simp add: rb_extract_buffer_def)
        have h: "rb_hungry rb" using ok(1) by (simp add: rb_hungry_def)
        note IH = "1.IH" [OF h F(1) refl refl P'(1) f refl AC 1(2), unfolded agrees_stop [OF P'(5)]]
        show ?thesis
          using IH Inr res False ok F W P' bs f AC [of cmd] h
          by (cases cmd) (simp_all add: L S)
      qed
    qed
  qed
qed

text \<open>Feeding the bytes in two portions is the same as feeding them at once.\<close>

lemma stream_run_append:
  assumes "0 < ps"
  shows "stream_run ps f st c n buf (xs @ ys) =
    bindR (stream_run ps f st c n buf xs) (\<lambda>(st', c', n', buf', rest). stream_run ps f st' c' n' buf' (rest @ ys))"
  using assms
proof (induction ps f st c n buf xs rule: stream_run.induct)
  case (1 ps f st c n buf xs)
  note S = stream_run.simps [of ps f st c n buf]
  consider (fed) "n = 0" | (err) e where "0 < n" "vb_realloc ps (c + n) buf = Inl e"
    | (ok) b1 where "0 < n" "vb_realloc ps (c + n) buf = Inr b1"
    by (cases "vb_realloc ps (c + n) buf") auto
  then show ?case
  proof cases
    case fed
    then show ?thesis by simp
  next
    case err
    then show ?thesis by (simp add: S)
  next
    case ok
    note A = vb_allocated_realloc [OF 1(3) ok(2)]
    show ?thesis
    proof (cases "length xs < n")
      case True
      have "c + length xs \<le> vb_allocated b1" "0 < vb_allocated b1" using A True by auto
      from vb_write_ok [OF this] obtain b2 where W: "vb_write b1 c xs = Inr b2" by blast
      note R = vb_realloc_write_idem [OF 1(3) ok(2) W]
      have B: "vb_write b1 c (xs @ zs) = vb_write b2 (c + length xs) zs" if "length (xs @ zs) \<le> n" for zs
      proof -
        have "c + length xs + length zs \<le> vb_allocated b2" "0 < vb_allocated b2"
          using that A True vb_write_allocated [OF W] by auto
        from vb_write_ok [OF this] obtain b3 where "vb_write b2 (c + length xs) zs = Inr b3" by blast
        with vb_write_append [OF W] show ?thesis by simp
      qed
      have S2: "stream_run ps f st (c + length xs) (n - length xs) b2 ys = stream_run ps f st c n buf (xs @ ys)"
      proof (cases "length (xs @ ys) < n")
        case T2: True
        then have "length ys < n - length xs" by simp
        with T2 True ok R B [of ys] show ?thesis
          by (simp add: S stream_run.simps [of ps f st "c + length xs"] add.assoc)
      next
        case F2: False
        then have "\<not> length ys < n - length xs" using True by simp
        moreover have "take n (xs @ ys) = xs @ take (n - length xs) ys" "drop n (xs @ ys) = drop (n - length xs) ys"
          using True by simp_all
        moreover have "length (xs @ take (n - length xs) ys) \<le> n" using True by simp
        ultimately show ?thesis using F2 True ok R B [of "take (n - length xs) ys"]
          by (simp add: S stream_run.simps [of ps f st "c + length xs"])
      qed
      show ?thesis using True ok W S2 [symmetric] by (simp add: S)
    next
      case False
      have tk: "take n (xs @ ys) = take n xs" "drop n (xs @ ys) = drop n xs @ ys" "\<not> length (xs @ ys) < n"
        using False by simp_all
      show ?thesis
        unfolding S [of "xs @ ys"] S [of xs] tk
        using False ok 1(1,2,3) tk(3)
        by (auto simp: bindR_assoc split: frame_cmd.splits intro!: bindR_cong)
    qed
  qed
qed

section \<open>Schedules of callbacks\<close>

text \<open>
  A schedule is a list of callbacks, each with the chunks that have arrived since the last
  one; what a callback leaves unread stays in the kernel.
\<close>

definition data_only :: "sock_in \<Rightarrow> bool" where
  "data_only s = (\<forall>ev\<in>set s. \<exists>bs. ev = RecvData bs \<and> bs \<noteq> [])"

fun callbacks :: "nat \<Rightarrow> 's complete \<Rightarrow> 's \<Rightarrow> rbuf \<Rightarrow> sock_in \<Rightarrow> byte list list list
    \<Rightarrow> ('s \<times> rbuf \<times> sock_in) res" where
  "callbacks ps f st rb s [] = Inr (st, rb, s)"
| "callbacks ps f st rb s (cs # evs) =
     bindR (read_loop ps f st rb (s @ map RecvData cs)) (\<lambda>(st', rb', s', r).
     callbacks ps f st' rb' s' evs)"

text \<open>What a handler can see of a state: its own state, cursor, announced length, buffer and unread bytes.\<close>

fun seen :: "('s \<times> rbuf \<times> sock_in) res \<Rightarrow> ('s \<times> nat \<times> nat \<times> vbuf \<times> byte list) res" where
  "seen (Inl e) = Inl e"
| "seen (Inr (st, rb, s)) = Inr (st, rb_cursor rb, rb_to_read rb, rb_buffer rb, rb_pending rb @ avail s)"

lemma data_only_avail: "data_only s \<Longrightarrow> avail (s @ s') = avail s @ avail s'"
  by (induction s) (auto simp: data_only_def)

lemma data_only_stop: "data_only s \<Longrightarrow> stop_ret s = (IErr EAGAIN, [])"
  by (induction s) (auto simp: data_only_def)

lemma data_only_chunks: "\<forall>c\<in>set cs. c \<noteq> [] \<Longrightarrow> data_only (map RecvData cs)"
  by (auto simp: data_only_def)

lemma data_only_append: "data_only s \<Longrightarrow> data_only s' \<Longrightarrow> data_only (s @ s')"
  by (auto simp: data_only_def)

lemma sys_recv_data_only: "data_only s \<Longrightarrow> sys_recv n s = (x, s') \<Longrightarrow> data_only s'"
  by (cases "(n, s)" rule: sys_recv.cases) (auto simp: data_only_def split: if_splits)

lemma rb_do_read_data_only: "data_only s \<Longrightarrow> rb_do_read ps rb s = Inr (x, rb', s') \<Longrightarrow> data_only s'"
  using sys_recv_data_only [of s 4096]
  by (auto simp: rb_do_read_def rb_do_read_n_def bindR_Inr_iff Let_def
      split: if_splits prod.splits)

lemma read_fill_data_only: "data_only s \<Longrightarrow> read_fill ps rb s = Inr (r, rb', s') \<Longrightarrow> data_only s'"
proof (induction ps rb s arbitrary: r rb' s' rule: read_fill.induct)
  case (1 ps rb s)
  from "1.prems"(2) obtain res rb1 s1 where D: "rb_do_read ps rb s = Inr (res, rb1, s1)"
    and C: "(if positive (fst res) \<and> rb_hungry rb1 then read_fill ps rb1 s1
      else Inr (fst res, rb1, s1)) = Inr (r, rb', s')"
    by (auto simp: read_fill.simps [of ps rb s] bindR_Inr_iff)
  with rb_do_read_data_only [OF "1.prems"(1) D] "1.IH" [OF D refl refl] show ?case
    by (auto split: if_splits)
qed

lemma read_loop_data_only: "data_only s \<Longrightarrow> read_loop ps f st rb s = Inr (st', rb', s', r) \<Longrightarrow> data_only s'"
proof (induction ps f st rb s arbitrary: st' rb' s' r rule: read_loop.induct)
  case (1 ps f st rb s)
  show ?case
  proof (cases "rb_hungry rb")
    case True
    with "1.prems"(2) obtain q rb1 s1 where F: "read_fill ps rb s = Inr (q, rb1, s1)"
      and C: "(if positive q then bindR (f st (rb_cursor rb1) (rb_extract_buffer rb1)) (\<lambda>(st', cmd).
            bindR (apply_cmd cmd rb1) (\<lambda>rb2. read_loop ps f st' rb2 s1)) else Inr (st, rb1, s1, Some q))
          = Inr (st', rb', s', r)"
      by (auto simp: read_loop.simps [of ps f st rb s] bindR_Inr_iff)
    from read_fill_data_only [OF "1.prems"(1) F] C "1.IH" [OF True F refl refl] show ?thesis
      by (auto simp: bindR_Inr_iff split: if_splits)
  next
    case False
    with "1.prems" show ?thesis by (auto simp: read_loop.simps [of ps f st rb s])
  qed
qed

lemma callbacks_stream:
  assumes "0 < ps" and "data_only s" and "\<forall>cs\<in>set evs. \<forall>c\<in>set cs. c \<noteq> []" and "evs \<noteq> []"
  shows "seen (callbacks ps f st rb s evs) =
    stream_run ps f st (rb_cursor rb) (rb_to_read rb) (rb_buffer rb)
      (rb_pending rb @ avail s @ concat (concat evs))"
  using assms(2-4)
proof (induction evs arbitrary: st rb s)
  case (Cons cs evs)
  let ?s = "s @ map RecvData cs"
  let ?run = "stream_run ps f st (rb_cursor rb) (rb_to_read rb) (rb_buffer rb) (rb_pending rb @ avail ?s)"
  have d: "data_only ?s" using Cons.prems by (intro data_only_append data_only_chunks) auto
  have av: "avail ?s = avail s @ concat cs"
    using data_only_avail [OF Cons.prems(1)] avail_map_data [of cs "[]"] Cons.prems(2) by simp
  note A = read_loop_stream [OF assms(1), of ?s f st rb]
  show ?case
  proof (cases "read_loop ps f st rb ?s")
    case (Inl e)
    with A have "?run = Inl e" by (cases ?run) (auto simp: agrees_def)
    with Inl show ?thesis using stream_run_append [OF assms(1), of f st _ _ _ "rb_pending rb @ avail ?s" "concat (concat evs)"]
      by (simp add: av)
  next
    case (Inr q)
    obtain st' rb' s' r where q: "q = (st', rb', s', r)" by (cases q)
    then have L: "read_loop ps f st rb ?s = Inr (st', rb', s', r)" using Inr by simp
    have d': "data_only s'" by (rule read_loop_data_only [OF d L])
    have run: "?run = Inr (st', rb_cursor rb', rb_to_read rb', rb_buffer rb', rb_pending rb' @ avail s')"
      using A L data_only_stop [OF d] by (cases ?run) (auto simp: agrees_def split: if_splits)
    then have X: "stream_run ps f st (rb_cursor rb) (rb_to_read rb) (rb_buffer rb)
        (rb_pending rb @ avail s @ concat (concat (cs # evs))) =
      stream_run ps f st' (rb_cursor rb') (rb_to_read rb') (rb_buffer rb') (rb_pending rb' @ avail s' @ concat (concat evs))"
      using stream_run_append [OF assms(1), of f st _ _ _ "rb_pending rb @ avail ?s" "concat (concat evs)"]
      by (simp add: av)
    show ?thesis
    proof (cases "evs = []")
      case True
      with run L show ?thesis by (simp add: av)
    next
      case False
      with Cons.IH [OF d', of st' rb'] Cons.prems(2) L X show ?thesis by simp
    qed
  qed
qed simp

section \<open>Frames\<close>

text \<open>One announced frame that has arrived completely, behind the \<open>c\<close> bytes that are there.\<close>

lemma stream_run_frame_at:
  assumes "0 < ps" and "0 < n" and "0 < vb_allocated buf" and "c \<le> vb_allocated buf" and "length xs = n"
  obtains b where "vb_allocated b \<ge> c + n" "take (c + n) (vb_bytes b) = take c (vb_bytes buf) @ xs"
    "stream_run ps f st c n buf (xs @ ys) =
      bindR (f st (c + n) b) (\<lambda>(st', cmd). case cmd of
          Extend k \<Rightarrow> stream_run ps f st' (c + n) k b ys | Restart k \<Rightarrow> stream_run ps f st' 0 k b ys)"
proof -
  have cn: "0 < c + n" using assms(2) by simp
  obtain b1 where R: "vb_realloc ps (c + n) buf = Inr b1" "take c (vb_bytes b1) = take c (vb_bytes buf)"
    using vb_realloc_ok [OF assms(1,3) cn assms(4)] by auto
  have A: "c + length xs \<le> vb_allocated b1" "0 < vb_allocated b1"
    using vb_allocated_realloc [OF assms(1) R(1)] assms(2,5) by auto
  from vb_write_ok [OF A] obtain b where W: "vb_write b1 c xs = Inr b" by blast
  show thesis
  proof (rule that [of b])
    show "c + n \<le> vb_allocated b" using vb_write_allocated [OF W] A assms(5) by simp
    show "take (c + n) (vb_bytes b) = take c (vb_bytes buf) @ xs" using vb_write_take [OF W] R(2) assms(5) by simp
    show "stream_run ps f st c n buf (xs @ ys) =
      bindR (f st (c + n) b) (\<lambda>(st', cmd). case cmd of
          Extend k \<Rightarrow> stream_run ps f st' (c + n) k b ys | Restart k \<Rightarrow> stream_run ps f st' 0 k b ys)"
      using R(1) W assms by (simp add: stream_run.simps [of ps f st c n buf])
  qed
qed

lemma stream_run_frame:
  assumes "0 < ps" and "0 < n" and "0 < vb_allocated buf" and "length xs = n"
  obtains b where "vb_allocated b \<ge> n" "take n (vb_bytes b) = xs"
    "stream_run ps f st 0 n buf (xs @ ys) =
      bindR (f st n b) (\<lambda>(st', cmd). case cmd of
          Extend k \<Rightarrow> stream_run ps f st' n k b ys | Restart k \<Rightarrow> stream_run ps f st' 0 k b ys)"
  by (rule stream_run_frame_at [OF assms(1-3) le0 assms(4), of f st ys, unfolded add_0 take0 append_Nil]) (rule that)

lemma rb_new_simps [simp]:
  "rb_cursor (rb_new ps n) = 0" "rb_to_read (rb_new ps n) = n" "rb_pending (rb_new ps n) = []"
  by (simp_all add: rb_new_def rb_pending_def)

lemma rb_new_allocated: "0 < ps \<Longrightarrow> 0 < vb_allocated (rb_buffer (rb_new ps n))"
  using round_to_page_bounds(2) [of ps "max n 1024"]
  by (auto simp: rb_new_def vb_new_n_def vb_allocated_def max_def)

lemma stream_run_idle:
  assumes "0 < ps" and "0 < n" and "0 < vb_allocated b"
  shows "\<exists>b'. stream_run ps f st 0 n b [] = Inr (st, 0, n, b', [])"
proof -
  obtain b1 where R: "vb_realloc ps n b = Inr b1" using vb_realloc_ok [OF assms(1,3,2), of 0] by auto
  have "0 < vb_allocated b1" using vb_allocated_realloc [OF assms(1) R] assms(2) by simp
  with R assms(2) vb_write_Nil [of b1 0] show ?thesis by (simp add: stream_run.simps [of ps f st 0 n b])
qed

lemma callbacks_seen:
  assumes "\<forall>cs\<in>set evs. \<forall>c\<in>set cs. c \<noteq> []" and "evs \<noteq> []" and "0 < ps"
  shows "seen (callbacks ps f st (rb_new ps n) [] evs) =
    stream_run ps f st 0 n (rb_buffer (rb_new ps n)) (concat (concat evs))"
  using callbacks_stream [OF assms(3) _ assms(1,2), of "[]" f st "rb_new ps n"] by (simp add: data_only_def)

lemma seen_InrD: "seen x = Inr (st, c, n, b, rest) \<Longrightarrow>
    \<exists>rb s. x = Inr (st, rb, s) \<and> rb_cursor rb = c \<and> rb_to_read rb = n \<and> rb_buffer rb = b \<and> rb_pending rb @ avail s = rest"
  by (cases x rule: seen.cases) auto

section \<open>Readers that never fail\<close>

text \<open>
  The contract of a handler towards the loop: \<open>inv st m pre\<close> holds while the handler, in
  state \<open>st\<close>, waits for a frame of \<open>m\<close> bytes of which \<open>pre\<close> is there; on a complete frame it
  announces a frame for which its invariant holds again, or ends with one of the failures
  \<open>errs\<close>. A handler without such failures survives every stream.
\<close>

locale framed_reader =
  fixes ps :: nat and f :: "'s complete" and inv :: "'s \<Rightarrow> nat \<Rightarrow> byte list \<Rightarrow> bool" and errs :: "err set"
  assumes page: "0 < ps"
    and grow: "inv st m pre \<Longrightarrow> length (pre @ xs) \<le> m \<Longrightarrow> inv st m (pre @ xs)"
    and completes: "inv st m pre \<Longrightarrow> length pre = m \<Longrightarrow> 0 < m \<Longrightarrow> take m (vb_bytes buf) = pre \<Longrightarrow>
      (\<exists>st' cmd. f st m buf = Inr (st', cmd) \<and>
        (case cmd of Extend n \<Rightarrow> inv st' (m + n) pre | Restart n \<Rightarrow> inv st' n [])) \<or>
      (\<exists>e\<in>errs. f st m buf = Inl e)"
begin

definition ready :: "'s \<Rightarrow> nat \<Rightarrow> nat \<Rightarrow> vbuf \<Rightarrow> bool" where
  "ready st c n buf \<longleftrightarrow> inv st (c + n) (take c (vb_bytes buf)) \<and> c \<le> vb_allocated buf \<and> 0 < vb_allocated buf"

lemma run_total:
  "ready st c n buf \<Longrightarrow> (\<exists>st' c' n' buf' rest.
     stream_run ps f st c n buf bytes = Inr (st', c', n', buf', rest) \<and> ready st' c' n' buf') \<or>
     (\<exists>e\<in>errs. stream_run ps f st c n buf bytes = Inl e)"
proof (induction bytes arbitrary: st c n buf rule: length_induct)
  case (1 bytes)
  note S = stream_run.simps [of ps f st c n buf bytes]
  show ?case
  proof (cases "n = 0")
    case True
    with "1.prems" show ?thesis by simp
  next
    case False
    from "1.prems" have R: "inv st (c + n) (take c (vb_bytes buf))" "c \<le> vb_allocated buf" "0 < vb_allocated buf"
      by (simp_all add: ready_def)
    obtain b1 where b1: "vb_realloc ps (c + n) buf = Inr b1" "take c (vb_bytes b1) = take c (vb_bytes buf)"
      using vb_realloc_ok [OF page R(3) _ R(2), of "c + n"] False by auto
    define xs where "xs = take n bytes"
    have xs: "length xs \<le> n" by (simp add: xs_def)
    have A: "c + length xs \<le> vb_allocated b1" "0 < vb_allocated b1"
      using vb_allocated_realloc [OF page b1(1)] xs False by auto
    from vb_write_ok [OF A] obtain b2 where W: "vb_write b1 c xs = Inr b2" by blast
    note T = vb_write_take [OF W, unfolded b1(2)] and L = vb_write_allocated [OF W]
    have lc: "length (take c (vb_bytes buf)) = c" using R(2) by (simp add: vb_allocated_def)
    have I: "inv st (c + n) (take (c + length xs) (vb_bytes b2))"
      unfolding T by (rule grow [OF R(1)]) (use lc xs in simp)
    show ?thesis
    proof (cases "length bytes < n")
      case True
      then have "xs = bytes" by (simp add: xs_def)
      with True False b1 W I L A show ?thesis by (simp add: S ready_def)
    next
      case ge: False
      then have lx: "length xs = n" by (simp add: xs_def)
      have l2: "length (take (c + n) (vb_bytes b2)) = c + n" using A L lx by (simp add: vb_allocated_def)
      consider (err) e where "e \<in> errs" "f st (c + n) b2 = Inl e"
        | (ok) st' cmd where "f st (c + n) b2 = Inr (st', cmd)"
          "case cmd of Extend k \<Rightarrow> inv st' (c + n + k) (take (c + n) (vb_bytes b2)) | Restart k \<Rightarrow> inv st' k []"
        using completes [OF I [unfolded lx] l2 _ refl] False by auto
      then show ?thesis
      proof cases
        case err
        with W b1 ge False show ?thesis by (simp add: S xs_def)
      next
        case F: ok
        note C = F(2)
        have dl: "length (drop n bytes) < length bytes" using ge False by simp
        show ?thesis
        proof (cases cmd)
          case (Extend k)
          then have "ready st' (c + n) k b2" using C A L lx by (simp add: ready_def)
          with "1.IH" dl Extend F(1) W b1 ge False show ?thesis by (simp add: S xs_def)
        next
          case (Restart k)
          then have "ready st' 0 k b2" using C A L by (simp add: ready_def)
          with "1.IH" dl Restart F(1) W b1 ge False show ?thesis by (simp add: S xs_def)
        qed
      qed
    qed
  qed
qed

lemma loop_total:
  assumes "ready st (rb_cursor rb) (rb_to_read rb) (rb_buffer rb)"
  shows "(\<exists>st' rb' s' r. read_loop ps f st rb s = Inr (st', rb', s', r) \<and>
    ready st' (rb_cursor rb') (rb_to_read rb') (rb_buffer rb') \<and>
    (r = None \<longleftrightarrow> \<not> rb_hungry rb')) \<or> (\<exists>e\<in>errs. read_loop ps f st rb s = Inl e)"
proof -
  let ?run = "stream_run ps f st (rb_cursor rb) (rb_to_read rb) (rb_buffer rb) (rb_pending rb @ avail s)"
  consider (ok) st' c n buf rest where "?run = Inr (st', c, n, buf, rest)" "ready st' c n buf"
    | (err) e where "e \<in> errs" "?run = Inl e"
    using run_total [OF assms, of "rb_pending rb @ avail s"] by blast
  then show ?thesis
  proof cases
    case ok
    with read_loop_stream [OF page, of s f st rb] show ?thesis
      by (cases "read_loop ps f st rb s") (auto simp: agrees_def rb_hungry_def split: if_splits)
  next
    case err
    with read_loop_stream [OF page, of s f st rb] show ?thesis
      by (cases "read_loop ps f st rb s") (auto simp: agrees_def)
  qed
qed

text \<open>Once a handler has announced an empty frame it never reads again.\<close>

lemma wedged: "rb_to_read rb = 0 \<Longrightarrow> read_loop ps f st rb s = Inr (st, rb, s, None)"
  by (simp add: read_loop.simps rb_hungry_def)

lemma schedule_independent:
  assumes "\<forall>cs\<in>set evs. \<forall>c\<in>set cs. c \<noteq> []" and "\<forall>cs\<in>set evs'. \<forall>c\<in>set cs. c \<noteq> []"
    and "evs \<noteq> []" and "evs' \<noteq> []" and "concat (concat evs) = concat (concat evs')"
  shows "seen (callbacks ps f st rb [] evs) = seen (callbacks ps f st rb [] evs')"
  using callbacks_stream [OF page, of "[]" _ f st rb] assms by (simp add: data_only_def)

lemma callbacks_total:
  "ready st (rb_cursor rb) (rb_to_read rb) (rb_buffer rb) \<Longrightarrow> (\<exists>st' rb' s'.
     callbacks ps f st rb s evs = Inr (st', rb', s') \<and>
     ready st' (rb_cursor rb') (rb_to_read rb') (rb_buffer rb')) \<or> (\<exists>e\<in>errs. callbacks ps f st rb s evs = Inl e)"
proof (induction evs arbitrary: st rb s)
  case (Cons cs evs)
  from loop_total [OF Cons.prems, of "s @ map RecvData cs"] show ?case
  proof (elim disjE exE conjE bexE)
    fix st' rb' s' r
    assume "read_loop ps f st rb (s @ map RecvData cs) = Inr (st', rb', s', r)"
      and "ready st' (rb_cursor rb') (rb_to_read rb') (rb_buffer rb')"
    with Cons.IH [of st' rb' s'] show ?case by simp
  qed auto
qed simp

end

text \<open>
  The contract of a handler that is never done: in a live state it always announces another frame,
  so the loop only stops because the socket has nothing more.
\<close>

locale hungry_reader =
  fixes f :: "'s complete" and live :: "'s \<Rightarrow> bool"
  assumes asks: "live st \<Longrightarrow> f st m buf = Inr (st', cmd) \<Longrightarrow> live st' \<and> (case cmd of Extend n \<Rightarrow> 0 < n | Restart n \<Rightarrow> 0 < n)"
begin

lemma run_hungry:
  "stream_run ps f st c n buf bytes = Inr (st', c', n', buf', rest) \<Longrightarrow> live st \<Longrightarrow> 0 < n \<Longrightarrow> live st' \<and> 0 < n'"
proof (induction bytes arbitrary: st c n buf rule: measure_induct_rule [of length])
  case (less bytes)
  show ?case
  proof (cases "length bytes < n")
    case True
    with less.prems show ?thesis by (auto simp: stream_run.simps [of ps f st c n buf bytes] bindR_Inr_iff)
  next
    case False
    with less.prems(1,3) obtain b2 st1 cmd where F: "f st (c + n) b2 = Inr (st1, cmd)"
      "(case cmd of Extend m \<Rightarrow> stream_run ps f st1 (c + n) m b2 (drop n bytes)
        | Restart m \<Rightarrow> stream_run ps f st1 0 m b2 (drop n bytes)) = Inr (st', c', n', buf', rest)"
      by (auto simp: stream_run.simps [of ps f st c n buf bytes] bindR_Inr_iff)
    have dl: "length (drop n bytes) < length bytes" using False less.prems(3) by simp
    show ?thesis using less.IH [OF dl] F(2) asks [OF less.prems(2) F(1)] by (cases cmd) auto
  qed
qed

lemma loop_hungry:
  assumes "0 < ps" and "live st" and "rb_to_read rb \<noteq> 0" and "read_loop ps f st rb s = Inr (st', rb', s', r)"
  shows "live st'" "rb_to_read rb' \<noteq> 0"
proof -
  obtain c n b rest where "stream_run ps f st (rb_cursor rb) (rb_to_read rb) (rb_buffer rb) (rb_pending rb @ avail s) = Inr (st', c, n, b, rest)"
    "rb_to_read rb' = n"
    using read_loop_stream [OF assms(1), of s f st rb] assms(4) by (auto simp: agrees_def split: sum.splits)
  with run_hungry assms(2,3) show "live st'" "rb_to_read rb' \<noteq> 0" by blast+
qed

end

end
