(* ===== verification/Write_Buffer.thy ===== *)
theory Write_Buffer
  imports Wrapped_Buffer Sys_IO
begin

text \<open>
  \<^verbatim>\<open>write_buffer\<close> (\<^verbatim>\<open>shared/src/write_buffer.cpp\<close>), the queue of buffers every writing handler
  empties into its socket, and the loop around it. The abstract content of a queue is the
  list of bytes still to be written; appending adds at its end, writing takes from its
  front, and nothing is lost, repeated or reordered under any interleaving.
\<close>

section \<open>The class\<close>

record buffer_container =
  bc_cursor :: nat
  bc_writable :: nat
  bc_buffer :: vbuf

record wbuf =
  wq_to_write :: nat
  wq_buffers :: "buffer_container list"

definition wq_new :: wbuf where
  "wq_new = \<lparr>wq_to_write = 0, wq_buffers = []\<rparr>"

text \<open>\<^verbatim>\<open>buffer_container(wrapped_buffer, len)\<close> and \<^verbatim>\<open>buffer_container(ptr, len)\<close>.\<close>

definition bc_of_buf :: "vbuf \<Rightarrow> nat \<Rightarrow> buffer_container res" where
  "bc_of_buf b len =
     bindR (assertR (vb_allocated b \<ge> len)) (\<lambda>_.
     Inr \<lparr>bc_cursor = 0, bc_writable = len, bc_buffer = b\<rparr>)"

definition bc_of_ptr :: "nat \<Rightarrow> byte list \<Rightarrow> buffer_container res" where
  "bc_of_ptr ps bs =
     bindR (vb_write (vb_new_n ps (length bs)) 0 bs) (\<lambda>b.
     Inr \<lparr>bc_cursor = 0, bc_writable = length bs, bc_buffer = b\<rparr>)"

definition wq_append :: "nat \<Rightarrow> byte list \<Rightarrow> wbuf \<Rightarrow> wbuf res" where
  "wq_append ps bs wq =
     bindR (bc_of_ptr ps bs) (\<lambda>c.
     Inr \<lparr>wq_to_write = wq_to_write wq + length bs, wq_buffers = wq_buffers wq @ [c]\<rparr>)"

definition wq_append_buf :: "vbuf \<Rightarrow> nat \<Rightarrow> wbuf \<Rightarrow> wbuf res" where
  "wq_append_buf b len wq =
     bindR (assertR (vb_allocated b \<ge> len)) (\<lambda>_.
     bindR (bc_of_buf b len) (\<lambda>c.
     Inr \<lparr>wq_to_write = wq_to_write wq + len, wq_buffers = wq_buffers wq @ [c]\<rparr>))"

definition wq_get_to_write :: "wbuf \<Rightarrow> nat res" where
  "wq_get_to_write wq =
     bindR (assertR (wq_to_write wq = 0 \<or> wq_buffers wq \<noteq> [])) (\<lambda>_. Inr (wq_to_write wq))"

text \<open>
  \<^verbatim>\<open>do_write(fd, size)\<close>: the front container alone is offered to \<^verbatim>\<open>write\<close>; \<open>sz\<close> only has
  to be positive.
\<close>

definition wq_do_write_n :: "nat \<Rightarrow> wbuf \<Rightarrow> sock_out \<Rightarrow> ((io_ret \<times> bool) \<times> wbuf \<times> sock_out) res" where
  "wq_do_write_n sz wq out =
     bindR (assertR (sz \<noteq> 0)) (\<lambda>_.
     case wq_buffers wq of
       [] \<Rightarrow> Inl Assert_Fail
     | cur # rest \<Rightarrow>
         let min_write = min (wq_to_write wq) (bc_writable cur - bc_cursor cur) in
         bindR (vb_const_ptr (bc_buffer cur)) (\<lambda>p.
         bindR (rd p (bc_cursor cur) min_write) (\<lambda>bs.
         let (r, out') = sys_write bs out;
             n = ret_count r;
             cur' = cur\<lparr>bc_cursor := bc_cursor cur + n\<rparr>;
             tw = wq_to_write wq - n;
             bufs = (if bc_cursor cur' = bc_writable cur' then rest else cur' # rest) in
         bindR (assertR (tw = 0 \<or> bufs \<noteq> [])) (\<lambda>_.
         Inr ((r, tw = 0), \<lparr>wq_to_write = tw, wq_buffers = bufs\<rparr>, out')))))"

definition wq_do_write :: "wbuf \<Rightarrow> sock_out \<Rightarrow> ((io_ret \<times> bool) \<times> wbuf \<times> sock_out) res" where
  "wq_do_write wq out = wq_do_write_n (wq_to_write wq) wq out"

section \<open>Contents and invariant\<close>

definition bc_pend :: "buffer_container \<Rightarrow> byte list" where
  "bc_pend c = take (bc_writable c - bc_cursor c) (drop (bc_cursor c) (vb_bytes (bc_buffer c)))"

definition wq_pend :: "wbuf \<Rightarrow> byte list" where
  "wq_pend wq = concat (map bc_pend (wq_buffers wq))"

definition bc_ok :: "buffer_container \<Rightarrow> bool" where
  "bc_ok c \<longleftrightarrow> bc_cursor c < bc_writable c \<and> bc_writable c \<le> vb_allocated (bc_buffer c)"

definition wq_ok :: "wbuf \<Rightarrow> bool" where
  "wq_ok wq \<longleftrightarrow> (\<forall>c\<in>set (wq_buffers wq). bc_ok c) \<and> wq_to_write wq = length (wq_pend wq)"

lemma bc_pend_length: "bc_ok c \<Longrightarrow> length (bc_pend c) = bc_writable c - bc_cursor c"
  by (auto simp: bc_ok_def bc_pend_def vb_allocated_def)

lemma wq_pend_empty: "wq_ok wq \<Longrightarrow> wq_buffers wq = [] \<longleftrightarrow> wq_to_write wq = 0"
  by (cases "wq_buffers wq") (auto simp: wq_ok_def wq_pend_def bc_ok_def bc_pend_def vb_allocated_def)

lemma wq_new_ok [simp]: "wq_ok wq_new" "wq_pend wq_new = []"
  by (simp_all add: wq_new_def wq_ok_def wq_pend_def)

lemma wq_get_to_write_ok: "wq_ok wq \<Longrightarrow> wq_get_to_write wq = Inr (wq_to_write wq)"
  using wq_pend_empty [of wq] by (auto simp: wq_get_to_write_def assertR_def)

lemma wq_append_buf_ok:
  assumes "wq_ok wq" and "0 < len" and "len \<le> vb_allocated b"
  shows "\<exists>wq'. wq_append_buf b len wq = Inr wq' \<and> wq_ok wq' \<and> wq_pend wq' = wq_pend wq @ take len (vb_bytes b)"
  using assms
  by (auto simp: wq_append_buf_def bc_of_buf_def wq_ok_def wq_pend_def bc_ok_def bc_pend_def vb_allocated_def)

lemma vb_new_n_write:
  assumes "0 < ps" and "bs \<noteq> []"
  shows "\<exists>b. vb_write (vb_new_n ps (length bs)) 0 bs = Inr b \<and> length bs \<le> vb_allocated b \<and> take (length bs) (vb_bytes b) = bs"
  using assms round_to_page_bounds(1) [OF assms(1), of "length bs"]
  by (auto simp: vb_new_n_def wr_def vb_allocated_def)

lemma wq_append_ok:
  assumes "0 < ps" and "wq_ok wq" and "bs \<noteq> []"
  shows "\<exists>wq'. wq_append ps bs wq = Inr wq' \<and> wq_ok wq' \<and> wq_pend wq' = wq_pend wq @ bs"
proof -
  obtain b where "vb_write (vb_new_n ps (length bs)) 0 bs = Inr b" "length bs \<le> vb_allocated b"
    "take (length bs) (vb_bytes b) = bs" using vb_new_n_write [OF assms(1,3)] by blast
  with assms show ?thesis
    by (auto simp: wq_append_def bc_of_ptr_def wq_ok_def wq_pend_def bc_ok_def bc_pend_def)
qed

text \<open>Appending an empty array dereferences the null buffer of \<^verbatim>\<open>wrapped_buffer(0)\<close>.\<close>

lemma wq_append_empty: "wq_append ps [] wq = Inl Invalid_Buffer"
  by (simp add: wq_append_def bc_of_ptr_def vb_new_n_def)

lemma bc_advance:
  assumes "bc_ok c" and "n \<le> bc_writable c - bc_cursor c"
  shows "bc_pend c = take n (drop (bc_cursor c) (vb_bytes (bc_buffer c))) @ bc_pend (c\<lparr>bc_cursor := bc_cursor c + n\<rparr>)"
proof -
  let ?d = "drop (bc_cursor c) (vb_bytes (bc_buffer c))" and ?m = "bc_writable c - bc_cursor c"
  have "take ?m ?d = take n ?d @ take (?m - n) (drop n ?d)"
    using assms(2) by (metis le_add_diff_inverse take_add)
  then show ?thesis by (simp add: bc_pend_def add.commute)
qed

lemma wq_do_write_ok:
  assumes "wq_ok wq" and "wq_to_write wq \<noteq> 0"
  shows "\<exists>r wq' out' bs. wq_do_write wq out = Inr ((r, wq_to_write wq' = 0), wq', out') \<and> wq_ok wq' \<and>
    so_written out' = so_written out @ bs \<and> wq_pend wq = bs @ wq_pend wq' \<and>
    (positive r \<longrightarrow> wq_to_write wq' < wq_to_write wq) \<and> (\<not> positive r \<longrightarrow> wq' = wq)"
proof -
  obtain cur rest where b: "wq_buffers wq = cur # rest"
    using wq_pend_empty [OF assms(1)] assms(2) by (cases "wq_buffers wq") auto
  have ok: "bc_ok cur" "\<forall>c\<in>set rest. bc_ok c" using assms(1) b by (auto simp: wq_ok_def)
  let ?m = "bc_writable cur - bc_cursor cur" and ?p = "vb_bytes (bc_buffer cur)"
  have tw: "wq_to_write wq = ?m + length (concat (map bc_pend rest))"
    using assms(1) b bc_pend_length [OF ok(1)] by (simp add: wq_ok_def wq_pend_def)
  have cp: "vb_const_ptr (bc_buffer cur) = Inr ?p" "bc_cursor cur + ?m \<le> length ?p" "0 < ?m"
    using ok(1) by (auto simp: bc_ok_def vb_const_ptr_def vb_allocated_def)
  obtain r out' where W: "sys_write (take ?m (drop (bc_cursor cur) ?p)) out = (r, out')" by fastforce
  define n where "n = ret_count r"
  have n: "n \<le> ?m" "so_written out' = so_written out @ take n (drop (bc_cursor cur) ?p)" "positive r \<longleftrightarrow> 0 < n"
    using sys_write_spec [OF W] cp(2) by (auto simp: n_def min_absorb1 positive_count)
  let ?cur = "cur\<lparr>bc_cursor := bc_cursor cur + n\<rparr>"
  define bufs where "bufs = (if bc_cursor ?cur = bc_writable ?cur then rest else ?cur # rest)"
  let ?wq = "\<lparr>wq_to_write = wq_to_write wq - n, wq_buffers = bufs\<rparr>"
  have pend: "concat (map bc_pend bufs) = bc_pend ?cur @ concat (map bc_pend rest)"
    by (auto simp: bufs_def bc_pend_def)
  have okc: "\<forall>c\<in>set bufs. bc_ok c" using ok n(1) by (auto simp: bufs_def bc_ok_def)
  have lc: "length (bc_pend cur) = n + length (bc_pend ?cur)"
    using bc_advance [OF ok(1) n(1)] n(1) cp(2) by (auto simp: min_def)
  have "wq_ok ?wq" using okc tw bc_pend_length [OF ok(1)] lc by (simp add: wq_ok_def wq_pend_def pend)
  moreover have "wq_pend wq = take n (drop (bc_cursor cur) ?p) @ wq_pend ?wq"
    using bc_advance [OF ok(1) n(1)] by (simp add: wq_pend_def pend b)
  moreover have "wq_do_write wq out = Inr ((r, wq_to_write ?wq = 0), ?wq, out')"
    using wq_pend_empty [OF \<open>wq_ok ?wq\<close>] b cp W tw assms(2)
    by (auto simp: wq_do_write_def wq_do_write_n_def Let_def rd_def n_def bufs_def assertR_def)
  moreover have "wq_to_write ?wq < wq_to_write wq" if "positive r" using that n tw assms(2) by simp
  moreover have "?wq = wq" if "\<not> positive r"
    using that n(3) ok(1) b by (auto simp: bufs_def bc_ok_def)
  ultimately show ?thesis using n(2) by blast
qed

section \<open>The write loop\<close>

text \<open>
  \<^verbatim>\<open>while (write_queue.to_write() && r > 0) \{ ... do_write(fd) ... \}\<close>, the loop of every
  writing handler. The result says with which return value the loop ended; it is \<open>None\<close>
  when the queue is empty.
\<close>

lemma wq_do_write_decreases:
  assumes "wq_do_write wq out = Inr (res, wq', out')" and "positive (fst res)" and "wq_to_write wq \<noteq> 0"
  shows "wq_to_write wq' < wq_to_write wq"
  using assms
  by (auto simp: wq_do_write_def wq_do_write_n_def bindR_Inr_iff Let_def case_prod_beta'
      positive_count split: list.splits)

function write_loop :: "wbuf \<Rightarrow> sock_out \<Rightarrow> (io_ret option \<times> wbuf \<times> sock_out) res" where
  "write_loop wq out =
     bindR (wq_get_to_write wq) (\<lambda>tw.
     if tw = 0 then Inr (None, wq, out)
     else
       bindR (wq_do_write wq out) (\<lambda>(res, wq', out').
       if positive (fst res) then write_loop wq' out' else Inr (Some (fst res), wq', out')))"
  by pat_completeness auto
termination
  by (relation "measure (\<lambda>(wq, out). wq_to_write wq)")
    (auto simp: wq_get_to_write_def res_simps intro: wq_do_write_decreases)

declare write_loop.simps [simp del]

lemma write_loop_ok:
  assumes "wq_ok wq"
  shows "\<exists>r wq' out' bs. write_loop wq out = Inr (r, wq', out') \<and> wq_ok wq' \<and>
    so_written out' = so_written out @ bs \<and> wq_pend wq = bs @ wq_pend wq' \<and> (r = None \<longleftrightarrow> wq_pend wq' = []) \<and>
    (\<forall>q. r = Some q \<longrightarrow> \<not> positive q)"
  using assms
proof (induction wq out rule: write_loop.induct)
  case (1 wq out)
  note L = write_loop.simps [of wq out] and G = wq_get_to_write_ok [OF "1.prems"]
  have len: "wq_to_write wq = length (wq_pend wq)" using "1.prems" by (simp add: wq_ok_def)
  show ?case
  proof (cases "wq_to_write wq = 0")
    case True
    with "1.prems" len show ?thesis by (simp add: L G)
  next
    case False
    obtain r wq' out' bs where D: "wq_do_write wq out = Inr ((r, wq_to_write wq' = 0), wq', out')" and ok: "wq_ok wq'"
      and P: "so_written out' = so_written out @ bs" "wq_pend wq = bs @ wq_pend wq'" "\<not> positive r \<longrightarrow> wq' = wq"
      using wq_do_write_ok [OF "1.prems" False, of out] by blast
    show ?thesis
    proof (cases "positive r")
      case True
      from "1.IH" [OF G False D refl refl _ ok] True obtain r' wq2 out2 bs2 where
        "write_loop wq' out' = Inr (r', wq2, out2)" "wq_ok wq2" "so_written out2 = so_written out' @ bs2"
        "wq_pend wq' = bs2 @ wq_pend wq2" "r' = None \<longleftrightarrow> wq_pend wq2 = []" "\<forall>q. r' = Some q \<longrightarrow> \<not> positive q"
        by auto
      with P True False show ?thesis by (auto simp: L G D)
    next
      case F: False
      with P ok len False show ?thesis by (simp add: L G D)
    qed
  qed
qed

section \<open>Byte queues\<close>

text \<open>
  The interface a writing component relies on: \<open>push\<close> adds bytes at the end, \<open>drain\<close> moves
  bytes from the front to the socket. Whatever the order of pushes, drains and partial
  writes, the socket has received a prefix of what was pushed and the queue holds the rest.
\<close>

datatype qop = Push "byte list" | Drain

locale byte_queue =
  fixes ok :: "'q \<Rightarrow> bool" and pend :: "'q \<Rightarrow> byte list"
    and push :: "byte list \<Rightarrow> 'q \<Rightarrow> 'q res"
    and drain :: "'q \<Rightarrow> sock_out \<Rightarrow> (io_ret option \<times> 'q \<times> sock_out) res"
  assumes push_law: "ok q \<Longrightarrow> bs \<noteq> [] \<Longrightarrow> \<exists>q'. push bs q = Inr q' \<and> ok q' \<and> pend q' = pend q @ bs"
    and drain_law: "ok q \<Longrightarrow> \<exists>r q' out'. drain q out = Inr (r, q', out') \<and> ok q' \<and>
      so_written out' @ pend q' = so_written out @ pend q \<and> (r = None \<longleftrightarrow> pend q' = [])"
begin

fun run :: "qop list \<Rightarrow> 'q \<Rightarrow> sock_out \<Rightarrow> ('q \<times> sock_out) res" where
  "run [] q out = Inr (q, out)"
| "run (Push bs # ops) q out = bindR (push bs q) (\<lambda>q'. run ops q' out)"
| "run (Drain # ops) q out = bindR (drain q out) (\<lambda>(r, q', out'). run ops q' out')"

fun pushed :: "qop list \<Rightarrow> byte list" where
  "pushed [] = []"
| "pushed (Push bs # ops) = bs @ pushed ops"
| "pushed (Drain # ops) = pushed ops"

lemma run_fifo:
  "ok q \<Longrightarrow> Push [] \<notin> set ops \<Longrightarrow> \<exists>q' out'. run ops q out = Inr (q', out') \<and> ok q' \<and>
     so_written out' @ pend q' = so_written out @ pend q @ pushed ops"
proof (induction ops arbitrary: q out)
  case (Cons op ops)
  show ?case
  proof (cases op)
    case (Push bs)
    with Cons.prems push_law [of q bs] obtain q1 where "push bs q = Inr q1" "ok q1" "pend q1 = pend q @ bs" by auto
    with Cons.IH [of q1 out] Cons.prems Push show ?thesis by simp
  next
    case Drain
    obtain r q1 out1 where D: "drain q out = Inr (r, q1, out1)" "ok q1"
      and eq: "so_written out1 @ pend q1 = so_written out @ pend q"
      using drain_law [OF Cons.prems(1), of out] by blast
    have "so_written out1 @ pend q1 @ pushed ops = so_written out @ pend q @ pushed ops"
      using arg_cong [OF eq, of "\<lambda>xs. xs @ pushed ops"] by simp
    with D Cons.IH [of q1 out1] Cons.prems Drain show ?thesis by simp
  qed
qed simp

lemma run_prefix:
  "ok q \<Longrightarrow> pend q = [] \<Longrightarrow> Push [] \<notin> set ops \<Longrightarrow> so_written out = [] \<Longrightarrow>
     \<exists>q' out'. run ops q out = Inr (q', out') \<and> pushed ops = so_written out' @ pend q'"
  using run_fifo [of q ops out] by force

end

interpretation wq: byte_queue wq_ok wq_pend "wq_append (Suc p)" write_loop for p
proof
  show "\<exists>q'. wq_append (Suc p) bs q = Inr q' \<and> wq_ok q' \<and> wq_pend q' = wq_pend q @ bs"
    if "wq_ok q" "bs \<noteq> []" for q bs
    using wq_append_ok [of "Suc p" q bs] that by simp
  show "\<exists>r q' out'. write_loop q out = Inr (r, q', out') \<and> wq_ok q' \<and>
      so_written out' @ wq_pend q' = so_written out @ wq_pend q \<and> (r = None \<longleftrightarrow> wq_pend q' = [])"
    if "wq_ok q" for q out
    using write_loop_ok [OF that, of out] by (metis append.assoc)
qed

end
