(* ===== verification/Bitcoin_Msg.thy ===== *)
theory Bitcoin_Msg
  imports Prelude
begin

text \<open>
  Socket addresses and the messages of the Bitcoin protocol (\<^verbatim>\<open>shared/src/bitcoin.cpp\<close>,
  \<^verbatim>\<open>shared/includes/bitcoin.hpp\<close>). A \<^verbatim>\<open>struct sockaddr_storage\<close> is its 128 bytes of memory, with
  the fields of \<^verbatim>\<open>sockaddr_in\<close> and \<^verbatim>\<open>sockaddr_in6\<close> at their offsets on Linux. The hash function
  of \<^verbatim>\<open>crypto.cpp\<close> is OpenSSL's and enters as the parameter \<open>sha256\<close>; uninitialised memory is a
  parameter too.
\<close>

section \<open>Socket addresses\<close>

type_synonym sockaddr = "byte list"

definition AF_INET :: u16 where "AF_INET = 2"
definition AF_INET6 :: u16 where "AF_INET6 = 10"

definition ss_family :: "sockaddr \<Rightarrow> u16" where "ss_family ss = get16 (field 0 2 ss)"
definition sin_port :: "sockaddr \<Rightarrow> byte list" where "sin_port ss = field 2 2 ss"
definition sin_addr :: "sockaddr \<Rightarrow> byte list" where "sin_addr ss = field 4 4 ss"
definition sin6_port :: "sockaddr \<Rightarrow> byte list" where "sin6_port ss = field 2 2 ss"
definition sin6_addr :: "sockaddr \<Rightarrow> byte list" where "sin6_addr ss = field 8 16 ss"

section \<open>Variable-length integers\<close>

definition get_varint_size :: "byte list \<Rightarrow> u8 res" where
  "get_varint_size bytes =
     bindR (rd bytes 0 1) (\<lambda>b.
     let b0 = hd b in
     if b0 < 0xfd then Inr 1
     else if b0 = 0xfd then Inr 3
     else if b0 = 0xfe then Inr 5
     else if b0 = 0xff then Inr 9
     else Inl Assert_Fail)"

definition get_varint :: "byte list \<Rightarrow> (u64 \<times> u8) res" where
  "get_varint buf =
     bindR (get_varint_size buf) (\<lambda>size1.
     if size1 = 1 then bindR (rd buf 0 1) (\<lambda>b. Inr (ucast (hd b), size1))
     else if size1 = 3 then bindR (rd buf 1 2) (\<lambda>b. Inr (ucast (get16 b), size1))
     else if size1 = 5 then bindR (rd buf 1 4) (\<lambda>b. Inr (ucast (get32 b), size1))
     else if size1 = 9 then bindR (rd buf 1 8) (\<lambda>b. Inr (get64 b, size1))
     else Inl Assert_Fail)"

text \<open>The bytes that \<^verbatim>\<open>to_varint\<close> stores; their number is its result.\<close>

definition to_varint :: "u64 \<Rightarrow> byte list" where
  "to_varint val =
     (if val < 0xfd then [ucast val]
      else if val \<le> 0xffff then 0xfd # le16 (ucast val)
      else if val \<le> 0xffffffff then 0xfe # le32 (ucast val)
      else 0xff # le64 val)"

definition var_string :: "byte list \<Rightarrow> byte list" where
  "var_string input = to_varint (of_nat (length input)) @ input"

record inv_vector =
  iv_type :: u32
  iv_hash :: "byte list"

definition inv_bytes :: "inv_vector \<Rightarrow> byte list" where
  "inv_bytes v = le32 (iv_type v) @ iv_hash v"

definition get_inv :: "inv_vector list \<Rightarrow> byte list" where
  "get_inv v = to_varint (of_nat (length v)) @ concat (map inv_bytes v)"

lemma byte_cases_ff:
  assumes "\<not> (b :: byte) < 0xfd" shows "b = 0xfd \<or> b = 0xfe \<or> b = 0xff"
proof -
  have "unat b < 256" "253 \<le> unat b" using assms unat_lt [of b] by (simp_all add: word_less_nat_alt)
  then have "unat b = 253 \<or> unat b = 254 \<or> unat b = 255" by linarith
  then show ?thesis by (simp add: word_unat_eq_iff)
qed

lemma ucast_ucast_small:
  fixes v :: u64
  shows "unat v < 2 ^ 8 \<Longrightarrow> (ucast (ucast v :: u8) :: u64) = v"
    and "unat v < 2 ^ 16 \<Longrightarrow> (ucast (ucast v :: u16) :: u64) = v"
    and "unat v < 2 ^ 32 \<Longrightarrow> (ucast (ucast v :: u32) :: u64) = v"
  by (simp_all add: word_unat_eq_iff unsigned_ucast_eq unsigned_take_bit_eq take_bit_nat_eq_self_iff)

lemma varint_round_trip: "get_varint (to_varint v @ rest) = Inr (v, of_nat (length (to_varint v)))"
proof -
  have u: "unat v < 2 ^ 64" using unat_lt [of v] by simp
  consider (a) "v < 0xfd" | (b) "\<not> v < 0xfd" "v \<le> 0xffff" | (c) "\<not> v \<le> 0xffff" "v \<le> 0xffffffff"
    | (d) "\<not> v \<le> 0xffffffff" by blast
  then show ?thesis
  proof cases
    case a
    then have s: "unat v < 0xfd" by (simp add: word_less_nat_alt)
    then have "(ucast v :: byte) < 0xfd"
      by (simp add: word_less_nat_alt unsigned_ucast_eq unsigned_take_bit_eq take_bit_nat_eq_self)
    with a s ucast_ucast_small(1) [of v] show ?thesis
      by (simp add: to_varint_def get_varint_def get_varint_size_def rd_def)
  next
    case b
    then have "unat v < 2 ^ 16" by (simp add: word_le_nat_alt)
    with b ucast_ucast_small(2) [of v] show ?thesis
      by (simp add: to_varint_def get_varint_def get_varint_size_def rd_def)
  next
    case c
    then have "unat v < 2 ^ 32" "\<not> v < 0xfd" by (simp_all add: word_le_nat_alt word_less_nat_alt)
    with c ucast_ucast_small(3) [of v] show ?thesis
      by (simp add: to_varint_def get_varint_def get_varint_size_def rd_def)
  next
    case d
    then have "\<not> v < 0xfd" "\<not> v \<le> 0xffff" by (simp_all add: word_le_nat_alt word_less_nat_alt)
    with d show ?thesis by (simp add: to_varint_def get_varint_def get_varint_size_def rd_def)
  qed
qed

section \<open>Network addresses\<close>

definition SERVICES :: u64 where "SERVICES = 1"
definition MAX_VERSION :: u32 where "MAX_VERSION = 70002"

text \<open>
  \<^verbatim>\<open>struct version_packed_net_addr\<close> is 26 bytes: services at 0, the address at 8, the port at 24.
  \<open>dest\<close> is the memory before the call.
\<close>

definition set_address :: "byte list \<Rightarrow> sockaddr \<Rightarrow> byte list" where
  "set_address dest src =
     (let d1 = put 0 (le64 SERVICES) dest;
          d2 = put 0 (zeros (26 - 8 - 2)) d1 in
      if ss_family src = AF_INET then
        put 24 (sin_port src) (put 20 (sin_addr src) (put (8 + 11) [0xFF] (put (8 + 10) [0xFF] d2)))
      else if ss_family src = AF_INET6 then
        put 24 (sin6_port src) (put 8 (sin6_addr src) d2)
      else d2)"

section \<open>The version message\<close>

text \<open>
  \<^verbatim>\<open>struct combined_version\<close>: the prefix is 80 bytes, the suffix 5, the user agent in between;
  \<open>mem\<close> is what \<^verbatim>\<open>operator new\<close> returned. The result carries \<^verbatim>\<open>g_last_block\<close>.
\<close>

definition version_size :: "nat \<Rightarrow> nat" where
  "version_size agent_length = 80 + agent_length + 5"

definition get_version :: "byte list \<Rightarrow> sockaddr \<Rightarrow> sockaddr \<Rightarrow> u64 \<Rightarrow> u64 \<Rightarrow> u32 \<Rightarrow> u32 \<Rightarrow> byte list
    \<Rightarrow> byte list \<times> u32" where
  "get_version user_agent from_addr recv_addr now nonce cfg_start_height g_last_block mem =
     (let bitcoin_agent = var_string user_agent;
          n = length bitcoin_agent;
          m0 = take (version_size n) mem;
          m1 = put 0 (le32 MAX_VERSION) m0;
          m2 = put 4 (le64 SERVICES) m1;
          m3 = put 12 (le64 now) m2;
          m4 = put 20 (set_address (field 20 26 m3) recv_addr) m3;
          m5 = put 46 (set_address (field 46 26 m4) from_addr) m4;
          m6 = put 72 (le64 nonce) m5;
          m7 = put 80 bitcoin_agent m6;
          g = (if g_last_block = 0 then cfg_start_height else g_last_block);
          m8 = put (80 + n) (le32 g) m7;
          m9 = put (80 + n + 4) [1] m8 in
      (m9, g))"

section \<open>Messages\<close>

record packed_message =
  pm_magic :: u32
  pm_command :: "byte list"
  pm_length :: u32
  pm_checksum :: u32
  pm_payload :: "byte list"

definition pm_bytes :: "packed_message \<Rightarrow> byte list" where
  "pm_bytes m = le32 (pm_magic m) @ pm_command m @ le32 (pm_length m) @ le32 (pm_checksum m) @ pm_payload m"

text \<open>Fields of a message that lies in a buffer.\<close>

definition msg_command :: "byte list \<Rightarrow> byte list" where "msg_command bs = field 4 12 bs"
definition msg_length :: "byte list \<Rightarrow> nat" where "msg_length bs = unat (get32 (field 16 4 bs))"

definition compute_checksum :: "(byte list \<Rightarrow> byte list) \<Rightarrow> byte list \<Rightarrow> u32" where
  "compute_checksum sha256 payload = get32 (take 4 (sha256 (sha256 payload)))"

text \<open>\<^verbatim>\<open>bzero\<close> and \<^verbatim>\<open>strncpy\<close> of the command.\<close>

definition strncpy12 :: "byte list \<Rightarrow> byte list" where
  "strncpy12 s = take 12 s @ zeros (12 - length s)"

definition get_message :: "(byte list \<Rightarrow> byte list) \<Rightarrow> u32 \<Rightarrow> byte list \<Rightarrow> byte list \<Rightarrow> packed_message" where
  "get_message sha256 magic command payload =
     (let len = of_nat (length payload) :: u32 in
      \<lparr>pm_magic = magic, pm_command = strncpy12 command, pm_length = len,
       pm_checksum = (if len \<noteq> 0 then compute_checksum sha256 payload else 0xe2e0f65d),
       pm_payload = payload\<rparr>)"

lemma length_strncpy12 [simp]: "length (strncpy12 s) = 12"
  by (simp add: strncpy12_def)

lemma pm_bytes_fields:
  assumes "length (pm_command m) = 12"
  shows "length (pm_bytes m) = 24 + length (pm_payload m)"
    and "msg_command (pm_bytes m) = pm_command m"
    and "msg_length (pm_bytes m) = unat (pm_length m)"
    and "drop 24 (pm_bytes m) = pm_payload m"
  using assms by (simp_all add: pm_bytes_def msg_command_def msg_length_def field_def)

lemma get_message_command [simp]: "length (pm_command (get_message sha magic c p)) = 12"
  by (simp add: get_message_def Let_def)

lemma get_message_length:
  "length p < 2 ^ 32 \<Longrightarrow> msg_length (pm_bytes (get_message sha magic c p)) = length p"
  by (simp add: pm_bytes_fields(3)) (simp add: get_message_def Let_def unat_of_nat)

lemma get_message_size: "length (pm_bytes (get_message sha magic c p)) = 24 + length p"
  by (simp add: pm_bytes_fields(1)) (simp add: get_message_def Let_def)

lemma set_address_length:
  assumes "length dest = 26" and "128 \<le> length src"
  shows "length (set_address dest src) = 26"
  using assms
  by (simp add: set_address_def Let_def length_put sin_port_def sin_addr_def sin6_port_def sin6_addr_def length_field)

lemma put_range: "length mem = n \<Longrightarrow> off + length ys \<le> n \<Longrightarrow> length (put off ys mem) = n"
  by (simp add: length_put)

lemma get_version_facts:
  assumes "length mem = version_size (length (var_string ua))" and "128 \<le> length fa" and "128 \<le> length ra"
    and "get_version ua fa ra now nonce cfg g mem = (v, g')"
  shows "length v = version_size (length (var_string ua))"
    and "field (length v - 5) 4 v = le32 g'" and "field 80 (length (var_string ua)) v = var_string ua"
    and "field 0 4 v = le32 MAX_VERSION" and "field 72 8 v = le64 nonce"
    and "g' = (if g = 0 then cfg else g)"
proof -
  let ?n = "length (var_string ua)"
  have lf: "length (set_address (field k 26 m) a) = 26" if "length m = version_size ?n" "k + 26 \<le> 80" "128 \<le> length a" for k m a
    using that by (intro set_address_length) (simp_all add: length_field version_size_def)
  note L = length_put lf version_size_def
  show "length v = version_size ?n" "field (length v - 5) 4 v = le32 g'" "field 80 ?n v = var_string ua"
    "field 0 4 v = le32 MAX_VERSION" "field 72 8 v = le64 nonce" "g' = (if g = 0 then cfg else g)"
    using assms unfolding get_version_def Let_def
    by (auto simp: L field_put_same field_put_other)
qed

section \<open>Properties\<close>

text \<open>
  The decoder reads back every 64-bit value from its encoding, whatever follows in
  the buffer, and reports the encoded size, which is the smallest of the four forms that holds
  the value.
\<close>

theorem varint_decodes_encoding:
  "get_varint (to_varint v @ rest) = Inr (v, of_nat (length (to_varint v))) \<and>
   length (to_varint v) = (if unat v < 253 then 1 else if unat v < 2 ^ 16 then 3 else if unat v < 2 ^ 32 then 5 else 9)"
proof -
  have "v < 0xfd \<longleftrightarrow> unat v < 253" "v \<le> 0xffff \<longleftrightarrow> unat v < 2 ^ 16" "v \<le> 0xffffffff \<longleftrightarrow> unat v < 2 ^ 32"
    by (auto simp: word_less_nat_alt word_le_nat_alt)
  then have "length (to_varint v) =
      (if unat v < 253 then 1 else if unat v < 2 ^ 16 then 3 else if unat v < 2 ^ 32 then 5 else 9)"
    by (simp add: to_varint_def)
  then show ?thesis using varint_round_trip [of v rest] by simp
qed

text \<open>
  The version message has the announced size, carries the variable-length user agent
  behind the 80-byte prefix, and its block height is found five bytes before its end, which is
  where the receiving side looks for it; the height is the last one seen, or the configured one.
\<close>

theorem version_layout:
  assumes "length mem = version_size (length (var_string ua))" and "128 \<le> length fa" and "128 \<le> length ra"
  shows "case get_version ua fa ra now nonce cfg g mem of (v, g') \<Rightarrow>
    length v = 85 + length (var_string ua) \<and> get32 (field (length v - 5) 4 v) = g' \<and>
    g' = (if g = 0 then cfg else g) \<and> field 80 (length (var_string ua)) v = var_string ua"
  using get_version_facts [OF assms, of now nonce cfg g]
  by (cases "get_version ua fa ra now nonce cfg g mem") (auto simp: version_size_def)

theorem version_layout_witness:
  "case get_version [65, 66] (zeros 128) (zeros 128) 1 2 300000 0 (zeros 88) of (v, g') \<Rightarrow>
    length v = 88 \<and> get32 (field 83 4 v) = 300000 \<and> g' = 300000"
proof -
  have l: "length (var_string [65, 66]) = 3" by (simp add: var_string_def to_varint_def)
  have "length (zeros 88) = version_size (length (var_string [65, 66]))" unfolding l by (simp add: version_size_def)
  from version_layout [OF this, where fa = "zeros 128" and ra = "zeros 128" and now = 1 and nonce = 2
      and cfg = 300000 and g = 0] l show ?thesis by auto
qed

text \<open>
  Property C34: every message that is built announces the length of its payload, pads its command
  to twelve bytes, and, for a hash function that maps the empty string as SHA-256 does, carries
  the first four bytes of the double hash, also in the special case of an empty payload.
\<close>

theorem message_well_formed:
  assumes "length payload < 2 ^ 32" and "take 4 (sha256 (sha256 [])) = [0x5d, 0xf6, 0xe0, 0xe2]"
  shows "msg_length (pm_bytes (get_message sha256 magic command payload)) = length payload \<and>
    length (pm_bytes (get_message sha256 magic command payload)) = 24 + length payload \<and>
    msg_command (pm_bytes (get_message sha256 magic command payload)) = take 12 (command @ zeros 12) \<and>
    pm_checksum (get_message sha256 magic command payload) = compute_checksum sha256 payload"
proof -
  have "(of_nat (length payload) :: u32) = 0 \<longleftrightarrow> payload = []"
    using assms(1) by (simp add: word_unat_eq_iff unat_of_nat)
  moreover have "get32 [0x5d, 0xf6, 0xe0, 0xe2] = 0xe2e0f65d" by (simp add: get32_def)
  moreover have "strncpy12 command = take 12 (command @ zeros 12)" by (simp add: strncpy12_def min_def)
  ultimately show ?thesis
    using assms get_message_length [OF assms(1)] get_message_size
    by (auto simp: pm_bytes_fields(2)) (auto simp: get_message_def Let_def compute_checksum_def)
qed

theorem message_well_formed_witness:
  "msg_length (pm_bytes (get_message (\<lambda>x. [0x5d, 0xf6, 0xe0, 0xe2] @ x) 7 [112] [1, 2, 3])) = 3"
  using message_well_formed [of "[1, 2, 3]" "\<lambda>x. [0x5d, 0xf6, 0xe0, 0xe2] @ x" 7 "[112]"] by simp

text \<open>
  \<^verbatim>\<open>set_address\<close> clears from the start of the structure instead of from the address, so
  the services field is always sent as zero, not as \<^verbatim>\<open>NODE_NETWORK\<close>, and for an IPv4 address two bytes
  of the mapped prefix keep whatever the memory held before.
\<close>

theorem set_address_loses_services:
  assumes "length dest = 26" and "128 \<le> length src"
  shows "get64 (field 0 8 (set_address dest src)) = 0 \<and>
    (ss_family src = AF_INET \<longrightarrow> field 16 2 (set_address dest src) = field 16 2 dest)"
proof -
  have "get64 (zeros 8) = 0" by code_simp
  moreover have "field 0 8 (put 0 (zeros 16) (put 0 (le64 SERVICES) dest)) = zeros 8"
    using assms(1) by (simp add: put_def field_def min_def)
  ultimately show ?thesis using assms
    by (simp add: set_address_def Let_def field_put_other length_put sin_port_def sin_addr_def sin6_port_def sin6_addr_def length_field)
qed

theorem set_address_loses_services_witness:
  "get64 (field 0 8 (set_address (replicate 26 0xAA) ([2, 0] @ zeros 126))) = 0 \<and>
   field 16 2 (set_address (replicate 26 0xAA) ([2, 0] @ zeros 126)) = [0xAA, 0xAA]"
proof -
  have "ss_family ([2, 0] @ zeros 126) = AF_INET" by code_simp
  moreover have "field 16 2 (replicate 26 0xAA) = [0xAA, 0xAA :: byte]" by code_simp
  ultimately show ?thesis using set_address_loses_services [of "replicate 26 0xAA" "[2, 0] @ zeros 126"] by simp
qed

end
