(* ===== verification/Logger.thy ===== *)
theory Logger
  imports Write_Buffer Bitcoin_Msg
begin

text \<open>
  The logging library every program links (\<^verbatim>\<open>shared/src/logger.cpp\<close>, \<^verbatim>\<open>shared/includes/logger.hpp\<close>)
  and the connector's reconnection timer for it. Messages about connections and Bitcoin messages
  are collected in \<^verbatim>\<open>g_log_store\<close> and handed over when it is full; text messages are handed over
  at once, behind what is collected. The main result is that the log server is sent the records
  in the order of the calls, each one framed.
\<close>

section \<open>State\<close>

definition DEBUG :: u8 where "DEBUG = 0x2"
definition CTRL :: u8 where "CTRL = 0x4"
definition ERROR :: u8 where "ERROR = 0x8"
definition BITCOIN :: u8 where "BITCOIN = 0x10"
definition BITCOIN_MSG :: u8 where "BITCOIN_MSG = 0x20"
definition CONNECTOR :: u8 where "CONNECTOR = 0x40"
definition CLIENT :: u8 where "CLIENT = 0x80"

lemmas log_types = DEBUG_def CTRL_def ERROR_def BITCOIN_def BITCOIN_MSG_def CONNECTOR_def CLIENT_def

definition type_to_str :: "u8 \<Rightarrow> string" where
  "type_to_str t =
     (if t = DEBUG then ''DEBUG'' else if t = CTRL then ''CTRL'' else if t = ERROR then ''ERROR''
      else if t = BITCOIN then ''BITCOIN'' else if t = BITCOIN_MSG then ''BITCOIN_MSG''
      else if t = CONNECTOR then ''CONNECTOR'' else if t = CLIENT then ''CLIENT'' else ''UNKNOWN'')"

definition CONNECT_SUCCESS :: u32 where "CONNECT_SUCCESS = 0x1"
definition ACCEPT_SUCCESS :: u32 where "ACCEPT_SUCCESS = 0x2"
definition ORDERLY_DISCONNECT :: u32 where "ORDERLY_DISCONNECT = 0x4"
definition WRITE_DISCONNECT :: u32 where "WRITE_DISCONNECT = 0x8"
definition UNEXPECTED_ERROR :: u32 where "UNEXPECTED_ERROR = 0x10"
definition CONNECT_FAILURE :: u32 where "CONNECT_FAILURE = 0x20"
definition PEER_RESET :: u32 where "PEER_RESET = 0x40"
definition CONNECTOR_DISCONNECT :: u32 where "CONNECTOR_DISCONNECT = 0x80"

definition LG_NONE :: u32 where "LG_NONE = 0"
definition LG_WRITE :: u32 where "LG_WRITE = 2"

record log_buffer =
  lb_queue :: wbuf
  lb_out :: sock_out
  lb_io :: u32

record logger =
  lg_buffer :: "log_buffer option"
  lg_cursor :: nat
  lg_store :: vbuf

definition store_size :: nat where "store_size = 4096"

section \<open>log_buffer\<close>

definition lb_new :: "sock_out \<Rightarrow> log_buffer" where
  "lb_new out = \<lparr>lb_queue = wq_new, lb_out = out, lb_io = LG_WRITE\<rparr>"

definition lb_append :: "vbuf \<Rightarrow> nat \<Rightarrow> log_buffer \<Rightarrow> log_buffer res" where
  "lb_append buf len lb =
     bindR (wq_get_to_write (lb_queue lb)) (\<lambda>to_write.
     bindR (wq_append_buf buf len (lb_queue lb)) (\<lambda>wq.
     Inr (lb\<lparr>lb_queue := wq, lb_io := if to_write = 0 then LG_WRITE else lb_io lb\<rparr>)))"

text \<open>\<^verbatim>\<open>log_buffer::io_cb\<close>; after a fatal error \<^verbatim>\<open>g_log_buffer\<close> is null.\<close>

definition lb_io_cb :: "logger \<Rightarrow> logger res" where
  "lb_io_cb lg =
     (case lg_buffer lg of
        None \<Rightarrow> Inl Dangling
      | Some lb \<Rightarrow>
          bindR (write_loop (lb_queue lb) (lb_out lb)) (\<lambda>(r, wq, out).
          let lb' = lb\<lparr>lb_queue := wq, lb_out := out\<rparr> in
          Inr (case r of
                 Some q \<Rightarrow> lg\<lparr>lg_buffer := if fatal q then None else Some lb'\<rparr>
               | None \<Rightarrow> lg\<lparr>lg_buffer := Some (lb'\<lparr>lb_io := LG_NONE\<rparr>)\<rparr>)))"

text \<open>\<^verbatim>\<open>append_buf\<close>: without a log server the bytes are dropped.\<close>

definition append_buf :: "vbuf \<Rightarrow> nat \<Rightarrow> logger \<Rightarrow> logger res" where
  "append_buf buf len lg =
     (case lg_buffer lg of
        None \<Rightarrow> Inr lg
      | Some lb \<Rightarrow> bindR (lb_append buf len lb) (\<lambda>lb'. Inr (lg\<lparr>lg_buffer := Some lb'\<rparr>)))"

section \<open>Buffered records\<close>

text \<open>
  Making room in \<^verbatim>\<open>g_log_store\<close> for the \<open>length bs\<close> bytes of a record and copying them behind
  the cursor, as both specialisations of \<^verbatim>\<open>g_log\<close> do.
\<close>

definition store_put :: "nat \<Rightarrow> byte list \<Rightarrow> logger \<Rightarrow> logger res" where
  "store_put ps bs lg =
     bindR (if length bs > vb_allocated (lg_store lg) - lg_cursor lg then
              bindR (if lg_cursor lg > 0 then append_buf (lg_store lg) (lg_cursor lg) lg else Inr lg) (\<lambda>lg1.
              Inr (lg1\<lparr>lg_cursor := 0, lg_store := vb_new_n ps (max store_size (length bs))\<rparr>))
            else Inr lg) (\<lambda>lg2.
     bindR (vb_write (lg_store lg2) (lg_cursor lg2) bs) (\<lambda>store.
     Inr (lg2\<lparr>lg_store := store, lg_cursor := lg_cursor lg2 + length bs\<rparr>)))"

definition bitcoin_payload :: "u64 \<Rightarrow> u32 \<Rightarrow> u32 \<Rightarrow> sockaddr \<Rightarrow> sockaddr \<Rightarrow> byte list \<Rightarrow> byte list" where
  "bitcoin_payload now update_type handle_id remote local text =
     [BITCOIN] @ le64 (hton64 now) @ le32 (hton32 handle_id) @ le32 (hton32 update_type) @
     remote @ local @ le32 (hton32 (of_nat (length text))) @ text"

definition g_log_bitcoin :: "nat \<Rightarrow> u64 \<Rightarrow> u32 \<Rightarrow> u32 \<Rightarrow> sockaddr \<Rightarrow> sockaddr \<Rightarrow> byte list \<Rightarrow> logger \<Rightarrow> logger res" where
  "g_log_bitcoin ps now update_type handle_id remote local text lg =
     (let len = 1 + 8 + 4 + 4 + 2 * 128 + 4 + length text in
      store_put ps (le32 (hton32 (of_nat len)) @ bitcoin_payload now update_type handle_id remote local text) lg)"

definition msg_payload :: "u64 \<Rightarrow> u32 \<Rightarrow> bool \<Rightarrow> byte list \<Rightarrow> byte list" where
  "msg_payload now ident is_sender m =
     [BITCOIN_MSG] @ le64 (hton64 now) @ le32 (hton32 ident) @ [if is_sender then 1 else 0] @ m"

definition g_log_msg :: "nat \<Rightarrow> u64 \<Rightarrow> u32 \<Rightarrow> bool \<Rightarrow> byte list \<Rightarrow> logger \<Rightarrow> logger res" where
  "g_log_msg ps now ident is_sender m lg =
     bindR (rd m 0 24) (\<lambda>hdr.
     let len = 1 + 8 + 4 + 1 + 24 + msg_length hdr in
     bindR (rd m 0 (24 + msg_length hdr)) (\<lambda>body.
     store_put ps (le32 (hton32 (of_nat len)) @ msg_payload now ident is_sender body) lg))"

section \<open>Text records\<close>

text \<open>
  \<^verbatim>\<open>g_log_inner\<close> with the arguments already formatted: all but the last are followed by a blank,
  the last by a zero byte.
\<close>

fun g_log_inner :: "nat \<Rightarrow> byte list list \<Rightarrow> vbuf \<Rightarrow> nat \<Rightarrow> (vbuf \<times> nat) res" where
  "g_log_inner ps [] wbuf len = Inr (wbuf, len)"
| "g_log_inner ps (s # ss) wbuf len =
     (let str = s @ [if ss = [] then 0 else 32] in
      bindR (if vb_allocated wbuf < len + length str then vb_realloc ps (len + length str) wbuf else Inr wbuf) (\<lambda>w1.
      bindR (vb_write w1 len str) (\<lambda>w2.
      g_log_inner ps ss w2 (len + length str))))"

definition g_log_text :: "nat \<Rightarrow> u64 \<Rightarrow> u8 \<Rightarrow> byte list list \<Rightarrow> logger \<Rightarrow> logger res" where
  "g_log_text ps now n args lg =
     bindR (vb_write (vb_new_n ps 128) 4 ([n] @ le64 (hton64 now))) (\<lambda>w0.
     bindR (g_log_inner ps args w0 (8 + 1 + 4)) (\<lambda>(w1, len).
     case lg_buffer lg of
       Some lb \<Rightarrow>
         bindR (vb_write w1 0 (le32 (hton32 (of_nat (len - 4))))) (\<lambda>w2.
         bindR (if lg_cursor lg > 0
                then bindR (lb_append (lg_store lg) (lg_cursor lg) lb) (\<lambda>lb1.
                     Inr (lb1, lg\<lparr>lg_cursor := 0, lg_store := vb_new_n ps 4096\<rparr>))
                else Inr (lb, lg)) (\<lambda>(lb1, lg1).
         bindR (lb_append w2 len lb1) (\<lambda>lb2.
         Inr (lg1\<lparr>lg_buffer := Some lb2\<rparr>))))
     | None \<Rightarrow> Inr lg))"

fun text_bytes :: "byte list list \<Rightarrow> byte list" where
  "text_bytes [] = []"
| "text_bytes (s # ss) = s @ [if ss = [] then 0 else 32] @ text_bytes ss"

section \<open>Calls\<close>

text \<open>
  A log call with its arguments. The handlers of the connector emit lists of these; performing
  them is the logger's part.
\<close>

datatype log_call =
    LText u8 "byte list list"
  | LBitcoin u32 u32 sockaddr sockaddr "byte list"
  | LMsg u32 bool "byte list"

fun log_perform :: "nat \<Rightarrow> u64 \<Rightarrow> log_call \<Rightarrow> logger \<Rightarrow> logger res" where
  "log_perform ps now (LText n args) lg = g_log_text ps now n args lg"
| "log_perform ps now (LBitcoin upd hid remote local text) lg = g_log_bitcoin ps now upd hid remote local text lg"
| "log_perform ps now (LMsg ident is_sender m) lg = g_log_msg ps now ident is_sender m lg"

text \<open>The payload a call puts into its record.\<close>

fun log_payload :: "u64 \<Rightarrow> log_call \<Rightarrow> byte list" where
  "log_payload now (LText n args) = [n] @ be64 now @ text_bytes args"
| "log_payload now (LBitcoin upd hid remote local text) =
     [BITCOIN] @ be64 now @ be32 hid @ be32 upd @ remote @ local @ be32 (of_nat (length text)) @ text"
| "log_payload now (LMsg ident is_sender m) =
     [BITCOIN_MSG] @ be64 now @ be32 ident @ [if is_sender then 1 else 0] @ take (24 + msg_length m) m"

fun call_ok :: "log_call \<Rightarrow> bool" where
  "call_ok (LText n args) = (args \<noteq> [])"
| "call_ok (LBitcoin upd hid remote local text) = (length remote = 128 \<and> length local = 128)"
| "call_ok (LMsg ident is_sender m) = (24 \<le> length m \<and> 24 + msg_length m \<le> length m)"

text \<open>\<^verbatim>\<open>log_watcher\<close> of the connector: reconnect when the log server has gone; \<open>client\<close> is the result of
  \<^verbatim>\<open>unix_sock_client\<close>, a socket or the text of the exception.\<close>

definition log_watcher :: "nat \<Rightarrow> u64 \<Rightarrow> (byte list + sock_out) \<Rightarrow> logger \<Rightarrow> logger res" where
  "log_watcher ps now client lg =
     (if lg_buffer lg = None then
        (case client of
           Inr out \<Rightarrow> Inr (lg\<lparr>lg_buffer := Some (lb_new out)\<rparr>)
         | Inl what \<Rightarrow> g_log_text ps now ERROR [what] (lg\<lparr>lg_buffer := None\<rparr>))
      else Inr lg)"

section \<open>Invariant\<close>

definition lg_ok :: "logger \<Rightarrow> bool" where
  "lg_ok lg \<longleftrightarrow> lg_cursor lg \<le> vb_allocated (lg_store lg) \<and> 0 < vb_allocated (lg_store lg) \<and>
     (case lg_buffer lg of None \<Rightarrow> True | Some lb \<Rightarrow>
        wq_ok (lb_queue lb) \<and> (wq_pend (lb_queue lb) \<noteq> [] \<longrightarrow> lb_io lb = LG_WRITE))"

definition log_stream :: "logger \<Rightarrow> byte list" where
  "log_stream lg =
     (case lg_buffer lg of None \<Rightarrow> [] | Some lb \<Rightarrow> so_written (lb_out lb) @ wq_pend (lb_queue lb)) @
     take (lg_cursor lg) (vb_bytes (lg_store lg))"

section \<open>Records are appended in order\<close>

definition lb_ok :: "log_buffer \<Rightarrow> bool" where
  "lb_ok lb \<longleftrightarrow> wq_ok (lb_queue lb) \<and> (wq_pend (lb_queue lb) \<noteq> [] \<longrightarrow> lb_io lb = LG_WRITE)"

definition lb_stream :: "log_buffer \<Rightarrow> byte list" where
  "lb_stream lb = so_written (lb_out lb) @ wq_pend (lb_queue lb)"

lemma lb_append_ok:
  assumes "lb_ok lb" and "0 < len" and "len \<le> vb_allocated buf"
  shows "\<exists>lb'. lb_append buf len lb = Inr lb' \<and> lb_ok lb' \<and> lb_stream lb' = lb_stream lb @ take len (vb_bytes buf)"
proof -
  have wq: "wq_ok (lb_queue lb)" using assms(1) by (simp add: lb_ok_def)
  obtain wq' where W: "wq_append_buf buf len (lb_queue lb) = Inr wq'" "wq_ok wq'"
    "wq_pend wq' = wq_pend (lb_queue lb) @ take len (vb_bytes buf)"
    using wq_append_buf_ok [OF wq assms(2,3)] by blast
  have "wq_to_write (lb_queue lb) = 0 \<longleftrightarrow> wq_pend (lb_queue lb) = []" using wq by (simp add: wq_ok_def)
  with W assms(1) wq_get_to_write_ok [OF wq] show ?thesis
    by (auto simp: lb_append_def lb_ok_def lb_stream_def)
qed

lemma lg_okI:
  "lg_cursor lg \<le> vb_allocated (lg_store lg) \<Longrightarrow> 0 < vb_allocated (lg_store lg) \<Longrightarrow> lg_buffer lg = Some lb \<Longrightarrow> lb_ok lb \<Longrightarrow> lg_ok lg"
  by (simp add: lg_ok_def lb_ok_def)

lemma lg_okD:
  "lg_ok lg \<Longrightarrow> lg_cursor lg \<le> vb_allocated (lg_store lg)" "lg_ok lg \<Longrightarrow> 0 < vb_allocated (lg_store lg)"
  "lg_ok lg \<Longrightarrow> lg_buffer lg = Some lb \<Longrightarrow> lb_ok lb"
  by (simp_all add: lg_ok_def lb_ok_def)

lemma vb_new_n_size: "0 < ps \<Longrightarrow> 0 < n \<Longrightarrow> n \<le> vb_allocated (vb_new_n ps n)"
  using round_to_page_bounds(1) [of ps n] by (simp add: vb_new_n_def vb_allocated_def)

lemma store_put_fits:
  assumes "lg_ok lg" and "lg_buffer lg = Some lb" and "bs \<noteq> []"
    and "length bs \<le> vb_allocated (lg_store lg) - lg_cursor lg"
  shows "\<exists>lg'. bindR (vb_write (lg_store lg) (lg_cursor lg) bs) (\<lambda>store.
      Inr (lg\<lparr>lg_store := store, lg_cursor := lg_cursor lg + length bs\<rparr>)) = Inr lg' \<and>
    lg_ok lg' \<and> lg_buffer lg' \<noteq> None \<and> log_stream lg' = log_stream lg @ bs"
proof -
  have le: "lg_cursor lg + length bs \<le> vb_allocated (lg_store lg)"
    using assms(4) lg_okD(1) [OF assms(1)] by simp
  obtain st where W: "vb_write (lg_store lg) (lg_cursor lg) bs = Inr st"
    using vb_write_ok [OF le lg_okD(2) [OF assms(1)]] by blast
  let ?lg = "lg\<lparr>lg_store := st, lg_cursor := lg_cursor lg + length bs\<rparr>"
  have "lg_ok ?lg" by (rule lg_okI [where lb = lb]) (use assms le vb_write_allocated [OF W] lg_okD [OF assms(1)] in simp_all)
  moreover have "log_stream ?lg = log_stream lg @ bs" using assms(2) vb_write_take [OF W] by (simp add: log_stream_def)
  ultimately show ?thesis using W assms(2) by simp
qed

lemma store_put_ok:
  assumes "0 < ps" and "lg_ok lg" and "lg_buffer lg = Some lb" and "bs \<noteq> []"
  shows "\<exists>lg'. store_put ps bs lg = Inr lg' \<and> lg_ok lg' \<and> lg_buffer lg' \<noteq> None \<and> log_stream lg' = log_stream lg @ bs"
proof (cases "length bs > vb_allocated (lg_store lg) - lg_cursor lg")
  case False
  with store_put_fits [OF assms(2-4)] show ?thesis by (simp add: store_put_def)
next
  case True
  let ?v = "vb_new_n ps (max store_size (length bs))"
  have v: "max store_size (length bs) \<le> vb_allocated ?v" "0 < max store_size (length bs)"
    using vb_new_n_size [OF assms(1), of "max store_size (length bs)"] by (simp_all add: store_size_def)
  obtain lb1 where A: "(if lg_cursor lg > 0 then append_buf (lg_store lg) (lg_cursor lg) lg else Inr lg) =
      Inr (lg\<lparr>lg_buffer := Some lb1\<rparr>)" "lb_ok lb1" "lb_stream lb1 = log_stream lg"
  proof (cases "lg_cursor lg > 0")
    case True
    from lb_append_ok [OF lg_okD(3) [OF assms(2,3)] True lg_okD(1) [OF assms(2)]] True assms(3) that
    show thesis by (auto simp: append_buf_def log_stream_def lb_stream_def)
  next
    case False
    with that [of lb] assms(3) lg_okD(3) [OF assms(2,3)] show thesis
      by (simp add: log_stream_def lb_stream_def)
  qed
  let ?lg = "lg\<lparr>lg_buffer := Some lb1, lg_cursor := 0, lg_store := ?v\<rparr>"
  have v0: "0 < vb_allocated ?v" using v by linarith
  have ok: "lg_ok ?lg" by (rule lg_okI [where lb = lb1]) (use v0 A(2) in simp_all)
  have "length bs \<le> vb_allocated (lg_store ?lg) - lg_cursor ?lg" using v(1) by simp
  moreover have "log_stream ?lg = log_stream lg" using A(3) by (simp add: log_stream_def lb_stream_def)
  ultimately show ?thesis using store_put_fits [OF ok _ assms(4)] A True by (simp add: store_put_def)
qed

lemma g_log_inner_ok:
  assumes "0 < ps"
  shows "len \<le> vb_allocated w \<Longrightarrow> 0 < vb_allocated w \<Longrightarrow> \<exists>w'. g_log_inner ps args w len = Inr (w', len + length (text_bytes args)) \<and>
    len + length (text_bytes args) \<le> vb_allocated w' \<and> take (len + length (text_bytes args)) (vb_bytes w') = take len (vb_bytes w) @ text_bytes args"
proof (induction args arbitrary: w len)
  case (Cons s ss)
  let ?str = "s @ [if ss = [] then 0 else 32]"
  obtain w1 where R: "(if vb_allocated w < len + length ?str then vb_realloc ps (len + length ?str) w else Inr w) = Inr w1"
    "take len (vb_bytes w1) = take len (vb_bytes w)" "len + length ?str \<le> vb_allocated w1"
  proof (cases "vb_allocated w < len + length ?str")
    case True
    have n: "0 < len + length ?str" "len \<le> len + length ?str" by simp_all
    from vb_realloc_ok [OF assms Cons.prems(2) n(1) Cons.prems(1) n(2)] True that vb_allocated_realloc [OF assms]
    show thesis by auto
  qed (use that [of w] in simp)
  have "0 < vb_allocated w1" using R(3) by simp
  from vb_write_ok [OF R(3) this] obtain w2 where W: "vb_write w1 len ?str = Inr w2" by blast
  note A = vb_write_allocated [OF W] and T = vb_write_take [OF W, unfolded R(2)]
  have le: "len + length ?str \<le> vb_allocated w2" "0 < vb_allocated w2" using A R(3) \<open>0 < vb_allocated w1\<close> by simp_all
  from Cons.IH [OF le] obtain w' where
    "g_log_inner ps ss w2 (len + length ?str) = Inr (w', len + length ?str + length (text_bytes ss))"
    "len + length ?str + length (text_bytes ss) \<le> vb_allocated w'"
    "take (len + length ?str + length (text_bytes ss)) (vb_bytes w') = take (len + length ?str) (vb_bytes w2) @ text_bytes ss"
    by blast
  then show ?case using R(1) W T by (simp add: Let_def add.assoc)
qed simp

lemma length_text_bytes: "args \<noteq> [] \<Longrightarrow> 0 < length (text_bytes args)"
  by (cases args) auto

lemma g_log_text_ok:
  assumes "0 < ps" and "lg_ok lg" and "lg_buffer lg = Some lb" and "args \<noteq> []"
  shows "\<exists>lg'. g_log_text ps now n args lg = Inr lg' \<and> lg_ok lg' \<and> lg_buffer lg' \<noteq> None \<and>
    log_stream lg' = log_stream lg @ enc_frame ([n] @ be64 now @ text_bytes args)"
proof -
  let ?pay = "[n] @ be64 now @ text_bytes args"
  have z: "vb_new_n ps 128 = VAlloc (zeros 128)" by (simp add: vb_new_n_def MMAP_THRESHOLD_def)
  obtain w0 where W0: "vb_write (vb_new_n ps 128) 4 ([n] @ le64 (hton64 now)) = Inr w0"
    using vb_write_ok [of 4 "[n] @ le64 (hton64 now)" "vb_new_n ps 128"] by (auto simp: z vb_allocated_def)
  have A0: "13 \<le> vb_allocated w0" "0 < vb_allocated w0" using vb_write_allocated [OF W0] by (simp_all add: z vb_allocated_def)
  have T0: "take 13 (vb_bytes w0) = zeros 4 @ [n] @ be64 now"
    using vb_write_take [OF W0] by (simp add: z le64_hton64)
  define len where "len = 13 + length (text_bytes args)"
  obtain w1 where W1: "g_log_inner ps args w0 13 = Inr (w1, len)" "len \<le> vb_allocated w1"
    "take len (vb_bytes w1) = (zeros 4 @ [n] @ be64 now) @ text_bytes args"
    using g_log_inner_ok [OF assms(1) A0, of args] T0 by (auto simp: len_def)
  have l: "0 < len" "4 \<le> len" by (simp_all add: len_def)
  have "0 + length (le32 (hton32 (of_nat (len - 4)))) \<le> vb_allocated w1" "0 < vb_allocated w1" using W1(2) l by simp_all
  from vb_write_ok [OF this] obtain w2 where W2: "vb_write w1 0 (le32 (hton32 (of_nat (len - 4)))) = Inr w2" by blast
  have T2: "take len (vb_bytes w2) = enc_frame ?pay"
  proof -
    have "take len (vb_bytes w2) = be32 (of_nat (len - 4)) @ drop 4 (take len (vb_bytes w1))"
      using W2 l by (cases w1) (auto simp: bindR_Inr_iff wr_Inr le32_hton32 drop_take split: if_splits)
    also have "drop 4 (take len (vb_bytes w1)) = ?pay" using W1(3) by simp
    also have "len - 4 = length ?pay" by (simp add: len_def)
    finally show ?thesis by (simp only: enc_frame_def)
  qed
  have a2: "len \<le> vb_allocated w2" using vb_write_allocated [OF W2] W1(2) by simp
  obtain lb1 lg1 where F: "(if lg_cursor lg > 0
       then bindR (lb_append (lg_store lg) (lg_cursor lg) lb) (\<lambda>lb1. Inr (lb1, lg\<lparr>lg_cursor := 0, lg_store := vb_new_n ps 4096\<rparr>))
       else Inr (lb, lg)) = Inr (lb1, lg1)" "lb_ok lb1" "lb_stream lb1 = log_stream lg" "lg_cursor lg1 = 0" "0 < vb_allocated (lg_store lg1)"
  proof (cases "lg_cursor lg > 0")
    case True
    obtain lb' where L: "lb_append (lg_store lg) (lg_cursor lg) lb = Inr lb'" "lb_ok lb'"
      "lb_stream lb' = lb_stream lb @ take (lg_cursor lg) (vb_bytes (lg_store lg))"
      using lb_append_ok [OF lg_okD(3) [OF assms(2,3)] True lg_okD(1) [OF assms(2)]] by blast
    show thesis
      by (rule that [of lb' "lg\<lparr>lg_cursor := 0, lg_store := vb_new_n ps 4096\<rparr>"])
        (use True L assms(3) vb_new_n_size [OF assms(1), of 4096] in \<open>simp_all add: log_stream_def lb_stream_def\<close>)
  next
    case False
    with that [of lb lg] assms(3) lg_okD [OF assms(2)] show thesis by (simp add: log_stream_def lb_stream_def)
  qed
  obtain lb2 where B: "lb_append w2 len lb1 = Inr lb2" "lb_ok lb2" "lb_stream lb2 = log_stream lg @ enc_frame ?pay"
    using lb_append_ok [OF F(2) l(1) a2] F(3) T2 by auto
  have "g_log_text ps now n args lg = Inr (lg1\<lparr>lg_buffer := Some lb2\<rparr>)"
    using W0 W1 W2 F(1) B(1) assms(3) by (simp add: g_log_text_def)
  moreover have "lg_ok (lg1\<lparr>lg_buffer := Some lb2\<rparr>)" by (rule lg_okI [where lb = lb2]) (use F B in simp_all)
  ultimately show ?thesis using B(3) F(4) by (simp add: log_stream_def lb_stream_def)
qed

lemma log_perform_ok:
  assumes "0 < ps" and "lg_ok lg" and "lg_buffer lg \<noteq> None" and "call_ok call"
  shows "\<exists>lg'. log_perform ps now call lg = Inr lg' \<and> lg_ok lg' \<and> lg_buffer lg' \<noteq> None \<and>
    log_stream lg' = log_stream lg @ enc_frame (log_payload now call)"
proof -
  obtain lb where lb: "lg_buffer lg = Some lb" using assms(3) by blast
  show ?thesis
  proof (cases call)
    case (LText n args)
    with assms(4) g_log_text_ok [OF assms(1,2) lb, of args now n] show ?thesis by simp
  next
    case (LBitcoin upd hid rem loc tx)
    let ?pay = "log_payload now call"
    have p: "le32 (hton32 (of_nat (1 + 8 + 4 + 4 + 2 * 128 + 4 + length tx))) @ bitcoin_payload now upd hid rem loc tx = enc_frame ?pay"
      using assms(4) LBitcoin by (simp add: bitcoin_payload_def enc_frame_def le32_hton32 le64_hton64)
    have "enc_frame ?pay \<noteq> []" by (metis length_enc_frame add_is_0 list.size(3) zero_neq_numeral)
    from store_put_ok [OF assms(1,2) lb this] p show ?thesis
      by (simp add: LBitcoin g_log_bitcoin_def Let_def del: log_payload.simps)
  next
    case (LMsg ident is_sender m)
    let ?pay = "log_payload now call"
    have m: "24 \<le> length m" "24 + msg_length m \<le> length m" using assms(4) LMsg by auto
    have h: "msg_length (take 24 m) = msg_length m" using m(1) by (simp add: msg_length_def field_def drop_take)
    have p: "le32 (hton32 (of_nat (1 + 8 + 4 + 1 + 24 + msg_length m))) @ msg_payload now ident is_sender (take (24 + msg_length m) m) = enc_frame ?pay"
      using m LMsg by (simp add: msg_payload_def enc_frame_def le32_hton32 le64_hton64 min_def)
    have "enc_frame ?pay \<noteq> []" by (metis length_enc_frame add_is_0 list.size(3) zero_neq_numeral)
    from store_put_ok [OF assms(1,2) lb this] p m h show ?thesis
      by (simp add: LMsg g_log_msg_def rd_def Let_def del: log_payload.simps)
  qed
qed

lemma lb_io_cb_ok:
  assumes "lg_ok lg" and "lg_buffer lg = Some lb"
  shows "\<exists>lg'. lb_io_cb lg = Inr lg' \<and> lg_ok lg' \<and> (lg_buffer lg' \<noteq> None \<longrightarrow> log_stream lg' = log_stream lg)"
proof -
  have wq: "wq_ok (lb_queue lb)" using lg_okD(3) [OF assms] by (simp add: lb_ok_def)
  obtain r wq' out bs where L: "write_loop (lb_queue lb) (lb_out lb) = Inr (r, wq', out)" "wq_ok wq'"
    "so_written out = so_written (lb_out lb) @ bs" "wq_pend (lb_queue lb) = bs @ wq_pend wq'" "r = None \<longleftrightarrow> wq_pend wq' = []"
    using write_loop_ok [OF wq, of "lb_out lb"] by blast
  with assms show ?thesis
    by (auto simp: lb_io_cb_def Let_def lg_ok_def log_stream_def split: option.splits)
qed

text \<open>Without a log server the calls still succeed; what they log is lost.\<close>

lemma store_put_none:
  assumes "0 < ps" and "lg_ok lg" and "lg_buffer lg = None"
  shows "\<exists>lg'. store_put ps bs lg = Inr lg' \<and> lg_ok lg' \<and> lg_buffer lg' = None"
proof -
  let ?v = "vb_new_n ps (max store_size (length bs))"
  have "0 < max store_size (length bs)" by (simp add: store_size_def)
  note N = vb_new_n_size [OF assms(1) this]
  have v: "length bs \<le> vb_allocated ?v" "0 < vb_allocated ?v"
    using N \<open>0 < max store_size (length bs)\<close> by linarith+
  define lg2 where "lg2 = (if length bs > vb_allocated (lg_store lg) - lg_cursor lg
    then lg\<lparr>lg_cursor := 0, lg_store := ?v\<rparr> else lg)"
  have f: "lg_cursor lg2 + length bs \<le> vb_allocated (lg_store lg2)" "0 < vb_allocated (lg_store lg2)" "lg_buffer lg2 = None"
    using v assms(3) lg_okD [OF assms(2)] by (auto simp: lg2_def)
  obtain st where W: "vb_write (lg_store lg2) (lg_cursor lg2) bs = Inr st" using vb_write_ok [OF f(1,2)] by blast
  then have "store_put ps bs lg = Inr (lg2\<lparr>lg_store := st, lg_cursor := lg_cursor lg2 + length bs\<rparr>)"
    using assms(3) by (auto simp: store_put_def lg2_def append_buf_def)
  then show ?thesis using f vb_write_allocated [OF W] by (simp add: lg_ok_def)
qed

lemma log_perform_none:
  assumes "0 < ps" and "lg_ok lg" and "lg_buffer lg = None" and "call_ok call"
  shows "\<exists>lg'. log_perform ps now call lg = Inr lg' \<and> lg_ok lg' \<and> lg_buffer lg' = None"
proof (cases call)
  case (LText n args)
  have z: "vb_new_n ps 128 = VAlloc (zeros 128)" by (simp add: vb_new_n_def MMAP_THRESHOLD_def)
  obtain w0 where W0: "vb_write (vb_new_n ps 128) 4 ([n] @ le64 (hton64 now)) = Inr w0"
    using vb_write_ok [of 4 "[n] @ le64 (hton64 now)" "vb_new_n ps 128"] by (auto simp: z vb_allocated_def)
  have A0: "13 \<le> vb_allocated w0" "0 < vb_allocated w0" using vb_write_allocated [OF W0] by (simp_all add: z vb_allocated_def)
  from g_log_inner_ok [OF assms(1) A0, of args] W0 assms(2,3) LText show ?thesis by (auto simp: g_log_text_def)
next
  case (LBitcoin upd hid rem loc tx)
  with store_put_none [OF assms(1-3)] show ?thesis by (simp add: g_log_bitcoin_def Let_def)
next
  case (LMsg ident is_sender m)
  then have m: "24 \<le> length m" "24 + msg_length m \<le> length m" using assms(4) by auto
  have h: "msg_length (take 24 m) = msg_length m" using m(1) by (simp add: msg_length_def field_def drop_take)
  from m h LMsg store_put_none [OF assms(1-3)] show ?thesis by (simp add: g_log_msg_def rd_def Let_def)
qed

section \<open>Runs\<close>

datatype lg_op = LgCall u64 log_call | LgReady

fun lg_run :: "nat \<Rightarrow> lg_op list \<Rightarrow> logger \<Rightarrow> logger res" where
  "lg_run ps [] lg = Inr lg"
| "lg_run ps (LgCall now call # ops) lg = bindR (log_perform ps now call lg) (\<lambda>lg'. lg_run ps ops lg')"
| "lg_run ps (LgReady # ops) lg =
     bindR (if lg_buffer lg = None then Inr lg else lb_io_cb lg) (\<lambda>lg'. lg_run ps ops lg')"

fun lg_frames :: "lg_op list \<Rightarrow> byte list" where
  "lg_frames [] = []"
| "lg_frames (LgCall now call # ops) = enc_frame (log_payload now call) @ lg_frames ops"
| "lg_frames (LgReady # ops) = lg_frames ops"

fun lg_op_ok :: "lg_op \<Rightarrow> bool" where
  "lg_op_ok (LgCall now call) = call_ok call"
| "lg_op_ok LgReady = True"

lemma lg_run_ok:
  assumes "0 < ps"
  shows "lg_ok lg \<Longrightarrow> list_all lg_op_ok ops \<Longrightarrow> \<exists>lg'. lg_run ps ops lg = Inr lg' \<and> lg_ok lg' \<and>
    (lg_buffer lg' \<noteq> None \<longrightarrow> lg_buffer lg \<noteq> None \<and> log_stream lg' = log_stream lg @ lg_frames ops)"
proof (induction ops arbitrary: lg)
  case (Cons op ops)
  have ok: "list_all lg_op_ok ops" "lg_op_ok op" using Cons.prems(2) by auto
  show ?case
  proof (cases op)
    case (LgCall now call)
    show ?thesis
    proof (cases "lg_buffer lg")
      case None
      with log_perform_none [OF assms Cons.prems(1) None, of call now] ok LgCall Cons.IH show ?thesis by fastforce
    next
      case (Some lb)
      obtain lg1 where 1: "log_perform ps now call lg = Inr lg1" "lg_ok lg1" "lg_buffer lg1 \<noteq> None"
        "log_stream lg1 = log_stream lg @ enc_frame (log_payload now call)"
        using log_perform_ok [OF assms Cons.prems(1), of call now] Some ok(2) LgCall by auto
      with Cons.IH [OF 1(2) ok(1)] Some LgCall show ?thesis by auto
    qed
  next
    case LgReady
    show ?thesis
    proof (cases "lg_buffer lg")
      case None
      with LgReady Cons.IH [OF Cons.prems(1) ok(1)] show ?thesis by auto
    next
      case (Some lb)
      obtain lg1 where 1: "lb_io_cb lg = Inr lg1" "lg_ok lg1" "lg_buffer lg1 \<noteq> None \<longrightarrow> log_stream lg1 = log_stream lg"
        using lb_io_cb_ok [OF Cons.prems(1) Some] by blast
      with Cons.IH [OF 1(2) ok(1)] Some LgReady show ?thesis by auto
    qed
  qed
qed simp

section \<open>Properties\<close>

text \<open>
  Property C40: the log is complete and in order. Whatever calls are made and whenever the socket to
  the log server is ready, as long as the connection lives the bytes written to it, queued for
  it and collected in the store are the frames of all calls in the order they were made, text
  messages behind the buffered ones that came before them; and no call ever fails.
\<close>

theorem log_records_in_order:
  assumes "0 < ps" and "lg_ok lg" and "list_all lg_op_ok ops"
  shows "\<exists>lg'. lg_run ps ops lg = Inr lg' \<and> lg_ok lg' \<and>
    (\<forall>lb. lg_buffer lg' = Some lb \<longrightarrow>
      so_written (lb_out lb) @ wq_pend (lb_queue lb) @ take (lg_cursor lg') (vb_bytes (lg_store lg')) =
      log_stream lg @ lg_frames ops)"
  using lg_run_ok [OF assms] by (fastforce simp: log_stream_def)

definition demo_logger :: logger where
  "demo_logger = \<lparr>lg_buffer = Some (lb_new \<lparr>so_script = [WriteOk 3], so_written = []\<rparr>), lg_cursor = 0, lg_store = vb_new_n 4096 4096\<rparr>"

lemma demo_logger_ok: "lg_ok demo_logger" "log_stream demo_logger = []"
  by (simp_all add: demo_logger_def lg_ok_def log_stream_def lb_new_def vb_new_n_def MMAP_THRESHOLD_def vb_allocated_def)

theorem log_records_in_order_witness:
  "\<exists>lg'. lg_run 4096 [LgCall 1 (LBitcoin ACCEPT_SUCCESS 9 (zeros 128) (zeros 128) []), LgCall 2 (LText DEBUG [[104, 105]]), LgReady] demo_logger
      = Inr lg' \<and> lg_ok lg'"
  using log_records_in_order [of 4096, OF _ demo_logger_ok(1),
      of "[LgCall 1 (LBitcoin ACCEPT_SUCCESS 9 (zeros 128) (zeros 128) []), LgCall 2 (LText DEBUG [[104, 105]]), LgReady]"]
  by auto

end
