(* ===== verification/Blacklist.thy ===== *)
theory Blacklist
  imports Logger
begin

text \<open>
  The connector's blacklist (\<^verbatim>\<open>connector/includes/blacklist.hpp\<close>, \<^verbatim>\<open>load_blacklist\<close> of
  \<^verbatim>\<open>connector/src/main.cpp\<close>): an unordered set of socket addresses compared by family and
  address, with the hash that goes with it. \<^verbatim>\<open>std::hash\<close> on the integer types and \<^verbatim>\<open>inet_pton\<close>
  are parameters.
\<close>

section \<open>Equality and hash\<close>

definition ss_eq :: "sockaddr \<Rightarrow> sockaddr \<Rightarrow> bool" where
  "ss_eq lhs rhs =
     (if ss_family lhs \<noteq> ss_family rhs then False
      else if ss_family lhs = AF_INET then get32 (sin_addr lhs) = get32 (sin_addr rhs)
      else if ss_family lhs = AF_INET6 then sin6_addr lhs = sin6_addr rhs
      else False)"

definition ss_hash :: "(u16 \<Rightarrow> u64) \<Rightarrow> (u32 \<Rightarrow> u64) \<Rightarrow> (u64 \<Rightarrow> u64) \<Rightarrow> sockaddr \<Rightarrow> u64" where
  "ss_hash h16 h32 h64 h =
     (let seed = h16 (ss_family h) + 0x9e3779b0 in
      if ss_family h = AF_INET then
        seed XOR (h32 (get32 (sin_addr h)) + 0x9e3779b0 + push_bit 6 seed + drop_bit 2 seed)
      else if ss_family h = AF_INET6 then
        let a = get64 (field 0 8 (sin6_addr h));
            b = get64 (field 8 8 (sin6_addr h));
            seed2 = seed XOR (h64 a + 0x9e3779b0 + push_bit 6 seed + drop_bit 2 seed) in
        seed2 XOR (h64 b + 0x9e3779b0 + push_bit 6 seed2 + drop_bit 2 seed2)
      else seed)"

section \<open>The set\<close>

type_synonym ipaddr_set = "sockaddr list"

definition bl_count :: "sockaddr \<Rightarrow> ipaddr_set \<Rightarrow> nat" where
  "bl_count a bl = (if list_ex (\<lambda>e. ss_eq e a) bl then 1 else 0)"

definition bl_insert :: "sockaddr \<Rightarrow> ipaddr_set \<Rightarrow> ipaddr_set" where
  "bl_insert a bl = (if bl_count a bl > 0 then bl else a # bl)"

text \<open>
  \<^verbatim>\<open>load_blacklist\<close>. \<open>file\<close> is \<open>None\<close> when it cannot be opened, otherwise its lines; \<open>entry\<close> is the
  one structure that all lines are parsed into. The result has the log calls; \<open>dec\<close> formats a
  number and the texts are given as bytes.
\<close>

definition set_family :: "u16 \<Rightarrow> sockaddr \<Rightarrow> sockaddr" where
  "set_family f ss = put 0 (le16 f) ss"

fun bl_lines :: "(byte list \<Rightarrow> byte list option) \<Rightarrow> (byte list \<Rightarrow> byte list option) \<Rightarrow> byte list list \<Rightarrow> sockaddr
    \<Rightarrow> ipaddr_set \<Rightarrow> ipaddr_set \<times> log_call list" where
  "bl_lines pton4 pton6 [] entry bl = (bl, [])"
| "bl_lines pton4 pton6 (line # lines) entry bl =
     (case pton4 line of
        Some a4 \<Rightarrow>
          let e = set_family AF_INET (put 4 a4 entry) in bl_lines pton4 pton6 lines e (bl_insert e bl)
      | None \<Rightarrow>
          (case pton6 line of
             Some a6 \<Rightarrow>
               let e = set_family AF_INET6 (put 8 a6 entry) in bl_lines pton4 pton6 lines e (bl_insert e bl)
           | None \<Rightarrow>
               let (bl', logs) = bl_lines pton4 pton6 lines entry bl in
               (bl', LText ERROR [ascii ''Invalid blacklist entry (not IPv4 or IPv6)'', line] # logs)))"

definition load_blacklist :: "(byte list \<Rightarrow> byte list option) \<Rightarrow> (byte list \<Rightarrow> byte list option) \<Rightarrow> (nat \<Rightarrow> byte list)
    \<Rightarrow> byte list list option \<Rightarrow> ipaddr_set \<Rightarrow> ipaddr_set \<times> log_call list" where
  "load_blacklist pton4 pton6 dec file bl =
     (case file of
        Some lines \<Rightarrow>
          let (bl', logs) = bl_lines pton4 pton6 lines (zeros 128) [] in
          (bl', logs @ [LText CONNECTOR [ascii ''Loading blacklist, received'', dec (length bl'),
                                          ascii ''unique entries'']])
      | None \<Rightarrow> (bl, [LText ERROR [ascii ''Could not open blacklist file'']]))"

section \<open>Correctness\<close>

lemma ss_eq_hash: "ss_eq a b \<Longrightarrow> ss_hash h16 h32 h64 a = ss_hash h16 h32 h64 b"
  by (auto simp: ss_eq_def ss_hash_def Let_def split: if_splits)

lemma ss_eq_equiv: "ss_eq a b \<Longrightarrow> ss_eq b a" "ss_eq a b \<Longrightarrow> ss_eq b c \<Longrightarrow> ss_eq a c"
  by (auto simp: ss_eq_def split: if_splits)

lemma get32_inj: "length x = 4 \<Longrightarrow> length y = 4 \<Longrightarrow> get32 x = get32 y \<longleftrightarrow> x = y"
  using le32_get32 by metis

lemma bl_insert_count: "bl_count a (bl_insert e bl) > 0 \<longleftrightarrow> ss_eq e a \<or> bl_count a bl > 0"
  by (auto simp: bl_count_def bl_insert_def list_ex_iff dest: ss_eq_equiv)

lemma af_distinct: "AF_INET6 \<noteq> AF_INET" "AF_INET \<noteq> AF_INET6"
  by (simp_all add: AF_INET_def AF_INET6_def)

lemma set_family_fields:
  assumes "length ss = 128"
  shows "ss_family (set_family f ss) = f" "length (set_family f ss) = 128"
    and "sin_addr (set_family f ss) = sin_addr ss" "sin6_addr (set_family f ss) = sin6_addr ss"
  using assms
  by (simp_all add: ss_family_def set_family_def field_put_same length_put sin_addr_def sin6_addr_def field_put_other)

definition listed :: "(byte list \<Rightarrow> byte list option) \<Rightarrow> (byte list \<Rightarrow> byte list option) \<Rightarrow> sockaddr \<Rightarrow> byte list \<Rightarrow> bool" where
  "listed pton4 pton6 a line \<longleftrightarrow>
     (case pton4 line of
        Some a4 \<Rightarrow> ss_family a = AF_INET \<and> sin_addr a = a4
      | None \<Rightarrow> ss_family a = AF_INET6 \<and> pton6 line = Some (sin6_addr a))"

lemma bl_lines_count:
  assumes p: "\<forall>l x. pton4 l = Some x \<longrightarrow> length x = 4" "\<forall>l x. pton6 l = Some x \<longrightarrow> length x = 16"
    and a: "length a = 128"
  shows "length entry = 128 \<Longrightarrow>
    bl_count a (fst (bl_lines pton4 pton6 lines entry bl)) > 0 \<longleftrightarrow> bl_count a bl > 0 \<or> (\<exists>l\<in>set lines. listed pton4 pton6 a l)"
proof (induction lines arbitrary: entry bl)
  case (Cons l ls)
  show ?case
  proof (cases "pton4 l")
    case (Some a4)
    let ?e = "set_family AF_INET (put 4 a4 entry)"
    have l4: "length a4 = 4" using p(1) Some by blast
    have e: "length (put 4 a4 entry) = 128" using Cons.prems l4 by (simp add: length_put)
    note F = set_family_fields [OF e, of AF_INET]
    have "sin_addr ?e = a4" using F(3) Cons.prems l4 by (simp add: sin_addr_def field_put_same)
    moreover have "length (sin_addr a) = 4" using a by (simp add: sin_addr_def length_field)
    ultimately have "ss_eq ?e a \<longleftrightarrow> listed pton4 pton6 a l"
      using F(1) l4 Some get32_inj [of a4 "sin_addr a"] by (auto simp: ss_eq_def listed_def)
    with Cons.IH [OF F(2)] Some show ?thesis by (simp add: Let_def bl_insert_count) blast
  next
    case N4: None
    show ?thesis
    proof (cases "pton6 l")
      case (Some a6)
      let ?e = "set_family AF_INET6 (put 8 a6 entry)"
      have l6: "length a6 = 16" using p(2) Some by blast
      have e: "length (put 8 a6 entry) = 128" using Cons.prems l6 by (simp add: length_put)
      note F = set_family_fields [OF e, of AF_INET6]
      have "sin6_addr ?e = a6" using F(4) Cons.prems l6 by (simp add: sin6_addr_def field_put_same)
      then have "ss_eq ?e a \<longleftrightarrow> listed pton4 pton6 a l"
        using F(1) Some N4 by (auto simp: ss_eq_def listed_def af_distinct)
      with Cons.IH [OF F(2)] Some N4 show ?thesis by (simp add: Let_def bl_insert_count) blast
    next
      case None
      then have "\<not> listed pton4 pton6 a l" using N4 by (simp add: listed_def)
      with Cons.IH [OF Cons.prems] None N4 show ?thesis
        by (simp add: Let_def case_prod_beta')
    qed
  qed
qed simp

section \<open>Properties\<close>

text \<open>
  After loading, exactly the addresses written in the file are blacklisted, with any
  port, although all lines are parsed into one structure that keeps bytes of earlier lines; and
  the hash agrees on addresses that compare equal, as the unordered set requires.
\<close>

theorem blacklist_exact:
  assumes "\<forall>l x. pton4 l = Some x \<longrightarrow> length x = 4" and "\<forall>l x. pton6 l = Some x \<longrightarrow> length x = 16"
    and "length a = 128"
  shows "(bl_count a (fst (load_blacklist pton4 pton6 dec (Some lines) bl)) > 0 \<longleftrightarrow>
      (\<exists>l\<in>set lines. listed pton4 pton6 a l)) \<and>
    (\<forall>b. ss_eq a b \<longrightarrow> ss_hash h16 h32 h64 a = ss_hash h16 h32 h64 b)"
  using bl_lines_count [OF assms, of "zeros 128" lines "[]"] ss_eq_hash
  by (auto simp: load_blacklist_def case_prod_beta' Let_def bl_count_def)

theorem blacklist_exact_witness:
  "bl_count ([2, 0, 9, 9, 1, 2, 3, 4] @ zeros 120)
     (fst (load_blacklist (\<lambda>l. if length l = 4 then Some l else None) (\<lambda>l. if length l = 16 then Some l else None)
       (\<lambda>_. []) (Some [replicate 16 7, [1, 2, 3, 4]]) [])) > 0"
proof -
  have "listed (\<lambda>l. if length l = 4 then Some l else None) (\<lambda>l. if length l = 16 then Some l else None)
      ([2, 0, 9, 9, 1, 2, 3, 4] @ zeros 120) [1, 2, 3, 4]"
    by (simp add: listed_def ss_family_def sin_addr_def field_def get16_def AF_INET_def)
  then have l: "\<exists>l\<in>set [replicate 16 7, [1, 2, 3, 4]]. listed (\<lambda>l. if length l = 4 then Some l else None)
      (\<lambda>l. if length l = 16 then Some l else None) ([2, 0, 9, 9, 1, 2, 3, 4] @ zeros 120) l"
    by auto
  show ?thesis
    by (rule blacklist_exact [THEN conjunct1, THEN iffD2, OF _ _ _ l]) (simp_all split: if_splits)
qed

end
