(* ===== verification/Bitcoin_Handler.thy ===== *)
theory Bitcoin_Handler
  imports Read_Buffer Blacklist "HOL-Library.AList"
begin

text \<open>
  The connector's Bitcoin connections (\<^verbatim>\<open>connector/src/bitcoin_handler.cpp\<close>): \<^verbatim>\<open>handler\<close>, which
  performs the version handshake, answers pings and forwards every message to the log,
  \<^verbatim>\<open>connect_handler\<close> and \<^verbatim>\<open>accept_handler\<close>, which create it. A method works on its own object and on
  the rest of the world; log calls are collected in the world for the logger to perform. The
  configuration, the random numbers, uninitialised memory, \<^verbatim>\<open>strerror\<close> and the formatting of
  numbers are parameters in the record \<open>env\<close>. Times are numbers of clock ticks.
\<close>

section \<open>Environment and state\<close>

record env =
  e_ps :: nat
  e_sha :: "byte list \<Rightarrow> byte list"
  e_magic :: u32
  e_agent :: "byte list"
  e_external :: sockaddr
  e_start_height :: u32
  e_ping_frequency :: int
  e_active_mean :: int
  e_nonce :: "nat \<Rightarrow> u64"
  e_rand_ping :: "nat \<Rightarrow> int"
  e_junk :: byte
  e_strerror :: "errno \<Rightarrow> byte list"
  e_dec :: "nat \<Rightarrow> byte list"
  e_what :: "errno \<Rightarrow> byte list"
  e_code :: "errno \<Rightarrow> byte list"
  e_show :: "sockaddr \<Rightarrow> byte list"

definition BC_RECV_MASK :: u32 where "BC_RECV_MASK = 0x0000ffff"
definition BC_RECV_HEADER :: u32 where "BC_RECV_HEADER = 0x1"
definition BC_RECV_PAYLOAD :: u32 where "BC_RECV_PAYLOAD = 0x2"
definition BC_RECV_VERSION_INIT :: u32 where "BC_RECV_VERSION_INIT = 0x4"
definition BC_RECV_VERSION_INIT_HDR :: u32 where "BC_RECV_VERSION_INIT_HDR = 0x8"
definition BC_RECV_VERSION_REPLY_HDR :: u32 where "BC_RECV_VERSION_REPLY_HDR = 0x10"
definition BC_RECV_VERSION_REPLY :: u32 where "BC_RECV_VERSION_REPLY = 0x20"
definition BC_SEND_MASK :: u32 where "BC_SEND_MASK = 0xffff0000"
definition BC_SEND_MESSAGE :: u32 where "BC_SEND_MESSAGE = 0x10000"
definition BC_SEND_VERSION_INIT :: u32 where "BC_SEND_VERSION_INIT = 0x20000"
definition BC_SEND_VERSION_REPLY :: u32 where "BC_SEND_VERSION_REPLY = 0x40000"

lemmas bc_states = BC_RECV_MASK_def BC_RECV_HEADER_def BC_RECV_PAYLOAD_def BC_RECV_VERSION_INIT_def
  BC_RECV_VERSION_INIT_HDR_def BC_RECV_VERSION_REPLY_HDR_def BC_RECV_VERSION_REPLY_def
  BC_SEND_MASK_def BC_SEND_MESSAGE_def BC_SEND_VERSION_INIT_def BC_SEND_VERSION_REPLY_def

definition BEV_NONE :: u32 where "BEV_NONE = 0"
definition BEV_READ :: u32 where "BEV_READ = 1"
definition BEV_WRITE :: u32 where "BEV_WRITE = 2"

text \<open>
  \<open>h_fd\<close> says whether \<^verbatim>\<open>io.fd\<close> is a descriptor (not -1), \<open>h_active\<close> whether \<^verbatim>\<open>g_active_handlers\<close> owns the
  object; a timer is \<open>None\<close> when stopped. \<open>h_in\<close> and \<open>h_out\<close> are the two directions of the socket.
\<close>

record handler =
  h_read :: rbuf
  h_write :: wbuf
  h_remote :: sockaddr
  h_local :: sockaddr
  h_state :: u32
  h_io_events :: u32
  h_fd :: bool
  h_active :: bool
  h_timer :: "int option"
  h_active_timer :: "int option"
  h_last_activity :: int
  h_id :: u32
  h_in :: sock_in
  h_out :: sock_out

record conn =
  cn_remote :: sockaddr
  cn_watching :: bool
  cn_in :: sock_in
  cn_out :: sock_out

record world =
  w_active :: "(u32 \<times> handler) list"   \<comment> \<open>\<^verbatim>\<open>g_active_handlers\<close>, in key order\<close>
  w_inactive :: "handler list"
  w_id_pool :: u32
  w_last_block :: u32
  w_ping_iv :: int
  w_active_ping_iv :: int
  w_addr_payload :: "byte list"
  w_draws :: nat
  w_now :: int
  w_blacklist :: ipaddr_set
  w_conns :: "(nat \<times> conn) list"
  w_dead_conns :: "nat list"
  w_log :: "log_call list"

text \<open>The static data before the first event; \<open>now\<close> is the clock and \<open>bl\<close> the loaded blacklist.\<close>

definition w_init :: "int \<Rightarrow> ipaddr_set \<Rightarrow> world" where
  "w_init now bl = \<lparr>w_active = [], w_inactive = [], w_id_pool = 0, w_last_block = 0, w_ping_iv = -1, w_active_ping_iv = -1,
     w_addr_payload = zeros 35, w_draws = 0, w_now = now, w_blacklist = bl, w_conns = [], w_dead_conns = [], w_log = []\<rparr>"

definition log_add :: "log_call \<Rightarrow> world \<Rightarrow> world" where
  "log_add c w = w\<lparr>w_log := w_log w @ [c]\<rparr>"

definition now_u64 :: "world \<Rightarrow> u64" where
  "now_u64 w = of_int (w_now w)"

section \<open>Sending\<close>

definition io_set :: "u32 \<Rightarrow> handler \<Rightarrow> handler" where
  "io_set e h = (if e \<noteq> h_io_events h then h\<lparr>h_io_events := e\<rparr> else h)"

definition want_write :: "handler \<Rightarrow> handler" where
  "want_write h =
     (let h1 = (if h_state h AND BC_SEND_MASK = 0
                then io_set (BEV_WRITE OR (if h_state h AND BC_RECV_MASK \<noteq> 0 then BEV_READ else BEV_NONE)) h
                else h) in
      h1\<lparr>h_state := h_state h1 OR BC_SEND_MESSAGE\<rparr>)"

text \<open>\<^verbatim>\<open>append_for_write(const packed_message *)\<close> on the memory \<open>m\<close>, and on a buffer.\<close>

definition append_for_write :: "env \<Rightarrow> byte list \<Rightarrow> handler \<Rightarrow> world \<Rightarrow> (handler \<times> world) res" where
  "append_for_write env m h w =
     bindR (rd m 0 24) (\<lambda>hdr.
     bindR (rd m 0 (msg_length hdr + 24)) (\<lambda>bs.
     bindR (wq_append (e_ps env) bs (h_write h)) (\<lambda>wq.
     Inr (want_write (h\<lparr>h_write := wq\<rparr>), log_add (LMsg (h_id h) True m) w))))"

definition append_for_write_buf :: "vbuf \<Rightarrow> handler \<Rightarrow> world \<Rightarrow> (handler \<times> world) res" where
  "append_for_write_buf buf h w =
     bindR (vb_const_ptr buf) (\<lambda>m.
     bindR (rd m 0 24) (\<lambda>hdr.
     bindR (rd m 0 (msg_length hdr + 24)) (\<lambda>_.
     bindR (wq_append_buf buf (msg_length hdr + 24) (h_write h)) (\<lambda>wq.
     Inr (want_write (h\<lparr>h_write := wq\<rparr>), log_add (LMsg (h_id h) True m) w)))))"

definition message_bytes :: "env \<Rightarrow> string \<Rightarrow> byte list \<Rightarrow> byte list" where
  "message_bytes env command payload = pm_bytes (get_message (e_sha env) (e_magic env) (ascii command) payload)"

text \<open>\<^verbatim>\<open>get_version\<close> with the program's parameters; it draws a nonce and may set \<^verbatim>\<open>g_last_block\<close>.\<close>

definition make_version :: "env \<Rightarrow> sockaddr \<Rightarrow> sockaddr \<Rightarrow> world \<Rightarrow> byte list \<times> world" where
  "make_version env from_addr recv_addr w =
     (let n = version_size (length (var_string (e_agent env)));
          (v, g) = get_version (e_agent env) from_addr recv_addr (now_u64 w) (e_nonce env (w_draws w))
            (e_start_height env) (w_last_block w) (replicate n (e_junk env)) in
      (v, w\<lparr>w_last_block := g, w_draws := Suc (w_draws w)\<rparr>))"

section \<open>Timers\<close>

definition start_pingers :: "env \<Rightarrow> handler \<Rightarrow> world \<Rightarrow> handler \<times> world" where
  "start_pingers env h w =
     (let w1 = (if w_ping_iv w < 0 \<or> w_active_ping_iv w < 0
                then w\<lparr>w_ping_iv := max 0 (e_ping_frequency env), w_active_ping_iv := max 0 (e_active_mean env)\<rparr>
                else w);
          h1 = (if w_ping_iv w1 > 0 then h\<lparr>h_timer := Some (w_ping_iv w1)\<rparr> else h) in
      if w_active_ping_iv w1 > 0
      then (h1\<lparr>h_active_timer := Some (max 0 (e_rand_ping env (w_draws w1)))\<rparr>, w1\<lparr>w_draws := Suc (w_draws w1)\<rparr>)
      else (h1, w1))"

definition pinger_cb :: "env \<Rightarrow> handler \<Rightarrow> world \<Rightarrow> (handler \<times> world) res" where
  "pinger_cb env h w =
     (let after = h_last_activity h - w_now w + w_ping_iv w in
      if after < 0 then
        bindR (append_for_write env (message_bytes env ''ping'' (le64 (e_nonce env (w_draws w)))) h
                 (w\<lparr>w_draws := Suc (w_draws w)\<rparr>)) (\<lambda>(h1, w1).
        Inr (h1\<lparr>h_timer := Some (w_ping_iv w1)\<rparr>, w1))
      else Inr (h\<lparr>h_timer := Some after\<rparr>, w))"

text \<open>\<^verbatim>\<open>active_pinger_cb\<close>: the static payload has 1 + 4 + 30 bytes and keeps its address.\<close>

definition active_pinger_cb :: "env \<Rightarrow> handler \<Rightarrow> world \<Rightarrow> (handler \<times> world) res" where
  "active_pinger_cb env h w =
     (let p0 = w_addr_payload w;
          p1 = (if hd p0 = 0
                then let q = put 0 (to_varint 1) p0 in put 5 (set_address (field 5 26 q) (e_external env)) q
                else p0);
          p2 = put 1 (le32 (of_int (w_now w))) p1 in
      bindR (append_for_write env (message_bytes env ''addr'' p2) h (w\<lparr>w_addr_payload := p2\<rparr>)) (\<lambda>(h1, w1).
      Inr (h1\<lparr>h_active_timer := Some (max 5 (e_rand_ping env (w_draws w1)))\<rparr>, w1\<lparr>w_draws := Suc (w_draws w1)\<rparr>)))"

section \<open>Receiving\<close>

definition cstr_is :: "byte list \<Rightarrow> nat \<Rightarrow> string \<Rightarrow> bool" where
  "cstr_is bs off s = (field off (length s + 1) bs = ascii s @ [0])"

definition cstring :: "byte list \<Rightarrow> nat \<Rightarrow> byte list res" where
  "cstring bs off =
     (if 0 \<in> set (drop off bs) then Inr (takeWhile (\<lambda>b. b \<noteq> 0) (drop off bs)) else Inl Out_Of_Bounds)"

definition handle_message_recv :: "env \<Rightarrow> byte list \<Rightarrow> handler \<Rightarrow> world \<Rightarrow> (handler \<times> world) res" where
  "handle_message_recv env msg h w0 =
     (let w = log_add (LMsg (h_id h) False msg) w0 in
      if cstr_is msg 4 ''ping'' then
        bindR (rd msg 0 (24 + msg_length msg)) (\<lambda>bs.
        bindR (vb_write (vb_new_n (e_ps env) (24 + msg_length msg)) 0 bs) (\<lambda>b1.
        bindR (vb_write b1 5 (ascii ''o'')) (\<lambda>pongbuf.
        append_for_write_buf pongbuf h w)))
      else if cstr_is msg 4 ''getblocks'' then
        append_for_write env (message_bytes env ''inv'' (get_inv [])) h w
      else if field 4 3 msg = ascii ''ver'' then
        (if field 7 1 msg = ascii ''a'' then Inr (start_pingers env h w)
         else if field 7 1 msg = ascii ''s'' then
           bindR (rd msg (24 + msg_length msg - 5) 4) (\<lambda>x.
           let given_block = get32 x in
           Inr (h, if sint given_block > sint (w_last_block w) \<and> sint given_block - sint (w_last_block w) \<le> 10
                   then w\<lparr>w_last_block := given_block\<rparr> else w))
         else
           bindR (cstring msg 4) (\<lambda>c. Inr (h, log_add (LText DEBUG [ascii ''Unexpected command'', c]) w)))
      else Inr (h, w))"

section \<open>The end of a connection\<close>

definition bc_suicide :: "handler \<Rightarrow> world \<Rightarrow> handler \<times> world" where
  "bc_suicide h w =
     (let h1 = h\<lparr>h_timer := None, h_fd := False\<rparr> in
      if h_active h1 then (h1\<lparr>h_active := False\<rparr>, w\<lparr>w_inactive := []\<rparr>) else (h1, w))"

definition bc_disconnect :: "handler \<Rightarrow> world \<Rightarrow> handler \<times> world" where
  "bc_disconnect h w =
     bc_suicide h (log_add (LBitcoin CONNECTOR_DISCONNECT (h_id h) (h_remote h) (h_local h) []) w)"

section \<open>The event callbacks\<close>

text \<open>A completed frame; the state is the object and the world.\<close>

definition bc_complete :: "env \<Rightarrow> (handler \<times> world) complete" where
  "bc_complete env st cursor buf =
     (case st of (h, w) \<Rightarrow>
     bindR (assertR (vb_allocated buf \<ge> 24)) (\<lambda>_.
     bindR (vb_const_ptr buf) (\<lambda>msg.
     bindR (assertR (h_state h AND (BC_RECV_HEADER OR BC_RECV_VERSION_INIT_HDR OR BC_RECV_VERSION_REPLY_HDR) \<noteq> 0 \<or>
                     vb_allocated buf \<ge> 24 + msg_length msg)) (\<lambda>_.
     let state = h_state h; recv = state AND BC_RECV_MASK in
     if recv = BC_RECV_HEADER then
       (if msg_length msg = 0 then
          bindR (handle_message_recv env msg h w) (\<lambda>st'. Inr (st', Restart 24))
        else Inr ((h\<lparr>h_state := (state AND BC_SEND_MASK) OR BC_RECV_PAYLOAD\<rparr>, w), Extend (msg_length msg)))
     else if recv = BC_RECV_PAYLOAD then
       bindR (handle_message_recv env msg h w) (\<lambda>(h1, w1).
       Inr ((h1\<lparr>h_state := (h_state h1 AND BC_SEND_MASK) OR BC_RECV_HEADER\<rparr>, w1), Restart 24))
     else if recv = BC_RECV_VERSION_INIT_HDR then
       Inr ((h\<lparr>h_state := (state AND BC_SEND_MASK) OR BC_RECV_VERSION_INIT\<rparr>, w), Extend (msg_length msg))
     else if recv = BC_RECV_VERSION_INIT then
       bindR (handle_message_recv env msg h w) (\<lambda>(h1, w1).
       Inr ((h1\<lparr>h_state := (h_state h1 AND BC_SEND_MASK) OR BC_RECV_HEADER\<rparr>, w1), Restart 24))
     else if recv = BC_RECV_VERSION_REPLY_HDR then
       Inr ((h\<lparr>h_state := (state AND BC_SEND_MASK) OR BC_RECV_VERSION_REPLY\<rparr>, w), Extend (msg_length msg))
     else if recv = BC_RECV_VERSION_REPLY then
       bindR (handle_message_recv env msg h w) (\<lambda>(h1, w1).
       let (vers, w2) = make_version env (h_remote h1) (e_external env) w1 in
       bindR (append_for_write env (message_bytes env ''version'' vers) h1 w2) (\<lambda>(h3, w3).
       bindR (append_for_write env (message_bytes env ''verack'' []) h3 w3) (\<lambda>(h4, w4).
       let (h5, w5) = start_pingers env h4 w4 in
       Inr ((h5\<lparr>h_state := BC_SEND_VERSION_REPLY OR BC_RECV_HEADER\<rparr>, w5), Restart 24))))
     else Inr ((h, w), Extend 0)))))"

definition bc_do_read :: "env \<Rightarrow> handler \<Rightarrow> world \<Rightarrow> (handler \<times> world) res" where
  "bc_do_read env h w =
     bindR (assertR (h_fd h)) (\<lambda>_.
     bindR (read_loop (e_ps env) (bc_complete env) (h, w) (h_read h) (h_in h)) (\<lambda>((h1, w1), rb, s, r).
     let h2 = h1\<lparr>h_read := rb, h_in := s\<rparr> in
     case r of
       Some (IErr e) \<Rightarrow>
         if fatal (IErr e) then
           Inr (bc_suicide h2 (log_add
             (if e = ECONNRESET then LBitcoin PEER_RESET (h_id h2) (h_remote h2) (h_local h2) []
              else LBitcoin UNEXPECTED_ERROR (h_id h2) (h_remote h2) (h_local h2) (e_strerror env e @ [0])) w1))
         else Inr (h2, w1)
     | Some (IOk 0) \<Rightarrow>
         Inr (bc_suicide h2 (log_add (LBitcoin ORDERLY_DISCONNECT (h_id h2) (h_remote h2) (h_local h2) []) w1))
     | _ \<Rightarrow> Inr (h2, w1)))"

text \<open>Once \<^verbatim>\<open>io.fd\<close> is -1 a write fails with \<^verbatim>\<open>EBADF\<close>.\<close>

definition EBADF :: errno where "EBADF = Errno 9"

definition bc_out :: "handler \<Rightarrow> sock_out" where
  "bc_out h = (if h_fd h then h_out h else (h_out h)\<lparr>so_script := [WriteErr EBADF]\<rparr>)"

definition bc_do_write :: "env \<Rightarrow> handler \<Rightarrow> world \<Rightarrow> (handler \<times> world) res" where
  "bc_do_write env h w =
     bindR (write_loop (h_write h) (bc_out h)) (\<lambda>(r, wq, out).
     let h1 = h\<lparr>h_write := wq, h_out := out\<rparr> in
     case r of
       Some (IErr e) \<Rightarrow>
         if fatal (IErr e)
         then Inr (bc_suicide h1 (log_add
           (LBitcoin WRITE_DISCONNECT (h_id h1) (h_remote h1) (h_local h1) (e_strerror env e @ [0])) w))
         else Inr (h1, w)
     | Some (IOk _) \<Rightarrow> Inr (h1, w)
     | None \<Rightarrow>
         bindR (if h_state h1 AND BC_SEND_MASK = BC_SEND_VERSION_INIT
                then bindR (assertR (rb_to_read (h_read h1) = 0)) (\<lambda>_.
                     Inr (h1\<lparr>h_state := BC_RECV_VERSION_INIT_HDR, h_read := rb_set_to_read 24 (h_read h1)\<rparr>))
                else Inr h1) (\<lambda>h2.
         Inr (h2\<lparr>h_state := h_state h2 AND BC_RECV_MASK\<rparr>, w)))"

text \<open>
  \<^verbatim>\<open>handler::io_cb\<close>. The first branch moves an object with a closed descriptor out of the active map.
\<close>

definition bc_io_cb :: "env \<Rightarrow> u32 \<Rightarrow> handler \<Rightarrow> world \<Rightarrow> (handler \<times> world) res" where
  "bc_io_cb env revents h w =
     (if \<not> h_fd h then
        Inr (if h_active h
             then (h\<lparr>h_active := False\<rparr>,
                   log_add (LText DEBUG [ascii ''Handler '', e_dec env (unat (h_id h)),
                     ascii '' has invalid file descriptor but is in active set'']) w)
             else (h, w))
      else
        bindR (if h_state h AND BC_RECV_MASK \<noteq> 0 \<and> revents AND BEV_READ \<noteq> 0
               then bc_do_read env h w else Inr (h, w)) (\<lambda>(h1, w1).
        bindR (if revents AND BEV_WRITE \<noteq> 0 then bc_do_write env h1 w1 else Inr (h1, w1)) (\<lambda>(h2, w2).
        let events = (if h_state h2 AND BC_SEND_MASK \<noteq> 0 then BEV_WRITE else 0) OR
                     (if h_state h2 AND BC_RECV_MASK \<noteq> 0 then BEV_READ else 0) in
        Inr ((io_set events h2)\<lparr>h_last_activity := w_now w2\<rparr>, w2))))"

section \<open>Creating and finding handlers\<close>

text \<open>The constructor; \<open>i\<close> and \<open>out\<close> are the two directions of the descriptor it is given.\<close>

definition bc_new :: "env \<Rightarrow> u32 \<Rightarrow> sockaddr \<Rightarrow> sockaddr \<Rightarrow> sock_in \<Rightarrow> sock_out \<Rightarrow> world \<Rightarrow> (handler \<times> world) res" where
  "bc_new env a_state remote local_addr i out w =
     (let h = \<lparr>h_read = rb_new (e_ps env) 0, h_write = wq_new, h_remote = remote, h_local = local_addr, h_state = a_state,
               h_io_events = 0, h_fd = True, h_active = False, h_timer = None, h_active_timer = None,
               h_last_activity = w_now w, h_id = w_id_pool w, h_in = i, h_out = out\<rparr>;
          w0 = w\<lparr>w_id_pool := w_id_pool w + 1\<rparr> in
      if a_state = BC_SEND_VERSION_INIT then
        let (vers, w1) = make_version env (e_external env) remote w0;
            m = message_bytes env ''version'' vers;
            w2 = log_add (LMsg (h_id h) True m) w1 in
        bindR (rd m 0 (msg_length m + 24)) (\<lambda>bs.
        bindR (wq_append (e_ps env) bs (h_write h)) (\<lambda>wq.
        Inr (h\<lparr>h_io_events := BEV_WRITE, h_write := wq\<rparr>,
             log_add (LBitcoin CONNECT_SUCCESS (h_id h) remote local_addr []) w2)))
      else if a_state = BC_RECV_VERSION_REPLY_HDR then
        Inr (h\<lparr>h_io_events := BEV_READ, h_read := rb_set_to_read 24 (h_read h)\<rparr>,
             log_add (LBitcoin ACCEPT_SUCCESS (h_id h) remote local_addr []) w0)
      else Inl Assert_Fail)"

text \<open>
  \<^verbatim>\<open>g_active_handlers.insert(make_pair(h->get_id(), move(h)))\<close>. When the identifier is taken the new
  object is destroyed again, and its destructor erases the owner of the identifier.
\<close>

definition bc_insert :: "handler \<Rightarrow> world \<Rightarrow> world" where
  "bc_insert h w =
     (if h_id h \<in> fst ` set (w_active w)
      then w\<lparr>w_active := AList.delete (h_id h) (w_active w)\<rparr>
      else w\<lparr>w_active := insort_key fst (h_id h, h\<lparr>h_active := True\<rparr>) (w_active w)\<rparr>)"

text \<open>
  A method called on the object that the map holds under \<open>i\<close>; an object that has left the map is
  kept in \<^verbatim>\<open>g_inactive_handlers\<close>.
\<close>

definition on_handler :: "u32 \<Rightarrow> (handler \<Rightarrow> world \<Rightarrow> (handler \<times> world) res) \<Rightarrow> world \<Rightarrow> world res" where
  "on_handler i f w =
     (case map_of (w_active w) i of
        None \<Rightarrow> Inr w
      | Some h \<Rightarrow>
          bindR (f h w) (\<lambda>(h', w').
          Inr (if h_active h' then w'\<lparr>w_active := AList.update i h' (w_active w')\<rparr>
               else w'\<lparr>w_active := AList.delete i (w_active w'), w_inactive := h' # w_inactive w'\<rparr>)))"

section \<open>Outgoing connections\<close>

text \<open>The answer of \<^verbatim>\<open>connect\<close>, and of \<^verbatim>\<open>getsockname\<close> (an error or the address).\<close>

datatype connect_result = ConnOk | ConnErr errno

definition setup_handler :: "env \<Rightarrow> sockaddr \<Rightarrow> errno + sockaddr \<Rightarrow> sock_in \<Rightarrow> sock_out \<Rightarrow> world \<Rightarrow> world res" where
  "setup_handler env remote name i out w =
     (let (local_addr, w1) =
            (case name of Inr a \<Rightarrow> (a, w) | Inl e \<Rightarrow> (zeros 128, log_add (LText ERROR [e_strerror env e]) w)) in
      bindR (bc_new env BC_SEND_VERSION_INIT remote local_addr i out w1) (\<lambda>(h, w2).
      Inr (bc_insert h w2)))"

definition connect_failure :: "sockaddr \<Rightarrow> byte list \<Rightarrow> world \<Rightarrow> world" where
  "connect_failure remote err w =
     log_add (LBitcoin CONNECT_FAILURE 0 remote (set_family (ss_family remote) (zeros 128)) (err @ [0])) w"

text \<open>Deleting the dead \<^verbatim>\<open>connect_handler\<close>s; the destructor asserts that the watcher is stopped.\<close>

definition reap_conns :: "world \<Rightarrow> world res" where
  "reap_conns w =
     bindR (assertR (\<forall>p\<in>set (w_dead_conns w). case map_of (w_conns w) p of Some c \<Rightarrow> \<not> cn_watching c | None \<Rightarrow> True)) (\<lambda>_.
     Inr (w\<lparr>w_conns := filter (\<lambda>(p, c). p \<notin> set (w_dead_conns w)) (w_conns w), w_dead_conns := []\<rparr>))"

text \<open>The constructor of the object at address \<open>p\<close>.\<close>

definition connect_handler_new :: "env \<Rightarrow> nat \<Rightarrow> sockaddr \<Rightarrow> connect_result \<Rightarrow> errno + sockaddr \<Rightarrow> sock_in \<Rightarrow> sock_out
    \<Rightarrow> world \<Rightarrow> world res" where
  "connect_handler_new env p remote res name i out w =
     bindR (reap_conns w) (\<lambda>w0.
     let here = (\<lambda>b v. v\<lparr>w_conns := AList.update p \<lparr>cn_remote = remote, cn_watching = b, cn_in = i, cn_out = out\<rparr> (w_conns v)\<rparr>);
         dead = (\<lambda>v. v\<lparr>w_dead_conns := p # w_dead_conns v\<rparr>) in
     if bl_count remote (w_blacklist w0) > 0 then
       Inr (dead (here False (connect_failure remote (ascii ''BLACKLISTED'') w0)))
     else
       case res of
         ConnOk \<Rightarrow>
           bindR (setup_handler env remote name i out (log_add (LText DEBUG
             [ascii ''No need to do non-blocking connect, setup was instant'']) w0)) (\<lambda>w1.
           Inr (dead (here False w1)))
       | ConnErr e \<Rightarrow>
           if e = EINPROGRESS \<or> e = EALREADY then Inr (here True w0)
           else Inr (dead (here False (connect_failure remote (e_strerror env e) w0))))"

definition connect_io_cb :: "env \<Rightarrow> nat \<Rightarrow> connect_result \<Rightarrow> errno + sockaddr \<Rightarrow> world \<Rightarrow> world res" where
  "connect_io_cb env p res name w =
     (case map_of (w_conns w) p of
        None \<Rightarrow> Inl Dangling
      | Some c \<Rightarrow>
          let stopped = (\<lambda>v. v\<lparr>w_conns := AList.update p (c\<lparr>cn_watching := False\<rparr>) (w_conns v)\<rparr>);
              bury = (\<lambda>v. bindR (reap_conns v) (\<lambda>v'. Inr (v'\<lparr>w_dead_conns := [p]\<rparr>))) in
          case res of
            ConnOk \<Rightarrow> bindR (setup_handler env (cn_remote c) name (cn_in c) (cn_out c) w) (\<lambda>w1. bury (stopped w1))
          | ConnErr e \<Rightarrow>
              if e = EALREADY \<or> e = EINPROGRESS then Inr w
              else bury (stopped (connect_failure (cn_remote c) (e_strerror env e) w)))"

section \<open>Incoming connections\<close>

datatype bc_accept = BC_Accepted sockaddr sock_in sock_out | BC_Accept_Err errno

definition bc_accept_io_cb :: "env \<Rightarrow> bc_accept \<Rightarrow> errno + sockaddr \<Rightarrow> world \<Rightarrow> world res" where
  "bc_accept_io_cb env client name w =
     (case client of
        BC_Accept_Err e \<Rightarrow>
          Inr (if e \<noteq> EWOULDBLOCK \<and> e \<noteq> EAGAIN \<and> e \<noteq> ECONNABORTED \<and> e \<noteq> EINTR
               then log_add (LText ERROR [e_what env e, ascii ''(bitcoin_handler)'', e_code env e]) w else w)
      | BC_Accepted addr i out \<Rightarrow>
          if bl_count addr (w_blacklist w) > 0
          then Inr (log_add (LText ERROR [ascii ''Blacklisted ip address attempted to connect'', e_show env addr]) w)
          else
            let (local_addr, w1) =
              (case name of Inr a \<Rightarrow> (a, w) | Inl e \<Rightarrow> (zeros 128, log_add (LText ERROR [e_strerror env e]) w)) in
            bindR (bc_new env BC_RECV_VERSION_REPLY_HDR addr local_addr i out w1) (\<lambda>(h, w2).
            Inr ((bc_insert h w2)\<lparr>w_inactive := []\<rparr>)))"

end
