(* ===== verification/Bitcoin_Session.thy ===== *)
theory Bitcoin_Session
  imports Bitcoin_Handler
begin

text \<open>
  One Bitcoin connection: the invariant of a \<^verbatim>\<open>bitcoin::handler\<close> and its preservation by every method
  and callback. The relation \<open>acts\<close> says what an operation receives, queues and logs, and composes;
  \<open>sess_ok\<close> ties the socket and the write queue to the log; \<open>bc_inv\<close> is the invariant of the read
  loop, with which the handler is a framed reader; \<open>conn_ok\<close> holds between callbacks.
\<close>

section \<open>State bits\<close>

abbreviation recv_of :: "u32 \<Rightarrow> u32" where "recv_of s \<equiv> s AND BC_RECV_MASK"
abbreviation send_of :: "u32 \<Rightarrow> u32" where "send_of s \<equiv> s AND BC_SEND_MASK"

lemma masks_disjoint [simp]: "BC_RECV_MASK AND BC_SEND_MASK = 0" "BC_SEND_MASK AND BC_RECV_MASK = 0"
  by (simp_all add: bc_states)

lemma send_recv [simp]: "recv_of (send_of s) = 0" "send_of (recv_of s) = 0"
  by (simp_all add: and.assoc)

lemma recv_send_or [simp]: "recv_of (s OR t) = recv_of s OR recv_of t" "send_of (s OR t) = send_of s OR send_of t"
  by (simp_all add: word_ao_dist)

lemma mask_idem [simp]: "recv_of (recv_of s) = recv_of s" "send_of (send_of s) = send_of s"
  by (simp_all add: and.assoc)

lemma recv_consts [simp]:
  "recv_of BC_RECV_HEADER = BC_RECV_HEADER" "recv_of BC_RECV_PAYLOAD = BC_RECV_PAYLOAD"
  "recv_of BC_RECV_VERSION_INIT = BC_RECV_VERSION_INIT" "recv_of BC_RECV_VERSION_INIT_HDR = BC_RECV_VERSION_INIT_HDR"
  "recv_of BC_RECV_VERSION_REPLY_HDR = BC_RECV_VERSION_REPLY_HDR" "recv_of BC_RECV_VERSION_REPLY = BC_RECV_VERSION_REPLY"
  "send_of BC_RECV_HEADER = 0" "send_of BC_RECV_PAYLOAD = 0" "send_of BC_RECV_VERSION_INIT = 0"
  "send_of BC_RECV_VERSION_INIT_HDR = 0" "send_of BC_RECV_VERSION_REPLY_HDR = 0" "send_of BC_RECV_VERSION_REPLY = 0"
  "recv_of BC_SEND_MESSAGE = 0" "recv_of BC_SEND_VERSION_INIT = 0" "recv_of BC_SEND_VERSION_REPLY = 0"
  "send_of BC_SEND_MESSAGE = BC_SEND_MESSAGE" "send_of BC_SEND_VERSION_INIT = BC_SEND_VERSION_INIT"
  "send_of BC_SEND_VERSION_REPLY = BC_SEND_VERSION_REPLY"
  by (simp_all add: bc_states)

lemma or_nonzero: "(x :: u32) OR y = 0 \<longleftrightarrow> x = 0 \<and> y = 0"
  by (auto simp: bit_eq_iff bit_or_iff)

lemma consts_nonzero [simp]: "BC_SEND_MESSAGE \<noteq> 0" "BC_SEND_VERSION_INIT \<noteq> 0" "BC_SEND_VERSION_REPLY \<noteq> 0"
  by (simp_all add: bc_states)

text \<open>The header states and the payload states.\<close>

definition hdr_state :: "u32 \<Rightarrow> bool" where
  "hdr_state r \<longleftrightarrow> r = BC_RECV_HEADER \<or> r = BC_RECV_VERSION_INIT_HDR \<or> r = BC_RECV_VERSION_REPLY_HDR"

definition body_state :: "u32 \<Rightarrow> bool" where
  "body_state r \<longleftrightarrow> r = BC_RECV_PAYLOAD \<or> r = BC_RECV_VERSION_INIT \<or> r = BC_RECV_VERSION_REPLY"

lemma state_of_mask: "s AND c = recv_of s AND c" if "c = recv_of c" for s c :: u32
  using that by (metis and.assoc and.commute)

lemma hdr_bits:
  "s AND (BC_RECV_HEADER OR BC_RECV_VERSION_INIT_HDR OR BC_RECV_VERSION_REPLY_HDR) =
   recv_of s AND (BC_RECV_HEADER OR BC_RECV_VERSION_INIT_HDR OR BC_RECV_VERSION_REPLY_HDR)"
  by (rule state_of_mask) simp

section \<open>Messages in memory\<close>

lemma msg_length_take: "20 \<le> n \<Longrightarrow> msg_length (take n m) = msg_length m"
  by (simp add: msg_length_def field_def drop_take min_def)

lemma msg_length_append: "20 \<le> length m \<Longrightarrow> msg_length (m @ xs) = msg_length m"
  by (simp add: msg_length_def field_def)

lemma vb_write_put: "vb_write v c xs = Inr v' \<Longrightarrow> vb_bytes v' = put c xs (vb_bytes v)"
  by (cases v) (auto simp: bindR_Inr_iff wr_Inr put_def split: if_splits)

text \<open>A message as the handlers pass it: the header and the announced payload are there.\<close>

definition msg_ok :: "byte list \<Rightarrow> bool" where
  "msg_ok m \<longleftrightarrow> 24 \<le> length m \<and> 24 + msg_length m \<le> length m"

definition msg_take :: "byte list \<Rightarrow> byte list" where
  "msg_take m = take (24 + msg_length m) m"

lemma message_bytes_ok:
  "length p < 2 ^ 32 \<Longrightarrow> msg_ok (message_bytes env c p) \<and> msg_take (message_bytes env c p) = message_bytes env c p"
  by (simp add: msg_ok_def msg_take_def message_bytes_def get_message_length get_message_size)


section \<open>Sending\<close>

text \<open>
  The log as a record of what a connection was told to send and has received. A handler's
  identifier tags its messages.
\<close>

fun sent_msg :: "u32 \<Rightarrow> log_call \<Rightarrow> byte list" where
  "sent_msg i (LMsg j True m) = (if i = j then msg_take m else [])"
| "sent_msg i _ = []"

fun recv_msg :: "u32 \<Rightarrow> log_call \<Rightarrow> byte list list" where
  "recv_msg i (LMsg j False m) = (if i = j then [msg_take m] else [])"
| "recv_msg i _ = []"

definition sent_log :: "u32 \<Rightarrow> world \<Rightarrow> byte list" where
  "sent_log i w = concat (map (sent_msg i) (w_log w))"

definition recv_log :: "u32 \<Rightarrow> world \<Rightarrow> byte list list" where
  "recv_log i w = concat (map (recv_msg i) (w_log w))"

definition log_ok :: "world \<Rightarrow> bool" where
  "log_ok w \<longleftrightarrow> list_all call_ok (w_log w)"

lemma log_add_simps [simp]:
  "sent_log i (log_add c w) = sent_log i w @ sent_msg i c"
  "recv_log i (log_add c w) = recv_log i w @ recv_msg i c"
  "log_ok (log_add c w) \<longleftrightarrow> log_ok w \<and> call_ok c"
  "w_active (log_add c w) = w_active w" "w_inactive (log_add c w) = w_inactive w"
  "w_last_block (log_add c w) = w_last_block w" "w_draws (log_add c w) = w_draws w"
  "w_blacklist (log_add c w) = w_blacklist w" "w_now (log_add c w) = w_now w"
  "w_id_pool (log_add c w) = w_id_pool w" "w_addr_payload (log_add c w) = w_addr_payload w"
  "w_conns (log_add c w) = w_conns w" "w_dead_conns (log_add c w) = w_dead_conns w"
  "w_ping_iv (log_add c w) = w_ping_iv w" "w_active_ping_iv (log_add c w) = w_active_ping_iv w"
  by (simp_all add: log_add_def sent_log_def recv_log_def log_ok_def)

lemma call_ok_msg: "call_ok (LMsg i b m) \<longleftrightarrow> msg_ok m"
  by (simp add: msg_ok_def)

lemma want_write_simps [simp]:
  "h_write (want_write h) = h_write h" "h_read (want_write h) = h_read h" "h_remote (want_write h) = h_remote h"
  "h_local (want_write h) = h_local h" "h_id (want_write h) = h_id h" "h_fd (want_write h) = h_fd h"
  "h_out (want_write h) = h_out h" "h_in (want_write h) = h_in h" "h_active (want_write h) = h_active h"
  "h_timer (want_write h) = h_timer h" "h_active_timer (want_write h) = h_active_timer h"
  "h_state (want_write h) = h_state h OR BC_SEND_MESSAGE"
  by (simp_all add: want_write_def io_set_def Let_def)

text \<open>
  What an operation that accounts for the received messages \<open>rs\<close> and queues the bytes \<open>bs\<close> does
  to a handler and the world.
\<close>

definition same_conn :: "handler \<Rightarrow> handler \<Rightarrow> bool" where
  "same_conn h h' \<longleftrightarrow> h_id h' = h_id h \<and> h_remote h' = h_remote h \<and> h_local h' = h_local h \<and> h_read h' = h_read h \<and>
     h_in h' = h_in h \<and> h_out h' = h_out h \<and> h_fd h' = h_fd h \<and> h_active h' = h_active h"

definition armed :: "u32 \<Rightarrow> u32" where
  "armed s = (if send_of s \<noteq> 0 then BEV_WRITE else 0) OR (if recv_of s \<noteq> 0 then BEV_READ else 0)"

definition send_state :: "handler \<Rightarrow> byte list \<Rightarrow> handler \<Rightarrow> bool" where
  "send_state h bs h' \<longleftrightarrow>
     h_state h' = h_state h \<and> bs = [] \<and> h_io_events h' = h_io_events h \<or>
     h_state h' = h_state h OR BC_SEND_MESSAGE \<and>
     h_io_events h' = (if send_of (h_state h) = 0 then armed (h_state h') else h_io_events h)"

definition log_grows :: "u32 \<Rightarrow> world \<Rightarrow> byte list list \<Rightarrow> byte list \<Rightarrow> world \<Rightarrow> bool" where
  "log_grows i w rs bs w' \<longleftrightarrow>
     sent_log i w' = sent_log i w @ bs \<and> recv_log i w' = recv_log i w @ rs \<and>
     (\<forall>j. j \<noteq> i \<longrightarrow> sent_log j w' = sent_log j w \<and> recv_log j w' = recv_log j w) \<and>
     (log_ok w \<longrightarrow> log_ok w') \<and> w_active w' = w_active w \<and> w_inactive w' = w_inactive w \<and>
     w_id_pool w' = w_id_pool w \<and> w_blacklist w' = w_blacklist w \<and> w_now w' = w_now w \<and>
     w_conns w' = w_conns w \<and> w_dead_conns w' = w_dead_conns w \<and>
     length (w_addr_payload w') = length (w_addr_payload w)"

definition acts :: "handler \<Rightarrow> world \<Rightarrow> byte list list \<Rightarrow> byte list \<Rightarrow> handler \<Rightarrow> world \<Rightarrow> bool" where
  "acts h w rs bs h' w' \<longleftrightarrow>
     wq_ok (h_write h') \<and> wq_pend (h_write h') = wq_pend (h_write h) @ bs \<and>
     same_conn h h' \<and> send_state h bs h' \<and> log_grows (h_id h) w rs bs w'"

lemma same_conn_refl [simp]: "same_conn h h"
  by (simp add: same_conn_def)

lemma same_conn_trans: "same_conn h h' \<Longrightarrow> same_conn h' h'' \<Longrightarrow> same_conn h h''"
  by (simp add: same_conn_def)

lemma send_state_trans:
  assumes "send_state h bs h'" and "send_state h' bs' h''"
  shows "send_state h (bs @ bs') h''"
proof -
  have "send_of (h_state h OR BC_SEND_MESSAGE) \<noteq> 0" by (simp add: or_nonzero)
  moreover have "(h_state h OR BC_SEND_MESSAGE) OR BC_SEND_MESSAGE = h_state h OR BC_SEND_MESSAGE"
    by (simp add: or.assoc)
  ultimately show ?thesis using assms unfolding send_state_def by (elim disjE conjE) simp_all
qed

lemma log_grows_trans:
  "log_grows i w rs bs w' \<Longrightarrow> log_grows i w' rs' bs' w'' \<Longrightarrow> log_grows i w (rs @ rs') (bs @ bs') w''"
  by (simp add: log_grows_def)

lemma acts_trans:
  assumes "acts h w rs bs h' w'" and "acts h' w' rs' bs' h'' w''"
  shows "acts h w (rs @ rs') (bs @ bs') h'' w''"
proof -
  have A: "same_conn h h'" "send_state h bs h'" "log_grows (h_id h) w rs bs w'"
    "wq_pend (h_write h') = wq_pend (h_write h) @ bs"
    using assms(1) by (simp_all add: acts_def)
  have B: "same_conn h' h''" "send_state h' bs' h''" "log_grows (h_id h') w' rs' bs' w''" "wq_ok (h_write h'')"
    "wq_pend (h_write h'') = wq_pend (h_write h') @ bs'"
    using assms(2) by (simp_all add: acts_def)
  have "h_id h' = h_id h" using A(1) by (simp add: same_conn_def)
  with same_conn_trans [OF A(1) B(1)] send_state_trans [OF A(2) B(2)] log_grows_trans [OF A(3), of rs' bs' w''] A B
  show ?thesis by (simp add: acts_def)
qed

lemma acts_send:
  assumes "wq_ok wq" and "wq_pend wq = wq_pend (h_write h) @ msg_take m" and "msg_ok m"
  shows "acts h w [] (msg_take m) (want_write (h\<lparr>h_write := wq\<rparr>)) (log_add (LMsg (h_id h) True m) w)"
proof -
  have "send_state h (msg_take m) (want_write (h\<lparr>h_write := wq\<rparr>))"
    by (simp add: send_state_def want_write_def io_set_def Let_def armed_def or_nonzero BEV_NONE_def)
  then show ?thesis using assms
    by (simp add: acts_def same_conn_def log_grows_def call_ok_msg del: call_ok.simps)
qed

definition env_ok :: "env \<Rightarrow> bool" where
  "env_ok env \<longleftrightarrow> 0 < e_ps env \<and> 128 \<le> length (e_external env) \<and> length (e_agent env) < 2 ^ 31"

lemma env_okD: "env_ok env \<Longrightarrow> 0 < e_ps env" by (simp add: env_ok_def)

lemma append_for_write_ok:
  assumes "env_ok env" and "wq_ok (h_write h)" and "msg_ok m"
  obtains h' w' where "append_for_write env m h w = Inr (h', w')" "acts h w [] (msg_take m) h' w'"
    "h_timer h' = h_timer h" "h_active_timer h' = h_active_timer h" "w_draws w' = w_draws w"
proof -
  have l: "24 \<le> length m" "24 + msg_length m \<le> length m" using assms(3) by (simp_all add: msg_ok_def)
  then have ne: "msg_take m \<noteq> []" by (auto simp: msg_take_def)
  obtain wq where W: "wq_append (e_ps env) (msg_take m) (h_write h) = Inr wq" "wq_ok wq"
    "wq_pend wq = wq_pend (h_write h) @ msg_take m"
    using wq_append_ok [OF env_okD [OF assms(1)] assms(2) ne] by blast
  let ?h = "want_write (h\<lparr>h_write := wq\<rparr>)" and ?w = "log_add (LMsg (h_id h) True m) w"
  have "append_for_write env m h w = Inr (?h, ?w)"
    using l W(1) by (simp add: append_for_write_def rd_def msg_length_take msg_take_def add.commute)
  moreover have "acts h w [] (msg_take m) ?h ?w" by (rule acts_send [OF W(2,3)]) (rule assms)
  ultimately show thesis by (rule that) simp_all
qed

lemma msg_length_put: "20 \<le> length m \<Longrightarrow> off + length xs \<le> 16 \<Longrightarrow> msg_length (put off xs m) = msg_length m"
  by (simp add: msg_length_def field_put_other)

lemma put_take:
  assumes "off + length xs \<le> n" and "n \<le> length m"
  shows "take n (put off xs m) = put off xs (take n m)"
proof -
  have "n - off - length xs = n - (off + length xs)" by simp
  with assms show ?thesis by (simp add: put_def drop_take min_absorb2)
qed

lemma append_for_write_buf_ok:
  assumes "wq_ok (h_write h)" and "msg_ok (vb_bytes b)"
  obtains h' w' where "append_for_write_buf b h w = Inr (h', w')" "acts h w [] (msg_take (vb_bytes b)) h' w'"
    "h_timer h' = h_timer h" "h_active_timer h' = h_active_timer h" "w_draws w' = w_draws w"
proof -
  let ?m = "vb_bytes b"
  have l: "24 \<le> length ?m" "24 + msg_length ?m \<le> length ?m" using assms(2) by (simp_all add: msg_ok_def)
  have "24 + msg_length ?m \<le> vb_allocated b" using l by (simp add: vb_allocated_def)
  then obtain wq where W: "wq_append_buf b (24 + msg_length ?m) (h_write h) = Inr wq" "wq_ok wq"
    "wq_pend wq = wq_pend (h_write h) @ msg_take ?m"
    using wq_append_buf_ok [OF assms(1), of "24 + msg_length ?m" b] by (auto simp: msg_take_def)
  let ?h = "want_write (h\<lparr>h_write := wq\<rparr>)" and ?w = "log_add (LMsg (h_id h) True ?m) w"
  have "?m \<noteq> []" using l by auto
  then have "append_for_write_buf b h w = Inr (?h, ?w)"
    using l W(1) by (simp add: append_for_write_buf_def vb_const_ptr_def rd_def msg_length_take add.commute)
  moreover have "acts h w [] (msg_take ?m) ?h ?w" by (rule acts_send [OF W(2,3)]) (rule assms)
  ultimately show thesis by (rule that) simp_all
qed

section \<open>Receiving\<close>

text \<open>What the handler sends back for a message.\<close>

definition bc_reply :: "env \<Rightarrow> byte list \<Rightarrow> byte list" where
  "bc_reply env msg =
     (if cstr_is msg 4 ''ping'' then put 5 [0x6f] (msg_take msg)
      else if cstr_is msg 4 ''getblocks'' then message_bytes env ''inv'' (get_inv [])
      else [])"

lemma start_pingers_acts:
  assumes "wq_ok (h_write h)" and "start_pingers env h w = (h', w')"
  shows "acts h w [] [] h' w'"
proof -
  have "log_grows (h_id h) w [] [] w' \<and> same_conn h h' \<and> send_state h [] h' \<and> h_write h' = h_write h"
    using assms(2)
    by (auto simp: start_pingers_def Let_def log_grows_def same_conn_def send_state_def sent_log_def recv_log_def log_ok_def
        split: if_splits)
  then show ?thesis using assms(1) by (simp add: acts_def)
qed

lemma pong_buffer:
  assumes "0 < ps" and "msg_ok msg"
  obtains b1 b2 where "vb_write (vb_new_n ps (24 + msg_length msg)) 0 (msg_take msg) = Inr b1"
    "vb_write b1 5 [0x6f] = Inr b2" "msg_ok (vb_bytes b2)" "msg_take (vb_bytes b2) = put 5 [0x6f] (msg_take msg)"
proof -
  have l: "length (msg_take msg) = 24 + msg_length msg" "msg_take msg \<noteq> []"
    using assms(2) by (auto simp: msg_take_def msg_ok_def)
  obtain b1 where b1: "vb_write (vb_new_n ps (24 + msg_length msg)) 0 (msg_take msg) = Inr b1"
    "24 + msg_length msg \<le> vb_allocated b1" "take (24 + msg_length msg) (vb_bytes b1) = msg_take msg"
    using vb_new_n_write [OF assms(1) l(2)] l(1) by auto
  have "5 + length [0x6f :: byte] \<le> vb_allocated b1" "0 < vb_allocated b1" using b1(2) by auto
  from vb_write_ok [OF this] obtain b2 where b2: "vb_write b1 5 [0x6f] = Inr b2" by blast
  note P = vb_write_put [OF b2]
  have lb: "24 + msg_length msg \<le> length (vb_bytes b1)" using b1(2) by (simp add: vb_allocated_def)
  have ml: "msg_length (vb_bytes b1) = msg_length msg"
    using msg_length_take [of "24 + msg_length msg" "vb_bytes b1"] msg_length_take [of "24 + msg_length msg" msg] b1(3)
    by (simp add: msg_take_def)
  have ml2: "msg_length (vb_bytes b2) = msg_length msg" using P ml lb by (simp add: msg_length_put)
  have "msg_ok (vb_bytes b2)" using ml2 lb P by (simp add: msg_ok_def length_put)
  moreover have "msg_take (vb_bytes b2) = put 5 [0x6f] (msg_take msg)"
    unfolding msg_take_def ml2 unfolding P using lb b1(3) by (simp add: put_take msg_take_def)
  ultimately show thesis by (rule that [OF b1(1) b2])
qed

lemma acts_log:
  assumes "wq_ok (h_write h)" and "call_ok c" and "sent_msg (h_id h) c = []" and "recv_msg (h_id h) c = rs"
    and "\<forall>j. j \<noteq> h_id h \<longrightarrow> sent_msg j c = [] \<and> recv_msg j c = []"
  shows "acts h w rs [] h (log_add c w)"
  using assms by (simp add: acts_def log_grows_def send_state_def)

lemma acts_id: "wq_ok (h_write h) \<Longrightarrow> log_grows (h_id h) w [] [] w' \<Longrightarrow> acts h w [] [] h w'"
  by (simp add: acts_def send_state_def)

lemma acts_wq: "acts h w rs bs h' w' \<Longrightarrow> wq_ok (h_write h')"
  by (simp add: acts_def)

lemma ping_reply:
  assumes "env_ok env" and "wq_ok (h_write h)" and "msg_ok msg" and "cstr_is msg 4 ''ping''"
  shows "\<exists>h' w'. handle_message_recv env msg h w = Inr (h', w') \<and>
    acts h (log_add (LMsg (h_id h) False msg) w) [] (put 5 [0x6f] (msg_take msg)) h' w'"
proof -
  let ?w = "log_add (LMsg (h_id h) False msg) w"
  obtain b1 b2 where B: "vb_write (vb_new_n (e_ps env) (24 + msg_length msg)) 0 (msg_take msg) = Inr b1"
    "vb_write b1 5 [0x6f] = Inr b2" "msg_ok (vb_bytes b2)" "msg_take (vb_bytes b2) = put 5 [0x6f] (msg_take msg)"
    by (rule pong_buffer [OF env_okD [OF assms(1)] assms(3)])
  obtain h' w' where A: "append_for_write_buf b2 h ?w = Inr (h', w')" "acts h ?w [] (msg_take (vb_bytes b2)) h' w'"
    by (rule append_for_write_buf_ok [OF assms(2) B(3)])
  have "ascii ''o'' = [0x6f]" by (simp add: ascii_def)
  moreover have "rd msg 0 (24 + msg_length msg) = Inr (msg_take msg)"
    using assms(3) by (simp add: rd_def msg_ok_def msg_take_def)
  ultimately have "handle_message_recv env msg h w = Inr (h', w')"
    using assms(4) B(1,2) A(1) by (simp add: handle_message_recv_def Let_def)
  with A(2) B(4) show ?thesis by auto
qed

lemma handle_message_recv_ok:
  assumes "env_ok env" and "wq_ok (h_write h)" and "msg_ok msg"
  shows "(\<exists>h' w'. handle_message_recv env msg h w = Inr (h', w') \<and> acts h w [msg_take msg] (bc_reply env msg) h' w') \<or>
    handle_message_recv env msg h w = Inl Out_Of_Bounds \<and> 0 \<notin> set (drop 4 msg)"
proof -
  let ?w = "log_add (LMsg (h_id h) False msg) w"
  have L: "acts h w [msg_take msg] [] h ?w"
    by (rule acts_log [OF assms(2)]) (use assms(3) in \<open>simp_all add: call_ok_msg del: call_ok.simps\<close>)
  have chain: "acts h w [msg_take msg] bs h' w'" if "acts h ?w [] bs h' w'" for bs h' w'
    using acts_trans [OF L that] by simp
  note D = handle_message_recv_def Let_def
  consider (ping) "cstr_is msg 4 ''ping''"
    | (blocks) "\<not> cstr_is msg 4 ''ping''" "cstr_is msg 4 ''getblocks''"
    | (verack) "\<not> cstr_is msg 4 ''ping''" "\<not> cstr_is msg 4 ''getblocks''" "field 4 3 msg = ascii ''ver''" "field 7 1 msg = ascii ''a''"
    | (vers) "\<not> cstr_is msg 4 ''ping''" "\<not> cstr_is msg 4 ''getblocks''" "field 4 3 msg = ascii ''ver''"
        "field 7 1 msg \<noteq> ascii ''a''" "field 7 1 msg = ascii ''s''"
    | (other) "\<not> cstr_is msg 4 ''ping''" "\<not> cstr_is msg 4 ''getblocks''" "field 4 3 msg = ascii ''ver''"
        "field 7 1 msg \<noteq> ascii ''a''" "field 7 1 msg \<noteq> ascii ''s''"
    | (none) "\<not> cstr_is msg 4 ''ping''" "\<not> cstr_is msg 4 ''getblocks''" "field 4 3 msg \<noteq> ascii ''ver''" by blast
  then show ?thesis
  proof cases
    case ping
    from ping_reply [OF assms(1,2,3) ping, of w] chain ping show ?thesis by (fastforce simp: bc_reply_def)
  next
    case blocks
    let ?m = "message_bytes env ''inv'' (get_inv [])"
    have "length (get_inv []) < 2 ^ 32" by (simp add: get_inv_def to_varint_def)
    from message_bytes_ok [OF this] have ok: "msg_ok ?m" "msg_take ?m = ?m" by blast+
    obtain h' w' where "append_for_write env ?m h ?w = Inr (h', w')" "acts h ?w [] (msg_take ?m) h' w'"
      by (rule append_for_write_ok [OF assms(1,2) ok(1)])
    with chain ok(2) blocks show ?thesis by (auto simp: bc_reply_def D)
  next
    case verack
    obtain h' w' where S: "start_pingers env h ?w = (h', w')" by fastforce
    with verack chain [OF start_pingers_acts [OF assms(2) S]] show ?thesis by (simp add: bc_reply_def D)
  next
    case vers
    let ?x = "take 4 (drop (24 + msg_length msg - 5) msg)"
    have r: "rd msg (24 + msg_length msg - 5) 4 = Inr ?x" using assms(3) by (simp add: rd_def msg_ok_def)
    have "log_grows (h_id h) ?w [] [] v \<Longrightarrow> acts h w [msg_take msg] [] h v" for v
      using chain [OF acts_id [OF assms(2), of ?w v]] by simp
    moreover have "log_grows (h_id h) ?w [] [] (?w\<lparr>w_last_block := x\<rparr>)" "log_grows (h_id h) ?w [] [] ?w" for x
      by (simp_all add: log_grows_def sent_log_def recv_log_def log_ok_def)
    ultimately show ?thesis using vers r by (simp add: bc_reply_def D)
  next
    case other
    show ?thesis
    proof (cases "0 \<in> set (drop 4 msg)")
      case True
      let ?t = "LText DEBUG [ascii ''Unexpected command'', takeWhile (\<lambda>b. b \<noteq> 0) (drop 4 msg)]"
      have "acts h ?w [] [] h (log_add ?t ?w)" by (rule acts_log [OF assms(2)]) simp_all
      with other True chain show ?thesis by (simp add: bc_reply_def D cstring_def)
    qed (use other in \<open>simp add: D cstring_def\<close>)
  next
    case none
    with L show ?thesis by (simp add: bc_reply_def D)
  qed
qed


section \<open>The invariant of a connection\<close>

text \<open>
  Everything handed to the socket or still queued is what the log says was sent, in order, and
  while anything is queued the state says so.
\<close>

text \<open>\<open>i\<close> is the identifier of the connection; \<open>w0\<close> is an earlier world, of which only its own part has changed.\<close>

definition frame :: "u32 \<Rightarrow> world \<Rightarrow> world \<Rightarrow> bool" where
  "frame i w0 w \<longleftrightarrow> (\<forall>j. j \<noteq> i \<longrightarrow> sent_log j w = sent_log j w0 \<and> recv_log j w = recv_log j w0) \<and>
     w_active w = w_active w0 \<and> (w_inactive w = w_inactive w0 \<or> w_inactive w = []) \<and> w_id_pool w = w_id_pool w0 \<and>
     w_blacklist w = w_blacklist w0 \<and> w_now w = w_now w0 \<and>
     w_conns w = w_conns w0 \<and> w_dead_conns w = w_dead_conns w0 \<and> length (w_addr_payload w) = length (w_addr_payload w0)"

lemma frame_refl [simp]: "frame i w w"
  by (simp add: frame_def)

lemma frame_trans: "frame i w0 w1 \<Longrightarrow> frame i w1 w2 \<Longrightarrow> frame i w0 w2"
  by (auto simp: frame_def)

lemma frame_log_grows: "log_grows i w rs bs w' \<Longrightarrow> frame i w w'"
  by (simp add: log_grows_def frame_def)

definition sess_ok :: "u32 \<Rightarrow> world \<Rightarrow> handler \<times> world \<Rightarrow> bool" where
  "sess_ok i w0 st \<longleftrightarrow> (case st of (h, w) \<Rightarrow>
     h_id h = i \<and> frame i w0 w \<and>
     wq_ok (h_write h) \<and> length (h_remote h) = 128 \<and> length (h_local h) = 128 \<and> log_ok w \<and>
     (wq_pend (h_write h) \<noteq> [] \<longrightarrow> send_of (h_state h) \<noteq> 0) \<and>
     so_written (h_out h) @ wq_pend (h_write h) = sent_log i w)"

lemma sess_okD:
  "sess_ok i w0 (h, w) \<Longrightarrow> wq_ok (h_write h)" "sess_ok i w0 (h, w) \<Longrightarrow> length (h_remote h) = 128"
  "sess_ok i w0 (h, w) \<Longrightarrow> length (h_local h) = 128" "sess_ok i w0 (h, w) \<Longrightarrow> log_ok w"
  "sess_ok i w0 (h, w) \<Longrightarrow> so_written (h_out h) @ wq_pend (h_write h) = sent_log i w"
  "sess_ok i w0 (h, w) \<Longrightarrow> wq_pend (h_write h) \<noteq> [] \<Longrightarrow> send_of (h_state h) \<noteq> 0"
  "sess_ok i w0 (h, w) \<Longrightarrow> h_id h = i" "sess_ok i w0 (h, w) \<Longrightarrow> frame i w0 w"
  by (simp_all add: sess_ok_def)

lemma send_state_send: "send_state h bs h' \<Longrightarrow> send_of (h_state h) \<noteq> 0 \<Longrightarrow> send_of (h_state h') \<noteq> 0"
  "send_state h bs h' \<Longrightarrow> bs \<noteq> [] \<Longrightarrow> send_of (h_state h') \<noteq> 0"
  "send_state h bs h' \<Longrightarrow> recv_of (h_state h') = recv_of (h_state h)"
  by (auto simp: send_state_def or_nonzero)

lemma sess_ok_acts:
  assumes "sess_ok i w0 (h, w)" and "acts h w rs bs h' w'"
  shows "sess_ok i w0 (h', w')"
proof -
  have S: "same_conn h h'" "send_state h bs h'" "log_grows i w rs bs w'" "wq_ok (h_write h')"
    and P: "wq_pend (h_write h') = wq_pend (h_write h) @ bs"
    using assms(2) sess_okD(7) [OF assms(1)] by (simp_all add: acts_def)
  have "wq_pend (h_write h') \<noteq> [] \<longrightarrow> send_of (h_state h') \<noteq> 0"
    using sess_okD(6) [OF assms(1)] send_state_send(1,2) [OF S(2)] P by auto
  moreover have "so_written (h_out h') @ wq_pend (h_write h') = sent_log i w'"
    using sess_okD(5) [OF assms(1), symmetric] S(1,3) P by (simp add: same_conn_def log_grows_def)
  moreover have "frame i w0 w'" by (rule frame_trans [OF sess_okD(8) [OF assms(1)] frame_log_grows [OF S(3)]])
  moreover have "log_ok w'" using sess_okD(4) [OF assms(1)] S(3) by (simp add: log_grows_def)
  ultimately show ?thesis
    using sess_okD(2,3,7) [OF assms(1)] S(1,4) by (simp add: sess_ok_def same_conn_def)
qed

lemma sess_ok_state:
  "sess_ok i w0 (h, w) \<Longrightarrow> send_of s = send_of (h_state h) \<or> send_of s \<noteq> 0 \<Longrightarrow> sess_ok i w0 (h\<lparr>h_state := s\<rparr>, w)"
  by (auto simp: sess_ok_def)

text \<open>\<open>m\<close> is the length of the frame the handler waits for and \<open>pre\<close> the part that is there.\<close>

definition bc_inv :: "env \<Rightarrow> u32 \<Rightarrow> world \<Rightarrow> handler \<times> world \<Rightarrow> nat \<Rightarrow> byte list \<Rightarrow> bool" where
  "bc_inv env i w0 st m pre \<longleftrightarrow> env_ok env \<and> sess_ok i w0 st \<and>
     (let s = h_state (fst st); r = recv_of s in
      s AND BC_SEND_VERSION_INIT = 0 \<and>
      (hdr_state r \<and> m = 24 \<or> body_state r \<and> 24 \<le> length pre \<and> m = 24 + msg_length pre))"

lemma make_version_ok:
  assumes "env_ok env" and "128 \<le> length fa" and "128 \<le> length ra" and "make_version env fa ra w = (v, w')"
  shows "length v < 2 ^ 32" and "log_grows i w [] [] w'"
proof -
  let ?ua = "e_agent env"
  have l: "length (var_string ?ua) \<le> 9 + length ?ua" by (simp add: var_string_def to_varint_def)
  obtain g where G: "get_version ?ua fa ra (now_u64 w) (e_nonce env (w_draws w)) (e_start_height env) (w_last_block w)
      (replicate (version_size (length (var_string ?ua))) (e_junk env)) = (v, g)"
    and w': "w' = w\<lparr>w_last_block := g, w_draws := Suc (w_draws w)\<rparr>"
    using assms(4) by (auto simp: make_version_def Let_def split: prod.splits)
  have "length v = version_size (length (var_string ?ua))"
    by (rule get_version_facts(1) [OF _ assms(2,3) G]) simp
  then show "length v < 2 ^ 32" using l assms(1) by (simp add: version_size_def env_ok_def)
  show "log_grows i w [] [] w'" by (simp add: w' log_grows_def sent_log_def recv_log_def log_ok_def)
qed

lemma acts_length: "acts h w rs bs h' w' \<Longrightarrow> length (h_remote h') = length (h_remote h)"
  "acts h w rs bs h' w' \<Longrightarrow> recv_of (h_state h') = recv_of (h_state h)"
  "acts h w rs bs h' w' \<Longrightarrow> h_id h' = h_id h" "acts h w rs bs h' w' \<Longrightarrow> h_remote h' = h_remote h"
  using send_state_send(3) by (auto simp: acts_def same_conn_def)

lemma send_message_init: "BC_SEND_MESSAGE AND BC_SEND_VERSION_INIT = 0" "BC_SEND_VERSION_REPLY AND BC_SEND_VERSION_INIT = 0"
  "BC_RECV_HEADER AND BC_SEND_VERSION_INIT = 0"
  by (simp_all add: bc_states)

lemma acts_init: "acts h w rs bs h' w' \<Longrightarrow> h_state h' AND BC_SEND_VERSION_INIT = h_state h AND BC_SEND_VERSION_INIT"
  by (auto simp: acts_def send_state_def word_ao_dist send_message_init)

text \<open>The reply to a peer's version message: our version, then the acknowledgement.\<close>

lemma version_reply_ok:
  assumes "env_ok env" and "wq_ok (h_write h)" and "128 \<le> length (h_remote h)"
    and "make_version env (h_remote h) (e_external env) w = (v, w1)"
  obtains h3 w3 h4 w4 h5 w5 where "append_for_write env (message_bytes env ''version'' v) h w1 = Inr (h3, w3)"
    "append_for_write env (message_bytes env ''verack'' []) h3 w3 = Inr (h4, w4)" "start_pingers env h4 w4 = (h5, w5)"
    "acts h w [] (message_bytes env ''version'' v @ message_bytes env ''verack'' []) h5 w5"
proof -
  have ext: "128 \<le> length (e_external env)" using assms(1) by (simp add: env_ok_def)
  note V = make_version_ok [OF assms(1,3) ext assms(4)]
  have A0: "acts h w [] [] h w1" by (rule acts_id [OF assms(2) V(2)])
  have m1: "msg_ok (message_bytes env ''version'' v)" "msg_take (message_bytes env ''version'' v) = message_bytes env ''version'' v"
    using message_bytes_ok [OF V(1)] by blast+
  have m2: "msg_ok (message_bytes env ''verack'' [])" "msg_take (message_bytes env ''verack'' []) = message_bytes env ''verack'' []"
    using message_bytes_ok [of "[]"] by simp_all
  obtain h3 w3 where A1: "append_for_write env (message_bytes env ''version'' v) h w1 = Inr (h3, w3)"
    "acts h w1 [] (msg_take (message_bytes env ''version'' v)) h3 w3"
    by (rule append_for_write_ok [OF assms(1,2) m1(1)])
  obtain h4 w4 where A2: "append_for_write env (message_bytes env ''verack'' []) h3 w3 = Inr (h4, w4)"
    "acts h3 w3 [] (msg_take (message_bytes env ''verack'' [])) h4 w4"
    by (rule append_for_write_ok [OF assms(1) acts_wq [OF A1(2)] m2(1)])
  obtain h5 w5 where S: "start_pingers env h4 w4 = (h5, w5)" by fastforce
  have "acts h w [] (message_bytes env ''version'' v @ message_bytes env ''verack'' []) h5 w5"
    using acts_trans [OF acts_trans [OF acts_trans [OF A0 A1(2)] A2(2)] start_pingers_acts [OF acts_wq [OF A2(2)] S]] m1(2) m2(2)
    by simp
  then show thesis by (rule that [OF A1(1) A2(1) S])
qed


section \<open>Completed frames\<close>

lemma bc_distinct [simp]:
  "BC_RECV_PAYLOAD \<noteq> BC_RECV_HEADER" "BC_RECV_VERSION_INIT_HDR \<noteq> BC_RECV_HEADER" "BC_RECV_VERSION_INIT_HDR \<noteq> BC_RECV_PAYLOAD"
  "BC_RECV_VERSION_INIT \<noteq> BC_RECV_HEADER" "BC_RECV_VERSION_INIT \<noteq> BC_RECV_PAYLOAD" "BC_RECV_VERSION_INIT \<noteq> BC_RECV_VERSION_INIT_HDR"
  "BC_RECV_VERSION_REPLY_HDR \<noteq> BC_RECV_HEADER" "BC_RECV_VERSION_REPLY_HDR \<noteq> BC_RECV_PAYLOAD"
  "BC_RECV_VERSION_REPLY_HDR \<noteq> BC_RECV_VERSION_INIT_HDR" "BC_RECV_VERSION_REPLY_HDR \<noteq> BC_RECV_VERSION_INIT"
  "BC_RECV_VERSION_REPLY \<noteq> BC_RECV_HEADER" "BC_RECV_VERSION_REPLY \<noteq> BC_RECV_PAYLOAD"
  "BC_RECV_VERSION_REPLY \<noteq> BC_RECV_VERSION_INIT_HDR" "BC_RECV_VERSION_REPLY \<noteq> BC_RECV_VERSION_INIT"
  "BC_RECV_VERSION_REPLY \<noteq> BC_RECV_VERSION_REPLY_HDR"
  by (simp_all add: bc_states)

lemmas bc_distinct_sym [simp] = bc_distinct [symmetric]

lemma hdr_not_body: "hdr_state r \<Longrightarrow> \<not> body_state r"
  by (auto simp: hdr_state_def body_state_def)

text \<open>A completed frame reaches the switch: the assertions before it hold.\<close>

lemma bc_complete_body:
  assumes "24 \<le> vb_allocated buf" and "hdr_state (recv_of (h_state h)) \<or> 24 + msg_length (vb_bytes buf) \<le> vb_allocated buf"
  shows "bc_complete env (h, w) c buf =
    (let msg = vb_bytes buf; state = h_state h; recv = recv_of state in
     if recv = BC_RECV_HEADER then
       (if msg_length msg = 0 then
          bindR (handle_message_recv env msg h w) (\<lambda>st'. Inr (st', Restart 24))
        else Inr ((h\<lparr>h_state := send_of state OR BC_RECV_PAYLOAD\<rparr>, w), Extend (msg_length msg)))
     else if recv = BC_RECV_PAYLOAD \<or> recv = BC_RECV_VERSION_INIT then
       bindR (handle_message_recv env msg h w) (\<lambda>(h1, w1).
       Inr ((h1\<lparr>h_state := send_of (h_state h1) OR BC_RECV_HEADER\<rparr>, w1), Restart 24))
     else if recv = BC_RECV_VERSION_INIT_HDR then
       Inr ((h\<lparr>h_state := send_of state OR BC_RECV_VERSION_INIT\<rparr>, w), Extend (msg_length msg))
     else if recv = BC_RECV_VERSION_REPLY_HDR then
       Inr ((h\<lparr>h_state := send_of state OR BC_RECV_VERSION_REPLY\<rparr>, w), Extend (msg_length msg))
     else if recv = BC_RECV_VERSION_REPLY then
       bindR (handle_message_recv env msg h w) (\<lambda>(h1, w1).
       let (vers, w2) = make_version env (h_remote h1) (e_external env) w1 in
       bindR (append_for_write env (message_bytes env ''version'' vers) h1 w2) (\<lambda>(h3, w3).
       bindR (append_for_write env (message_bytes env ''verack'' []) h3 w3) (\<lambda>(h4, w4).
       let (h5, w5) = start_pingers env h4 w4 in
       Inr ((h5\<lparr>h_state := BC_SEND_VERSION_REPLY OR BC_RECV_HEADER\<rparr>, w5), Restart 24))))
     else Inr ((h, w), Extend 0))"
proof -
  let ?m = "BC_RECV_HEADER OR BC_RECV_VERSION_INIT_HDR OR BC_RECV_VERSION_REPLY_HDR"
  have "BC_RECV_HEADER AND ?m \<noteq> 0" "BC_RECV_VERSION_INIT_HDR AND ?m \<noteq> 0" "BC_RECV_VERSION_REPLY_HDR AND ?m \<noteq> 0"
    by (simp_all add: bc_states)
  then have "h_state h AND ?m \<noteq> 0 \<or> 24 + msg_length (vb_bytes buf) \<le> vb_allocated buf"
    using assms(2) hdr_bits [of "h_state h"] unfolding hdr_state_def by metis
  moreover have "vb_bytes buf \<noteq> []" using assms(1) by (auto simp: vb_allocated_def)
  ultimately show ?thesis using assms(1)
    by (auto simp: bc_complete_def vb_const_ptr_def assertR_def Let_def)
qed

lemma bc_inv_restart:
  assumes "env_ok env" and "sess_ok i w0 (h, w)" and "h_state h AND BC_SEND_VERSION_INIT = 0" and "hdr_state (recv_of (h_state h))"
  shows "bc_inv env i w0 (h, w) 24 pre"
  using assms by (simp add: bc_inv_def)

lemma send_or_init: "(send_of s OR r) AND BC_SEND_VERSION_INIT = s AND BC_SEND_VERSION_INIT" if "send_of r = 0" for s r :: u32
proof -
  have e: "BC_SEND_VERSION_INIT = BC_SEND_MASK AND BC_SEND_VERSION_INIT" by (simp add: bc_states)
  have "x AND BC_SEND_VERSION_INIT = send_of x AND BC_SEND_VERSION_INIT" for x by (subst e) (simp only: and.assoc)
  from this [of "send_of s OR r"] this [of s] that show ?thesis by simp
qed

lemma frame_msg:
  assumes "take m (vb_bytes buf) = pre" and "length pre = m" and "24 \<le> m"
  shows "24 \<le> vb_allocated buf" "m \<le> vb_allocated buf" "msg_length (vb_bytes buf) = msg_length pre"
    "m = 24 + msg_length pre \<Longrightarrow> msg_ok (vb_bytes buf) \<and> msg_take (vb_bytes buf) = pre"
proof -
  show a: "m \<le> vb_allocated buf" using assms(1,2) by (metis length_take min.cobounded1 vb_allocated_def)
  show "24 \<le> vb_allocated buf" using a assms(3) by simp
  show l: "msg_length (vb_bytes buf) = msg_length pre"
    using msg_length_take [of m "vb_bytes buf"] assms by simp
  show "m = 24 + msg_length pre \<Longrightarrow> msg_ok (vb_bytes buf) \<and> msg_take (vb_bytes buf) = pre"
    using l a assms(1,3) by (auto simp: msg_ok_def msg_take_def vb_allocated_def)
qed

text \<open>A message that is complete, in the states that end with waiting for a header.\<close>

lemma bc_message:
  assumes "env_ok env" and "sess_ok i w0 (h, w)" and "h_state h AND BC_SEND_VERSION_INIT = 0" and "msg_ok msg"
  shows "(\<exists>h' w'. handle_message_recv env msg h w = Inr (h', w') \<and> acts h w [msg_take msg] (bc_reply env msg) h' w' \<and>
      (hdr_state (recv_of (h_state h)) \<longrightarrow> bc_inv env i w0 (h', w') 24 pre) \<and>
      bc_inv env i w0 (h'\<lparr>h_state := send_of (h_state h') OR BC_RECV_HEADER\<rparr>, w') 24 pre) \<or>
    handle_message_recv env msg h w = Inl Out_Of_Bounds"
  using handle_message_recv_ok [OF assms(1) sess_okD(1) [OF assms(2)] assms(4), of w]
proof (elim disjE exE conjE)
  fix h' w' assume H: "handle_message_recv env msg h w = Inr (h', w')" "acts h w [msg_take msg] (bc_reply env msg) h' w'"
  note S = sess_ok_acts [OF assms(2) H(2)] and I = acts_init [OF H(2)] and R = acts_length(2) [OF H(2)]
  have "sess_ok i w0 (h'\<lparr>h_state := send_of (h_state h') OR BC_RECV_HEADER\<rparr>, w')" by (rule sess_ok_state [OF S]) simp
  then have "bc_inv env i w0 (h'\<lparr>h_state := send_of (h_state h') OR BC_RECV_HEADER\<rparr>, w') 24 pre"
    using I assms(1,3) by (intro bc_inv_restart) (simp_all add: send_or_init hdr_state_def)
  moreover have "hdr_state (recv_of (h_state h)) \<longrightarrow> bc_inv env i w0 (h', w') 24 pre"
    using bc_inv_restart [OF assms(1) S] I R assms(3) by simp
  ultimately show ?thesis using H by blast
qed simp

lemma bc_header:
  assumes "env_ok env" and "sess_ok i w0 (h, w)" and "h_state h AND BC_SEND_VERSION_INIT = 0" and "length pre = 24" and "body_state r"
  shows "bc_inv env i w0 (h\<lparr>h_state := send_of (h_state h) OR r\<rparr>, w) (24 + msg_length pre) pre"
proof -
  have "send_of r = 0" "recv_of r = r" using assms(5) by (auto simp: body_state_def)
  with assms sess_ok_state [OF assms(2), of "send_of (h_state h) OR r"] show ?thesis
    by (simp add: bc_inv_def send_or_init)
qed

lemma bc_header_extends:
  assumes "24 \<le> vb_allocated buf" and "hdr_state (recv_of (h_state h))"
    and "recv_of (h_state h) = BC_RECV_HEADER \<longrightarrow> msg_length (vb_bytes buf) \<noteq> 0"
  shows "\<exists>r. body_state r \<and> bc_complete env (h, w) c buf =
    Inr ((h\<lparr>h_state := send_of (h_state h) OR r\<rparr>, w), Extend (msg_length (vb_bytes buf)))"
  using assms(2,3) unfolding bc_complete_body [OF assms(1) disjI1 [OF assms(2)]] hdr_state_def
  by (elim disjE) (auto simp: body_state_def Let_def)

text \<open>The version message of a peer that connected to us: our version and the acknowledgement are queued.\<close>

lemma bc_version_frame:
  assumes "env_ok env" and "sess_ok i w0 (h, w)" and "recv_of (h_state h) = BC_RECV_VERSION_REPLY" and "msg_ok (vb_bytes buf)"
  shows "(\<exists>h' w' v. bc_complete env (h, w) c buf = Inr ((h'\<lparr>h_state := BC_SEND_VERSION_REPLY OR BC_RECV_HEADER\<rparr>, w'), Restart 24) \<and>
      acts h w [msg_take (vb_bytes buf)] (bc_reply env (vb_bytes buf) @ message_bytes env ''version'' v @ message_bytes env ''verack'' []) h' w' \<and>
      (\<exists>w1 w2. make_version env (h_remote h) (e_external env) w1 = (v, w2))) \<or>
    bc_complete env (h, w) c buf = Inl Out_Of_Bounds \<and> 0 \<notin> set (drop 4 (vb_bytes buf))"
proof -
  let ?msg = "vb_bytes buf"
  have al: "24 \<le> vb_allocated buf" "24 + msg_length ?msg \<le> vb_allocated buf"
    using assms(4) by (simp_all add: msg_ok_def vb_allocated_def)
  note E = bc_complete_body [OF al(1) disjI2 [OF al(2)], where h = h and env = env and w = w]
  from handle_message_recv_ok [OF assms(1) sess_okD(1) [OF assms(2)] assms(4), of w] show ?thesis
  proof (elim disjE exE conjE)
    fix h1 w1 assume H: "handle_message_recv env ?msg h w = Inr (h1, w1)" "acts h w [msg_take ?msg] (bc_reply env ?msg) h1 w1"
    have l: "128 \<le> length (h_remote h1)" using acts_length(1) [OF H(2)] sess_okD(2) [OF assms(2)] by simp
    obtain v w2 where V: "make_version env (h_remote h1) (e_external env) w1 = (v, w2)" by fastforce
    obtain h3 w3 h4 w4 h5 w5 where A: "append_for_write env (message_bytes env ''version'' v) h1 w2 = Inr (h3, w3)"
      "append_for_write env (message_bytes env ''verack'' []) h3 w3 = Inr (h4, w4)" "start_pingers env h4 w4 = (h5, w5)"
      "acts h1 w1 [] (message_bytes env ''version'' v @ message_bytes env ''verack'' []) h5 w5"
      by (rule version_reply_ok [OF assms(1) acts_wq [OF H(2)] l V])
    have "bc_complete env (h, w) c buf = Inr ((h5\<lparr>h_state := BC_SEND_VERSION_REPLY OR BC_RECV_HEADER\<rparr>, w5), Restart 24)"
      using assms(3) H(1) V A(1-3) by (simp add: E Let_def)
    moreover have "make_version env (h_remote h) (e_external env) w1 = (v, w2)" using V acts_length(4) [OF H(2)] by simp
    ultimately show ?thesis using acts_trans [OF H(2) A(4)] by auto
  qed (use assms(3) in \<open>simp add: E Let_def\<close>)
qed

lemma bc_completes:
  assumes "bc_inv env i w0 st m pre" and "length pre = m" and "take m (vb_bytes buf) = pre"
  shows "(\<exists>st' cmd. bc_complete env st m buf = Inr (st', cmd) \<and>
      (case cmd of Extend n \<Rightarrow> bc_inv env i w0 st' (m + n) pre | Restart n \<Rightarrow> bc_inv env i w0 st' n [])) \<or>
    (\<exists>e\<in>{Out_Of_Bounds}. bc_complete env st m buf = Inl e)"
proof -
  obtain h w where st: "st = (h, w)" by (cases st)
  let ?r = "recv_of (h_state h)" and ?msg = "vb_bytes buf"
  have I: "env_ok env" "sess_ok i w0 (h, w)" "h_state h AND BC_SEND_VERSION_INIT = 0"
    and C: "hdr_state ?r \<and> m = 24 \<or> body_state ?r \<and> 24 \<le> m \<and> m = 24 + msg_length pre"
    using assms(1,2) st by (auto simp: bc_inv_def Let_def)
  have m: "24 \<le> m" using C by auto
  note F = frame_msg [OF assms(3,2) m]
  have B: "hdr_state ?r \<or> 24 + msg_length ?msg \<le> vb_allocated buf" using C F(2,3) by auto
  note E = bc_complete_body [OF F(1) B, of env w]
  consider (empty) "?r = BC_RECV_HEADER" "m = 24" "msg_length pre = 0"
    | (hdr) r where "hdr_state ?r" "body_state r" "m = 24"
        "bc_complete env (h, w) m buf = Inr ((h\<lparr>h_state := send_of (h_state h) OR r\<rparr>, w), Extend (msg_length pre))"
    | (msg) "?r = BC_RECV_PAYLOAD \<or> ?r = BC_RECV_VERSION_INIT" "m = 24 + msg_length pre"
    | (vers) "?r = BC_RECV_VERSION_REPLY" "m = 24 + msg_length pre"
  proof (cases "body_state ?r")
    case True
    with C hdr_not_body have "m = 24 + msg_length pre" by blast
    with True that(3,4) show thesis by (auto simp: body_state_def)
  next
    case False
    with C have H: "hdr_state ?r" "m = 24" by blast+
    with that(1) bc_header_extends [OF F(1) H(1), of env w m] that(2) [OF H(1) _ H(2)] F(3) show thesis by auto
  qed
  then show ?thesis
  proof cases
    case empty
    with F(4) have ok: "msg_ok ?msg" by simp
    from empty bc_message [OF I ok, of "[]"] F(3) show ?thesis
      by (auto simp: st E Let_def hdr_state_def)
  next
    case hdr
    with bc_header [OF I _ hdr(2), of pre] assms(2) show ?thesis by (simp add: st)
  next
    case msg
    with F(4) have ok: "msg_ok ?msg" by simp
    from msg bc_message [OF I ok, of "[]"] F(3) show ?thesis by (auto simp: st E Let_def)
  next
    case vers
    with F(4) have ok: "msg_ok ?msg" by simp
    from bc_version_frame [OF I(1,2) vers(1) ok, of m] show ?thesis
    proof (elim disjE exE conjE)
      fix h' w' v assume V: "bc_complete env (h, w) m buf = Inr ((h'\<lparr>h_state := BC_SEND_VERSION_REPLY OR BC_RECV_HEADER\<rparr>, w'), Restart 24)"
        and A: "acts h w [msg_take ?msg] (bc_reply env ?msg @ message_bytes env ''version'' v @ message_bytes env ''verack'' []) h' w'"
      let ?h = "h'\<lparr>h_state := BC_SEND_VERSION_REPLY OR BC_RECV_HEADER\<rparr>"
      have "sess_ok i w0 (?h, w')" by (rule sess_ok_state [OF sess_ok_acts [OF I(2) A]]) (simp add: or_nonzero)
      then have "bc_inv env i w0 (?h, w') 24 []"
        by (intro bc_inv_restart [OF I(1)]) (simp_all add: word_ao_dist send_message_init hdr_state_def)
      with V show ?thesis by (simp add: st)
    qed (simp add: st)
  qed
qed

interpretation bc: framed_reader "Suc p" "bc_complete env" "bc_inv env i w0" "{Out_Of_Bounds}" for p env i w0
proof
  fix st m pre xs assume "bc_inv env i w0 st m pre"
  then show "bc_inv env i w0 st m (pre @ xs)" by (auto simp: bc_inv_def Let_def msg_length_append)
next
  fix st m pre buf assume "bc_inv env i w0 st m pre" "length pre = m" "take m (vb_bytes buf) = pre"
  then show "(\<exists>st' cmd. bc_complete env st m buf = Inr (st', cmd) \<and>
      (case cmd of Extend n \<Rightarrow> bc_inv env i w0 st' (m + n) pre | Restart n \<Rightarrow> bc_inv env i w0 st' n [])) \<or>
    (\<exists>e\<in>{Out_Of_Bounds}. bc_complete env st m buf = Inl e)" by (rule bc_completes)
qed simp


section \<open>Callbacks\<close>

definition live_ok :: "env \<Rightarrow> u32 \<Rightarrow> world \<Rightarrow> handler \<times> world \<Rightarrow> bool" where
  "live_ok env i w0 st \<longleftrightarrow> (case st of (h, w) \<Rightarrow>
     sess_ok i w0 (h, w) \<and>
     (bc.ready env i w0 (h, w) (rb_cursor (h_read h)) (rb_to_read (h_read h)) (rb_buffer (h_read h)) \<or>
      recv_of (h_state h) = 0 \<and> rb_cursor (h_read h) = 0 \<and> rb_to_read (h_read h) = 0 \<and> 0 < vb_allocated (rb_buffer (h_read h))))"

text \<open>Between two callbacks the watcher is armed for exactly what the state asks for.\<close>

definition conn_ok :: "env \<Rightarrow> u32 \<Rightarrow> world \<Rightarrow> handler \<times> world \<Rightarrow> bool" where
  "conn_ok env i w0 st \<longleftrightarrow> live_ok env i w0 st \<and>
     (case st of (h, w) \<Rightarrow> h_fd h \<longrightarrow> h_io_events h = armed (h_state h))"

lemma bc_inv_other:
  assumes "bc_inv env i w0 (h, w) m pre" and "sess_ok i w0 (h', w')" and "h_state h' = h_state h"
  shows "bc_inv env i w0 (h', w') m pre"
  using assms by (simp add: bc_inv_def)

lemma live_ok_cong:
  assumes "live_ok env i w0 (h, w)" and "sess_ok i w0 (h', w')" and "h_state h' = h_state h" and "h_read h' = h_read h"
  shows "live_ok env i w0 (h', w')"
  using assms bc_inv_other [of env i w0 h w _ _ h' w'] by (auto simp: live_ok_def bc.ready_def)

lemma bc_inv_recv: "bc_inv env i w0 (h, w) m pre \<Longrightarrow> recv_of (h_state h) \<noteq> 0"
  by (auto simp: bc_inv_def Let_def hdr_state_def body_state_def bc_states)

lemma live_ok_acts:
  assumes "live_ok env i w0 (h, w)" and "acts h w rs bs h' w'"
  shows "live_ok env i w0 (h', w')"
proof -
  have S: "sess_ok i w0 (h, w)" using assms(1) by (simp add: live_ok_def)
  note S' = sess_ok_acts [OF S assms(2)]
  have eq: "h_read h' = h_read h" "recv_of (h_state h') = recv_of (h_state h)"
    "h_state h' AND BC_SEND_VERSION_INIT = h_state h AND BC_SEND_VERSION_INIT"
    using assms(2) acts_length(2) [OF assms(2)] acts_init [OF assms(2)] by (auto simp: acts_def same_conn_def)
  have "bc_inv env i w0 (h, w) m pre \<Longrightarrow> bc_inv env i w0 (h', w') m pre" for m pre
    using S' eq by (simp add: bc_inv_def Let_def)
  with assms(1) S' eq show ?thesis by (auto simp: live_ok_def bc.ready_def)
qed

lemma armed_send: "armed (s OR BC_SEND_MESSAGE) = armed s" if "send_of s \<noteq> 0"
  using that by (simp add: armed_def or_nonzero)

lemma conn_ok_acts:
  assumes "conn_ok env i w0 (h, w)" and "acts h w rs bs h' w'"
  shows "conn_ok env i w0 (h', w')"
proof -
  have "live_ok env i w0 (h', w')" by (rule live_ok_acts [OF _ assms(2)]) (use assms(1) in \<open>simp add: conn_ok_def\<close>)
  moreover have "h_io_events h' = armed (h_state h')" if "h_fd h'"
    using assms that armed_send [of "h_state h"] by (auto simp: conn_ok_def acts_def send_state_def same_conn_def)
  ultimately show ?thesis by (simp add: conn_ok_def)
qed

text \<open>The end of a connection, and the log record before it.\<close>

lemma sess_ok_log:
  assumes "sess_ok i w0 (h, w)" and "call_ok c" and "\<forall>j. sent_msg j c = [] \<and> recv_msg j c = []"
  shows "sess_ok i w0 (h, log_add c w)"
  using assms by (simp add: sess_ok_def frame_def)

lemma live_ok_suicide:
  assumes "live_ok env i w0 (h, w)" and "call_ok c" and "\<forall>j. sent_msg j c = [] \<and> recv_msg j c = []"
    and "bc_suicide h (log_add c w) = (h', w')"
  shows "live_ok env i w0 (h', w')" and "\<not> h_fd h'"
proof -
  have "sess_ok i w0 (h, log_add c w)" by (rule sess_ok_log) (use assms in \<open>simp_all add: live_ok_def\<close>)
  then have "sess_ok i w0 (h', w')" using assms(4)
    by (auto simp: bc_suicide_def Let_def sess_ok_def frame_def sent_log_def recv_log_def log_ok_def split: if_splits)
  moreover have "h_state h' = h_state h" "h_read h' = h_read h" using assms(4)
    by (auto simp: bc_suicide_def Let_def split: if_splits)
  ultimately show "live_ok env i w0 (h', w')" by (rule live_ok_cong [OF assms(1)])
  show "\<not> h_fd h'" using assms(4) by (auto simp: bc_suicide_def Let_def split: if_splits)
qed

lemma live_okD: "live_ok env i w0 (h, w) \<Longrightarrow> sess_ok i w0 (h, w)"
  by (simp add: live_ok_def)

lemma bc_call_ok:
  "sess_ok i w0 (h, w) \<Longrightarrow> call_ok (LBitcoin t (h_id h) (h_remote h) (h_local h) txt1)"
  "\<forall>j. sent_msg j (LBitcoin t k r l txt1) = [] \<and> recv_msg j (LBitcoin t k r l txt1) = []"
  by (simp_all add: sess_ok_def)

lemma live_ok_end:
  assumes "live_ok env i w0 (h, w)"
  shows "\<exists>h' w'. bc_suicide h (log_add (LBitcoin t (h_id h) (h_remote h) (h_local h) tx) w) = (h', w') \<and>
    live_ok env i w0 (h', w') \<and> \<not> h_fd h'"
  using live_ok_suicide [OF assms bc_call_ok(1) [OF live_okD [OF assms]] bc_call_ok(2)] by (metis surj_pair)

lemma bc_do_read_ok:
  assumes "0 < e_ps env" and "live_ok env i w0 (h, w)" and "h_fd h" and "recv_of (h_state h) \<noteq> 0"
  shows "(\<exists>h' w'. bc_do_read env h w = Inr (h', w') \<and> live_ok env i w0 (h', w')) \<or> bc_do_read env h w = Inl Out_Of_Bounds"
proof -
  have ps: "e_ps env = Suc (e_ps env - 1)" using assms(1) by simp
  have R: "bc.ready env i w0 (h, w) (rb_cursor (h_read h)) (rb_to_read (h_read h)) (rb_buffer (h_read h))"
    using assms(2,4) by (simp add: live_ok_def)
  from bc.loop_total [OF R, of "e_ps env - 1" "h_in h", folded ps] show ?thesis
  proof (elim disjE exE conjE)
    fix st rb s r assume L: "read_loop (e_ps env) (bc_complete env) (h, w) (h_read h) (h_in h) = Inr (st, rb, s, r)"
      and rd: "bc.ready env i w0 st (rb_cursor rb) (rb_to_read rb) (rb_buffer rb)"
    obtain h1 w1 where st: "st = (h1, w1)" by (cases st)
    let ?h = "h1\<lparr>h_read := rb, h_in := s\<rparr>"
    have "sess_ok i w0 (h1, w1)" using rd st by (simp add: bc.ready_def bc_inv_def)
    then have S: "sess_ok i w0 (?h, w1)" by (simp add: sess_ok_def)
    have l: "live_ok env i w0 (?h, w1)"
      using S rd st bc_inv_other [of env i w0 h1 w1 _ _ ?h w1] by (auto simp: live_ok_def bc.ready_def)
    have c: "\<exists>h' w'. bc_suicide ?h (log_add (LBitcoin t (h_id h1) (h_remote h1) (h_local h1) tx) w1) = (h', w') \<and>
      live_ok env i w0 (h', w')" for t tx
      using live_ok_end [OF l, of t tx] by auto
    show ?thesis
      using assms(3) L l unfolding bc_do_read_def st
      by (auto simp: Let_def split: option.splits io_ret.splits nat.splits if_splits intro: c)
  qed (use assms(3) in \<open>simp add: bc_do_read_def\<close>)
qed


text \<open>The socket that \<^verbatim>\<open>do_write\<close> sees differs from the handler's only in what it will answer.\<close>

lemma bc_out_written [simp]: "so_written (bc_out h) = so_written (h_out h)"
  by (simp add: bc_out_def)

lemma init_hdr: "BC_RECV_VERSION_INIT_HDR AND BC_SEND_VERSION_INIT = 0"
  by (simp add: bc_states)

lemma live_ok_idle:
  assumes "live_ok env i w0 (h, w)" and "env_ok env" and "wq_pend (h_write h) = []"
    and "h' = (if send_of (h_state h) = BC_SEND_VERSION_INIT
               then h\<lparr>h_state := BC_RECV_VERSION_INIT_HDR, h_read := rb_set_to_read 24 (h_read h)\<rparr> else h)"
  shows "live_ok env i w0 (h'\<lparr>h_state := recv_of (h_state h')\<rparr>, w)"
    and "send_of (h_state h) = BC_SEND_VERSION_INIT \<Longrightarrow> rb_to_read (h_read h) = 0"
proof -
  let ?h = "h'\<lparr>h_state := recv_of (h_state h')\<rparr>"
  have S: "sess_ok i w0 (?h, w)" using live_okD [OF assms(1)] assms(3,4) by (simp add: sess_ok_def)
  have init: "\<not> bc.ready env i w0 (h, w) c n b" if "send_of (h_state h) = BC_SEND_VERSION_INIT" for c n b
  proof -
    have "h_state h AND BC_SEND_VERSION_INIT \<noteq> 0"
      using send_or_init [of 0 "h_state h"] that by (simp add: send_or_init [of 0, symmetric])
    then show ?thesis by (simp add: bc.ready_def bc_inv_def Let_def)
  qed
  then show "send_of (h_state h) = BC_SEND_VERSION_INIT \<Longrightarrow> rb_to_read (h_read h) = 0"
    using assms(1) by (simp add: live_ok_def)
  show "live_ok env i w0 (?h, w)"
  proof (cases "send_of (h_state h) = BC_SEND_VERSION_INIT")
    case True
    with assms(1) init have "rb_cursor (h_read h) = 0" "0 < vb_allocated (rb_buffer (h_read h))" by (simp_all add: live_ok_def)
    with True assms(2,4) S show ?thesis
      by (simp add: live_ok_def bc.ready_def bc_inv_def hdr_state_def rb_set_to_read_def Let_def init_hdr)
  next
    case False
    have "recv_of s AND BC_SEND_VERSION_INIT = 0" for s :: u32 by (simp add: and.assoc bc_states)
    with False assms(1,4) S show ?thesis by (auto simp: live_ok_def bc.ready_def bc_inv_def Let_def)
  qed
qed

lemma bc_do_write_ok:
  assumes "live_ok env i w0 (h, w)" and "env_ok env"
  shows "\<exists>h' w'. bc_do_write env h w = Inr (h', w') \<and> live_ok env i w0 (h', w')"
proof -
  note S = live_okD [OF assms(1)]
  obtain r wq out bs where W: "write_loop (h_write h) (bc_out h) = Inr (r, wq, out)" "wq_ok wq"
    "so_written out = so_written (h_out h) @ bs" "wq_pend (h_write h) = bs @ wq_pend wq" "r = None \<longleftrightarrow> wq_pend wq = []"
    using write_loop_ok [OF sess_okD(1) [OF S], of "bc_out h"] by auto
  let ?h = "h\<lparr>h_write := wq, h_out := out\<rparr>"
  have "sess_ok i w0 (?h, w)" using S W(2-4) by (auto simp: sess_ok_def)
  then have l: "live_ok env i w0 (?h, w)" by (rule live_ok_cong [OF assms(1)]) simp_all
  show ?thesis
  proof (cases r)
    case None
    with W(5) have "wq_pend (h_write ?h) = []" by simp
    note I = live_ok_idle [OF l assms(2) this refl]
    show ?thesis
    proof (cases "send_of (h_state h) = BC_SEND_VERSION_INIT")
      case True
      with I W(1) None show ?thesis by (simp add: bc_do_write_def Let_def assertR_def)
    next
      case False
      with I(1) W(1) None show ?thesis by (simp add: bc_do_write_def Let_def)
    qed
  next
    case (Some q)
    have "\<exists>h' w'. bc_suicide ?h (log_add (LBitcoin t (h_id h) (h_remote h) (h_local h) tx) w) = (h', w') \<and>
      live_ok env i w0 (h', w')" for t tx
      using live_ok_end [OF l, of t tx] by auto
    with W(1) l Some show ?thesis by (cases q) (simp_all add: bc_do_write_def Let_def)
  qed
qed

lemma bc_io_cb_ok:
  assumes "conn_ok env i w0 (h, w)" and "env_ok env"
  shows "(\<exists>h' w'. bc_io_cb env revents h w = Inr (h', w') \<and> conn_ok env i w0 (h', w')) \<or> bc_io_cb env revents h w = Inl Out_Of_Bounds"
proof (cases "h_fd h")
  case False
  then show ?thesis
    using assms by (auto simp: bc_io_cb_def conn_ok_def intro!: live_ok_cong [of env i w0 h w] sess_ok_log dest: live_okD)
      (auto simp: sess_ok_def dest!: live_okD)
next
  case True
  have l: "live_ok env i w0 (h, w)" using assms(1) by (simp add: conn_ok_def)
  let ?rd = "if recv_of (h_state h) \<noteq> 0 \<and> revents AND BEV_READ \<noteq> 0 then bc_do_read env h w else Inr (h, w)"
  have "(\<exists>h1 w1. ?rd = Inr (h1, w1) \<and> live_ok env i w0 (h1, w1)) \<or> ?rd = Inl Out_Of_Bounds"
    using bc_do_read_ok [OF env_okD [OF assms(2)] l True] l by simp
  then consider (ok) h1 w1 where "?rd = Inr (h1, w1)" "live_ok env i w0 (h1, w1)" | (err) "?rd = Inl Out_Of_Bounds"
    by blast
  then show ?thesis
  proof cases
    case ok
    let ?wr = "if revents AND BEV_WRITE \<noteq> 0 then bc_do_write env h1 w1 else Inr (h1, w1)"
    have "\<exists>h2 w2. ?wr = Inr (h2, w2) \<and> live_ok env i w0 (h2, w2)"
      using bc_do_write_ok [OF ok(2) assms(2)] ok(2) by simp
    then obtain h2 w2 where W: "?wr = Inr (h2, w2)" "live_ok env i w0 (h2, w2)" by blast
    let ?h = "(io_set (armed (h_state h2)) h2)\<lparr>h_last_activity := w_now w2\<rparr>"
    have eq: "h_state ?h = h_state h2" "h_read ?h = h_read h2" by (simp_all add: io_set_def)
    have "sess_ok i w0 (?h, w2)" using live_okD [OF W(2)] by (simp add: sess_ok_def io_set_def)
    from live_ok_cong [OF W(2) this eq] have "conn_ok env i w0 (?h, w2)"
      by (simp add: conn_ok_def io_set_def)
    moreover have "bc_io_cb env revents h w = Inr (?h, w2)"
      using True ok(1) W(1) unfolding bc_io_cb_def armed_def by (simp add: Let_def)
    ultimately show ?thesis by blast
  next
    case err
    with True show ?thesis unfolding bc_io_cb_def by simp
  qed
qed


section \<open>Timers and disconnection\<close>

lemma conn_ok_cong:
  assumes "conn_ok env i w0 (h, w)" and "sess_ok i w0 (h', w')" and "h_state h' = h_state h" and "h_read h' = h_read h"
    and "h_io_events h' = h_io_events h" and "h_fd h' \<longrightarrow> h_fd h"
  shows "conn_ok env i w0 (h', w')"
  using assms live_ok_cong [of env i w0 h w h' w'] by (auto simp: conn_ok_def)

lemma conn_okD: "conn_ok env i w0 (h, w) \<Longrightarrow> sess_ok i w0 (h, w)" "conn_ok env i w0 (h, w) \<Longrightarrow> live_ok env i w0 (h, w)"
  by (simp_all add: conn_ok_def live_ok_def)

lemma conn_ok_timers:
  "conn_ok env i w0 (h, w) \<Longrightarrow> conn_ok env i w0 (h\<lparr>h_timer := t\<rparr>, w)"
  "conn_ok env i w0 (h, w) \<Longrightarrow> conn_ok env i w0 (h\<lparr>h_active_timer := t\<rparr>, w)"
proof -
  assume c: "conn_ok env i w0 (h, w)"
  then have "sess_ok i w0 (h, w)" by (rule conn_okD)
  then have "sess_ok i w0 (h\<lparr>h_timer := t\<rparr>, w)" "sess_ok i w0 (h\<lparr>h_active_timer := t\<rparr>, w)" by (simp_all add: sess_ok_def)
  with conn_ok_cong [OF c] show "conn_ok env i w0 (h\<lparr>h_timer := t\<rparr>, w)" "conn_ok env i w0 (h\<lparr>h_active_timer := t\<rparr>, w)" by simp_all
qed

lemma conn_ok_world:
  assumes "conn_ok env i w0 (h, w)" and "log_grows i w [] [] w'"
  shows "conn_ok env i w0 (h, w')"
  by (rule conn_ok_acts [OF assms(1) acts_id [OF sess_okD(1) [OF conn_okD(1) [OF assms(1)]]]])
    (use assms sess_okD(7) [OF conn_okD(1) [OF assms(1)]] in simp)

lemma draws_grows: "log_grows i w [] [] (w\<lparr>w_draws := n\<rparr>)"
  by (simp add: log_grows_def sent_log_def recv_log_def log_ok_def)

lemma append_conn_ok:
  assumes "conn_ok env i w0 (h, w)" and "env_ok env" and "msg_ok m"
  obtains h' w' where "append_for_write env m h w = Inr (h', w')" "conn_ok env i w0 (h', w')"
    "sent_log i w' = sent_log i w @ msg_take m" "h_active h' = h_active h" "w_inactive w' = w_inactive w"
proof -
  obtain h' w' where A: "append_for_write env m h w = Inr (h', w')" "acts h w [] (msg_take m) h' w'"
    by (rule append_for_write_ok [OF assms(2) sess_okD(1) [OF conn_okD(1) [OF assms(1)]] assms(3)])
  have "sent_log i w' = sent_log i w @ msg_take m"
    using A(2) sess_okD(7) [OF conn_okD(1) [OF assms(1)]] by (simp add: acts_def log_grows_def)
  then show thesis
    by (rule that [OF A(1) conn_ok_acts [OF assms(1) A(2)]]) (use A(2) in \<open>simp_all add: acts_def same_conn_def log_grows_def\<close>)
qed

lemma pinger_cb_ok:
  assumes "conn_ok env i w0 (h, w)" and "env_ok env"
  shows "\<exists>h' w'. pinger_cb env h w = Inr (h', w') \<and> conn_ok env i w0 (h', w')"
proof -
  let ?m = "message_bytes env ''ping'' (le64 (e_nonce env (w_draws w)))"
  let ?w = "w\<lparr>w_draws := Suc (w_draws w)\<rparr>"
  have "msg_ok ?m" using message_bytes_ok [of "le64 (e_nonce env (w_draws w))" env "''ping''"] by simp
  then obtain h' w' where "append_for_write env ?m h ?w = Inr (h', w')" "conn_ok env i w0 (h', w')"
    by (rule append_conn_ok [OF conn_ok_world [OF assms(1) draws_grows] assms(2)])
  then show ?thesis using assms(1) by (auto simp: pinger_cb_def Let_def conn_ok_timers)
qed

lemma addr_payload_length:
  assumes "env_ok env" and "length p = 35"
  shows "length (put 5 (set_address (field 5 26 (put 0 (to_varint 1) p)) (e_external env)) (put 0 (to_varint 1) p)) = 35"
proof -
  have v: "length (to_varint 1) = 1" by (simp add: to_varint_def)
  have l: "length (put 0 (to_varint 1) p) = 35" using assms(2) v by (simp add: length_put)
  have "length (set_address (field 5 26 (put 0 (to_varint 1) p)) (e_external env)) = 26"
    by (rule set_address_length) (use assms(1) l in \<open>simp_all add: length_field env_ok_def\<close>)
  with l show ?thesis by (simp add: length_put)
qed

lemma active_pinger_cb_ok:
  assumes "conn_ok env i w0 (h, w)" and "env_ok env" and "length (w_addr_payload w) = 35"
  shows "\<exists>h' w' p. active_pinger_cb env h w = Inr (h', w') \<and> conn_ok env i w0 (h', w') \<and> length p = 35 \<and>
    sent_log i w' = sent_log i w @ message_bytes env ''addr'' p \<and> h_active h' = h_active h \<and> w_inactive w' = w_inactive w"
proof -
  define p where "p = put 1 (le32 (of_int (w_now w)))
    (if hd (w_addr_payload w) = 0
     then let q = put 0 (to_varint 1) (w_addr_payload w) in put 5 (set_address (field 5 26 q) (e_external env)) q
     else w_addr_payload w)"
  have lp: "length p = 35" using assms(3) addr_payload_length [OF assms(2,3)] by (simp add: p_def Let_def length_put)
  let ?m = "message_bytes env ''addr'' p"
  have m: "msg_ok ?m" "msg_take ?m = ?m" using message_bytes_ok [of p env "''addr''"] lp by simp_all
  have g: "log_grows i w [] [] (w\<lparr>w_addr_payload := p\<rparr>)"
    using assms(3) lp by (simp add: log_grows_def sent_log_def recv_log_def log_ok_def)
  obtain h' w' where A: "append_for_write env ?m h (w\<lparr>w_addr_payload := p\<rparr>) = Inr (h', w')" "conn_ok env i w0 (h', w')"
    "sent_log i w' = sent_log i (w\<lparr>w_addr_payload := p\<rparr>) @ msg_take ?m" "h_active h' = h_active h"
    "w_inactive w' = w_inactive (w\<lparr>w_addr_payload := p\<rparr>)"
    by (rule append_conn_ok [OF conn_ok_world [OF assms(1) g] assms(2) m(1)])
  have "active_pinger_cb env h w = bindR (append_for_write env ?m h (w\<lparr>w_addr_payload := p\<rparr>)) (\<lambda>(h1, w1).
      Inr (h1\<lparr>h_active_timer := Some (max 5 (e_rand_ping env (w_draws w1)))\<rparr>, w1\<lparr>w_draws := Suc (w_draws w1)\<rparr>))"
    unfolding active_pinger_cb_def p_def Let_def ..
  moreover have "conn_ok env i w0 (h'\<lparr>h_active_timer := t\<rparr>, w'\<lparr>w_draws := n\<rparr>)" for t n
    by (rule conn_ok_world [OF conn_ok_timers(2) [OF A(2)] draws_grows])
  moreover have "sent_log i (v\<lparr>w_draws := n\<rparr>) = sent_log i v" "sent_log i (v\<lparr>w_addr_payload := q\<rparr>) = sent_log i v" for v n q
    by (simp_all add: sent_log_def)
  ultimately show ?thesis using A(1,3-5) m(2) lp by auto
qed

lemma bc_disconnect_ok:
  assumes "conn_ok env i w0 (h, w)"
  shows "\<exists>h' w'. bc_disconnect h w = (h', w') \<and> conn_ok env i w0 (h', w') \<and> \<not> h_fd h' \<and> \<not> h_active h'"
proof -
  obtain h' w' where D: "bc_disconnect h w = (h', w')" "live_ok env i w0 (h', w')" "\<not> h_fd h'"
    using live_ok_end [OF conn_okD(2) [OF assms], of CONNECTOR_DISCONNECT "[]"] by (auto simp: bc_disconnect_def)
  moreover have "\<not> h_active h'" using D(1) by (auto simp: bc_disconnect_def bc_suicide_def Let_def split: if_splits)
  ultimately show ?thesis by (auto simp: conn_ok_def)
qed

section \<open>New connections\<close>

text \<open>A fresh identifier and a fresh socket.\<close>

lemma bc_new_ok:
  assumes "env_ok env" and "length remote = 128" and "length local_addr = 128" and "log_ok w"
    and "sent_log (w_id_pool w) w = []" and "so_written out = []"
    and "a_state = BC_SEND_VERSION_INIT \<or> a_state = BC_RECV_VERSION_REPLY_HDR"
  obtains h w' where "bc_new env a_state remote local_addr i out w = Inr (h, w')" "h_fd h" "\<not> h_active h" "h_state h = a_state"
    "conn_ok env (w_id_pool w) w' (h, w')" "w_id_pool w' = w_id_pool w + 1" "frame (w_id_pool w) (w\<lparr>w_id_pool := w_id_pool w + 1\<rparr>) w'"
    "h_id h = w_id_pool w"
proof -
  let ?i = "w_id_pool w" and ?base = "w\<lparr>w_id_pool := w_id_pool w + 1\<rparr>"
  have al: "0 < vb_allocated (rb_buffer (rb_new (e_ps env) 0))"
    using round_to_page_bounds(1) [OF env_okD [OF assms(1)], of 1024]
    by (auto simp: rb_new_def vb_new_n_def vb_allocated_def max_def)
  have s0: "sent_log j ?base = sent_log j w" "recv_log j ?base = recv_log j w" "log_ok ?base = log_ok w" for j
    by (simp_all add: sent_log_def recv_log_def log_ok_def)
  show thesis
  proof (cases "a_state = BC_SEND_VERSION_INIT")
    case True
    obtain v w1 where V: "make_version env (e_external env) remote ?base = (v, w1)" by fastforce
    have ext: "128 \<le> length (e_external env)" "128 \<le> length remote" using assms(1,2) by (simp_all add: env_ok_def)
    note MV = make_version_ok [OF assms(1) ext V]
    let ?m = "message_bytes env ''version'' v"
    have m: "msg_ok ?m" "msg_take ?m = ?m" using message_bytes_ok [OF MV(1)] by blast+
    then have ne: "?m \<noteq> []" and rdm: "rd ?m 0 (msg_length ?m + 24) = Inr ?m"
      by (auto simp: msg_ok_def msg_take_def rd_def add.commute)
    obtain wq where W: "wq_append (e_ps env) ?m wq_new = Inr wq" "wq_ok wq" "wq_pend wq = ?m"
      using wq_append_ok [OF env_okD [OF assms(1)] wq_new_ok(1) ne] by auto
    let ?w = "log_add (LBitcoin CONNECT_SUCCESS ?i remote local_addr []) (log_add (LMsg ?i True ?m) w1)"
    let ?h = "\<lparr>h_read = rb_new (e_ps env) 0, h_write = wq, h_remote = remote, h_local = local_addr, h_state = a_state,
               h_io_events = BEV_WRITE, h_fd = True, h_active = False, h_timer = None, h_active_timer = None,
               h_last_activity = w_now w, h_id = ?i, h_in = i, h_out = out\<rparr>"
    have G: "log_grows ?i ?base [] [] w1" by (rule MV(2))
    have "log_ok ?w" using G s0 assms(2-4) m(1) by (simp add: log_grows_def call_ok_msg del: call_ok.simps(3))
    moreover have "sent_log ?i ?w = ?m" using G s0 assms(5) m(2) by (simp add: log_grows_def)
    ultimately have S: "sess_ok ?i ?w (?h, ?w)" using assms W(2,3) True by (simp add: sess_ok_def)
    have C: "conn_ok env ?i ?w (?h, ?w)"
      using S al True by (simp add: conn_ok_def live_ok_def rb_new_def armed_def)
    have F: "frame ?i ?base ?w" using G by (auto simp: frame_def log_grows_def)
    show thesis
      by (rule that [of ?h ?w]) (use True V W rdm C F G in \<open>simp_all add: bc_new_def Let_def log_grows_def\<close>)
  next
    case False
    with assms(7) have R: "a_state = BC_RECV_VERSION_REPLY_HDR" by simp
    let ?w = "log_add (LBitcoin ACCEPT_SUCCESS ?i remote local_addr []) ?base"
    let ?h = "\<lparr>h_read = rb_set_to_read 24 (rb_new (e_ps env) 0), h_write = wq_new, h_remote = remote, h_local = local_addr,
               h_state = a_state, h_io_events = BEV_READ, h_fd = True, h_active = False, h_timer = None, h_active_timer = None,
               h_last_activity = w_now w, h_id = ?i, h_in = i, h_out = out\<rparr>"
    have S: "sess_ok ?i ?w (?h, ?w)" using assms s0 by (simp add: sess_ok_def)
    have z: "BC_RECV_VERSION_REPLY_HDR AND BC_SEND_VERSION_INIT = 0" "BC_RECV_VERSION_REPLY_HDR \<noteq> 0" by (simp_all add: bc_states)
    have C: "conn_ok env ?i ?w (?h, ?w)"
      using S al R z assms(1)
      by (simp add: conn_ok_def live_ok_def rb_set_to_read_def rb_new_def armed_def bc.ready_def bc_inv_def hdr_state_def Let_def)
    have F: "frame ?i ?base ?w" by (auto simp: frame_def)
    show thesis by (rule that [of ?h ?w]) (use R False C F in \<open>simp_all add: bc_new_def Let_def\<close>)
  qed
qed

section \<open>Streams of messages\<close>

definition wire_msg :: "byte list \<Rightarrow> bool" where
  "wire_msg m \<longleftrightarrow> 24 \<le> length m \<and> length m = 24 + msg_length m \<and> 0 \<in> set (drop 4 m)"

lemma field_take: "off + n \<le> k \<Longrightarrow> field off n (take k xs) = field off n xs"
  by (simp add: field_def drop_take min_absorb1)

text \<open>A complete message in a larger buffer is treated as the message itself.\<close>

lemma bc_reply_buffer:
  assumes "take (length m) buf = m" and "wire_msg m"
  shows "bc_reply env buf = bc_reply env m" "msg_ok buf" "msg_take buf = m" "0 \<in> set (drop 4 buf)" "msg_length buf = msg_length m"
proof -
  have l: "24 \<le> length m" "length m = 24 + msg_length m" "0 \<in> set (drop 4 m)" using assms(2) by (simp_all add: wire_msg_def)
  show ml: "msg_length buf = msg_length m" using msg_length_take [of "length m" buf] assms(1) l(1) by simp
  have "length m \<le> length buf" using assms(1) by (metis length_take min.cobounded1)
  then show "msg_ok buf" using l ml by (simp add: msg_ok_def)
  show t: "msg_take buf = m" using assms(1) l(2) ml by (simp add: msg_take_def)
  have "drop 4 m = take (length m - 4) (drop 4 buf)" using assms(1) by (metis drop_take)
  then show "0 \<in> set (drop 4 buf)" using l(3) by (metis in_set_takeD)
  have "cstr_is buf 4 s = cstr_is m 4 s" if "length s \<le> 19" for s
    using field_take [of 4 "length s + 1" "length m" buf] assms(1) l(1) that by (simp add: cstr_is_def)
  moreover have "msg_take m = m" using l(2) by (simp add: msg_take_def)
  ultimately show "bc_reply env buf = bc_reply env m" using t by (simp add: bc_reply_def)
qed

lemma state_split: "send_of s OR recv_of s = s"
proof -
  have "BC_SEND_MASK OR BC_RECV_MASK = -1" by (simp add: bc_states)
  then show ?thesis by (metis and.right_neutral word_ao_dist2)
qed

lemma bc_one_message:
  assumes "bc_inv env i w0 (h, w) 24 []" and "recv_of (h_state h) = BC_RECV_HEADER" and "0 < vb_allocated buf" and "wire_msg m"
  obtains h' w' b where "stream_run (e_ps env) (bc_complete env) (h, w) 0 24 buf (m @ rest) =
      stream_run (e_ps env) (bc_complete env) (h', w') 0 24 b rest" "0 < vb_allocated b"
    "bc_inv env i w0 (h', w') 24 []" "recv_of (h_state h') = BC_RECV_HEADER"
    "recv_log i w' = recv_log i w @ [m]" "sent_log i w' = sent_log i w @ bc_reply env m"
proof -
  note outer = that
  let ?f = "bc_complete env" and ?ps = "e_ps env"
  have I: "env_ok env" "sess_ok i w0 (h, w)" "h_state h AND BC_SEND_VERSION_INIT = 0"
    using assms(1) by (simp_all add: bc_inv_def Let_def)
  have l: "24 \<le> length m" "length m = 24 + msg_length m" using assms(4) by (simp_all add: wire_msg_def)
  have fin: thesis
    if B: "length m \<le> vb_allocated b" "take (length m) (vb_bytes b) = m"
      and E: "stream_run ?ps ?f (h, w) 0 24 buf (m @ rest) =
        bindR (handle_message_recv env (vb_bytes b) g w) (\<lambda>(h1, w1).
          stream_run ?ps ?f (h1\<lparr>h_state := send_of (h_state h1) OR BC_RECV_HEADER\<rparr>, w1) 0 24 b rest)"
      and G: "sess_ok i w0 (g, w)" "g = h\<lparr>h_state := send_of (h_state h) OR r\<rparr>" "send_of r = 0" for b g r
  proof -
    note R = bc_reply_buffer [OF B(2) assms(4)]
    have gi: "h_state g AND BC_SEND_VERSION_INIT = 0" using G(2,3) I(3) by (simp add: send_or_init)
    have "handle_message_recv env (vb_bytes b) g w \<noteq> Inl Out_Of_Bounds"
      using handle_message_recv_ok [OF I(1) sess_okD(1) [OF G(1)] R(2), of w] R(4) by auto
    with bc_message [OF I(1) G(1) gi R(2), of "[]"] obtain h1 w1 where
      H: "handle_message_recv env (vb_bytes b) g w = Inr (h1, w1)"
        "acts g w [msg_take (vb_bytes b)] (bc_reply env (vb_bytes b)) h1 w1"
        "bc_inv env i w0 (h1\<lparr>h_state := send_of (h_state h1) OR BC_RECV_HEADER\<rparr>, w1) 24 []" by auto
    have "h_id g = i" using sess_okD(7) [OF G(1)] .
    then have "recv_log i w1 = recv_log i w @ [m]" "sent_log i w1 = sent_log i w @ bc_reply env m"
      using H(2) R(1,3) by (simp_all add: acts_def log_grows_def)
    note logs = this
    have al: "0 < vb_allocated b" using B(1) l(1) by linarith
    show thesis by (rule outer [OF _ al H(3) _ logs]) (use H(1) E in simp_all)
  qed
  have hd: "hdr_state (recv_of (h_state h))" using assms(2) by (simp add: hdr_state_def)
  have m24: "length (take 24 m) = 24" using l(1) by simp
  obtain b1 where B1: "vb_allocated b1 \<ge> 24" "take 24 (vb_bytes b1) = take 24 m"
    and S1: "stream_run ?ps ?f (h, w) 0 24 buf (take 24 m @ (drop 24 m @ rest)) =
      bindR (?f (h, w) 24 b1) (\<lambda>(st', cmd). case cmd of
          Extend k \<Rightarrow> stream_run ?ps ?f st' 24 k b1 (drop 24 m @ rest) | Restart k \<Rightarrow> stream_run ?ps ?f st' 0 k b1 (drop 24 m @ rest))"
    by (rule stream_run_frame [OF env_okD [OF I(1)] zero_less_numeral assms(3) m24])
  have ml: "msg_length (vb_bytes b1) = msg_length m"
    using msg_length_take [of 24 "vb_bytes b1"] msg_length_take [of 24 m] B1(2) by simp
  have cat: "take 24 m @ drop 24 m @ rest = m @ rest" by simp
  note E1 = bc_complete_body [OF B1(1) disjI1 [OF hd], of env w 24]
  show thesis
  proof (cases "msg_length m = 0")
    case True
    then have tl: "take (length m) (vb_bytes b1) = m" "length m \<le> vb_allocated b1" "drop 24 m = []" using B1 l by simp_all
    note R = bc_reply_buffer [OF tl(1) assms(4)]
    have same: "h1\<lparr>h_state := send_of (h_state h1) OR BC_RECV_HEADER\<rparr> = h1" if "handle_message_recv env (vb_bytes b1) h w = Inr (h1, w1)" for h1 w1
    proof -
      from handle_message_recv_ok [OF I(1) sess_okD(1) [OF I(2)] R(2), of w] that
      have "acts h w [msg_take (vb_bytes b1)] (bc_reply env (vb_bytes b1)) h1 w1" by auto
      from acts_length(2) [OF this] assms(2) show ?thesis using state_split [of "h_state h1"] by simp
    qed
    show thesis
    proof (rule fin [OF tl(2,1) _ I(2)])
      show "stream_run ?ps ?f (h, w) 0 24 buf (m @ rest) =
        bindR (handle_message_recv env (vb_bytes b1) h w) (\<lambda>(h1, w1).
          stream_run ?ps ?f (h1\<lparr>h_state := send_of (h_state h1) OR BC_RECV_HEADER\<rparr>, w1) 0 24 b1 rest)"
        using S1 True ml tl(3) assms(2) same
        by (cases "handle_message_recv env (vb_bytes b1) h w") (auto simp: E1 cat Let_def)
      show "h = h\<lparr>h_state := send_of (h_state h) OR BC_RECV_HEADER\<rparr>" using state_split [of "h_state h"] assms(2) by simp
    qed simp
  next
    case False
    let ?g = "h\<lparr>h_state := send_of (h_state h) OR BC_RECV_PAYLOAD\<rparr>"
    have "sess_ok i w0 (?g, w)" by (rule sess_ok_state [OF I(2)]) simp
    have p: "0 < vb_allocated b1" "length (drop 24 m) = msg_length m" "0 < msg_length m" using B1(1) l False by auto
    obtain b2 where B2: "vb_allocated b2 \<ge> 24 + msg_length m" "take (24 + msg_length m) (vb_bytes b2) = take 24 (vb_bytes b1) @ drop 24 m"
      and S2: "stream_run ?ps ?f (?g, w) 24 (msg_length m) b1 (drop 24 m @ rest) =
        bindR (?f (?g, w) (24 + msg_length m) b2) (\<lambda>(st', cmd). case cmd of
          Extend k \<Rightarrow> stream_run ?ps ?f st' (24 + msg_length m) k b2 rest | Restart k \<Rightarrow> stream_run ?ps ?f st' 0 k b2 rest)"
      by (rule stream_run_frame_at [OF env_okD [OF I(1)] p(3) p(1) B1(1) p(2)])
    have tl: "length m \<le> vb_allocated b2" "take (length m) (vb_bytes b2) = m" using B2 B1(2) l by simp_all
    note R = bc_reply_buffer [OF tl(2) assms(4)]
    have a2: "24 \<le> vb_allocated b2" "24 + msg_length (vb_bytes b2) \<le> vb_allocated b2" using B2(1) R(5) by simp_all
    note E2 = bc_complete_body [OF a2(1) disjI2 [OF a2(2)], where h = ?g and env = env and w = w]
    show thesis
    proof (rule fin [OF tl _ \<open>sess_ok i w0 (?g, w)\<close> refl])
      show "stream_run ?ps ?f (h, w) 0 24 buf (m @ rest) =
        bindR (handle_message_recv env (vb_bytes b2) ?g w) (\<lambda>(h1, w1).
          stream_run ?ps ?f (h1\<lparr>h_state := send_of (h_state h1) OR BC_RECV_HEADER\<rparr>, w1) 0 24 b2 rest)"
        using S1 S2 False ml assms(2)
        by (cases "handle_message_recv env (vb_bytes b2) ?g w") (auto simp: E1 E2 cat Let_def)
    qed simp
  qed
qed


text \<open>Any number of messages.\<close>

lemma bc_messages:
  assumes "bc_inv env i w0 (h, w) 24 []" and "recv_of (h_state h) = BC_RECV_HEADER" and "0 < vb_allocated buf"
    and "list_all wire_msg ms"
  shows "\<exists>h' w' b. stream_run (e_ps env) (bc_complete env) (h, w) 0 24 buf (concat ms) = Inr ((h', w'), 0, 24, b, []) \<and>
    sess_ok i w0 (h', w') \<and> recv_of (h_state h') = BC_RECV_HEADER \<and>
    recv_log i w' = recv_log i w @ ms \<and> sent_log i w' = sent_log i w @ concat (map (bc_reply env) ms)"
  using assms
proof (induction ms arbitrary: h w buf)
  case Nil
  have "0 < e_ps env" using Nil.prems(1) by (simp add: bc_inv_def env_ok_def)
  then obtain b where "stream_run (e_ps env) (bc_complete env) (h, w) 0 24 buf [] = Inr ((h, w), 0, 24, b, [])"
    using stream_run_idle [of "e_ps env" 24 buf "bc_complete env" "(h, w)"] Nil.prems(3) by auto
  with Nil.prems show ?case by (simp add: bc_inv_def)
next
  case (Cons m ms)
  have m: "wire_msg m" "list_all wire_msg ms" using Cons.prems(4) by simp_all
  obtain h1 w1 b where O: "stream_run (e_ps env) (bc_complete env) (h, w) 0 24 buf (m @ concat ms) =
      stream_run (e_ps env) (bc_complete env) (h1, w1) 0 24 b (concat ms)" "0 < vb_allocated b"
    "bc_inv env i w0 (h1, w1) 24 []" "recv_of (h_state h1) = BC_RECV_HEADER"
    "recv_log i w1 = recv_log i w @ [m]" "sent_log i w1 = sent_log i w @ bc_reply env m"
    by (rule bc_one_message [OF Cons.prems(1-3) m(1)])
  from Cons.IH [OF O(3,4,2) m(2)] O show ?case by simp
qed

end
