(* ===== verification/Connections.thy ===== *)
theory Connections
  imports Bitcoin_Session
begin

text \<open>
  All Bitcoin connections of the connector together: the events the event loop delivers to
  handlers, pending connections and listeners, and the invariant of the tables of
  \<^verbatim>\<open>bitcoin_handler.cpp\<close> over every sequence of events.
\<close>

section \<open>The connector's connections together\<close>

text \<open>
  The events the event loop delivers: readiness of a connection's socket with the data that
  has arrived and the answers to writes, its timers, commands of the control connections, new
  connections, the progress of pending ones, the addr timer of a closed connection, and time.
\<close>

datatype bc_event =
    Bc_Io u32 u32 sock_in "write_ev list"
  | Bc_Ping u32
  | Bc_Addr u32
  | Bc_Send u32 vbuf
  | Bc_Disconnect u32
  | Bc_Accept bc_accept "errno + sockaddr"
  | Bc_Connect nat sockaddr connect_result "errno + sockaddr" sock_in sock_out
  | Bc_Connect_Io nat connect_result "errno + sockaddr"
  | Bc_Dead_Addr u32
  | Bc_Tick int

definition on_dead :: "u32 \<Rightarrow> (handler \<Rightarrow> world \<Rightarrow> (handler \<times> world) res) \<Rightarrow> world \<Rightarrow> world res" where
  "on_dead i f w =
     (case find (\<lambda>h. h_id h = i) (w_inactive w) of
        None \<Rightarrow> Inr w
      | Some h \<Rightarrow> bindR (f h w) (\<lambda>(h', w').
          Inr (w'\<lparr>w_inactive := map (\<lambda>g. if h_id g = i then h' else g) (w_inactive w')\<rparr>)))"

fun bc_step :: "env \<Rightarrow> bc_event \<Rightarrow> world \<Rightarrow> world res" where
  "bc_step env (Bc_Io i revents inp scr) w =
     on_handler i (\<lambda>h. bc_io_cb env revents (h\<lparr>h_in := h_in h @ inp, h_out := (h_out h)\<lparr>so_script := scr\<rparr>\<rparr>)) w"
| "bc_step env (Bc_Ping i) w = on_handler i (pinger_cb env) w"
| "bc_step env (Bc_Addr i) w = on_handler i (active_pinger_cb env) w"
| "bc_step env (Bc_Send i b) w = on_handler i (append_for_write_buf b) w"
| "bc_step env (Bc_Disconnect i) w = on_handler i (\<lambda>h v. Inr (bc_disconnect h v)) w"
| "bc_step env (Bc_Accept client name) w = bc_accept_io_cb env client name w"
| "bc_step env (Bc_Connect p remote res name inp out) w = connect_handler_new env p remote res name inp out w"
| "bc_step env (Bc_Connect_Io p res name) w = connect_io_cb env p res name w"
| "bc_step env (Bc_Dead_Addr i) w = on_dead i (active_pinger_cb env) w"
| "bc_step env (Bc_Tick t) w = Inr (w\<lparr>w_now := t\<rparr>)"

text \<open>
  What the event loop and the kernel guarantee: sockets are new, addresses are full structures,
  a callback is delivered to an object whose watcher is active, and identifiers have not wrapped.
\<close>

definition name_ok :: "errno + sockaddr \<Rightarrow> bool" where
  "name_ok name \<longleftrightarrow> (case name of Inl _ \<Rightarrow> True | Inr a \<Rightarrow> length a = 128)"

fun bc_guard :: "bc_event \<Rightarrow> world \<Rightarrow> bool" where
  "bc_guard (Bc_Send i b) w = msg_ok (vb_bytes b)"
| "bc_guard (Bc_Accept (BC_Accepted addr inp out) name) w =
     (length addr = 128 \<and> name_ok name \<and> so_written out = [] \<and> unat (w_id_pool w) + 1 < 2 ^ 32)"
| "bc_guard (Bc_Connect p remote res name inp out) w =
     (length remote = 128 \<and> name_ok name \<and> so_written out = [] \<and> unat (w_id_pool w) + 1 < 2 ^ 32 \<and>
      p \<notin> fst ` set (w_conns w) \<and> p \<notin> set (w_dead_conns w))"
| "bc_guard (Bc_Connect_Io p res name) w =
     (name_ok name \<and> unat (w_id_pool w) + 1 < 2 ^ 32 \<and> (\<exists>c. (p, c) \<in> set (w_conns w) \<and> cn_watching c))"
| "bc_guard _ w = True"

definition conns_ok :: "world \<Rightarrow> bool" where
  "conns_ok w \<longleftrightarrow> distinct (map fst (w_conns w)) \<and>
     (\<forall>(p, c)\<in>set (w_conns w). length (cn_remote c) = 128 \<and> so_written (cn_out c) = [] \<and>
        (p \<in> set (w_dead_conns w) \<longrightarrow> \<not> cn_watching c))"

definition world_ok :: "env \<Rightarrow> world \<Rightarrow> bool" where
  "world_ok env w \<longleftrightarrow> env_ok env \<and> log_ok w \<and> length (w_addr_payload w) = 35 \<and> conns_ok w \<and>
     distinct (map fst (w_active w) @ map h_id (w_inactive w)) \<and> sorted (map fst (w_active w)) \<and>
     (\<forall>(i, h)\<in>set (w_active w). h_active h \<and> unat i < unat (w_id_pool w) \<and> conn_ok env i w (h, w)) \<and>
     (\<forall>h\<in>set (w_inactive w). \<not> h_active h \<and> unat (h_id h) < unat (w_id_pool w) \<and> conn_ok env (h_id h) w (h, w)) \<and>
     (\<forall>j. unat (w_id_pool w) \<le> unat j \<longrightarrow> sent_log j w = [])"

lemma conn_ok_rebase:
  assumes "conn_ok env i w0 (h, w)" and "sent_log i w' = sent_log i w" and "log_ok w'"
  shows "conn_ok env i w' (h, w')"
proof -
  have "sess_ok i w' (h, w')" using conn_okD(1) [OF assms(1)] assms(2,3) by (simp add: sess_ok_def)
  moreover have "bc_inv env i w0 (h, w) m pre \<Longrightarrow> sess_ok i w' (h, w') \<Longrightarrow> bc_inv env i w' (h, w') m pre" for m pre
    by (simp add: bc_inv_def)
  ultimately show ?thesis using assms(1) by (auto simp: conn_ok_def live_ok_def bc.ready_def)
qed

lemma world_log_cong [simp]:
  "sent_log j (w\<lparr>w_active := a\<rparr>) = sent_log j w" "sent_log j (w\<lparr>w_inactive := b\<rparr>) = sent_log j w"
  "log_ok (w\<lparr>w_active := a\<rparr>) = log_ok w" "log_ok (w\<lparr>w_inactive := b\<rparr>) = log_ok w"
  "sent_log j (w\<lparr>w_conns := c\<rparr>) = sent_log j w" "sent_log j (w\<lparr>w_dead_conns := d\<rparr>) = sent_log j w"
  "log_ok (w\<lparr>w_conns := c\<rparr>) = log_ok w" "log_ok (w\<lparr>w_dead_conns := d\<rparr>) = log_ok w"
  "sent_log j (w\<lparr>w_now := t\<rparr>) = sent_log j w" "log_ok (w\<lparr>w_now := t\<rparr>) = log_ok w"
  "sent_log j (w\<lparr>w_id_pool := k\<rparr>) = sent_log j w" "log_ok (w\<lparr>w_id_pool := k\<rparr>) = log_ok w"
  by (simp_all add: sent_log_def log_ok_def)

text \<open>Changing the tables of a world, for the parts that keep the log of every other connection.\<close>

lemma world_okI:
  assumes "world_ok env w" and "frame i w w'" and "log_ok w'" and "conns_ok w''" and "log_ok w'' = log_ok w'"
    and "\<And>j. sent_log j w'' = sent_log j w'" and "length (w_addr_payload w'') = 35" and "unat (w_id_pool w) \<le> unat (w_id_pool w'')"
    and "unat i < unat (w_id_pool w'')"
    and "distinct (map fst (w_active w'') @ map h_id (w_inactive w''))" and "sorted (map fst (w_active w''))"
    and "\<And>j h. (j, h) \<in> set (w_active w'') \<Longrightarrow> j \<noteq> i \<and> (j, h) \<in> set (w_active w) \<or> j = i \<and> h_active h \<and> conn_ok env i w (h, w')"
    and "\<And>h. h \<in> set (w_inactive w'') \<Longrightarrow> h_id h \<noteq> i \<and> h \<in> set (w_inactive w) \<or> h_id h = i \<and> \<not> h_active h \<and> conn_ok env i w (h, w')"
  shows "world_ok env w''"
proof -
  have W: "log_ok w''" "\<And>j. j \<noteq> i \<Longrightarrow> sent_log j w'' = sent_log j w" using assms(2,3,5,6) by (simp_all add: frame_def)
  have "h_active h \<and> unat j < unat (w_id_pool w'') \<and> conn_ok env j w'' (h, w'')" if "(j, h) \<in> set (w_active w'')" for j h
    using assms(12) [OF that]
  proof (elim disjE conjE)
    assume j: "j \<noteq> i" "(j, h) \<in> set (w_active w)"
    then have "h_active h" "unat j < unat (w_id_pool w)" "conn_ok env j w (h, w)" using assms(1) by (auto simp: world_ok_def)
    with conn_ok_rebase [of env j w h w w''] W j assms(8) show ?thesis by simp
  next
    assume j: "j = i" "h_active h" "conn_ok env i w (h, w')"
    with conn_ok_rebase [OF j(3) assms(6) W(1)] assms(9) show ?thesis by simp
  qed
  moreover have "\<not> h_active h \<and> unat (h_id h) < unat (w_id_pool w'') \<and> conn_ok env (h_id h) w'' (h, w'')"
    if "h \<in> set (w_inactive w'')" for h
    using assms(13) [OF that]
  proof (elim disjE conjE)
    assume j: "h_id h \<noteq> i" "h \<in> set (w_inactive w)"
    then have "\<not> h_active h" "unat (h_id h) < unat (w_id_pool w)" "conn_ok env (h_id h) w (h, w)"
      using assms(1) by (auto simp: world_ok_def)
    with conn_ok_rebase [of env "h_id h" w h w w''] W j assms(8) show ?thesis by simp
  next
    assume j: "h_id h = i" "\<not> h_active h" "conn_ok env i w (h, w')"
    with conn_ok_rebase [OF j(3) assms(6) W(1)] assms(9) show ?thesis by simp
  qed
  moreover have "sent_log j w'' = []" if "unat (w_id_pool w'') \<le> unat j" for j
    using that W(2) [of j] assms(1,8,9) by (cases "j = i") (auto simp: world_ok_def)
  ultimately show ?thesis using assms(1,4,7,10,11) W(1) by (auto simp: world_ok_def)
qed

lemma mem_delete: "(j, g) \<in> set (AList.delete i al) \<longleftrightarrow> j \<noteq> i \<and> (j, g) \<in> set al"
  by (auto simp: AList.delete_eq)

lemma mem_update: "distinct (map fst al) \<Longrightarrow> (j, g) \<in> set (AList.update i v al) \<Longrightarrow> j = i \<and> g = v \<or> j \<noteq> i \<and> (j, g) \<in> set al"
  by (induction al) (force split: if_splits)+

lemma sorted_delete: "sorted (map fst al) \<Longrightarrow> sorted (map fst (AList.delete i al))"
  by (simp add: AList.delete_eq sorted_filter)

lemma world_ok_tables:
  assumes "world_ok env w"
  shows "distinct (map fst (w_active w))" "sorted (map fst (w_active w))" "env_ok env" "conns_ok w"
    "distinct (map h_id (w_inactive w))" "fst ` set (w_active w) \<inter> h_id ` set (w_inactive w) = {}"
    "length (w_addr_payload w) = 35" "log_ok w"
  using assms unfolding world_ok_def distinct_append set_map by blast+

lemma on_handler_ok:
  assumes "world_ok env w"
    and "\<And>h. h_active h \<Longrightarrow> conn_ok env i w (h, w) \<Longrightarrow> (\<exists>h' w'. f h w = Inr (h', w') \<and> conn_ok env i w (h', w')) \<or> P \<and> f h w = Inl Out_Of_Bounds"
  shows "(\<exists>w'. on_handler i f w = Inr w' \<and> world_ok env w') \<or> P \<and> on_handler i f w = Inl Out_Of_Bounds"
proof (cases "map_of (w_active w) i")
  case None
  with assms(1) show ?thesis by (simp add: on_handler_def)
next
  case (Some h)
  then have mem: "(i, h) \<in> set (w_active w)" by (rule map_of_SomeD)
  with assms(1) have H: "h_active h" "unat i < unat (w_id_pool w)" "conn_ok env i w (h, w)" by (auto simp: world_ok_def)
  note T = world_ok_tables [OF assms(1)]
  have "i \<in> fst ` set (w_active w)" using mem by force
  with T(6) have ni: "i \<notin> h_id ` set (w_inactive w)" by blast
  note ws = T(1,2) ni T(4,5,6,7)
  from assms(2) [OF H(1,3)] show ?thesis
  proof (elim disjE exE conjE)
    fix h' w' assume F: "f h w = Inr (h', w')" "conn_ok env i w (h', w')"
    have fr: "frame i w w'" "log_ok w'" "h_id h' = i" using sess_okD(4,7,8) [OF conn_okD(1) [OF F(2)]] by simp_all
    let ?w = "if h_active h' then w'\<lparr>w_active := AList.update i h' (w_active w')\<rparr>
               else w'\<lparr>w_active := AList.delete i (w_active w'), w_inactive := h' # w_inactive w'\<rparr>"
    have ia: "w_active w' = w_active w" "set (w_inactive w') \<subseteq> set (w_inactive w)" "distinct (map h_id (w_inactive w'))"
      using fr(1) ws(5) by (auto simp: frame_def)
    have k: "map fst (AList.update i h' (w_active w)) = map fst (w_active w)"
      using mem by (force simp: update_keys)
    have "world_ok env ?w"
    proof (rule world_okI [OF assms(1) fr(1,2)])
      show "conns_ok ?w" using ws(4) fr(1) by (simp add: conns_ok_def frame_def)
      show "length (w_addr_payload ?w) = 35" "unat (w_id_pool w) \<le> unat (w_id_pool ?w)" "unat i < unat (w_id_pool ?w)"
        using fr(1) ws(7) H(2) by (simp_all add: frame_def)
      show "distinct (map fst (w_active ?w) @ map h_id (w_inactive ?w))"
      proof (cases "h_active h'")
        case True
        have "fst ` set (AList.update i h' (w_active w)) = fst ` set (w_active w)" using k by (metis list.set_map)
        with True ia ws k show ?thesis by (auto simp: image_iff)
      next
        case False
        have "i \<notin> fst ` set (AList.delete i (w_active w))" "fst ` set (AList.delete i (w_active w)) \<subseteq> fst ` set (w_active w)"
          by (rule delete_notin_dom, rule dom_delete_subset)
        moreover have "h_id ` set (w_inactive w') \<subseteq> h_id ` set (w_inactive w)" using ia(2) by blast
        ultimately have "fst ` set (AList.delete i (w_active w)) \<inter> insert i (h_id ` set (w_inactive w')) = {}" "i \<notin> h_id ` set (w_inactive w')"
          using ws(3,6) by blast+
        with False ia ws fr(3) distinct_delete [OF ws(1), of i] show ?thesis by simp
      qed
      show "sorted (map fst (w_active ?w))" using ia(1) ws(2) k by (simp add: sorted_delete)
      show "j \<noteq> i \<and> (j, g) \<in> set (w_active w) \<or> j = i \<and> h_active g \<and> conn_ok env i w (g, w')"
        if "(j, g) \<in> set (w_active ?w)" for j g
        using that ia(1) F(2) mem_update [OF ws(1), of j g i h'] by (auto simp: mem_delete split: if_splits)
      show "h_id g \<noteq> i \<and> g \<in> set (w_inactive w) \<or> h_id g = i \<and> \<not> h_active g \<and> conn_ok env i w (g, w')"
        if "g \<in> set (w_inactive ?w)" for g
      proof -
        have "g \<in> set (w_inactive w') \<Longrightarrow> g \<in> set (w_inactive w) \<and> h_id g \<noteq> i" using ia(2) ws(3) by blast
        with that F(2) fr(3) show ?thesis by (auto split: if_splits)
      qed
    qed simp_all
    with Some F(1) show ?thesis by (simp add: on_handler_def)
  qed (use Some in \<open>simp add: on_handler_def\<close>)
qed


lemma on_dead_ok:
  assumes "world_ok env w"
    and "\<And>h. conn_ok env i w (h, w) \<Longrightarrow>
      \<exists>h' w'. f h w = Inr (h', w') \<and> conn_ok env i w (h', w') \<and> h_active h' = h_active h \<and> w_inactive w' = w_inactive w"
  shows "\<exists>w'. on_dead i f w = Inr w' \<and> world_ok env w'"
proof (cases "find (\<lambda>h. h_id h = i) (w_inactive w)")
  case None
  with assms(1) show ?thesis by (simp add: on_dead_def)
next
  case (Some h)
  then have mem: "h \<in> set (w_inactive w)" "h_id h = i" by (auto simp: find_Some_iff)
  with assms(1) have H: "\<not> h_active h" "unat i < unat (w_id_pool w)" "conn_ok env i w (h, w)" by (auto simp: world_ok_def)
  obtain h' w' where F: "f h w = Inr (h', w')" "conn_ok env i w (h', w')" "\<not> h_active h'" "w_inactive w' = w_inactive w"
    using assms(2) [OF H(3)] H(1) by auto
  have fr: "frame i w w'" "log_ok w'" "h_id h' = i" using sess_okD(4,7,8) [OF conn_okD(1) [OF F(2)]] by simp_all
  note T = world_ok_tables [OF assms(1)]
  let ?w = "w'\<lparr>w_inactive := map (\<lambda>g. if h_id g = i then h' else g) (w_inactive w')\<rparr>"
  have ids: "map h_id (map (\<lambda>g. if h_id g = i then h' else g) (w_inactive w)) = map h_id (w_inactive w)"
    using fr(3) by simp
  have a: "w_active w' = w_active w" using fr(1) by (simp add: frame_def)
  have "i \<in> h_id ` set (w_inactive w)" using mem by blast
  with T(6) have na: "i \<notin> fst ` set (w_active w)" by blast
  have "world_ok env ?w"
  proof (rule world_okI [OF assms(1) fr(1,2)])
    show "conns_ok ?w" using T(4) fr(1) by (simp add: conns_ok_def frame_def)
    show "length (w_addr_payload ?w) = 35" "unat (w_id_pool w) \<le> unat (w_id_pool ?w)" "unat i < unat (w_id_pool ?w)"
      using fr(1) T(7) H(2) by (simp_all add: frame_def)
    show "sorted (map fst (w_active ?w))" using T(2) a by simp
    have s: "map h_id (w_inactive ?w) = map h_id (w_inactive w)" using ids F(4) by (simp del: map_map)
    show "distinct (map fst (w_active ?w) @ map h_id (w_inactive ?w))"
      unfolding distinct_append s using T(1,5,6) a by simp
    show "j \<noteq> i \<and> (j, g) \<in> set (w_active w) \<or> j = i \<and> h_active g \<and> conn_ok env i w (g, w')"
      if "(j, g) \<in> set (w_active ?w)" for j g
      using that a na by force
    show "h_id g \<noteq> i \<and> g \<in> set (w_inactive w) \<or> h_id g = i \<and> \<not> h_active g \<and> conn_ok env i w (g, w')"
      if "g \<in> set (w_inactive ?w)" for g
      using that F(2-4) fr(3) by auto
  qed simp_all
  with Some F(1) show ?thesis by (simp add: on_dead_def)
qed

section \<open>Small changes of the world\<close>

lemma world_ok_cong:
  assumes "world_ok env w" and "w_active w' = w_active w" and "set (w_inactive w') \<subseteq> set (w_inactive w)"
    and "distinct (map h_id (w_inactive w'))" and "log_ok w'" and "\<And>j. sent_log j w' = sent_log j w"
    and "unat (w_id_pool w) \<le> unat (w_id_pool w')" and "conns_ok w'" and "length (w_addr_payload w') = 35"
  shows "world_ok env w'"
proof -
  have c: "conn_ok env j w' (h, w')" if "conn_ok env j w (h, w)" for j h
    by (rule conn_ok_rebase [OF that assms(6,5)])
  have i: "h \<in> set (w_inactive w) \<and> h_id h \<in> h_id ` set (w_inactive w)" if "h \<in> set (w_inactive w')" for h using assms(3) that by blast
  then have d: "fst ` set (w_active w) \<inter> h_id ` set (w_inactive w') = {}" using world_ok_tables(6) [OF assms(1)] by blast
  have A: "\<forall>(i, h)\<in>set (w_active w'). h_active h \<and> unat i < unat (w_id_pool w') \<and> conn_ok env i w' (h, w')"
    using assms(1,2,7) c by (fastforce simp: world_ok_def)
  have B: "\<forall>h\<in>set (w_inactive w'). \<not> h_active h \<and> unat (h_id h) < unat (w_id_pool w') \<and> conn_ok env (h_id h) w' (h, w')"
    using assms(1,7) c i by (fastforce simp: world_ok_def)
  have C: "\<forall>j. unat (w_id_pool w') \<le> unat j \<longrightarrow> sent_log j w' = []"
    using assms(1,6,7) by (auto simp: world_ok_def)
  show ?thesis using world_ok_tables [OF assms(1)] assms(2,4,5,8,9) d A B C by (simp add: world_ok_def)
qed

lemma world_ok_log:
  assumes "world_ok env w" and "call_ok c" and "\<forall>j. sent_msg j c = []"
  shows "world_ok env (log_add c w)"
  by (rule world_ok_cong [OF assms(1)]) (use assms world_ok_tables [OF assms(1)] in \<open>simp_all add: conns_ok_def\<close>)

lemma world_ok_clear: "world_ok env w \<Longrightarrow> world_ok env (w\<lparr>w_inactive := []\<rparr>)"
  by (rule world_ok_cong, assumption) (use world_ok_tables [of env w] in \<open>simp_all add: conns_ok_def\<close>)

lemma world_ok_now: "world_ok env w \<Longrightarrow> world_ok env (w\<lparr>w_now := t\<rparr>)"
  by (rule world_ok_cong, assumption) (use world_ok_tables [of env w] in \<open>simp_all add: conns_ok_def\<close>)

lemma world_ok_conns:
  "world_ok env w \<Longrightarrow> conns_ok (w\<lparr>w_conns := c, w_dead_conns := d\<rparr>) \<Longrightarrow> world_ok env (w\<lparr>w_conns := c, w_dead_conns := d\<rparr>)"
  by (rule world_ok_cong, assumption) (use world_ok_tables [of env w] in simp_all)

lemma unat_Suc_pool: "unat (p :: u32) + 1 < 2 ^ 32 \<Longrightarrow> unat (p + 1) = unat p + 1"
  by (simp add: unat_word_ariths)

lemma world_ok_pool:
  "world_ok env w \<Longrightarrow> unat (w_id_pool w) + 1 < 2 ^ 32 \<Longrightarrow> world_ok env (w\<lparr>w_id_pool := w_id_pool w + 1\<rparr>)"
  by (rule world_ok_cong, assumption) (use world_ok_tables [of env w] in \<open>simp_all add: conns_ok_def unat_Suc_pool\<close>)

lemma conn_ok_base:
  assumes "conn_ok env i w0 (h, w)" and "frame i w1 w"
  shows "conn_ok env i w1 (h, w)"
proof -
  have "sess_ok i w1 (h, w)" using conn_okD(1) [OF assms(1)] assms(2) by (simp add: sess_ok_def)
  moreover have "bc_inv env i w0 (h, w) m pre \<Longrightarrow> sess_ok i w1 (h, w) \<Longrightarrow> bc_inv env i w1 (h, w) m pre" for m pre
    by (simp add: bc_inv_def)
  ultimately show ?thesis using assms(1) by (auto simp: conn_ok_def live_ok_def bc.ready_def)
qed

text \<open>A new connection enters the map under a fresh identifier.\<close>

lemma new_handler_ok:
  assumes "world_ok env w" and "length remote = 128" and "length local_addr = 128" and "so_written out = []"
    and "unat (w_id_pool w) + 1 < 2 ^ 32" and "a_state = BC_SEND_VERSION_INIT \<or> a_state = BC_RECV_VERSION_REPLY_HDR"
  shows "\<exists>h w'. bc_new env a_state remote local_addr inp out w = Inr (h, w') \<and> world_ok env (bc_insert h w') \<and>
    map_of (w_active (bc_insert h w')) (w_id_pool w) = Some (h\<lparr>h_active := True\<rparr>) \<and>
    w_conns (bc_insert h w') = w_conns w \<and> w_dead_conns (bc_insert h w') = w_dead_conns w"
proof -
  let ?i = "w_id_pool w" and ?base = "w\<lparr>w_id_pool := w_id_pool w + 1\<rparr>"
  note T = world_ok_tables [OF assms(1)]
  have s: "sent_log ?i w = []" using assms(1) by (auto simp: world_ok_def)
  obtain h w' where N: "bc_new env a_state remote local_addr inp out w = Inr (h, w')" "\<not> h_active h"
    "conn_ok env ?i w' (h, w')" "frame ?i ?base w'" "h_id h = ?i" "w_id_pool w' = ?i + 1"
    by (rule bc_new_ok [OF T(3) assms(2,3) T(8) s assms(4,6), of inp])
  have lt: "unat j < unat ?i" if "j \<in> fst ` set (w_active w) \<or> j \<in> h_id ` set (w_inactive w)" for j
    using assms(1) that by (auto simp: world_ok_def)
  have fresh: "?i \<notin> fst ` set (w_active w)" "?i \<notin> h_id ` set (w_inactive w)" using lt by blast+
  have a: "w_active w' = w_active w" "w_inactive w' = w_inactive w \<or> w_inactive w' = []"
    using N(4) by (auto simp: frame_def)
  let ?h = "h\<lparr>h_active := True\<rparr>" and ?w = "bc_insert h w'"
  have ins: "?w = w'\<lparr>w_active := insort_key fst (?i, ?h) (w_active w)\<rparr>" using fresh(1) a N(5) by (simp add: bc_insert_def)
  have "sess_ok ?i w' (?h, w')" using conn_okD(1) [OF N(3)] by (simp add: sess_ok_def)
  from conn_ok_cong [OF N(3) this] have C: "conn_ok env ?i ?base (?h, w')" by (intro conn_ok_base [OF _ N(4)]) simp
  have k: "set (map fst (insort_key fst (?i, ?h) (w_active w))) = insert ?i (fst ` set (w_active w))"
    by (simp add: set_insort_key)
  have "world_ok env ?w"
  proof (rule world_okI [OF world_ok_pool [OF assms(1,5)] N(4)])
    show "log_ok w'" using sess_okD(4) [OF conn_okD(1) [OF N(3)]] .
    show "conns_ok ?w" using T(4) N(4) by (simp add: ins conns_ok_def frame_def)
    show "length (w_addr_payload ?w) = 35" "unat (w_id_pool ?base) \<le> unat (w_id_pool ?w)" "unat ?i < unat (w_id_pool ?w)"
      using N(4,6) T(7) assms(5) by (simp_all add: ins frame_def unat_Suc_pool)
    show "sorted (map fst (w_active ?w))" using T(2) by (simp add: ins sorted_insort_key)
    have "distinct (map fst (insort_key fst (?i, ?h) (w_active w)))"
      using T(1) fresh(1) by (simp add: distinct_map distinct_insort inj_on_def set_insort_key) force
    then show "distinct (map fst (w_active ?w) @ map h_id (w_inactive ?w))"
      unfolding distinct_append using k T(5,6) fresh(2) a(2) by (auto simp: ins)
    show "j \<noteq> ?i \<and> (j, g) \<in> set (w_active ?base) \<or> j = ?i \<and> h_active g \<and> conn_ok env ?i ?base (g, w')"
      if "(j, g) \<in> set (w_active ?w)" for j g
      using that C fresh(1) by (force simp: ins set_insort_key)
    show "h_id g \<noteq> ?i \<and> g \<in> set (w_inactive ?base) \<or> h_id g = ?i \<and> \<not> h_active g \<and> conn_ok env ?i ?base (g, w')"
      if "g \<in> set (w_inactive ?w)" for g
      using that a(2) fresh(2) by (force simp: ins)
  qed (simp_all add: ins)
  moreover have "distinct (map fst (w_active ?w))" using world_ok_tables(1) [OF \<open>world_ok env ?w\<close>] .
  then have "map_of (w_active ?w) ?i = Some ?h" by (intro map_of_is_SomeI) (simp_all add: ins set_insort_key)
  moreover have "w_conns ?w = w_conns w" "w_dead_conns ?w = w_dead_conns w" using N(4) by (simp_all add: ins frame_def)
  ultimately show ?thesis using N(1) by blast
qed


section \<open>Accepting and connecting\<close>

lemma family_length: "length (set_family f (zeros 128)) = 128"
  by (simp add: set_family_def length_put)

lemma bc_accept_ok:
  assumes "world_ok env w" and "bc_guard (Bc_Accept client name) w"
  shows "\<exists>w'. bc_accept_io_cb env client name w = Inr w' \<and> world_ok env w'"
proof (cases client)
  case (BC_Accept_Err e)
  with assms(1) show ?thesis by (simp add: bc_accept_io_cb_def world_ok_log)
next
  case (BC_Accepted addr inp out)
  with assms(2) have G: "length addr = 128" "name_ok name" "so_written out = []" "unat (w_id_pool w) + 1 < 2 ^ 32" by simp_all
  show ?thesis
  proof (cases "bl_count addr (w_blacklist w) > 0")
    case True
    with BC_Accepted assms(1) show ?thesis by (simp add: bc_accept_io_cb_def world_ok_log)
  next
    case False
    let ?p = "case name of Inr a \<Rightarrow> (a, w) | Inl e \<Rightarrow> (zeros 128, log_add (LText ERROR [e_strerror env e]) w)"
    obtain a w1 where N: "?p = (a, w1)" by fastforce
    have W: "world_ok env w1" "length a = 128" "w_id_pool w1 = w_id_pool w"
      using N G(2) assms(1) by (auto simp: name_ok_def world_ok_log split: sum.splits)
    obtain h w2 where "bc_new env BC_RECV_VERSION_REPLY_HDR addr a inp out w1 = Inr (h, w2)" "world_ok env (bc_insert h w2)"
      using new_handler_ok [OF W(1) G(1) W(2) G(3) _ disjI2 [OF refl], of inp] G(4) W(3) by auto
    with BC_Accepted False N world_ok_clear show ?thesis by (simp add: bc_accept_io_cb_def)
  qed
qed

lemma setup_handler_ok:
  assumes "world_ok env w" and "length remote = 128" and "name_ok name" and "so_written out = []" and "unat (w_id_pool w) + 1 < 2 ^ 32"
  shows "\<exists>w'. setup_handler env remote name inp out w = Inr w' \<and> world_ok env w' \<and> w_conns w' = w_conns w \<and> w_dead_conns w' = w_dead_conns w"
proof -
  let ?p = "case name of Inr a \<Rightarrow> (a, w) | Inl e \<Rightarrow> (zeros 128, log_add (LText ERROR [e_strerror env e]) w)"
  obtain a w1 where N: "?p = (a, w1)" by fastforce
  have W: "world_ok env w1" "length a = 128" "w_id_pool w1 = w_id_pool w" "w_conns w1 = w_conns w" "w_dead_conns w1 = w_dead_conns w"
    using N assms(1,3) by (auto simp: name_ok_def world_ok_log split: sum.splits)
  obtain h w2 where "bc_new env BC_SEND_VERSION_INIT remote a inp out w1 = Inr (h, w2)" "world_ok env (bc_insert h w2)"
    "w_conns (bc_insert h w2) = w_conns w1" "w_dead_conns (bc_insert h w2) = w_dead_conns w1"
    using new_handler_ok [OF W(1) assms(2) W(2) assms(4) _ disjI1 [OF refl], of inp] assms(5) W(3) by auto
  with N W show ?thesis by (simp add: setup_handler_def)
qed

lemma connect_failure_ok:
  assumes "world_ok env w" and "length remote = 128"
  shows "world_ok env (connect_failure remote err w)"
  unfolding connect_failure_def by (rule world_ok_log [OF assms(1)]) (use assms(2) family_length in simp_all)

lemma connect_failure_conns [simp]:
  "w_conns (connect_failure remote err w) = w_conns w" "w_dead_conns (connect_failure remote err w) = w_dead_conns w"
  by (simp_all add: connect_failure_def)

lemma reap_conns_ok:
  assumes "world_ok env w"
  shows "\<exists>w'. reap_conns w = Inr w' \<and> world_ok env w' \<and> w_dead_conns w' = [] \<and> w_id_pool w' = w_id_pool w \<and>
    w_conns w' = filter (\<lambda>(p, c). p \<notin> set (w_dead_conns w)) (w_conns w)"
proof -
  have C: "conns_ok w" using world_ok_tables(4) [OF assms] .
  let ?w = "w\<lparr>w_conns := filter (\<lambda>(p, c). p \<notin> set (w_dead_conns w)) (w_conns w), w_dead_conns := []\<rparr>"
  have "\<not> cn_watching c" if "p \<in> set (w_dead_conns w)" "map_of (w_conns w) p = Some c" for p c
    using C that map_of_SomeD [OF that(2)] by (auto simp: conns_ok_def)
  then have "reap_conns w = Inr ?w" by (simp add: reap_conns_def assertR_def split: option.splits)
  moreover have "conns_ok ?w" using C by (auto simp: conns_ok_def distinct_map_filter)
  ultimately show ?thesis using world_ok_conns [OF assms] by simp
qed

lemma conns_ok_update:
  assumes "conns_ok w" and "length (cn_remote c) = 128" and "so_written (cn_out c) = []"
    and "\<forall>q\<in>set d. q = p \<and> \<not> cn_watching c \<or> q \<in> set (w_dead_conns w) \<and> q \<noteq> p"
  shows "conns_ok (w\<lparr>w_conns := AList.update p c (w_conns w), w_dead_conns := d\<rparr>)"
proof -
  have D: "distinct (map fst (w_conns w))" using assms(1) by (simp add: conns_ok_def)
  have "length (cn_remote g) = 128 \<and> so_written (cn_out g) = [] \<and> (q \<in> set d \<longrightarrow> \<not> cn_watching g)"
    if "(q, g) \<in> set (AList.update p c (w_conns w))" for q g
    using mem_update [OF D that] assms by (auto simp: conns_ok_def)
  then show ?thesis using distinct_update [OF D] by (auto simp: conns_ok_def)
qed

lemma world_ok_update:
  assumes "world_ok env w" and "length (cn_remote c) = 128" and "so_written (cn_out c) = []"
    and "\<forall>q\<in>set d. q = p \<and> \<not> cn_watching c \<or> q \<in> set (w_dead_conns w) \<and> q \<noteq> p"
  shows "world_ok env (w\<lparr>w_conns := AList.update p c (w_conns w), w_dead_conns := d\<rparr>)"
  by (rule world_ok_conns [OF assms(1) conns_ok_update [OF world_ok_tables(4) [OF assms(1)] assms(2-4)]])

lemma dead_conns_same: "w_dead_conns w = d \<Longrightarrow> w\<lparr>w_conns := c, w_dead_conns := d\<rparr> = w\<lparr>w_conns := c\<rparr>"
  by (cases w) auto

lemma connect_new_ok:
  assumes "world_ok env w" and G: "length remote = 128" "name_ok name" "so_written out = []" "unat (w_id_pool w) + 1 < 2 ^ 32"
  shows "\<exists>w'. connect_handler_new env p remote res name inp out w = Inr w' \<and> world_ok env w'"
proof -
  obtain w0 where R: "reap_conns w = Inr w0" "world_ok env w0" "w_dead_conns w0 = []" "w_id_pool w0 = w_id_pool w"
    using reap_conns_ok [OF assms(1)] by blast
  let ?c = "\<lambda>b. \<lparr>cn_remote = remote, cn_watching = b, cn_in = inp, cn_out = out\<rparr>"
  let ?here = "\<lambda>b v. v\<lparr>w_conns := AList.update p (?c b) (w_conns v)\<rparr>"
  have dead: "world_ok env ((?here False v)\<lparr>w_dead_conns := p # w_dead_conns (?here False v)\<rparr>)"
    if "world_ok env v" "w_dead_conns v = []" for v
    using world_ok_update [OF that(1), of "?c False" "[p]" p] G(1,3) that(2) by simp
  have live: "world_ok env (?here True w0)"
    using world_ok_update [OF R(2), of "?c True" "[]" p] G(1,3) dead_conns_same [of w0 "[]"] R(3) by simp
  show ?thesis
  proof (cases "bl_count remote (w_blacklist w0) > 0")
    case True
    with dead [OF connect_failure_ok [OF R(2) G(1)]] R(1,3) show ?thesis
      by (simp add: connect_handler_new_def)
  next
    case False
    show ?thesis
    proof (cases res)
      case ConnOk
      let ?t = "LText DEBUG [ascii ''No need to do non-blocking connect, setup was instant'']"
      have "world_ok env (log_add ?t w0)" by (rule world_ok_log [OF R(2)]) simp_all
      then obtain w1 where S: "setup_handler env remote name inp out (log_add ?t w0) = Inr w1" "world_ok env w1" "w_dead_conns w1 = []"
        using setup_handler_ok [of env "log_add ?t w0" remote name out inp] G R(3,4) by auto
      with dead [OF S(2,3)] R(1) False ConnOk show ?thesis by (simp add: connect_handler_new_def)
    next
      case (ConnErr e)
      with dead [OF connect_failure_ok [OF R(2) G(1)]] live R(1,3) False show ?thesis
        by (simp add: connect_handler_new_def)
    qed
  qed
qed

lemma connect_io_ok:
  assumes "world_ok env w" and "bc_guard (Bc_Connect_Io p res name) w"
  shows "\<exists>w'. connect_io_cb env p res name w = Inr w' \<and> world_ok env w'"
proof -
  obtain c where G: "name_ok name" "unat (w_id_pool w) + 1 < 2 ^ 32" "(p, c) \<in> set (w_conns w)" "cn_watching c" using assms(2) by auto
  have K: "conns_ok w" using world_ok_tables(4) [OF assms(1)] .
  then have c: "map_of (w_conns w) p = Some c" "length (cn_remote c) = 128" "so_written (cn_out c) = []" "p \<notin> set (w_dead_conns w)"
    using G(3,4) by (auto simp: conns_ok_def map_of_is_SomeI)
  let ?stop = "\<lambda>v. v\<lparr>w_conns := AList.update p (c\<lparr>cn_watching := False\<rparr>) (w_conns v)\<rparr>"
  let ?bury = "\<lambda>v. bindR (reap_conns v) (\<lambda>v'. Inr (v'\<lparr>w_dead_conns := [p]\<rparr>))"
  have bury: "\<exists>w'. ?bury (?stop v) = Inr w' \<and> world_ok env w'"
    if "world_ok env v" "w_dead_conns v = w_dead_conns w" for v
  proof -
    have "world_ok env (?stop v)"
      using world_ok_update [OF that(1), of "c\<lparr>cn_watching := False\<rparr>" "w_dead_conns v" p] c that(2)
        dead_conns_same [OF that(2)] by auto
    then obtain v' where R: "reap_conns (?stop v) = Inr v'" "world_ok env v'" "w_dead_conns v' = []"
      "w_conns v' = filter (\<lambda>(q, g). q \<notin> set (w_dead_conns v)) (AList.update p (c\<lparr>cn_watching := False\<rparr>) (w_conns v))"
      using reap_conns_ok [of env "?stop v"] by auto
    have "distinct (map fst (w_conns v))" using world_ok_tables(4) [OF that(1)] by (simp add: conns_ok_def)
    note mu = mem_update [OF this]
    have "conns_ok (v'\<lparr>w_conns := w_conns v', w_dead_conns := [p]\<rparr>)"
      using world_ok_tables(4) [OF R(2)] R(4) mu by (fastforce simp: conns_ok_def)
    from world_ok_conns [OF R(2) this] R(1) show ?thesis by simp
  qed
  show ?thesis
  proof (cases res)
    case ConnOk
    obtain w1 where "setup_handler env (cn_remote c) name (cn_in c) (cn_out c) w = Inr w1" "world_ok env w1" "w_dead_conns w1 = w_dead_conns w"
      using setup_handler_ok [OF assms(1) c(2) G(1) c(3) G(2)] by blast
    with bury [of w1] ConnOk c(1) show ?thesis by (simp add: connect_io_cb_def)
  next
    case (ConnErr e)
    with bury [OF connect_failure_ok [OF assms(1) c(2)]] c(1) assms(1) show ?thesis
      by (simp add: connect_io_cb_def)
  qed
qed

section \<open>Every event\<close>

lemma conn_ok_feed:
  assumes "conn_ok env i w0 (h, w)"
  shows "conn_ok env i w0 (h\<lparr>h_in := inp, h_out := (h_out h)\<lparr>so_script := scr\<rparr>\<rparr>, w)"
proof -
  have "sess_ok i w0 (h\<lparr>h_in := inp, h_out := (h_out h)\<lparr>so_script := scr\<rparr>\<rparr>, w)"
    using conn_okD(1) [OF assms] by (simp add: sess_ok_def)
  with conn_ok_cong [OF assms] show ?thesis by simp
qed

lemma append_buf_conn_ok:
  assumes "conn_ok env i w0 (h, w)" and "msg_ok (vb_bytes b)"
  shows "\<exists>h' w'. append_for_write_buf b h w = Inr (h', w') \<and> conn_ok env i w0 (h', w')"
proof -
  obtain h' w' where A: "append_for_write_buf b h w = Inr (h', w')" "acts h w [] (msg_take (vb_bytes b)) h' w'"
    by (rule append_for_write_buf_ok [OF sess_okD(1) [OF conn_okD(1) [OF assms(1)]] assms(2)])
  with conn_ok_acts [OF assms(1) A(2)] show ?thesis by blast
qed

lemma bc_step_ok:
  assumes "world_ok env w" and "bc_guard ev w"
  shows "(\<exists>w'. bc_step env ev w = Inr w' \<and> world_ok env w') \<or>
    (\<exists>i revents inp scr. ev = Bc_Io i revents inp scr) \<and> bc_step env ev w = Inl Out_Of_Bounds"
proof -
  note E = world_ok_tables(3) [OF assms(1)] and P = world_ok_tables(7) [OF assms(1)]
  show ?thesis
  proof (cases ev)
    case (Bc_Io i revents inp scr)
    show ?thesis unfolding Bc_Io bc_step.simps
      by (rule on_handler_ok [OF assms(1)]) (use bc_io_cb_ok [OF conn_ok_feed E] in blast)
  next
    case (Bc_Ping i)
    show ?thesis unfolding Bc_Ping bc_step.simps
      by (rule on_handler_ok [OF assms(1)]) (rule disjI1 [OF pinger_cb_ok [OF _ E]])
  next
    case (Bc_Addr i)
    show ?thesis unfolding Bc_Addr bc_step.simps
      by (rule on_handler_ok [OF assms(1)]) (use active_pinger_cb_ok [OF _ E P] in blast)
  next
    case (Bc_Send i b)
    with assms(2) show ?thesis unfolding Bc_Send bc_step.simps
      by (intro on_handler_ok [OF assms(1)] disjI1 append_buf_conn_ok) simp_all
  next
    case (Bc_Disconnect i)
    show ?thesis unfolding Bc_Disconnect bc_step.simps
      by (rule on_handler_ok [OF assms(1)]) (use bc_disconnect_ok in fastforce)
  next
    case (Bc_Accept client name)
    with bc_accept_ok [OF assms(1)] assms(2) show ?thesis by auto
  next
    case (Bc_Connect p remote res name inp out)
    with connect_new_ok [OF assms(1)] assms(2) show ?thesis by auto
  next
    case (Bc_Connect_Io p res name)
    with connect_io_ok [OF assms(1)] assms(2) show ?thesis by auto
  next
    case (Bc_Dead_Addr i)
    have "\<exists>w'. on_dead i (active_pinger_cb env) w = Inr w' \<and> world_ok env w'"
      by (rule on_dead_ok [OF assms(1)]) (use active_pinger_cb_ok [OF _ E P] in blast)
    with Bc_Dead_Addr show ?thesis by simp
  next
    case (Bc_Tick t)
    with world_ok_now [OF assms(1)] show ?thesis by simp
  qed
qed

end
