(* ===== verification/Bitcoin_Peers.thy ===== *)
theory Bitcoin_Peers
  imports Connections
begin

text \<open>
  The theorems about Bitcoin connections: what holds over every run of the event loop, how a
  connection treats the messages of its peer, both handshakes, and the ways in which a handshake
  or a closed connection goes wrong.
\<close>

section \<open>Runs\<close>

inductive bc_reach :: "env \<Rightarrow> world \<Rightarrow> world \<Rightarrow> bool" for env w0 where
  start: "bc_reach env w0 w0"
| more: "bc_reach env w0 w \<Longrightarrow> bc_guard ev w \<Longrightarrow> bc_step env ev w = Inr w' \<Longrightarrow> bc_reach env w0 w'"

lemma w_init_ok: "env_ok env \<Longrightarrow> world_ok env (w_init now bl)"
  by (simp add: world_ok_def w_init_def conns_ok_def log_ok_def sent_log_def)

lemma bc_reach_ok: "bc_reach env w0 w \<Longrightarrow> world_ok env w0 \<Longrightarrow> world_ok env w"
  by (induction rule: bc_reach.induct) (use bc_step_ok in fastforce)+

definition demo_env :: env where
  "demo_env = \<lparr>e_ps = 4096, e_sha = (\<lambda>x. [0x5d, 0xf6, 0xe0, 0xe2]), e_magic = 0xd9b4bef9, e_agent = [47, 65, 47], e_external = zeros 128,
     e_start_height = 300000, e_ping_frequency = 30, e_active_mean = 60, e_nonce = (\<lambda>n. of_nat n), e_rand_ping = (\<lambda>n. 60),
     e_junk = 0, e_strerror = (\<lambda>e. [101]), e_dec = (\<lambda>n. [48]), e_what = (\<lambda>e. [119]), e_code = (\<lambda>e. [49]), e_show = (\<lambda>a. [97])\<rparr>"

lemma demo_env_ok: "env_ok demo_env"
  by (simp add: demo_env_def env_ok_def)

text \<open>
  Property C20: over every sequence of socket events, timers, commands, new connections and
  disconnections, each connection has handed to its socket or still queues exactly the messages
  that the log records as sent under its identifier, in order and complete; identifiers are
  unique and the table is sorted by them.
\<close>

theorem sent_messages_are_logged:
  assumes "env_ok env" and "bc_reach env (w_init now bl) w" and "map_of (w_active w) i = Some h"
  shows "so_written (h_out h) @ wq_pend (h_write h) = sent_log i w \<and> h_id h = i \<and> h_active h \<and>
    distinct (map fst (w_active w)) \<and> sorted (map fst (w_active w))"
proof -
  have W: "world_ok env w" by (rule bc_reach_ok [OF assms(2) w_init_ok [OF assms(1)]])
  have "(i, h) \<in> set (w_active w)" using assms(3) by (rule map_of_SomeD)
  with W have "h_active h" "conn_ok env i w (h, w)" by (auto simp: world_ok_def)
  with sess_okD(5,7) [OF conn_okD(1)] world_ok_tables(1,2) [OF W] show ?thesis by blast
qed

text \<open>A connection that was accepted in the initial state.\<close>

definition demo_world :: world where
  "demo_world = (case bc_step demo_env (Bc_Accept (BC_Accepted (zeros 128) [] \<lparr>so_script = [], so_written = []\<rparr>) (Inr (zeros 128)))
     (w_init 7 []) of Inr w \<Rightarrow> w | Inl e \<Rightarrow> w_init 7 [])"

definition demo_handler :: handler where
  "demo_handler = \<lparr>h_read = rb_set_to_read 24 (rb_new 4096 0), h_write = wq_new, h_remote = zeros 128, h_local = zeros 128,
     h_state = BC_RECV_VERSION_REPLY_HDR, h_io_events = BEV_READ, h_fd = True, h_active = True, h_timer = None,
     h_active_timer = None, h_last_activity = 7, h_id = 0, h_in = [], h_out = \<lparr>so_script = [], so_written = []\<rparr>\<rparr>"

lemma demo_accept:
  "bc_step demo_env (Bc_Accept (BC_Accepted (zeros 128) [] \<lparr>so_script = [], so_written = []\<rparr>) (Inr (zeros 128))) (w_init 7 []) = Inr demo_world"
  "w_active demo_world = [(0, demo_handler)]" "w_log demo_world = [LBitcoin ACCEPT_SUCCESS 0 (zeros 128) (zeros 128) []]"
  by (simp_all add: demo_world_def bc_accept_io_cb_def bl_count_def w_init_def bc_new_def bc_insert_def demo_handler_def
      BC_RECV_VERSION_REPLY_HDR_def BC_SEND_VERSION_INIT_def demo_env_def log_add_def)

lemma demo_reach: "bc_reach demo_env (w_init 7 []) demo_world"
  by (rule bc_reach.more [OF bc_reach.start _ demo_accept(1)]) (simp add: name_ok_def w_init_def)

theorem sent_messages_are_logged_witness:
  "so_written (h_out demo_handler) @ wq_pend (h_write demo_handler) = sent_log 0 demo_world \<and> sent_log 0 demo_world = []"
  using sent_messages_are_logged [OF demo_env_ok demo_reach, of 0 demo_handler] demo_accept
  by (simp add: sent_log_def)



text \<open>
  Property C23: whenever an open connection still has bytes to send, its watcher is armed for
  writing, so the event loop will call it; it is armed for reading exactly when it waits for
  a message.
\<close>

theorem pending_output_is_armed:
  assumes "env_ok env" and "bc_reach env (w_init now bl) w" and "map_of (w_active w) i = Some h" and "h_fd h"
  shows "(wq_pend (h_write h) \<noteq> [] \<longrightarrow> h_io_events h AND BEV_WRITE \<noteq> 0) \<and>
    (h_io_events h AND BEV_READ \<noteq> 0 \<longleftrightarrow> h_state h AND BC_RECV_MASK \<noteq> 0)"
proof -
  have W: "world_ok env w" by (rule bc_reach_ok [OF assms(2) w_init_ok [OF assms(1)]])
  have "(i, h) \<in> set (w_active w)" using assms(3) by (rule map_of_SomeD)
  with W have C: "conn_ok env i w (h, w)" by (auto simp: world_ok_def)
  then have "h_io_events h = armed (h_state h)" using assms(4) by (simp add: conn_ok_def)
  with sess_okD(6) [OF conn_okD(1) [OF C]] show ?thesis by (auto simp: armed_def BEV_WRITE_def BEV_READ_def)
qed

theorem pending_output_is_armed_witness:
  "h_io_events demo_handler AND BEV_READ \<noteq> 0"
  using pending_output_is_armed [OF demo_env_ok demo_reach, of 0 demo_handler] demo_accept
  by (simp add: demo_handler_def bc_states)

text \<open>
  Property C22: an established connection that is sent the messages \<open>ms\<close>, cut into chunks and
  callbacks in any way, logs each of them once, in order, answers every ping with its pong and
  every getblocks with an empty inventory, in the same order, and waits for the next header.
\<close>

theorem messages_logged_and_answered:
  assumes "bc_inv env i w (h, w) 24 []" and "recv_of (h_state h) = BC_RECV_HEADER" and "list_all wire_msg ms"
    and "\<forall>cs\<in>set evs. \<forall>c\<in>set cs. c \<noteq> []" and "evs \<noteq> []" and "concat (concat evs) = concat ms"
  shows "\<exists>h' w' rb s. callbacks (e_ps env) (bc_complete env) (h, w) (rb_new (e_ps env) 24) [] evs = Inr ((h', w'), rb, s) \<and>
    rb_cursor rb = 0 \<and> rb_to_read rb = 24 \<and> recv_of (h_state h') = BC_RECV_HEADER \<and>
    recv_log i w' = recv_log i w @ ms \<and> sent_log i w' = sent_log i w @ concat (map (bc_reply env) ms) \<and>
    so_written (h_out h') @ wq_pend (h_write h') = sent_log i w'"
proof -
  have ps: "0 < e_ps env" using assms(1) by (simp add: bc_inv_def env_ok_def)
  obtain h' w' b where S: "stream_run (e_ps env) (bc_complete env) (h, w) 0 24 (rb_buffer (rb_new (e_ps env) 24)) (concat ms) =
      Inr ((h', w'), 0, 24, b, [])" "sess_ok i w (h', w')" "recv_of (h_state h') = BC_RECV_HEADER"
    "recv_log i w' = recv_log i w @ ms" "sent_log i w' = sent_log i w @ concat (map (bc_reply env) ms)"
    using bc_messages [OF assms(1,2) rb_new_allocated [OF ps] assms(3)] by blast
  have "seen (callbacks (e_ps env) (bc_complete env) (h, w) (rb_new (e_ps env) 24) [] evs) = Inr ((h', w'), 0, 24, b, [])"
    using callbacks_seen [OF assms(4,5) ps, of "bc_complete env" "(h, w)" 24] assms(6) S(1) by simp
  from seen_InrD [OF this] S(2-5) sess_okD(5) [OF S(2)] show ?thesis by blast
qed

definition demo_ping :: "byte list" where
  "demo_ping = message_bytes demo_env ''ping'' [1, 2, 3, 4, 5, 6, 7, 8]"

definition demo_peer :: handler where
  "demo_peer = demo_handler\<lparr>h_state := BC_RECV_HEADER\<rparr>"

lemma demo_peer_inv: "bc_inv demo_env 0 demo_world (demo_peer, demo_world) 24 []"
proof -
  have "sent_log 0 demo_world = []" "log_ok demo_world" using demo_accept by (simp_all add: sent_log_def log_ok_def)
  then show ?thesis
    using demo_env_ok
    by (simp add: bc_inv_def sess_ok_def demo_peer_def demo_handler_def hdr_state_def send_message_init)
qed

lemma demo_ping_facts: "wire_msg demo_ping" "bc_reply demo_env demo_ping = put 5 [0x6f] demo_ping"
proof -
  let ?p = "[1, 2, 3, 4, 5, 6, 7, 8 :: byte]"
  have ok: "msg_take demo_ping = demo_ping" "msg_length demo_ping = 8" "length demo_ping = 32"
    using message_bytes_ok [of ?p demo_env "''ping''"] get_message_length [of ?p] get_message_size
    by (simp_all add: demo_ping_def message_bytes_def)
  have c: "take 12 (drop 4 demo_ping) = strncpy12 (ascii ''ping'')"
    by (simp add: demo_ping_def message_bytes_def pm_bytes_def get_message_def Let_def)
  also have s: "strncpy12 (ascii ''ping'') = ascii ''ping'' @ zeros 8" by (simp add: strncpy12_def ascii_def)
  finally have f: "field 4 5 demo_ping = ascii ''ping'' @ [0]"
    using field_take [of 0 5 12 "drop 4 demo_ping"] by (simp add: field_def ascii_def)
  then have "cstr_is demo_ping 4 ''ping''" by (simp add: cstr_is_def numeral_eq_Suc)
  then show "bc_reply demo_env demo_ping = put 5 [0x6f] demo_ping" using ok by (simp add: bc_reply_def)
  have "0 \<in> set (take 12 (drop 4 demo_ping))" using c s by simp
  then show "wire_msg demo_ping" using ok by (auto simp: wire_msg_def dest: in_set_takeD)
qed

theorem messages_logged_and_answered_witness:
  "\<exists>h' w' rb s. callbacks 4096 (bc_complete demo_env) (demo_peer, demo_world) (rb_new 4096 24) [] [[take 5 demo_ping], [drop 5 demo_ping]]
      = Inr ((h', w'), rb, s) \<and> so_written (h_out h') @ wq_pend (h_write h') = put 5 [0x6f] demo_ping"
proof -
  have l: "length demo_ping = 32" by (simp add: demo_ping_def message_bytes_def get_message_size)
  then have ne: "\<forall>cs\<in>set [[take 5 demo_ping], [drop 5 demo_ping]]. \<forall>c\<in>set cs. c \<noteq> []" by auto
  have st: "recv_of (h_state demo_peer) = BC_RECV_HEADER" by (simp add: demo_peer_def)
  have "e_ps demo_env = 4096" by (simp add: demo_env_def)
  with messages_logged_and_answered [OF demo_peer_inv st _ ne, of "[demo_ping]"] demo_ping_facts demo_accept(3) show ?thesis
    by (auto simp: sent_log_def simp del: callbacks.simps)
qed


text \<open>
  Property C25: a Bitcoin connection computes a function of the byte stream: how the kernel cuts
  it into chunks and how often the event loop calls do not matter, for any stream.
\<close>

theorem bitcoin_schedule_independent:
  assumes "\<forall>cs\<in>set evs. \<forall>c\<in>set cs. c \<noteq> []" and "\<forall>cs\<in>set evs'. \<forall>c\<in>set cs. c \<noteq> []"
    and "evs \<noteq> []" and "evs' \<noteq> []" and "concat (concat evs) = concat (concat evs')"
  shows "seen (callbacks (Suc p) (bc_complete env) st rb [] evs) = seen (callbacks (Suc p) (bc_complete env) st rb [] evs')"
  by (rule bc.schedule_independent [OF assms])

theorem bitcoin_schedule_independent_witness:
  "seen (callbacks 4096 (bc_complete demo_env) (demo_peer, demo_world) (rb_new 4096 24) [] [[[1], [2, 3]], [[4]]]) =
   seen (callbacks 4096 (bc_complete demo_env) (demo_peer, demo_world) (rb_new 4096 24) [] [[[1, 2, 3, 4]]])"
  using bitcoin_schedule_independent [of "[[[1], [2, 3]], [[4]]]" "[[[1, 2, 3, 4]]]" 4095] by simp

section \<open>Handshakes\<close>

lemma rb_new_24: "rb_set_to_read 24 (rb_new ps 0) = rb_new ps 24"
  by (simp add: rb_new_def rb_set_to_read_def)

lemma version_exchange:
  assumes "env_ok env" and "sess_ok i w0 (h, w)" and "h_state h = BC_RECV_VERSION_REPLY_HDR"
    and "0 < vb_allocated buf" and "wire_msg m" and "0 < msg_length m"
  obtains h' w' v b w1 w2 where "stream_run (e_ps env) (bc_complete env) (h, w) 0 24 buf (m @ rest) =
      stream_run (e_ps env) (bc_complete env) (h', w') 0 24 b rest" "0 < vb_allocated b"
    "h_state h' = BC_SEND_VERSION_REPLY OR BC_RECV_HEADER" "sess_ok i w0 (h', w')"
    "recv_log i w' = recv_log i w @ [m]"
    "sent_log i w' = sent_log i w @ bc_reply env m @ message_bytes env ''version'' v @ message_bytes env ''verack'' []"
    "make_version env (h_remote h) (e_external env) w1 = (v, w2)"
proof -
  let ?f = "bc_complete env" and ?ps = "e_ps env" and ?g = "h\<lparr>h_state := BC_RECV_VERSION_REPLY\<rparr>"
  have l: "24 \<le> length m" "length m = 24 + msg_length m" using assms(5) by (simp_all add: wire_msg_def)
  have m24: "length (take 24 m) = 24" using l(1) by simp
  have cat: "take 24 m @ drop 24 m @ rest = m @ rest" by simp
  have hd: "hdr_state (recv_of (h_state h))" using assms(3) by (simp add: hdr_state_def)
  obtain b1 where B1: "vb_allocated b1 \<ge> 24" "take 24 (vb_bytes b1) = take 24 m"
    and S1: "stream_run ?ps ?f (h, w) 0 24 buf (take 24 m @ (drop 24 m @ rest)) =
      bindR (?f (h, w) 24 b1) (\<lambda>(st', cmd). case cmd of
          Extend k \<Rightarrow> stream_run ?ps ?f st' 24 k b1 (drop 24 m @ rest) | Restart k \<Rightarrow> stream_run ?ps ?f st' 0 k b1 (drop 24 m @ rest))"
    by (rule stream_run_frame [OF env_okD [OF assms(1)] zero_less_numeral assms(4) m24])
  have ml: "msg_length (vb_bytes b1) = msg_length m"
    using msg_length_take [of 24 "vb_bytes b1"] msg_length_take [of 24 m] B1(2) by simp
  have p: "0 < vb_allocated b1" "length (drop 24 m) = msg_length m" using B1(1) l by auto
  obtain b2 where B2: "vb_allocated b2 \<ge> 24 + msg_length m" "take (24 + msg_length m) (vb_bytes b2) = take 24 (vb_bytes b1) @ drop 24 m"
    and S2: "stream_run ?ps ?f (?g, w) 24 (msg_length m) b1 (drop 24 m @ rest) =
      bindR (?f (?g, w) (24 + msg_length m) b2) (\<lambda>(st', cmd). case cmd of
        Extend k \<Rightarrow> stream_run ?ps ?f st' (24 + msg_length m) k b2 rest | Restart k \<Rightarrow> stream_run ?ps ?f st' 0 k b2 rest)"
    by (rule stream_run_frame_at [OF env_okD [OF assms(1)] assms(6) p(1) B1(1) p(2)])
  have tl: "take (length m) (vb_bytes b2) = m" using B2 B1(2) l by simp
  note R = bc_reply_buffer [OF tl assms(5)]
  have S: "sess_ok i w0 (?g, w)" by (rule sess_ok_state [OF assms(2)]) (simp add: assms(3))
  have rg: "recv_of (h_state ?g) = BC_RECV_VERSION_REPLY" by simp
  from bc_version_frame [OF assms(1) S rg R(2), of "24 + msg_length m"] R(4) obtain h' w' v w1 w2 where
    V: "?f (?g, w) (24 + msg_length m) b2 = Inr ((h'\<lparr>h_state := BC_SEND_VERSION_REPLY OR BC_RECV_HEADER\<rparr>, w'), Restart 24)"
      "acts ?g w [msg_take (vb_bytes b2)] (bc_reply env (vb_bytes b2) @ message_bytes env ''version'' v @ message_bytes env ''verack'' []) h' w'"
      "make_version env (h_remote h) (e_external env) w1 = (v, w2)" by auto
  let ?h = "h'\<lparr>h_state := BC_SEND_VERSION_REPLY OR BC_RECV_HEADER\<rparr>"
  have E1: "?f (h, w) 24 b1 = Inr ((?g, w), Extend (msg_length m))"
    using bc_complete_body [OF B1(1) disjI1 [OF hd], of env w 24] assms(3) ml by (simp add: Let_def)
  have "sess_ok i w0 (?h, w')" by (rule sess_ok_state [OF sess_ok_acts [OF S V(2)]]) (simp add: or_nonzero)
  moreover have "recv_log i w' = recv_log i w @ [m]"
    "sent_log i w' = sent_log i w @ bc_reply env m @ message_bytes env ''version'' v @ message_bytes env ''verack'' []"
    using V(2) R(1,3) sess_okD(7) [OF assms(2)] by (simp_all add: acts_def log_grows_def)
  moreover have "0 < vb_allocated b2" using B2(1) by linarith
  ultimately show thesis using S1 S2 E1 V(1,3) cat by (intro that [of ?h w' b2 v w1 w2]) simp_all
qed



text \<open>A write event on a connection whose socket takes everything that is queued.\<close>

lemma flush_event:
  assumes "conn_ok env i w (h, w)" and "h_fd h" and "write_loop (h_write h) (h_out h) = Inr (None, wq, out)"
  shows "bc_io_cb env BEV_WRITE h w =
    (let h1 = h\<lparr>h_write := wq, h_out := out\<rparr>;
         h2 = (if send_of (h_state h) = BC_SEND_VERSION_INIT
               then h1\<lparr>h_state := BC_RECV_VERSION_INIT_HDR, h_read := rb_set_to_read 24 (h_read h)\<rparr> else h1);
         h3 = h2\<lparr>h_state := recv_of (h_state h2)\<rparr> in
     Inr ((io_set (armed (h_state h3)) h3)\<lparr>h_last_activity := w_now w\<rparr>, w))"
    and "so_written out = sent_log i w" and "wq_pend wq = []"
proof -
  note l = conn_okD(2) [OF assms(1)] and S = conn_okD(1) [OF assms(1)]
  obtain bs where W: "so_written out = so_written (h_out h) @ bs" "wq_pend (h_write h) = bs @ wq_pend wq" "wq_pend wq = []"
    using write_loop_ok [OF sess_okD(1) [OF S], of "h_out h"] assms(3) by auto
  then show "so_written out = sent_log i w" "wq_pend wq = []" using sess_okD(5) [OF S] by simp_all
  have r: "BEV_WRITE AND BEV_READ = 0" "BEV_WRITE AND BEV_WRITE \<noteq> 0" by (simp_all add: BEV_READ_def BEV_WRITE_def)
  have rb: "rb_to_read (h_read h) = 0" if "send_of (h_state h) = BC_SEND_VERSION_INIT"
  proof (rule ccontr)
    assume "rb_to_read (h_read h) \<noteq> 0"
    with l have "bc_inv env i w (h, w) (rb_cursor (h_read h) + rb_to_read (h_read h)) (take (rb_cursor (h_read h)) (vb_bytes (rb_buffer (h_read h))))"
      by (simp add: live_ok_def bc.ready_def)
    then have "h_state h AND BC_SEND_VERSION_INIT = 0" by (simp add: bc_inv_def Let_def)
    with that show False using send_or_init [of 0 "h_state h"] by (simp add: send_or_init [of 0, symmetric])
  qed
  show "bc_io_cb env BEV_WRITE h w =
    (let h1 = h\<lparr>h_write := wq, h_out := out\<rparr>;
         h2 = (if send_of (h_state h) = BC_SEND_VERSION_INIT
               then h1\<lparr>h_state := BC_RECV_VERSION_INIT_HDR, h_read := rb_set_to_read 24 (h_read h)\<rparr> else h1);
         h3 = h2\<lparr>h_state := recv_of (h_state h2)\<rparr> in
     Inr ((io_set (armed (h_state h3)) h3)\<lparr>h_last_activity := w_now w\<rparr>, w))"
    using assms(2,3) r rb
    by (cases "send_of (h_state h) = BC_SEND_VERSION_INIT")
      (simp_all add: bc_io_cb_def bc_do_write_def bc_out_def Let_def assertR_def armed_def)
qed

text \<open>
  A connection that we opened sends its version message and, once the socket has
  taken it, waits for the peer's 24-byte header and listens only for input.
\<close>

theorem connecting_peer_handshake:
  assumes "conn_ok env i w (h, w)" and "h_fd h" and "h_state h = BC_SEND_VERSION_INIT"
    and "write_loop (h_write h) (h_out h) = Inr (None, wq, out)"
  shows "\<exists>h'. bc_io_cb env BEV_WRITE h w = Inr (h', w) \<and> h_state h' = BC_RECV_VERSION_INIT_HDR \<and> rb_to_read (h_read h') = 24 \<and>
    h_io_events h' = BEV_READ \<and> so_written (h_out h') = sent_log i w"
proof -
  have n: "BC_RECV_VERSION_INIT_HDR \<noteq> 0" by (simp add: bc_states)
  show ?thesis
    using flush_event [OF assms(1,2,4)] assms(3) n
    by (simp add: Let_def io_set_def armed_def rb_set_to_read_def)
qed

definition demo_queue :: wbuf where
  "demo_queue = \<lparr>wq_to_write = 24, wq_buffers = [\<lparr>bc_cursor = 0, bc_writable = 24, bc_buffer = VAlloc (zeros 24)\<rparr>]\<rparr>"

definition demo_out_world :: world where
  "demo_out_world = log_add (LMsg 0 True (zeros 24)) (w_init 7 [])"

definition demo_connecting :: "u32 \<Rightarrow> handler" where
  "demo_connecting s = demo_handler\<lparr>h_read := rb_new 4096 0, h_write := demo_queue, h_state := s, h_io_events := BEV_WRITE,
     h_out := \<lparr>so_script = [WriteOk 100], so_written = []\<rparr>\<rparr>"

lemma demo_connecting_ok:
  assumes "send_of s \<noteq> 0" and "recv_of s = 0"
  shows "conn_ok demo_env 0 demo_out_world (demo_connecting s, demo_out_world)"
    and "write_loop (h_write (demo_connecting s)) (h_out (demo_connecting s)) =
      Inr (None, \<lparr>wq_to_write = 0, wq_buffers = []\<rparr>, \<lparr>so_script = [], so_written = zeros 24\<rparr>)"
proof -
  have z: "msg_length (zeros 24) = 0" by code_simp
  have q: "wq_pend demo_queue = zeros 24" "wq_ok demo_queue"
    by (simp_all add: demo_queue_def wq_pend_def wq_ok_def bc_pend_def bc_ok_def vb_allocated_def)
  have "sess_ok 0 demo_out_world (demo_connecting s, demo_out_world)"
    using assms z q by (simp add: sess_ok_def demo_connecting_def demo_handler_def demo_out_world_def w_init_def log_ok_def sent_log_def log_add_def msg_take_def)
  then show "conn_ok demo_env 0 demo_out_world (demo_connecting s, demo_out_world)"
    using assms rb_new_allocated [of 4096 0]
    by (simp add: conn_ok_def live_ok_def demo_connecting_def demo_handler_def armed_def)
  show "write_loop (h_write (demo_connecting s)) (h_out (demo_connecting s)) =
      Inr (None, \<lparr>wq_to_write = 0, wq_buffers = []\<rparr>, \<lparr>so_script = [], so_written = zeros 24\<rparr>)"
    by (simp add: write_loop.simps demo_connecting_def demo_queue_def wq_get_to_write_def wq_do_write_def wq_do_write_n_def
        vb_const_ptr_def rd_def sys_write_def Let_def)
qed

theorem connecting_peer_handshake_witness:
  "\<exists>h'. bc_io_cb demo_env BEV_WRITE (demo_connecting BC_SEND_VERSION_INIT) demo_out_world = Inr (h', demo_out_world) \<and>
    h_state h' = BC_RECV_VERSION_INIT_HDR"
proof -
  have s: "send_of BC_SEND_VERSION_INIT \<noteq> 0" "recv_of BC_SEND_VERSION_INIT = 0" by simp_all
  have f: "h_fd (demo_connecting s)" "h_state (demo_connecting s) = s" for s by (simp_all add: demo_connecting_def demo_handler_def)
  show ?thesis using connecting_peer_handshake [OF demo_connecting_ok(1) [OF s] f demo_connecting_ok(2) [OF s]] by blast
qed

text \<open>
  Property C26: when a message is queued before the version message has left, for instance by a
  command, the state has both send bits and the end of the handshake is not recognised: once the
  queue is empty the connection is in state 0, armed for nothing, and further events do not
  make it read. The peer's version message is never received.
\<close>

theorem message_during_handshake_stalls:
  assumes "conn_ok env i w (h, w)" and "h_fd h" and "h_state h = BC_SEND_VERSION_INIT OR BC_SEND_MESSAGE"
    and "write_loop (h_write h) (h_out h) = Inr (None, wq, out)"
  shows "\<exists>h'. bc_io_cb env BEV_WRITE h w = Inr (h', w) \<and> h_state h' = 0 \<and> h_io_events h' = BEV_NONE \<and>
    bc_io_cb env BEV_READ h' w = Inr (h', w)"
proof -
  have n: "BC_SEND_VERSION_INIT OR BC_SEND_MESSAGE \<noteq> BC_SEND_VERSION_INIT" by (simp add: bc_states)
  have r: "BEV_READ AND BEV_WRITE = 0" by (simp add: BEV_READ_def BEV_WRITE_def)
  let ?h = "(io_set 0 (h\<lparr>h_write := wq, h_out := out, h_state := 0\<rparr>))\<lparr>h_last_activity := w_now w\<rparr>"
  have "bc_io_cb env BEV_WRITE h w = Inr (?h, w)"
    using flush_event(1) [OF assms(1,2,4)] assms(3) n by (simp add: Let_def armed_def)
  moreover have "bc_io_cb env BEV_READ ?h w = Inr (?h, w)"
    using assms(2) r by (simp add: bc_io_cb_def io_set_def Let_def)
  ultimately show ?thesis by (auto simp: io_set_def BEV_NONE_def)
qed

theorem message_during_handshake_stalls_witness:
  "\<exists>h'. bc_io_cb demo_env BEV_WRITE (demo_connecting (BC_SEND_VERSION_INIT OR BC_SEND_MESSAGE)) demo_out_world = Inr (h', demo_out_world) \<and>
    h_state h' = 0"
proof -
  have s: "send_of (BC_SEND_VERSION_INIT OR BC_SEND_MESSAGE) \<noteq> 0" "recv_of (BC_SEND_VERSION_INIT OR BC_SEND_MESSAGE) = 0"
    by (simp_all add: or_nonzero)
  have f: "h_fd (demo_connecting s)" "h_state (demo_connecting s) = s" for s by (simp_all add: demo_connecting_def demo_handler_def)
  show ?thesis using message_during_handshake_stalls [OF demo_connecting_ok(1) [OF s] f demo_connecting_ok(2) [OF s]] by blast
qed

text \<open>
  A peer that announces an empty version message stops its connection: the handler
  announces a frame of no bytes, is never hungry again, and what the peer sends afterwards stays
  unread while the connection remains open.
\<close>

theorem empty_version_wedges:
  assumes "env_ok env" and "h_state h = BC_RECV_VERSION_REPLY_HDR" and "length m = 24" and "msg_length m = 0"
    and "\<forall>cs\<in>set evs. \<forall>c\<in>set cs. c \<noteq> []" and "evs \<noteq> []" and "concat (concat evs) = m @ rest"
  shows "\<exists>rb s. callbacks (e_ps env) (bc_complete env) (h, w) (rb_new (e_ps env) 24) [] evs =
      Inr ((h\<lparr>h_state := BC_RECV_VERSION_REPLY\<rparr>, w), rb, s) \<and> rb_to_read rb = 0 \<and> rb_pending rb @ avail s = rest"
proof -
  let ?f = "bc_complete env" and ?ps = "e_ps env"
  note ps = env_okD [OF assms(1)]
  obtain b1 where B1: "vb_allocated b1 \<ge> 24" "take 24 (vb_bytes b1) = m"
    and S1: "stream_run ?ps ?f (h, w) 0 24 (rb_buffer (rb_new ?ps 24)) (m @ rest) =
      bindR (?f (h, w) 24 b1) (\<lambda>(st', cmd). case cmd of
          Extend k \<Rightarrow> stream_run ?ps ?f st' 24 k b1 rest | Restart k \<Rightarrow> stream_run ?ps ?f st' 0 k b1 rest)"
    by (rule stream_run_frame [OF ps zero_less_numeral rb_new_allocated [OF ps] assms(3)])
  have hd: "hdr_state (recv_of (h_state h))" using assms(2) by (simp add: hdr_state_def)
  have "msg_length (vb_bytes b1) = 0" using msg_length_take [of 24 "vb_bytes b1"] B1(2) assms(4) by simp
  then have "?f (h, w) 24 b1 = Inr ((h\<lparr>h_state := BC_RECV_VERSION_REPLY\<rparr>, w), Extend 0)"
    using bc_complete_body [OF B1(1) disjI1 [OF hd], of env w 24] assms(2) by (simp add: Let_def)
  with S1 callbacks_seen [OF assms(5,6) ps, of ?f "(h, w)" 24] assms(7)
  have "seen (callbacks ?ps ?f (h, w) (rb_new ?ps 24) [] evs) = Inr ((h\<lparr>h_state := BC_RECV_VERSION_REPLY\<rparr>, w), 24, 0, b1, rest)"
    by (simp add: stream_run.simps [of ?ps ?f _ 24 0])
  from seen_InrD [OF this] show ?thesis by auto
qed

theorem empty_version_wedges_witness:
  "\<exists>rb s. callbacks 4096 (bc_complete demo_env) (demo_handler, demo_world) (rb_new 4096 24) [] [[zeros 24], [[1, 2]]] =
      Inr ((demo_handler\<lparr>h_state := BC_RECV_VERSION_REPLY\<rparr>, demo_world), rb, s) \<and> rb_pending rb @ avail s = [1, 2]"
proof -
  have z: "msg_length (zeros 24) = 0" by code_simp
  have h: "h_state demo_handler = BC_RECV_VERSION_REPLY_HDR" "e_ps demo_env = 4096" by (simp_all add: demo_handler_def demo_env_def)
  show ?thesis
    using empty_version_wedges [OF demo_env_ok h(1) _ z, of "[[zeros 24], [[1, 2]]]" "[1, 2]" demo_world] h(2)
    by (auto simp del: callbacks.simps)
qed

lemma append_last_block:
  "append_for_write env m h w = Inr (h', w') \<Longrightarrow> w_last_block w' = w_last_block w"
  "append_for_write_buf b h w = Inr (h', w') \<Longrightarrow> w_last_block w' = w_last_block w"
  by (auto simp: append_for_write_def append_for_write_buf_def bindR_Inr_iff)

lemma pingers_last_block: "start_pingers env h w = (h', w') \<Longrightarrow> w_last_block w' = w_last_block w"
  by (auto simp: start_pingers_def Let_def split: if_splits)

text \<open>
  One received message moves the block height that we announce by at most ten, and
  never backwards, whatever its payload claims.
\<close>

theorem block_height_bounded:
  assumes "handle_message_recv env msg h w = Inr (h', w')"
  shows "sint (w_last_block w) \<le> sint (w_last_block w') \<and> sint (w_last_block w') \<le> sint (w_last_block w) + 10"
proof -
  have "w_last_block w' = w_last_block w \<or>
      sint (w_last_block w) < sint (w_last_block w') \<and> sint (w_last_block w') - sint (w_last_block w) \<le> 10"
    using assms unfolding handle_message_recv_def Let_def
    by (auto simp: bindR_Inr_iff dest!: append_last_block pingers_last_block split: if_splits)
  then show ?thesis by auto
qed

theorem block_height_bounded_witness:
  "\<exists>h' w'. handle_message_recv demo_env demo_ping demo_peer demo_world = Inr (h', w') \<and>
    sint (w_last_block w') \<le> sint (w_last_block demo_world) + 10"
proof -
  have "msg_ok demo_ping" using demo_ping_facts(1) by (simp add: wire_msg_def msg_ok_def)
  moreover have "wq_ok (h_write demo_peer)" by (simp add: demo_peer_def demo_handler_def)
  ultimately obtain h' w' where "handle_message_recv demo_env demo_ping demo_peer demo_world = Inr (h', w')"
    using handle_message_recv_ok [OF demo_env_ok, of demo_peer demo_ping demo_world] demo_ping_facts(1) by (auto simp: wire_msg_def)
  with block_height_bounded [OF this] show ?thesis by blast
qed

text \<open>
  A blacklisted address never becomes a connection. An incoming one is closed and
  reported, an outgoing one is not even tried: it is logged as a failed connection with the
  text \<^verbatim>\<open>BLACKLISTED\<close>.
\<close>

theorem blacklisted_never_connected:
  assumes "world_ok env w" and "bl_count addr (w_blacklist w) > 0"
  shows "(\<exists>w'. bc_accept_io_cb env (BC_Accepted addr inp out) name w = Inr w' \<and> w_active w' = w_active w \<and>
      w_log w' = w_log w @ [LText ERROR [ascii ''Blacklisted ip address attempted to connect'', e_show env addr]]) \<and>
    (\<exists>w'. connect_handler_new env p addr res name inp out w = Inr w' \<and> w_active w' = w_active w \<and> w_id_pool w' = w_id_pool w \<and>
      w_log w' = w_log w @ [LBitcoin CONNECT_FAILURE 0 addr (set_family (ss_family addr) (zeros 128)) (ascii ''BLACKLISTED'' @ [0])])"
proof -
  obtain w0 where R: "reap_conns w = Inr w0" using reap_conns_ok [OF assms(1)] by blast
  then have "w_active w0 = w_active w" "w_blacklist w0 = w_blacklist w" "w_log w0 = w_log w" "w_id_pool w0 = w_id_pool w"
    by (auto simp: reap_conns_def bindR_Inr_iff)
  with R assms(2) show ?thesis
    by (simp add: bc_accept_io_cb_def connect_handler_new_def connect_failure_def log_add_def)
qed

theorem blacklisted_never_connected_witness:
  "\<exists>w'. bc_accept_io_cb demo_env (BC_Accepted ([2, 0, 0, 0, 1, 2, 3, 4] @ zeros 120) [] \<lparr>so_script = [], so_written = []\<rparr>) (Inl EPIPE)
     (w_init 7 [[2, 0, 9, 9, 1, 2, 3, 4] @ zeros 120]) = Inr w' \<and> w_active w' = []"
proof -
  let ?w = "w_init 7 [[2, 0, 9, 9, 1, 2, 3, 4] @ zeros 120]" and ?a = "[2, 0, 0, 0, 1, 2, 3, 4] @ zeros 120"
  have "ss_eq ([2, 0, 9, 9, 1, 2, 3, 4] @ zeros 120) ?a"
    by (simp add: ss_eq_def ss_family_def sin_addr_def field_def get16_def AF_INET_def del: replicate.simps)
  then have b: "bl_count ?a (w_blacklist ?w) > 0" by (simp add: bl_count_def w_init_def)
  have a: "w_active ?w = []" by (simp add: w_init_def)
  note B = blacklisted_never_connected [OF w_init_ok [OF demo_env_ok] b, of "[]" "\<lparr>so_script = [], so_written = []\<rparr>" "Inl EPIPE" 0 ConnOk]
  from conjunct1 [OF B] obtain w' where
    "bc_accept_io_cb demo_env (BC_Accepted ?a [] \<lparr>so_script = [], so_written = []\<rparr>) (Inl EPIPE) ?w = Inr w'" "w_active w' = w_active ?w"
    by (elim exE conjE)
  then show ?thesis using a by (intro exI [of _ w'] conjI) simp_all
qed

text \<open>
  Closing a connection does not stop its addr timer. When it fires on the closed
  object, an addr message is queued and logged as sent although the socket is gone and nothing
  can be written any more.
\<close>

theorem closed_connection_logs_addr:
  assumes "world_ok env w" and "map_of (w_active w) i = Some h" and "bc_disconnect h w = (h1, w1)"
  shows "h_active_timer h1 = h_active_timer h \<and> \<not> h_fd h1 \<and>
    (\<exists>h2 w2 p. active_pinger_cb env h1 w1 = Inr (h2, w2) \<and> \<not> h_fd h2 \<and> so_written (h_out h2) = so_written (h_out h) \<and>
      sent_log i w2 = sent_log i w @ message_bytes env ''addr'' p)"
proof -
  note E = world_ok_tables(3) [OF assms(1)]
  have "(i, h) \<in> set (w_active w)" using assms(2) by (rule map_of_SomeD)
  with assms(1) have "conn_ok env i w (h, w)" by (auto simp: world_ok_def)
  from bc_disconnect_ok [OF this] assms(3) have D: "conn_ok env i w (h1, w1)" "\<not> h_fd h1" by auto
  have e: "h_active_timer h1 = h_active_timer h" "h_out h1 = h_out h" "sent_log i w1 = sent_log i w" "length (w_addr_payload w1) = length (w_addr_payload w)"
    using assms(3) by (auto simp: bc_disconnect_def bc_suicide_def Let_def sent_log_def log_add_def split: if_splits)
  obtain h2 w2 p where A: "active_pinger_cb env h1 w1 = Inr (h2, w2)" "conn_ok env i w (h2, w2)"
    "sent_log i w2 = sent_log i w1 @ message_bytes env ''addr'' p"
    using active_pinger_cb_ok [OF D(1) E] e(4) world_ok_tables(7) [OF assms(1)] by auto
  have "h_out h2 = h_out h1" "h_fd h2 = h_fd h1" using A(1)
    by (auto simp: active_pinger_cb_def Let_def bindR_Inr_iff append_for_write_def)
  with A e D(2) show ?thesis by auto
qed

theorem closed_connection_logs_addr_witness:
  "\<exists>h2 w2 p. active_pinger_cb demo_env (fst (bc_disconnect demo_handler demo_world)) (snd (bc_disconnect demo_handler demo_world)) = Inr (h2, w2) \<and>
    so_written (h_out h2) = [] \<and> sent_log 0 w2 = message_bytes demo_env ''addr'' p"
proof -
  have W: "world_ok demo_env demo_world" by (rule bc_reach_ok [OF demo_reach w_init_ok [OF demo_env_ok]])
  have m: "map_of (w_active demo_world) 0 = Some demo_handler" using demo_accept(2) by simp
  have "sent_log 0 demo_world = []" using demo_accept(3) by (simp add: sent_log_def)
  moreover have "so_written (h_out demo_handler) = []" by (simp add: demo_handler_def)
  ultimately show ?thesis using closed_connection_logs_addr [OF W m, of "fst (bc_disconnect demo_handler demo_world)" "snd (bc_disconnect demo_handler demo_world)"]
    by auto
qed

end
