(* ===== verification/Tor_Handler.thy ===== *)
theory Tor_Handler
  imports Bitcoin_Peers
begin

text \<open>
  Connections to onion addresses (\<^verbatim>\<open>tor_connect_handler\<close> of \<^verbatim>\<open>connector/src/bitcoin_handler.cpp\<close>): a state
  machine that speaks SOCKS5 to the Tor proxy and, when the proxy has connected, hands the
  socket to a \<^verbatim>\<open>bitcoin::handler\<close>. An object lives in a table under its address; \<^verbatim>\<open>advance\<close> puts it into the
  set of objects to be deleted.
\<close>

section \<open>State\<close>

datatype tor_state =
    TOR_CONNECT_PROXY | TOR_SEND_GREETING | TOR_RECV_GREETING | TOR_SEND_CONNECT | TOR_RECV_CONNECT | TOR_HANDSHAKE_DONE

record tor =
  tr_remote :: sockaddr
  tr_fd :: bool
  tr_state :: tor_state
  tr_host :: "byte list"
  tr_port :: u16
  tr_written :: nat
  tr_to_write :: nat
  tr_watching :: bool
  tr_events :: u32
  tr_in :: sock_in
  tr_out :: sock_out

record tworld =
  tw_world :: world
  tw_tors :: "(nat \<times> tor) list"
  tw_dead :: "nat list"

text \<open>\<^verbatim>\<open>do_error\<close> of \<^verbatim>\<open>netwrap.hpp\<close>: the text of the exception.\<close>

definition do_error :: "env \<Rightarrow> string \<Rightarrow> errno \<Rightarrow> byte list" where
  "do_error env str e = ascii str @ ascii '': '' @ e_strerror env e"

section \<open>Constructors\<close>

text \<open>The answers to \<^verbatim>\<open>socket\<close> and \<^verbatim>\<open>connect\<close>; the result is the text of a \<^verbatim>\<open>network_error\<close>, if any.\<close>

datatype proxy_result = Proxy_Socket_Err errno | Proxy_Connect connect_result

definition create_tor_proxy_socket :: "env \<Rightarrow> proxy_result \<Rightarrow> byte list option" where
  "create_tor_proxy_socket env r =
     (case r of
        Proxy_Socket_Err e \<Rightarrow> Some (do_error env ''socket failure'' e)
      | Proxy_Connect ConnOk \<Rightarrow> None
      | Proxy_Connect (ConnErr e) \<Rightarrow>
          if e \<noteq> EINPROGRESS \<and> e \<noteq> EALREADY then Some (ascii ''tor proxy connect failed'') else None)"

definition reap_tors :: "tworld \<Rightarrow> tworld" where
  "reap_tors tw = tw\<lparr>tw_tors := filter (\<lambda>(p, t). p \<notin> set (tw_dead tw)) (tw_tors tw), tw_dead := []\<rparr>"

definition hex_digit :: "nat \<Rightarrow> byte" where
  "hex_digit n = (if n < 10 then of_nat (48 + n) else of_nat (87 + n))"

definition hex2 :: "byte \<Rightarrow> byte list" where
  "hex2 b = [hex_digit (unat b div 16), hex_digit (unat b mod 16)]"

text \<open>\<^verbatim>\<open>snprintf(onion_host_, sizeof(onion_host_) - 1, ...)\<close> keeps at most 62 characters.\<close>

definition onion_host :: "byte list \<Rightarrow> byte list" where
  "onion_host s = take 62 (s @ ascii ''.onion'')"

definition tor_start :: "env \<Rightarrow> nat \<Rightarrow> sockaddr \<Rightarrow> byte list \<Rightarrow> proxy_result \<Rightarrow> sock_in \<Rightarrow> sock_out \<Rightarrow> tworld \<Rightarrow> tworld" where
  "tor_start env p onion_addr host proxy i out tw =
     (let t = \<lparr>tr_remote = onion_addr, tr_fd = False, tr_state = TOR_CONNECT_PROXY, tr_host = host,
               tr_port = ntoh16 (get16 (sin6_port onion_addr)), tr_written = 0, tr_to_write = 0, tr_watching = False,
               tr_events = 0, tr_in = i, tr_out = out\<rparr>;
          tw1 = reap_tors tw;
          here = (\<lambda>t v. v\<lparr>tw_tors := AList.update p t (tw_tors v)\<rparr>) in
      case create_tor_proxy_socket env proxy of
        None \<Rightarrow> here (t\<lparr>tr_fd := True, tr_state := TOR_SEND_GREETING, tr_watching := True, tr_events := BEV_WRITE\<rparr>) tw1
      | Some what \<Rightarrow>
          let w1 = log_add (LText ERROR [ascii ''Tor proxy connection failed'', what]) (tw_world tw1);
              w2 = log_add (LBitcoin CONNECT_FAILURE 0 onion_addr (set_family AF_INET6 (zeros 128)) (what @ [0])) w1 in
          (here t (tw1\<lparr>tw_world := w2\<rparr>))\<lparr>tw_dead := p # tw_dead tw1\<rparr>)"

definition tor_new :: "env \<Rightarrow> nat \<Rightarrow> sockaddr \<Rightarrow> proxy_result \<Rightarrow> sock_in \<Rightarrow> sock_out \<Rightarrow> tworld \<Rightarrow> tworld" where
  "tor_new env p onion_addr = tor_start env p onion_addr (onion_host (concat (map hex2 (sin6_addr onion_addr))))"

definition tor_new_host :: "env \<Rightarrow> nat \<Rightarrow> sockaddr \<Rightarrow> byte list \<Rightarrow> proxy_result \<Rightarrow> sock_in \<Rightarrow> sock_out \<Rightarrow> tworld \<Rightarrow> tworld" where
  "tor_new_host env p onion_addr hostname =
     tor_start env p onion_addr (onion_host (takeWhile (\<lambda>b. b \<noteq> 0) hostname))"

section \<open>The handshake\<close>

text \<open>A method works on its object and the world; the flag says that \<^verbatim>\<open>advance\<close> has been called.\<close>

type_synonym tor_result = "tor \<times> world \<times> bool"

definition advance :: "tor \<Rightarrow> world \<Rightarrow> tor_result" where
  "advance t w = (t\<lparr>tr_watching := False, tr_fd := False, tr_state := TOR_CONNECT_PROXY\<rparr>, w, True)"

lemma sys_write_shrinks: "sys_write bs out = (IOk k, out') \<Longrightarrow> length (so_script out') < length (so_script out)"
  by (auto simp: sys_write_def split: list.splits write_ev.splits)

text \<open>
  The write loops: \<open>n\<close> is \<^verbatim>\<open>written_\<close>; the error is the one that ended the loop, if it is not \<^verbatim>\<open>EAGAIN\<close>.
\<close>

function tor_write :: "byte list \<Rightarrow> nat \<Rightarrow> sock_out \<Rightarrow> nat \<times> errno option \<times> sock_out" where
  "tor_write buf n out =
     (if n < length buf then
        (case sys_write (drop n buf) out of
           (IOk k, out') \<Rightarrow> tor_write buf (n + k) out'
         | (IErr e, out') \<Rightarrow> (n, if e \<noteq> EAGAIN \<and> e \<noteq> EWOULDBLOCK then Some e else None, out'))
      else (n, None, out))"
  by pat_completeness auto
termination by (relation "measure (\<lambda>(buf, n, out). length (so_script out))") (auto dest!: sys_write_shrinks [OF sym])

declare tor_write.simps [simp del]

definition greeting :: "byte list" where
  "greeting = [0x05, 0x01, 0x00]"

definition send_greeting :: "env \<Rightarrow> tor \<Rightarrow> world \<Rightarrow> tor_result" where
  "send_greeting env t w =
     (let (n, r, out) = tor_write greeting 0 (tr_out t);
          t1 = t\<lparr>tr_out := out, tr_written := n, tr_to_write := length greeting\<rparr> in
      case r of
        Some e \<Rightarrow> advance t1 (log_add (LText ERROR [ascii ''Tor greeting write failed'', e_strerror env e]) w)
      | None \<Rightarrow>
          (if n \<ge> length greeting
           then t1\<lparr>tr_state := TOR_RECV_GREETING, tr_events := BEV_READ, tr_written := 0, tr_to_write := 2\<rparr>
           else t1, w, False))"

text \<open>A read into a buffer of \<open>size\<close> uninitialised bytes.\<close>

definition fill :: "env \<Rightarrow> nat \<Rightarrow> byte list \<Rightarrow> byte list" where
  "fill env n bs = bs @ replicate (n - length bs) (e_junk env)"

definition recv_greeting :: "env \<Rightarrow> tor \<Rightarrow> world \<Rightarrow> tor_result" where
  "recv_greeting env t w =
     (case sys_recv 2 (tr_in t) of ((r, bs), s) \<Rightarrow>
        let t1 = t\<lparr>tr_in := s\<rparr>; buf = fill env 2 bs in
        case r of
          IOk k \<Rightarrow>
            if k > 0 then
              if buf ! 0 = 0x05 \<and> buf ! 1 = 0x00
              then (t1\<lparr>tr_state := TOR_SEND_CONNECT, tr_events := BEV_WRITE\<rparr>, w, False)
              else advance t1 (log_add (LText ERROR [ascii ''Tor SOCKS5 greeting rejected'',
                     e_dec env (unat (buf ! 0)), e_dec env (unat (buf ! 1))]) w)
            else advance t1 (log_add (LText ERROR [ascii ''Tor disconnected during greeting'']) w)
        | IErr e \<Rightarrow>
            if e \<noteq> EAGAIN \<and> e \<noteq> EWOULDBLOCK
            then advance t1 (log_add (LText ERROR [ascii ''Tor greeting read error'', e_strerror env e]) w)
            else (t1, w, False))"

text \<open>The request of the protocol, and the array that is sent, which is one byte longer.\<close>

definition connect_request :: "tor \<Rightarrow> byte list" where
  "connect_request t =
     [0x05, 0x01, 0x00, 0x03, of_nat (length (tr_host t))] @ tr_host t @
     [ucast (drop_bit 8 (tr_port t) AND 0xFF), ucast (tr_port t AND 0xFF)]"

definition connect_buf :: "env \<Rightarrow> tor \<Rightarrow> byte list" where
  "connect_buf env t = fill env (6 + length (tr_host t) + 2) (connect_request t)"

definition send_connect :: "env \<Rightarrow> tor \<Rightarrow> world \<Rightarrow> tor_result" where
  "send_connect env t w =
     (let buf = connect_buf env t;
          (n, r, out) = tor_write buf 0 (tr_out t);
          t1 = t\<lparr>tr_out := out, tr_written := n, tr_to_write := length buf\<rparr> in
      case r of
        Some e \<Rightarrow> advance t1 (log_add (LText ERROR [ascii ''Tor connect write failed'', e_strerror env e]) w)
      | None \<Rightarrow>
          (if n \<ge> length buf
           then t1\<lparr>tr_state := TOR_RECV_CONNECT, tr_events := BEV_READ, tr_written := 0, tr_to_write := 4\<rparr>
           else t1, w, False))"

text \<open>The socket that is handed over starts with an empty record of what was written.\<close>

definition recv_connect :: "env \<Rightarrow> errno + sockaddr \<Rightarrow> tor \<Rightarrow> world \<Rightarrow> tor_result res" where
  "recv_connect env name t w =
     (case sys_recv 256 (tr_in t) of ((r, bs), s) \<Rightarrow>
        let t1 = t\<lparr>tr_in := s\<rparr>; buf = fill env 256 bs in
        case r of
          IOk k \<Rightarrow>
            if k > 0 then
              if buf ! 0 = 0x05 \<and> buf ! 1 = 0x00 then
                let t2 = t1\<lparr>tr_state := TOR_HANDSHAKE_DONE, tr_watching := False\<rparr>;
                    (local_addr, w1) = (case name of
                       Inr a \<Rightarrow> (a, w) | Inl e \<Rightarrow> (zeros 128, log_add (LText ERROR [e_strerror env e]) w)) in
                bindR (bc_new env BC_SEND_VERSION_INIT (tr_remote t2) local_addr (tr_in t2)
                         ((tr_out t2)\<lparr>so_written := []\<rparr>) w1) (\<lambda>(h, w2).
                Inr (advance (t2\<lparr>tr_fd := False\<rparr>) (bc_insert h w2)))
              else Inr (advance t1 (log_add (LText ERROR [ascii ''Tor connect rejected, REP:'', e_dec env (unat (buf ! 1))]) w))
            else Inr (advance t1 (log_add (LText ERROR [ascii ''Tor disconnected during connect reply'']) w))
        | IErr e \<Rightarrow>
            Inr (if e \<noteq> EAGAIN \<and> e \<noteq> EWOULDBLOCK
                 then advance t1 (log_add (LText ERROR [ascii ''Tor connect read error'', e_strerror env e]) w)
                 else (t1, w, False)))"

text \<open>\<^verbatim>\<open>io_cb\<close>; \<open>sockopt\<close> is the answer of \<^verbatim>\<open>getsockopt\<close>: whether it succeeded, and the value of \<^verbatim>\<open>err\<close> (\<open>None\<close> is 0).\<close>

definition tor_method :: "env \<Rightarrow> u32 \<Rightarrow> bool \<times> errno option \<Rightarrow> errno + sockaddr \<Rightarrow> tor \<Rightarrow> world \<Rightarrow> tor_result res" where
  "tor_method env revents sockopt name t w =
     (case tr_state t of
        TOR_CONNECT_PROXY \<Rightarrow>
          (case sockopt of
             (ok, err) \<Rightarrow>
               Inr (if ok \<and> err = None then (t\<lparr>tr_state := TOR_SEND_GREETING, tr_events := BEV_WRITE\<rparr>, w, False)
                    else case err of
                      Some e \<Rightarrow> advance t (log_add (LText ERROR [ascii ''Tor proxy connect error'', e_strerror env e]) w)
                    | None \<Rightarrow> (t\<lparr>tr_events := BEV_WRITE\<rparr>, w, False)))
      | TOR_SEND_GREETING \<Rightarrow> Inr (if revents AND BEV_WRITE \<noteq> 0 then send_greeting env t w else (t, w, False))
      | TOR_RECV_GREETING \<Rightarrow> Inr (if revents AND BEV_READ \<noteq> 0 then recv_greeting env t w else (t, w, False))
      | TOR_SEND_CONNECT \<Rightarrow> Inr (if revents AND BEV_WRITE \<noteq> 0 then send_connect env t w else (t, w, False))
      | TOR_RECV_CONNECT \<Rightarrow> (if revents AND BEV_READ \<noteq> 0 then recv_connect env name t w else Inr (t, w, False))
      | TOR_HANDSHAKE_DONE \<Rightarrow> Inr (t, w, False))"

definition tor_io_cb :: "env \<Rightarrow> nat \<Rightarrow> u32 \<Rightarrow> bool \<times> errno option \<Rightarrow> errno + sockaddr \<Rightarrow> tworld \<Rightarrow> tworld res" where
  "tor_io_cb env p revents sockopt name tw =
     (case map_of (tw_tors tw) p of
        None \<Rightarrow> Inl Dangling
      | Some t \<Rightarrow>
          bindR (tor_method env revents sockopt name t (tw_world tw)) (\<lambda>(t', w, dead).
          Inr \<lparr>tw_world = w, tw_tors = AList.update p t' (tw_tors tw),
               tw_dead = (if dead then p # tw_dead tw else tw_dead tw)\<rparr>))"

section \<open>The write loop\<close>

lemma tor_write_spec:
  "tor_write buf n out = (m, r, out') \<Longrightarrow> n \<le> length buf \<Longrightarrow>
     n \<le> m \<and> m \<le> length buf \<and> so_written out' = so_written out @ take (m - n) (drop n buf) \<and> (\<forall>e. r = Some e \<longrightarrow> e \<noteq> EAGAIN)"
proof (induction buf n out rule: tor_write.induct)
  case (1 buf n out)
  show ?case
  proof (cases "n < length buf")
    case True
    obtain q o1 where S: "sys_write (drop n buf) out = (q, o1)" by fastforce
    note W = sys_write_spec [OF S]
    show ?thesis
    proof (cases q)
      case (IOk k)
      have k: "k \<le> length buf - n" using W(1) IOk by simp
      from "1.prems"(1) True S IOk have "tor_write buf (n + k) o1 = (m, r, out')" by (simp add: tor_write.simps [of buf n out])
      from "1.IH" [OF True S [symmetric] IOk this] k True have I: "n + k \<le> m" "m \<le> length buf"
        "so_written out' = so_written o1 @ take (m - (n + k)) (drop (n + k) buf)" "\<forall>e. r = Some e \<longrightarrow> e \<noteq> EAGAIN" by simp_all
      have "take (m - n) (drop n buf) = take k (drop n buf) @ take (m - (n + k)) (drop (n + k) buf)"
        using take_add [of k "m - (n + k)" "drop n buf"] I(1) by (simp add: add.commute)
      with I W(2) IOk show ?thesis by simp
    next
      case (IErr e)
      with "1.prems" True S W show ?thesis by (auto simp: tor_write.simps [of buf n out] split: if_splits)
    qed
  next
    case False
    with "1.prems" show ?thesis by (auto simp: tor_write.simps [of buf n out])
  qed
qed

text \<open>A socket that takes everything at once.\<close>

lemma tor_write_all:
  assumes "so_script out = WriteOk k # s" and "length buf \<le> k" and "buf \<noteq> []"
  shows "tor_write buf 0 out = (length buf, None, \<lparr>so_script = s, so_written = so_written out @ buf\<rparr>)"
  using assms by (simp add: tor_write.simps [of buf 0] tor_write.simps [of buf "length buf"] sys_write_def min_absorb2)

text \<open>A socket that takes the first \<open>k\<close> bytes.\<close>

lemma tor_write_part:
  assumes "so_script out = WriteOk k # WriteErr EAGAIN # s" and "0 < k" and "k < length buf"
  shows "tor_write buf 0 out = (k, None, \<lparr>so_script = s, so_written = so_written out @ take k buf\<rparr>)"
  using assms by (auto simp: tor_write.simps [of buf 0] tor_write.simps [of buf k] sys_write_def min_absorb1)

lemma length_connect_request: "length (connect_request t) = 7 + length (tr_host t)"
  by (simp add: connect_request_def)

lemma connect_buf_extra: "connect_buf env t = connect_request t @ [e_junk env]"
  by (simp add: connect_buf_def fill_def length_connect_request)

section \<open>Properties\<close>

text \<open>Events on one object, with the same answers of the kernel to \<^verbatim>\<open>getsockopt\<close> and \<^verbatim>\<open>getsockname\<close>.\<close>

fun tor_events :: "env \<Rightarrow> errno + sockaddr \<Rightarrow> u32 list \<Rightarrow> tor \<Rightarrow> world \<Rightarrow> tor_result res" where
  "tor_events env name [] t w = Inr (t, w, False)"
| "tor_events env name (e # es) t w =
     bindR (tor_method env e (True, None) name t w) (\<lambda>(t', w', dead).
     if dead then Inr (t', w', dead) else tor_events env name es t' w')"

lemma bev_simps: "BEV_WRITE AND BEV_WRITE \<noteq> 0" "BEV_READ AND BEV_READ \<noteq> 0"
  by (simp_all add: BEV_WRITE_def BEV_READ_def)

text \<open>
  Property C27: a cooperative SOCKS5 dialogue ends with a Bitcoin connection to the onion address
  under a fresh identifier. The proxy has received the greeting and the request, followed by one
  byte of uninitialised memory: the array that \<^verbatim>\<open>send_connect\<close> sends is one byte longer than the
  request, and a proxy forwards that byte to the peer as the first byte of the stream.
\<close>

theorem tor_dialogue:
  assumes "world_ok env w" and "tr_state t = TOR_SEND_GREETING" and "length (tr_remote t) = 128" and "name_ok name"
    and "unat (w_id_pool w) + 1 < 2 ^ 32"
    and "so_script (tr_out t) = [WriteOk a, WriteOk b]" and "3 \<le> a" and "8 + length (tr_host t) \<le> b"
    and "tr_in t = [RecvData [0x05, 0x00], RecvData ([0x05, 0x00] @ rest)]" and "length rest \<le> 254"
  shows "\<exists>t' w' h. tor_events env name [BEV_WRITE, BEV_READ, BEV_WRITE, BEV_READ] t w = Inr (t', w', True) \<and>
    so_written (tr_out t') = so_written (tr_out t) @ greeting @ connect_request t @ [e_junk env] \<and>
    world_ok env w' \<and> map_of (w_active w') (w_id_pool w) = Some h \<and> h_state h = BC_SEND_VERSION_INIT \<and> \<not> tr_watching t'"
proof -
  let ?buf = "connect_buf env t"
  let ?o1 = "\<lparr>so_script = [WriteOk b], so_written = so_written (tr_out t) @ greeting\<rparr>"
  let ?o2 = "\<lparr>so_script = [], so_written = so_written (tr_out t) @ greeting @ connect_request t @ [e_junk env]\<rparr>"
  have g: "greeting \<noteq> []" "length greeting = 3" by (simp_all add: greeting_def)
  have lb: "length ?buf = 8 + length (tr_host t)" by (simp add: connect_buf_extra length_connect_request)
  have W1: "tor_write greeting 0 (tr_out t) = (3, None, ?o1)"
    using tor_write_all [OF assms(6), of greeting] assms(7) g by simp
  let ?t1 = "t\<lparr>tr_out := ?o1, tr_written := 0, tr_to_write := 2, tr_state := TOR_RECV_GREETING, tr_events := BEV_READ\<rparr>"
  have M1: "tor_method env BEV_WRITE (True, None) name t w = Inr (?t1, w, False)"
    using W1 assms(2) g bev_simps by (simp add: tor_method_def send_greeting_def)
  let ?t2 = "?t1\<lparr>tr_in := [RecvData ([0x05, 0x00] @ rest)], tr_state := TOR_SEND_CONNECT, tr_events := BEV_WRITE\<rparr>"
  have M2: "tor_method env BEV_READ (True, None) name ?t1 w = Inr (?t2, w, False)"
    using assms(9) bev_simps by (simp add: tor_method_def recv_greeting_def fill_def)
  have c: "connect_buf env ?t2 = ?buf" by (simp add: connect_buf_def connect_request_def)
  have W2: "tor_write ?buf 0 ?o1 = (length ?buf, None, ?o2)"
    using tor_write_all [of ?o1 b "[]" ?buf] assms(8) lb by (auto simp: connect_buf_extra)
  let ?t3 = "?t2\<lparr>tr_out := ?o2, tr_written := 0, tr_to_write := 4, tr_state := TOR_RECV_CONNECT, tr_events := BEV_READ\<rparr>"
  have M3: "tor_method env BEV_WRITE (True, None) name ?t2 w = Inr (?t3, w, False)"
    using W2 bev_simps c by (simp add: tor_method_def send_connect_def)
  let ?p = "case name of Inr x \<Rightarrow> (x, w) | Inl e \<Rightarrow> (zeros 128, log_add (LText ERROR [e_strerror env e]) w)"
  obtain l w1 where N: "?p = (l, w1)" by fastforce
  have L: "world_ok env w1" "length l = 128" "w_id_pool w1 = w_id_pool w"
    using N assms(1,4) by (auto simp: name_ok_def world_ok_log split: sum.splits)
  obtain h w2 where H: "bc_new env BC_SEND_VERSION_INIT (tr_remote t) l [] \<lparr>so_script = [], so_written = []\<rparr> w1 = Inr (h, w2)"
    "world_ok env (bc_insert h w2)" "map_of (w_active (bc_insert h w2)) (w_id_pool w) = Some (h\<lparr>h_active := True\<rparr>)"
    using new_handler_ok [OF L(1) assms(3) L(2), of "\<lparr>so_script = [], so_written = []\<rparr>" BC_SEND_VERSION_INIT "[]"] assms(5) L(3) by auto
  have hs: "h_state h = BC_SEND_VERSION_INIT" using H(1) by (auto simp: bc_new_def Let_def bindR_Inr_iff split: prod.splits)
  have "\<exists>t4. tor_method env BEV_READ (True, None) name ?t3 w = Inr (t4, bc_insert h w2, True) \<and> tr_out t4 = ?o2 \<and> \<not> tr_watching t4"
    using assms(9,10) bev_simps N H(1) by (simp add: tor_method_def recv_connect_def fill_def advance_def)
  then obtain t4 where M4: "tor_method env BEV_READ (True, None) name ?t3 w = Inr (t4, bc_insert h w2, True)" "tr_out t4 = ?o2" "\<not> tr_watching t4" by blast
  have "tor_events env name [BEV_WRITE, BEV_READ, BEV_WRITE, BEV_READ] t w = Inr (t4, bc_insert h w2, True)"
    using M1 M2 M3 M4(1) by simp
  with M4(2,3) H(2,3) hs show ?thesis by auto
qed

text \<open>
  When the proxy's socket takes only a part of the connect request, the next write
  event sends the request again from its start: the proxy receives the first part twice and the
  dialogue is garbled.
\<close>

theorem tor_partial_write_restarts:
  assumes "tr_state t = TOR_SEND_CONNECT" and "so_script (tr_out t) = [WriteOk k, WriteErr EAGAIN, WriteOk b]"
    and "0 < k" and "k < 8 + length (tr_host t)" and "8 + length (tr_host t) \<le> b"
  shows "\<exists>t'. tor_events env name [BEV_WRITE, BEV_WRITE] t w = Inr (t', w, False) \<and> tr_state t' = TOR_RECV_CONNECT \<and>
    so_written (tr_out t') = so_written (tr_out t) @ take k (connect_buf env t) @ connect_buf env t"
proof -
  let ?buf = "connect_buf env t"
  have lb: "length ?buf = 8 + length (tr_host t)" by (simp add: connect_buf_extra length_connect_request)
  let ?o1 = "\<lparr>so_script = [WriteOk b], so_written = so_written (tr_out t) @ take k ?buf\<rparr>"
  have W1: "tor_write ?buf 0 (tr_out t) = (k, None, ?o1)" by (rule tor_write_part [OF assms(2,3)]) (simp add: lb assms(4))
  let ?t1 = "t\<lparr>tr_out := ?o1, tr_written := k, tr_to_write := length ?buf\<rparr>"
  have M1: "tor_method env BEV_WRITE (True, None) name t w = Inr (?t1, w, False)"
    using W1 assms(1,4) lb bev_simps by (simp add: tor_method_def send_connect_def Let_def)
  have c: "connect_buf env ?t1 = ?buf" by (simp add: connect_buf_def connect_request_def)
  have "tor_write ?buf 0 ?o1 = (length ?buf, None, \<lparr>so_script = [], so_written = so_written ?o1 @ ?buf\<rparr>)"
    by (rule tor_write_all) (use lb assms(5) in auto)
  then have "\<exists>t'. tor_method env BEV_WRITE (True, None) name ?t1 w = Inr (t', w, False) \<and> tr_state t' = TOR_RECV_CONNECT \<and>
      so_written (tr_out t') = so_written (tr_out t) @ take k ?buf @ ?buf"
    using assms(1) c bev_simps by (simp add: tor_method_def send_connect_def Let_def)
  with M1 show ?thesis by auto
qed

text \<open>
  Host names fit their fields. The stored name has at most 62 bytes, so the length byte
  of the request is exact and the terminating zero stays inside the array; the 56 characters of
  an onion name of version three are kept whole, longer ones are cut.
\<close>

theorem onion_names_fit:
  "length (onion_host s) \<le> 62 \<and> (length s \<le> 56 \<longrightarrow> onion_host s = s @ ascii ''.onion'') \<and>
   unat (of_nat (length (onion_host s)) :: u8) = length (onion_host s)"
proof -
  have l: "length (onion_host s) \<le> 62" by (simp add: onion_host_def)
  have "length (ascii ''.onion'') = 6" by (simp add: ascii_def)
  then have "length s \<le> 56 \<longrightarrow> onion_host s = s @ ascii ''.onion''" by (simp add: onion_host_def)
  moreover have "unat (of_nat (length (onion_host s)) :: u8) = length (onion_host s)" using l by (simp add: unat_of_nat)
  ultimately show ?thesis using l by blast
qed


section \<open>Safety\<close>

lemma world_ok_text: "world_ok env w \<Longrightarrow> args \<noteq> [] \<Longrightarrow> world_ok env (log_add (LText n args) w)"
  by (rule world_ok_log) simp_all

text \<open>What a method of the object may do: the flag says that it has given up its socket.\<close>

definition tor_safe :: "env \<Rightarrow> tor \<Rightarrow> tor_result \<Rightarrow> bool" where
  "tor_safe env t r \<longleftrightarrow> (case r of (t', w', dead) \<Rightarrow>
     world_ok env w' \<and> tr_remote t' = tr_remote t \<and> (dead \<longrightarrow> \<not> tr_watching t' \<and> \<not> tr_fd t'))"

lemma tor_safe_simple:
  assumes "world_ok env w"
  shows "tor_safe env t (send_greeting env t w)" "tor_safe env t (recv_greeting env t w)" "tor_safe env t (send_connect env t w)"
proof -
  show "tor_safe env t (send_greeting env t w)"
    using assms by (auto simp: send_greeting_def advance_def tor_safe_def world_ok_text Let_def split: prod.splits option.splits if_splits)
  show "tor_safe env t (recv_greeting env t w)"
    using assms by (auto simp: recv_greeting_def advance_def tor_safe_def world_ok_text Let_def split: prod.splits io_ret.splits if_splits)
  show "tor_safe env t (send_connect env t w)"
    using assms by (auto simp: send_connect_def advance_def tor_safe_def world_ok_text Let_def split: prod.splits option.splits if_splits)
qed

lemma recv_connect_safe:
  assumes "world_ok env w" and "length (tr_remote t) = 128" and "name_ok name" and "unat (w_id_pool w) + 1 < 2 ^ 32"
  shows "\<exists>r. recv_connect env name t w = Inr r \<and> tor_safe env t r"
proof -
  obtain r bs s where S: "sys_recv 256 (tr_in t) = ((r, bs), s)" by (metis surj_pair)
  let ?p = "case name of Inr x \<Rightarrow> (x, w) | Inl e \<Rightarrow> (zeros 128, log_add (LText ERROR [e_strerror env e]) w)"
  obtain l w1 where N: "?p = (l, w1)" by fastforce
  have L: "world_ok env w1" "length l = 128" "w_id_pool w1 = w_id_pool w"
    using N assms(1,3) by (auto simp: name_ok_def world_ok_log split: sum.splits)
  obtain h w2 where H: "bc_new env BC_SEND_VERSION_INIT (tr_remote t) l s ((tr_out t)\<lparr>so_written := []\<rparr>) w1 = Inr (h, w2)"
    "world_ok env (bc_insert h w2)"
    using new_handler_ok [OF L(1) assms(2) L(2), of "(tr_out t)\<lparr>so_written := []\<rparr>" BC_SEND_VERSION_INIT s] assms(4) L(3) by auto
  show ?thesis
    using S N H assms(1)
    by (cases r) (auto simp: recv_connect_def advance_def tor_safe_def world_ok_text Let_def)
qed

definition tor_table_ok :: "tworld \<Rightarrow> bool" where
  "tor_table_ok tw \<longleftrightarrow> distinct (map fst (tw_tors tw)) \<and> (\<forall>(p, t)\<in>set (tw_tors tw). length (tr_remote t) = 128)"

lemma tor_io_cb_ok:
  assumes "world_ok env (tw_world tw)" and "tor_table_ok tw" and "map_of (tw_tors tw) p = Some t" and "name_ok name"
    and "unat (w_id_pool (tw_world tw)) + 1 < 2 ^ 32"
  shows "\<exists>tw' t'. tor_io_cb env p revents sockopt name tw = Inr tw' \<and> world_ok env (tw_world tw') \<and> tor_table_ok tw' \<and>
    map_of (tw_tors tw') p = Some t' \<and> (p \<in> set (tw_dead tw') \<and> p \<notin> set (tw_dead tw) \<longrightarrow> \<not> tr_watching t' \<and> \<not> tr_fd t')"
proof -
  let ?w = "tw_world tw"
  have D: "distinct (map fst (tw_tors tw))" "length (tr_remote t) = 128"
    using assms(2) map_of_SomeD [OF assms(3)] by (auto simp: tor_table_ok_def)
  obtain r where M: "tor_method env revents sockopt name t ?w = Inr r" "tor_safe env t r"
  proof (cases "tr_state t")
    case TOR_CONNECT_PROXY
    then have "\<exists>r. tor_method env revents sockopt name t ?w = Inr r \<and> tor_safe env t r"
      using assms(1) by (auto simp: tor_method_def tor_safe_def advance_def world_ok_text split: prod.splits option.splits)
    with that show thesis by blast
  next
    case TOR_RECV_CONNECT
    with that recv_connect_safe [OF assms(1) D(2) assms(4,5)] assms(1) show thesis
      by (cases "revents AND BEV_READ = 0") (auto simp: tor_method_def tor_safe_def)
  qed (use that tor_safe_simple [OF assms(1), of t] assms(1) in \<open>auto simp: tor_method_def tor_safe_def split: if_splits\<close>)
  obtain t' w' dead where r: "r = (t', w', dead)" by (cases r)
  let ?tw = "\<lparr>tw_world = w', tw_tors = AList.update p t' (tw_tors tw), tw_dead = (if dead then p # tw_dead tw else tw_dead tw)\<rparr>"
  have "tor_io_cb env p revents sockopt name tw = Inr ?tw" using M(1) r assms(3) by (simp add: tor_io_cb_def)
  moreover have "tor_table_ok ?tw"
    using distinct_update [OF D(1)] mem_update [OF D(1)] assms(2) D(2) M(2) r by (fastforce simp: tor_table_ok_def tor_safe_def)
  moreover have "map_of (tw_tors ?tw) p = Some t'" by (simp add: update_conv')
  ultimately show ?thesis using M(2) r by (intro exI [of _ ?tw] exI [of _ t']) (auto simp: tor_safe_def split: if_splits)
qed

text \<open>
  Whatever the proxy answers and however its socket fails, an event on a Tor
  connection raises nothing and keeps the invariant of all connections; an object that gives up
  has closed its socket and stopped its watcher.
\<close>

theorem tor_events_safe:
  assumes "world_ok env (tw_world tw)" and "tor_table_ok tw" and "map_of (tw_tors tw) p = Some t" and "name_ok name"
    and "unat (w_id_pool (tw_world tw)) + 1 < 2 ^ 32"
  shows "\<exists>tw' t'. tor_io_cb env p revents sockopt name tw = Inr tw' \<and> world_ok env (tw_world tw') \<and> tor_table_ok tw' \<and>
    map_of (tw_tors tw') p = Some t' \<and> (p \<in> set (tw_dead tw') \<and> p \<notin> set (tw_dead tw) \<longrightarrow> \<not> tr_watching t' \<and> \<not> tr_fd t')"
  by (rule tor_io_cb_ok [OF assms])

section \<open>Examples\<close>

definition demo_tor :: "tor_state \<Rightarrow> sock_in \<Rightarrow> write_ev list \<Rightarrow> tor" where
  "demo_tor s inp scr = \<lparr>tr_remote = zeros 128, tr_fd = True, tr_state = s, tr_host = [97, 98], tr_port = 8333, tr_written = 0,
     tr_to_write = 0, tr_watching = True, tr_events = BEV_WRITE, tr_in = inp, tr_out = \<lparr>so_script = scr, so_written = []\<rparr>\<rparr>"

theorem tor_dialogue_witness:
  "\<exists>t' w'. tor_events demo_env (Inl EPIPE) [BEV_WRITE, BEV_READ, BEV_WRITE, BEV_READ]
      (demo_tor TOR_SEND_GREETING [RecvData [5, 0], RecvData [5, 0, 0, 1]] [WriteOk 3, WriteOk 20]) (w_init 7 []) = Inr (t', w', True) \<and>
    so_written (tr_out t') = [5, 1, 0] @ [5, 1, 0, 3, 2, 97, 98, 0x20, 0x8d] @ [0]"
proof -
  let ?t = "demo_tor TOR_SEND_GREETING [RecvData [5, 0], RecvData [5, 0, 0, 1]] [WriteOk 3, WriteOk 20]"
  have c: "connect_request ?t = [5, 1, 0, 3, 2, 97, 98, 0x20, 0x8d]" unfolding demo_tor_def by code_simp
  have W: "world_ok demo_env (w_init 7 [])" by (rule w_init_ok [OF demo_env_ok])
  show ?thesis
    using tor_dialogue [OF W, of ?t "Inl EPIPE" 3 20 "[0, 1]"] c
    by (auto simp: demo_tor_def name_ok_def w_init_def greeting_def demo_env_def simp del: tor_events.simps)
qed

theorem onion_names_fit_witness:
  "onion_host [97, 98] = [97, 98] @ ascii ''.onion''"
  using onion_names_fit [of "[97, 98]"] by simp

theorem tor_partial_write_restarts_witness:
  "\<exists>t'. tor_events demo_env (Inl EPIPE) [BEV_WRITE, BEV_WRITE]
      (demo_tor TOR_SEND_CONNECT [] [WriteOk 4, WriteErr EAGAIN, WriteOk 20]) (w_init 7 []) = Inr (t', w_init 7 [], False) \<and>
    take 6 (so_written (tr_out t')) = [5, 1, 0, 3, 5, 1]"
proof -
  let ?t = "demo_tor TOR_SEND_CONNECT [] [WriteOk 4, WriteErr EAGAIN, WriteOk 20]"
  have c: "connect_buf demo_env ?t = [5, 1, 0, 3, 2, 97, 98, 0x20, 0x8d, 0]" unfolding demo_tor_def by code_simp
  show ?thesis
    using tor_partial_write_restarts [of ?t 4 20 demo_env "Inl EPIPE" "w_init 7 []"] c
    by (auto simp: demo_tor_def simp del: tor_events.simps)
qed

theorem tor_events_safe_witness:
  "\<exists>tw' t'. tor_io_cb demo_env 3 BEV_READ (True, None) (Inl EPIPE)
      \<lparr>tw_world = w_init 7 [], tw_tors = [(3, demo_tor TOR_RECV_GREETING [RecvData [4]] [])], tw_dead = []\<rparr> = Inr tw' \<and>
    map_of (tw_tors tw') 3 = Some t'"
proof -
  let ?tw = "\<lparr>tw_world = w_init 7 [], tw_tors = [(3, demo_tor TOR_RECV_GREETING [RecvData [4]] [])], tw_dead = []\<rparr>"
  have "world_ok demo_env (tw_world ?tw)" using w_init_ok [OF demo_env_ok] by simp
  moreover have "tor_table_ok ?tw" by (simp add: tor_table_ok_def demo_tor_def)
  moreover have "map_of (tw_tors ?tw) 3 = Some (demo_tor TOR_RECV_GREETING [RecvData [4]] [])" by simp
  moreover have "name_ok (Inl EPIPE)" "unat (w_id_pool (tw_world ?tw)) + 1 < 2 ^ 32" by (simp_all add: name_ok_def w_init_def)
  ultimately show ?thesis using tor_events_safe [of demo_env ?tw 3 _ "Inl EPIPE" BEV_READ "(True, None)"] by blast
qed

end
