(* ===== verification/Command_Handler.thy ===== *)
theory Command_Handler
  imports Tor_Handler
begin

text \<open>
  The connector's control connections (\<^verbatim>\<open>connector/src/command_handler.cpp\<close>) and the structures of
  their protocol (\<^verbatim>\<open>shared/includes/command_structures.hpp\<close>): clients register Bitcoin messages, have
  them sent to connections, list, open and close connections. The state of a method is its
  object and the world of all control, Bitcoin and Tor connections. The answers of the kernel to
  the calls that open a connection are a sequence in \<open>cenv\<close>; its position also serves as the
  address of the object that is created.
\<close>

section \<open>Protocol\<close>

definition COMMAND_GET_CXN :: u8 where "COMMAND_GET_CXN = 1"
definition COMMAND_DISCONNECT :: u8 where "COMMAND_DISCONNECT = 2"
definition COMMAND_SEND_MSG :: u8 where "COMMAND_SEND_MSG = 3"

definition BROADCAST_TARGET :: u32 where "BROADCAST_TARGET = 0xFFFFFFFF"

definition BITCOIN_PACKED_MESSAGE :: u8 where "BITCOIN_PACKED_MESSAGE = 1"
definition COMMAND :: u8 where "COMMAND = 2"
definition REGISTER :: u8 where "REGISTER = 3"
definition CONNECT :: u8 where "CONNECT = 4"

lemmas ct_types = BITCOIN_PACKED_MESSAGE_def COMMAND_def REGISTER_def CONNECT_def
lemmas ct_commands = COMMAND_GET_CXN_def COMMAND_DISCONNECT_def COMMAND_SEND_MSG_def

definition ADDR_FAMILY_IPV4 :: u8 where "ADDR_FAMILY_IPV4 = 4"
definition ADDR_FAMILY_IPV6 :: u8 where "ADDR_FAMILY_IPV6 = 6"
definition ADDR_FAMILY_ONION :: u8 where "ADDR_FAMILY_ONION = 10"

lemmas addr_families = ADDR_FAMILY_IPV4_def ADDR_FAMILY_IPV6_def ADDR_FAMILY_ONION_def

text \<open>\<^verbatim>\<open>wire_addr\<close> is 19 bytes: family, 16 bytes of address, port in network order.\<close>

type_synonym wire_addr = "byte list"

definition sockaddr_to_wire :: "sockaddr \<Rightarrow> wire_addr" where
  "sockaddr_to_wire ss =
     (let wa = zeros 19 in
      if ss_family ss = AF_INET then
        put 17 (sin_port ss) (put 1 (sin_addr ss) (put 0 [ADDR_FAMILY_IPV4] wa))
      else if ss_family ss = AF_INET6 then
        put 17 (sin6_port ss) (put 1 (sin6_addr ss) (put 0 [ADDR_FAMILY_IPV6] wa))
      else wa)"

definition wire_to_sockaddr :: "wire_addr \<Rightarrow> sockaddr" where
  "wire_to_sockaddr wa =
     (let ss = zeros 128; family = wa ! 0 in
      if family = ADDR_FAMILY_IPV4 then
        put 2 (field 17 2 wa) (put 4 (field 1 4 wa) (set_family AF_INET ss))
      else if family = ADDR_FAMILY_IPV6 \<or> family = ADDR_FAMILY_ONION then
        put 2 (field 17 2 wa) (put 8 (field 1 16 wa) (set_family AF_INET6 ss))
      else ss)"

text \<open>\<^verbatim>\<open>struct message\<close>: version, length in network order, type, payload; \<^verbatim>\<open>connection_info\<close> is 42 bytes.\<close>

definition cm_version :: "byte list \<Rightarrow> u8" where "cm_version m = m ! 0"
definition cm_length :: "byte list \<Rightarrow> nat" where "cm_length m = unat (ntoh32 (get32 (field 1 4 m)))"
definition cm_type :: "byte list \<Rightarrow> u8" where "cm_type m = m ! 5"

definition connection_info :: "u32 \<Rightarrow> sockaddr \<Rightarrow> sockaddr \<Rightarrow> byte list" where
  "connection_info handle_id remote local_addr =
     le32 (hton32 handle_id) @ sockaddr_to_wire remote @ sockaddr_to_wire local_addr"

section \<open>State\<close>

definition CT_RECV_MASK :: u32 where "CT_RECV_MASK = 0x0000ffff"
definition CT_RECV_HEADER :: u32 where "CT_RECV_HEADER = 0x1"
definition CT_RECV_PAYLOAD :: u32 where "CT_RECV_PAYLOAD = 0x2"
definition CT_SEND_MASK :: u32 where "CT_SEND_MASK = 0xffff0000"
definition CT_SEND_MESSAGE :: u32 where "CT_SEND_MESSAGE = 0x10000"

lemmas ct_states = CT_RECV_MASK_def CT_RECV_HEADER_def CT_RECV_PAYLOAD_def CT_SEND_MASK_def CT_SEND_MESSAGE_def

record kanswer =
  ka_socket :: "errno option"
  ka_connect :: connect_result
  ka_proxy :: proxy_result
  ka_name :: "errno + sockaddr"
  ka_in :: sock_in
  ka_out :: sock_out

record cenv =
  ce_env :: env
  ce_kernel :: "nat \<Rightarrow> kanswer"
  ce_nonce32 :: "nat \<Rightarrow> u32"
  ce_show :: "byte list \<Rightarrow> byte list"

record chandler =
  ch_read :: rbuf
  ch_write :: wbuf
  ch_state :: u32
  ch_id :: u32
  ch_regid :: u32
  ch_fd :: bool
  ch_active :: bool
  ch_events :: u32
  ch_in :: sock_in
  ch_out :: sock_out

record cworld =
  cw_tw :: tworld
  cw_messages :: "(u32 \<times> (u32 \<times> vbuf) list) list"   \<comment> \<open>\<^verbatim>\<open>g_messages\<close>: handler, message, buffer\<close>
  cw_message_ids :: u32
  cw_active :: "(u32 \<times> chandler) list"
  cw_inactive :: "chandler list"
  cw_id_pool :: u32
  cw_descriptors :: int
  cw_kcount :: nat
  cw_draws :: nat

definition cw_world :: "cworld \<Rightarrow> world" where
  "cw_world cw = tw_world (cw_tw cw)"

definition cw_set :: "world \<Rightarrow> cworld \<Rightarrow> cworld" where
  "cw_set w cw = cw\<lparr>cw_tw := (cw_tw cw)\<lparr>tw_world := w\<rparr>\<rparr>"

definition clog :: "u8 \<Rightarrow> byte list list \<Rightarrow> cworld \<Rightarrow> cworld" where
  "clog n args cw = cw_set (log_add (LText n args) (cw_world cw)) cw"

definition messages_of :: "u32 \<Rightarrow> cworld \<Rightarrow> (u32 \<times> vbuf) list" where
  "messages_of i cw = (case map_of (cw_messages cw) i of Some ms \<Rightarrow> ms | None \<Rightarrow> [])"

definition set_messages :: "u32 \<Rightarrow> (u32 \<times> vbuf) list \<Rightarrow> cworld \<Rightarrow> cworld" where
  "set_messages i ms cw = cw\<lparr>cw_messages := AList.update i ms (cw_messages cw)\<rparr>"

definition ch_new :: "cenv \<Rightarrow> sock_in \<Rightarrow> sock_out \<Rightarrow> cworld \<Rightarrow> chandler \<times> cworld" where
  "ch_new ce i out cw =
     (\<lparr>ch_read = rb_new (e_ps (ce_env ce)) 6, ch_write = wq_new, ch_state = CT_RECV_HEADER, ch_id = cw_id_pool cw,
       ch_regid = ce_nonce32 ce (cw_draws cw), ch_fd = True, ch_active = False, ch_events = BEV_READ, ch_in = i, ch_out = out\<rparr>,
      cw\<lparr>cw_id_pool := cw_id_pool cw + 1, cw_draws := Suc (cw_draws cw)\<rparr>)"

text \<open>\<^verbatim>\<open>~handler\<close>.\<close>

definition ch_delete :: "chandler \<Rightarrow> cworld \<Rightarrow> cworld" where
  "ch_delete h cw =
     (let cw1 = cw\<lparr>cw_messages := AList.delete (ch_id h) (cw_messages cw)\<rparr> in
      if ch_fd h then cw1\<lparr>cw_descriptors := cw_descriptors cw1 - 1\<rparr> else cw1)"

text \<open>\<^verbatim>\<open>registered_msg\<close>: a copy of the payload of the message in the memory \<open>m\<close>.\<close>

definition registered_msg :: "nat \<Rightarrow> byte list \<Rightarrow> vbuf res" where
  "registered_msg ps m =
     bindR (rd m 6 (cm_length m)) (\<lambda>payload. vb_write (vb_new_n ps (cm_length m)) 0 payload)"

section \<open>Commands\<close>

type_synonym on_bitcoin = "handler \<Rightarrow> world \<Rightarrow> (handler \<times> world) res"

text \<open>
  \<^verbatim>\<open>for_each\<close> over \<^verbatim>\<open>g_active_handlers\<close>: the iterator is advanced after the call, from an element
  that must still be there.
\<close>

fun bc_each :: "on_bitcoin \<Rightarrow> u32 list \<Rightarrow> world \<Rightarrow> world res" where
  "bc_each f [] w = Inr w"
| "bc_each f (i # is) w =
     bindR (on_handler i f w) (\<lambda>w'. if i \<in> fst ` set (w_active w') then bc_each f is w' else Inl Dangling)"

text \<open>The loop over the targets \<open>k, k + 1, ...\<close> of the command in the memory \<open>cmd\<close>.\<close>

fun target_loop :: "env \<Rightarrow> on_bitcoin \<Rightarrow> byte list \<Rightarrow> nat \<Rightarrow> nat \<Rightarrow> world \<Rightarrow> world res" where
  "target_loop env f cmd k 0 w = Inr w"
| "target_loop env f cmd k (Suc n) w =
     bindR (rd cmd (9 + 4 * k) 4) (\<lambda>t.
     let target = ntoh32 (get32 t) in
     bindR (if map_of (w_active w) target \<noteq> None then on_handler target f w
            else bindR (rd cmd 1 4) (\<lambda>m.
              Inr (log_add (LText DEBUG [ascii ''Attempting to send command message'', e_dec env (unat (ntoh32 (get32 m))),
                ascii ''to non-existant target'', e_dec env (unat target)]) w))) (\<lambda>w'.
     target_loop env f cmd (Suc k) n w'))"

definition foreach_handlers :: "env \<Rightarrow> on_bitcoin \<Rightarrow> byte list \<Rightarrow> world \<Rightarrow> world res" where
  "foreach_handlers env f cmd w =
     bindR (rd cmd 5 4) (\<lambda>c.
     let target_cnt = unat (ntoh32 (get32 c)) in
     bindR (if target_cnt = 1 then bindR (rd cmd 9 4) (\<lambda>t. Inr (get32 t = BROADCAST_TARGET)) else Inr False) (\<lambda>broadcast.
     if broadcast then bc_each f (map fst (w_active w)) w
     else
       let w1 = (if target_cnt > length (w_active w)
                 then log_add (LText DEBUG [ascii ''Target count larger than all cxn'', e_dec env target_cnt,
                        e_dec env (length (w_active w))]) w
                 else w) in
       target_loop env f cmd 0 target_cnt w1))"

definition ch_send :: "chandler \<Rightarrow> chandler" where
  "ch_send h = h\<lparr>ch_state := ch_state h OR CT_SEND_MESSAGE\<rparr>"

definition get_cxn :: "nat \<Rightarrow> chandler \<Rightarrow> cworld \<Rightarrow> (chandler \<times> cworld) res" where
  "get_cxn ps h cw =
     (let active = w_active (cw_world cw);
          len = 42 * length active;
          infos = concat (map (\<lambda>(i, b). connection_info i (h_remote b) (h_local b)) active) in
      bindR (vb_realloc ps (4 + len) VNull) (\<lambda>buffer.
      bindR (vb_write buffer 0 (le32 (hton32 (of_nat len)) @ infos)) (\<lambda>b.
      bindR (wq_append_buf b (4 + len) (ch_write h)) (\<lambda>wq.
      Inr (ch_send (h\<lparr>ch_write := wq\<rparr>), cw)))))"

definition ct_handle_message_recv :: "cenv \<Rightarrow> byte list \<Rightarrow> chandler \<Rightarrow> cworld \<Rightarrow> (chandler \<times> cworld) res" where
  "ct_handle_message_recv ce cmd h cw =
     (let env = ce_env ce in
      bindR (rd cmd 0 1) (\<lambda>c.
      let command = c ! 0 in
      if command = COMMAND_GET_CXN then
        get_cxn (e_ps env) h (clog CTRL [ascii ''All connections requested'', e_dec env (unat (ch_regid h))] cw)
      else if command = COMMAND_SEND_MSG then
        bindR (rd cmd 1 4) (\<lambda>m.
        let message_id = ntoh32 (get32 m);
            cw1 = set_messages (ch_id h) (messages_of (ch_id h) cw) cw in
        case map_of (messages_of (ch_id h) cw1) message_id of
          None \<Rightarrow> Inr (h, clog ERROR [ascii ''invalid message id'', e_dec env (unat message_id)] cw1)
        | Some packed \<Rightarrow>
            bindR (foreach_handlers env (append_for_write_buf packed) cmd (cw_world cw1)) (\<lambda>w.
            Inr (h, cw_set w cw1)))
      else if command = COMMAND_DISCONNECT then
        let cw1 = clog DEBUG [ascii ''disconnect command received''] cw in
        bindR (foreach_handlers env (\<lambda>b v. Inr (bc_disconnect b v)) cmd (cw_world cw1)) (\<lambda>w.
        Inr (h, cw_set w cw1))
      else Inr (h, clog CTRL [ascii ''UNKNOWN COMMAND_MSG COMMAND: '', [command]] cw)))"

section \<open>Frames\<close>

definition receive_header :: "cenv \<Rightarrow> byte list \<Rightarrow> chandler \<Rightarrow> cworld \<Rightarrow> ((chandler \<times> cworld) \<times> frame_cmd) res" where
  "receive_header ce msg h cw =
     (let env = ce_env ce;
          cw1 = (if cm_version msg \<noteq> 0
                 then clog DEBUG [ascii ''Warning: Unsupported version'', e_dec env (unat (cm_version msg))] cw else cw) in
      if cm_length msg = 0 then
        bindR (if cm_type msg = REGISTER then
                 let oldid = ch_regid h;
                     newid = ce_nonce32 ce (cw_draws cw1);
                     cw2 = clog CTRL [ascii ''UNREGISTERING'', e_dec env (unat oldid)] (cw1\<lparr>cw_draws := Suc (cw_draws cw1)\<rparr>);
                     cw3 = clog CTRL [ascii ''REGISTERING'', e_dec env (unat newid)] cw2 in
                 bindR (wq_append (e_ps env) (le32 (hton32 newid)) (ch_write h)) (\<lambda>wq.
                 Inr (ch_send (h\<lparr>ch_regid := newid, ch_write := wq\<rparr>),
                      cw3\<lparr>cw_messages := AList.delete oldid (cw_messages cw3)\<rparr>))
               else Inr (h, clog CTRL [ce_show ce msg] cw1)) (\<lambda>st.
        Inr (st, Restart 6))
      else Inr ((h\<lparr>ch_state := (ch_state h AND CT_SEND_MASK) OR CT_RECV_PAYLOAD\<rparr>, cw1), Extend (cm_length msg)))"

text \<open>The registration of a message; the answer is its number, or 0.\<close>

definition register_message :: "cenv \<Rightarrow> byte list \<Rightarrow> chandler \<Rightarrow> cworld \<Rightarrow> (chandler \<times> cworld) res" where
  "register_message ce msg h cw =
     (let env = ce_env ce in
      bindR (if cm_length msg < 24 then Inr True
             else bindR (rd msg 6 24) (\<lambda>bc. Inr (cm_length msg \<noteq> 24 + msg_length bc))) (\<lambda>invalid.
      bindR (if invalid then Inr (0, clog ERROR [ascii ''Attempted to register invalid message''] cw)
             else
               let i = cw_message_ids cw;
                   old = messages_of (ch_id h) cw in
               bindR (registered_msg (e_ps env) msg) (\<lambda>b.
               let fresh = (map_of old i = None);
                   cw1 = set_messages (ch_id h) (if fresh then AList.update i b old else old)
                           (cw\<lparr>cw_message_ids := i + 1\<rparr>);
                   cw2 = clog CTRL [ascii ''Registering message '', e_dec env (unat (ch_regid h)), ce_show ce (drop 6 msg)] cw1 in
               Inr (if fresh
                    then (hton32 i, clog CTRL [ascii ''message registered'', e_dec env (unat (ch_regid h)), e_dec env (unat i)] cw2)
                    else (0, clog ERROR [ascii ''Duplicate id generated, surprising''] cw2)))) (\<lambda>(netid, cw3).
      bindR (wq_append (e_ps env) (le32 netid) (ch_write h)) (\<lambda>wq.
      Inr (ch_send (h\<lparr>ch_write := wq\<rparr>), cw3)))))"

definition ct_connect :: "cenv \<Rightarrow> byte list \<Rightarrow> chandler \<Rightarrow> cworld \<Rightarrow> cworld res" where
  "ct_connect ce msg h cw =
     (let env = ce_env ce; k = ce_kernel ce (cw_kcount cw); p = cw_kcount cw in
      bindR (rd msg 6 19) (\<lambda>wa.
      let family = wa ! 0;
          cw1 = clog CTRL [ascii ''Attempting to connect to family'', e_dec env (unat family), ascii ''for'',
                  e_dec env (unat (ch_regid h))] (cw\<lparr>cw_kcount := Suc (cw_kcount cw)\<rparr>);
          remote_ss = wire_to_sockaddr wa in
      if family = ADDR_FAMILY_ONION then
        let extra_len = (of_nat (cm_length msg) - 38 :: u32) in
        if extra_len > 0 then
          let copy_len = min (unat extra_len) 63 in
          bindR (rd msg (6 + 38) copy_len) (\<lambda>hostname.
          Inr (cw1\<lparr>cw_tw := tor_new_host env p remote_ss hostname (ka_proxy k) (ka_in k) (ka_out k) (cw_tw cw1)\<rparr>))
        else Inr (cw1\<lparr>cw_tw := tor_new env p remote_ss (ka_proxy k) (ka_in k) (ka_out k) (cw_tw cw1)\<rparr>)
      else
        case ka_socket k of
          Some e \<Rightarrow> Inr (clog ERROR [do_error env ''socket failure'' e, ascii ''(command_handler CONNECT)''] cw1)
        | None \<Rightarrow>
            bindR (connect_handler_new env p remote_ss (ka_connect k) (ka_name k) (ka_in k) (ka_out k) (cw_world cw1)) (\<lambda>w.
            Inr (cw_set w cw1))))"

definition receive_payload :: "cenv \<Rightarrow> byte list \<Rightarrow> chandler \<Rightarrow> cworld \<Rightarrow> ((chandler \<times> cworld) \<times> frame_cmd) res" where
  "receive_payload ce msg h cw =
     (let env = ce_env ce;
          cw1 = (if cm_version msg \<noteq> 0
                 then clog DEBUG [ascii ''Warning: unsupported version. Attempting to receive payload''] cw else cw) in
      bindR (if cm_type msg = BITCOIN_PACKED_MESSAGE then register_message ce msg h cw1
             else if cm_type msg = COMMAND then
               bindR (ct_handle_message_recv ce (drop 6 msg) h cw1) (\<lambda>(h1, cw2).
               Inr (h1\<lparr>ch_state := ch_state h1 AND CT_SEND_MASK\<rparr>, cw2))
             else if cm_type msg = CONNECT then
               bindR (ct_connect ce msg h cw1) (\<lambda>cw2. Inr (h, cw2))
             else Inr (h, clog CTRL [ascii ''unknown payload type'', e_dec env (unat (ch_regid h)), ce_show ce msg] cw1)) (\<lambda>(h2, cw3).
      Inr ((h2\<lparr>ch_state := (ch_state h2 AND CT_SEND_MASK) OR CT_RECV_HEADER\<rparr>, cw3), Restart 6)))"

definition ct_complete :: "cenv \<Rightarrow> (chandler \<times> cworld) complete" where
  "ct_complete ce st cursor buf =
     (case st of (h, cw) \<Rightarrow>
        let recv = ch_state h AND CT_RECV_MASK in
        if recv = CT_RECV_HEADER then bindR (vb_const_ptr buf) (\<lambda>msg. bindR (rd msg 0 6) (\<lambda>_. receive_header ce msg h cw))
        else if recv = CT_RECV_PAYLOAD then bindR (vb_const_ptr buf) (\<lambda>msg. bindR (rd msg 0 6) (\<lambda>_. receive_payload ce msg h cw))
        else Inr (st, Extend 0))"

section \<open>Callbacks\<close>

definition ct_fatal :: "io_ret \<Rightarrow> bool" where
  "ct_fatal r = (case r of IOk _ \<Rightarrow> False | IErr e \<Rightarrow> e \<noteq> EWOULDBLOCK \<and> e \<noteq> EAGAIN)"

definition ct_suicide :: "chandler \<Rightarrow> cworld \<Rightarrow> chandler \<times> cworld" where
  "ct_suicide h cw = (h\<lparr>ch_fd := False, ch_active := False\<rparr>, cw\<lparr>cw_descriptors := cw_descriptors cw - 1\<rparr>)"

definition ct_do_read :: "cenv \<Rightarrow> chandler \<Rightarrow> cworld \<Rightarrow> (chandler \<times> cworld) res" where
  "ct_do_read ce h cw =
     (let env = ce_env ce in
      bindR (read_loop (e_ps env) (ct_complete ce) (h, cw) (ch_read h) (ch_in h)) (\<lambda>((h1, cw1), rb, s, r).
      let h2 = h1\<lparr>ch_read := rb, ch_in := s\<rparr> in
      Inr (case r of
             Some (IErr e) \<Rightarrow>
               if ct_fatal (IErr e) then ct_suicide h2 (clog ERROR [e_strerror env e, ascii ''(command_handler)''] cw1) else (h2, cw1)
           | Some (IOk 0) \<Rightarrow> ct_suicide h2 (clog CTRL [ascii ''Orderly disconnect'', e_dec env (unat (ch_id h2))] cw1)
           | _ \<Rightarrow> (h2, cw1))))"

definition ct_out :: "chandler \<Rightarrow> sock_out" where
  "ct_out h = (if ch_fd h then ch_out h else (ch_out h)\<lparr>so_script := [WriteErr EBADF]\<rparr>)"

definition ct_do_write :: "cenv \<Rightarrow> chandler \<Rightarrow> cworld \<Rightarrow> (chandler \<times> cworld) res" where
  "ct_do_write ce h cw =
     bindR (write_loop (ch_write h) (ct_out h)) (\<lambda>(r, wq, out).
     let h1 = h\<lparr>ch_write := wq, ch_out := out\<rparr> in
     Inr (case r of
            Some (IErr e) \<Rightarrow>
              if ct_fatal (IErr e)
              then ct_suicide h1 (clog ERROR [e_strerror (ce_env ce) e, ascii ''(command_handler)''] cw) else (h1, cw)
          | Some (IOk _) \<Rightarrow> (h1, cw)
          | None \<Rightarrow> (h1\<lparr>ch_state := ch_state h1 AND NOT CT_SEND_MASK\<rparr>, cw)))"

definition ct_io_cb :: "cenv \<Rightarrow> u32 \<Rightarrow> chandler \<Rightarrow> cworld \<Rightarrow> (chandler \<times> cworld) res" where
  "ct_io_cb ce revents h cw =
     bindR (if ch_state h AND CT_RECV_MASK \<noteq> 0 \<and> revents AND BEV_READ \<noteq> 0 then ct_do_read ce h cw else Inr (h, cw)) (\<lambda>(h1, cw1).
     bindR (assertR (rb_to_read (ch_read h1) \<noteq> 0)) (\<lambda>_.
     bindR (assertR (ch_state h1 AND CT_RECV_MASK \<noteq> 0)) (\<lambda>_.
     bindR (if revents AND BEV_WRITE \<noteq> 0 then ct_do_write ce h1 cw1 else Inr (h1, cw1)) (\<lambda>(h2, cw2).
     Inr (if ch_state h2 \<noteq> ch_state h
          then h2\<lparr>ch_events := (if ch_state h2 AND CT_SEND_MASK \<noteq> 0 then BEV_WRITE else 0) OR
                              (if ch_state h2 AND CT_RECV_MASK \<noteq> 0 then BEV_READ else 0)\<rparr>
          else h2, cw2)))))"

text \<open>A callback on the object that the set holds under \<open>i\<close>; an object that has left it is kept for deletion.\<close>

definition on_control :: "u32 \<Rightarrow> (chandler \<Rightarrow> cworld \<Rightarrow> (chandler \<times> cworld) res) \<Rightarrow> cworld \<Rightarrow> cworld res" where
  "on_control i f cw =
     (case map_of (cw_active cw) i of
        None \<Rightarrow> Inl Dangling
      | Some h \<Rightarrow>
          bindR (f h cw) (\<lambda>(h', cw').
          Inr (if ch_active h' then cw'\<lparr>cw_active := AList.update i h' (cw_active cw')\<rparr>
               else cw'\<lparr>cw_active := AList.delete i (cw_active cw'), cw_inactive := h' # cw_inactive cw'\<rparr>)))"

definition dec_int :: "env \<Rightarrow> int \<Rightarrow> byte list" where
  "dec_int env d = (if d < 0 then ascii ''-'' @ e_dec env (nat (- d)) else e_dec env (nat d))"

text \<open>A set that already has an object with this identifier refuses the new one.\<close>

definition ct_accept_io_cb :: "cenv \<Rightarrow> (errno + sock_in \<times> sock_out) \<Rightarrow> cworld \<Rightarrow> cworld" where
  "ct_accept_io_cb ce client cw =
     (let env = ce_env ce in
      case client of
        Inl e \<Rightarrow>
          if e \<noteq> EWOULDBLOCK \<and> e \<noteq> EAGAIN \<and> e \<noteq> ECONNABORTED \<and> e \<noteq> EINTR
          then clog ERROR [do_error env ''accept failure'' e, ascii ''Number active handlers: '',
                 dec_int env (cw_descriptors cw), ascii '' (command_handler)''] cw
          else cw
      | Inr (i, out) \<Rightarrow>
          let (h, cw1) = ch_new ce i out (cw\<lparr>cw_descriptors := cw_descriptors cw + 1\<rparr>);
              cw2 = (if ch_id h \<in> fst ` set (cw_active cw1) then cw1
                     else cw1\<lparr>cw_active := (ch_id h, h\<lparr>ch_active := True\<rparr>) # cw_active cw1\<rparr>) in
          (foldr ch_delete (cw_inactive cw2) cw2)\<lparr>cw_inactive := []\<rparr>)"

end
