(* ===== verification/Control_Session.thy ===== *)
theory Control_Session
  imports Command_Handler
begin

text \<open>
  The control connections' invariant: whatever a client sends, its frames are processed and the
  Bitcoin and Tor connections and the registered messages stay well formed, or the frame asks
  for memory behind its end or broadcasts a disconnection. The commands that act on Bitcoin
  connections meet the contract \<open>command_target\<close>; the connection as a whole is a \<open>framed_reader\<close>.
\<close>

section \<open>Commands for Bitcoin connections\<close>


lemma connect_pool:
  "setup_handler env remote name inp out w = Inr w' \<Longrightarrow> w_id_pool w' = w_id_pool w + 1"
  by (auto simp: setup_handler_def bc_new_def bc_insert_def make_version_def Let_def bindR_Inr_iff
      split: sum.splits prod.splits if_splits)

lemma connect_handler_pool:
  assumes "connect_handler_new env p remote res name inp out w = Inr w'"
  shows "w_id_pool w' = w_id_pool w \<or> res = ConnOk \<and> w_id_pool w' = w_id_pool w + 1"
  using assms
  by (auto simp: connect_handler_new_def reap_conns_def connect_failure_def Let_def bindR_Inr_iff assertR_Inr
      dest!: connect_pool split: if_splits connect_result.splits)

definition target_cnt :: "byte list \<Rightarrow> nat" where
  "target_cnt cmd = unat (ntoh32 (get32 (field 5 4 cmd)))"

definition targets_fit :: "byte list \<Rightarrow> bool" where
  "targets_fit cmd \<longleftrightarrow> 9 + 4 * target_cnt cmd \<le> length cmd"

definition broadcasts :: "byte list \<Rightarrow> bool" where
  "broadcasts cmd \<longleftrightarrow> target_cnt cmd = 1 \<and> get32 (field 9 4 cmd) = BROADCAST_TARGET"

locale command_target =
  fixes op :: "'a \<Rightarrow> on_bitcoin" and ok :: "'a \<Rightarrow> bool"
  assumes op_ok: "ok a \<Longrightarrow> conn_ok env i w (h, w) \<Longrightarrow> \<exists>h' w'. op a h w = Inr (h', w') \<and> conn_ok env i w (h', w')"
    and op_pool: "op a h w = Inr (h', w') \<Longrightarrow> w_id_pool w' = w_id_pool w"
begin

lemma target_ok:
  assumes "world_ok env w" and "ok a"
  shows "\<exists>w'. on_handler i (op a) w = Inr w' \<and> world_ok env w' \<and> w_id_pool w' = w_id_pool w"
proof -
  have "\<exists>w'. on_handler i (op a) w = Inr w' \<and> world_ok env w'"
    using on_handler_ok [OF assms(1), of i "op a" False] op_ok [OF assms(2)] by blast
  then obtain w' where W: "on_handler i (op a) w = Inr w'" "world_ok env w'" by blast
  then have "w_id_pool w' = w_id_pool w"
    by (auto simp: on_handler_def bindR_Inr_iff dest: op_pool split: option.splits if_splits)
  with W show ?thesis by blast
qed

lemma each_ok:
  assumes "ok a"
  shows "world_ok env w \<Longrightarrow> (\<exists>w'. bc_each (op a) js w = Inr w' \<and> world_ok env w' \<and> w_id_pool w' = w_id_pool w) \<or>
    bc_each (op a) js w = Inl Dangling"
proof (induction js arbitrary: w)
  case (Cons j js)
  obtain w' where "on_handler j (op a) w = Inr w'" "world_ok env w'" "w_id_pool w' = w_id_pool w"
    using target_ok [OF Cons.prems assms, of j] by blast
  with Cons.IH [of w'] show ?case by auto
qed simp

lemma loop_ok:
  assumes "ok a"
  shows "world_ok env w \<Longrightarrow> (\<exists>w'. target_loop e (op a) cmd k n w = Inr w' \<and> world_ok env w' \<and> w_id_pool w' = w_id_pool w) \<or>
    length cmd < 9 + 4 * (k + n) \<and> target_loop e (op a) cmd k n w = Inl Out_Of_Bounds"
proof (induction n arbitrary: k w)
  case (Suc n)
  show ?case
  proof (cases "length cmd < 9 + 4 * (k + 1)")
    case True
    then show ?thesis by (simp add: rd_def)
  next
    case False
    let ?t = "ntoh32 (get32 (take 4 (drop (9 + 4 * k) cmd)))"
    let ?m = "LText DEBUG [ascii ''Attempting to send command message'', e_dec e (unat (ntoh32 (get32 (take 4 (drop 1 cmd))))),
                ascii ''to non-existant target'', e_dec e (unat ?t)]"
    have "\<exists>w'. (if map_of (w_active w) ?t \<noteq> None then on_handler ?t (op a) w else Inr (log_add ?m w)) = Inr w' \<and>
        world_ok env w' \<and> w_id_pool w' = w_id_pool w"
      using target_ok [OF Suc.prems assms, of ?t] world_ok_text [OF Suc.prems] by simp
    then obtain w' where W: "(if map_of (w_active w) ?t \<noteq> None then on_handler ?t (op a) w else Inr (log_add ?m w)) = Inr w'"
      "world_ok env w'" "w_id_pool w' = w_id_pool w" by blast
    have "target_loop e (op a) cmd k (Suc n) w = target_loop e (op a) cmd (Suc k) n w'"
      using False W(1) by (auto simp: rd_def split: if_splits)
    with Suc.IH [OF W(2), of "Suc k"] W(3) show ?thesis by simp
  qed
qed simp

lemma foreach_ok:
  assumes "world_ok env w" and "ok a"
  shows "(\<exists>w'. foreach_handlers e (op a) cmd w = Inr w' \<and> world_ok env w' \<and> w_id_pool w' = w_id_pool w) \<or>
    \<not> targets_fit cmd \<and> foreach_handlers e (op a) cmd w = Inl Out_Of_Bounds \<or>
    broadcasts cmd \<and> foreach_handlers e (op a) cmd w = Inl Dangling"
proof (cases "length cmd < 9 \<or> target_cnt cmd = 1 \<and> length cmd < 13")
  case True
  then have "\<not> targets_fit cmd" by (auto simp: targets_fit_def)
  moreover have "foreach_handlers e (op a) cmd w = Inl Out_Of_Bounds"
    using True by (auto simp: foreach_handlers_def rd_def target_cnt_def field_def)
  ultimately show ?thesis by simp
next
  case False
  let ?n = "target_cnt cmd"
  let ?t = "LText DEBUG [ascii ''Target count larger than all cxn'', e_dec e ?n, e_dec e (length (w_active w))]"
  let ?w = "if ?n > length (w_active w) then log_add ?t w else w"
  have F: "foreach_handlers e (op a) cmd w =
      (if broadcasts cmd then bc_each (op a) (map fst (w_active w)) w else target_loop e (op a) cmd 0 ?n ?w)"
    using False by (auto simp: foreach_handlers_def rd_def target_cnt_def field_def broadcasts_def Let_def)
  have W: "world_ok env ?w" "w_id_pool ?w = w_id_pool w" using world_ok_text [OF assms(1)] assms(1) by simp_all
  show ?thesis
  proof (cases "broadcasts cmd")
    case True
    with F each_ok [OF assms(2,1), of "map fst (w_active w)"] show ?thesis by auto
  next
    case False
    with F loop_ok [OF assms(2) W(1), of e cmd 0 ?n] W(2) show ?thesis by (auto simp: targets_fit_def)
  qed
qed

end

text \<open>A method that does not close the connection may be broadcast.\<close>

locale staying_target = command_target +
  assumes op_stays: "h_active h \<Longrightarrow> op a h w = Inr (h', w') \<Longrightarrow> h_active h' \<and> w_active w' = w_active w"
begin

lemma target_keys:
  assumes "world_ok env w" and "on_handler i (op a) w = Inr w'"
  shows "map fst (w_active w') = map fst (w_active w)"
proof (cases "map_of (w_active w) i")
  case None
  with assms(2) show ?thesis by (simp add: on_handler_def)
next
  case (Some h)
  then have m: "(i, h) \<in> set (w_active w)" by (rule map_of_SomeD)
  with assms(1) have "h_active h" by (auto simp: world_ok_def)
  obtain h' v where F: "op a h w = Inr (h', v)" "h_active h'" "v\<lparr>w_active := AList.update i h' (w_active v)\<rparr> = w'" "w_active v = w_active w"
    using Some assms(2) op_stays [OF \<open>h_active h\<close>] by (auto simp: on_handler_def bindR_Inr_iff split: if_splits)
  have "i \<in> fst ` set (w_active w)" using m by force
  then show ?thesis unfolding F(3) [symmetric] by (simp add: update_keys F(4))
qed

lemma each_total:
  assumes "ok a"
  shows "world_ok env w \<Longrightarrow> set js \<subseteq> fst ` set (w_active w) \<Longrightarrow>
    \<exists>w'. bc_each (op a) js w = Inr w' \<and> world_ok env w' \<and> w_id_pool w' = w_id_pool w \<and> map fst (w_active w') = map fst (w_active w)"
proof (induction js arbitrary: w)
  case (Cons j js)
  obtain w' where W: "on_handler j (op a) w = Inr w'" "world_ok env w'" "w_id_pool w' = w_id_pool w"
    using target_ok [OF Cons.prems(1) assms, of j] by blast
  note k = target_keys [OF Cons.prems(1) W(1)]
  then have "fst ` set (w_active w') = fst ` set (w_active w)" by (metis list.set_map)
  with Cons.IH [OF W(2)] W Cons.prems(2) k show ?case by simp
qed simp

lemma foreach_total:
  assumes "world_ok env w" and "ok a" and "targets_fit cmd"
  shows "\<exists>w'. foreach_handlers e (op a) cmd w = Inr w' \<and> world_ok env w' \<and> w_id_pool w' = w_id_pool w"
proof (cases "broadcasts cmd")
  case True
  then have "foreach_handlers e (op a) cmd w = bc_each (op a) (map fst (w_active w)) w"
    using assms(3) by (auto simp: foreach_handlers_def rd_def target_cnt_def field_def broadcasts_def targets_fit_def)
  with each_total [OF assms(2,1), of "map fst (w_active w)"] show ?thesis by auto
next
  case False
  with foreach_ok [OF assms(1,2), of e cmd] assms(3) show ?thesis by blast
qed

end

interpretation send_cmd: staying_target append_for_write_buf "\<lambda>b. msg_ok (vb_bytes b)"
  by unfold_locales
    (use append_buf_conn_ok in \<open>auto simp: append_for_write_buf_def bindR_Inr_iff want_write_def io_set_def log_add_def Let_def split: if_splits\<close>)

lemma bc_disconnect_pool: "bc_disconnect h w = (h', w') \<Longrightarrow> w_id_pool w' = w_id_pool w"
  by (auto simp: bc_disconnect_def bc_suicide_def Let_def split: if_splits)

interpretation disconnect_cmd: command_target "\<lambda>_::unit. \<lambda>h v. Inr (bc_disconnect h v)" "\<lambda>_. True"
proof
  show "\<exists>h' w'. Inr (bc_disconnect h w) = (Inr (h', w') :: (handler \<times> world) res) \<and> conn_ok env i w (h', w')"
    if "conn_ok env i w (h, w)" for env i w h
    using bc_disconnect_ok [OF that] by auto
qed (simp add: bc_disconnect_pool)

section \<open>The invariant of a control connection\<close>

text \<open>The two kinds of connection use the same layout of their state word.\<close>

lemma ct_consts [simp]:
  "CT_RECV_MASK = BC_RECV_MASK" "CT_SEND_MASK = BC_SEND_MASK" "CT_RECV_HEADER = BC_RECV_HEADER"
  "CT_RECV_PAYLOAD = BC_RECV_PAYLOAD" "CT_SEND_MESSAGE = BC_SEND_MESSAGE"
  by (simp_all add: ct_states bc_states)

definition messages_ok :: "cworld \<Rightarrow> bool" where
  "messages_ok cw \<longleftrightarrow> (\<forall>(i, ms)\<in>set (cw_messages cw). \<forall>(k, b)\<in>set ms. msg_ok (vb_bytes b))"

text \<open>
  What the kernel promises: addresses are whole structures, sockets are new, and from the call
  number \<open>K\<close> on no connection is established at once.
\<close>

definition kernel_ok :: "cenv \<Rightarrow> nat \<Rightarrow> bool" where
  "kernel_ok ce K \<longleftrightarrow> (\<forall>k. name_ok (ka_name (ce_kernel ce k)) \<and> so_written (ka_out (ce_kernel ce k)) = [] \<and>
     (K \<le> k \<longrightarrow> ka_connect (ce_kernel ce k) \<noteq> ConnOk))"

definition cw_ok :: "cenv \<Rightarrow> nat \<Rightarrow> (u32 \<times> chandler) list \<Rightarrow> cworld \<Rightarrow> bool" where
  "cw_ok ce K A cw \<longleftrightarrow> world_ok (ce_env ce) (cw_world cw) \<and> tor_table_ok (cw_tw cw) \<and> messages_ok cw \<and> cw_active cw = A \<and>
     unat (w_id_pool (cw_world cw)) + (K - cw_kcount cw) + 1 < 2 ^ 32"

definition ct_good :: "cenv \<Rightarrow> nat \<Rightarrow> (u32 \<times> chandler) list \<Rightarrow> chandler \<Rightarrow> chandler \<times> cworld \<Rightarrow> bool" where
  "ct_good ce K A h0 st \<longleftrightarrow> (case st of (h, cw) \<Rightarrow>
     cw_ok ce K A cw \<and> wq_ok (ch_write h) \<and> (wq_pend (ch_write h) \<noteq> [] \<longrightarrow> send_of (ch_state h) \<noteq> 0) \<and>
     ch_id h = ch_id h0 \<and> ch_events h = ch_events h0 \<and> ch_fd h = ch_fd h0 \<and> ch_active h = ch_active h0 \<and> ch_out h = ch_out h0)"

lemma cw_simps [simp]:
  "cw_world (cw_set w cw) = w" "cw_messages (cw_set w cw) = cw_messages cw" "cw_kcount (cw_set w cw) = cw_kcount cw"
  "cw_active (cw_set w cw) = cw_active cw"
  "cw_world (cw\<lparr>cw_messages := ms\<rparr>) = cw_world cw" "cw_world (cw\<lparr>cw_draws := d\<rparr>) = cw_world cw"
  "cw_world (cw\<lparr>cw_message_ids := i\<rparr>) = cw_world cw" "cw_world (cw\<lparr>cw_kcount := k\<rparr>) = cw_world cw"
  "cw_world (cw\<lparr>cw_descriptors := n\<rparr>) = cw_world cw" "cw_world (cw\<lparr>cw_tw := tw\<rparr>) = tw_world tw"
  "tw_world (cw_tw cw) = cw_world cw" "tw_tors (cw_tw (cw_set w cw)) = tw_tors (cw_tw cw)" "tw_dead (cw_tw (cw_set w cw)) = tw_dead (cw_tw cw)"
  by (simp_all add: cw_set_def cw_world_def)

lemma tor_table_world [simp]: "tor_table_ok (cw_tw (cw_set w cw)) = tor_table_ok (cw_tw cw)"
  by (simp add: cw_set_def tor_table_ok_def)

lemma clog_simps [simp]:
  "cw_active (clog n args cw) = cw_active cw" "cw_messages (clog n args cw) = cw_messages cw" "cw_kcount (clog n args cw) = cw_kcount cw"
  "cw_world (clog n args cw) = log_add (LText n args) (cw_world cw)" "tor_table_ok (cw_tw (clog n args cw)) = tor_table_ok (cw_tw cw)"
  by (simp_all add: clog_def)

lemma cw_ok_clog: "cw_ok ce K A cw \<Longrightarrow> args \<noteq> [] \<Longrightarrow> cw_ok ce K A (clog n args cw)"
  by (simp add: cw_ok_def messages_ok_def world_ok_text)

lemma cw_ok_fields [simp]:
  "cw_ok ce K A (cw\<lparr>cw_draws := d\<rparr>) = cw_ok ce K A cw" "cw_ok ce K A (cw\<lparr>cw_message_ids := i\<rparr>) = cw_ok ce K A cw"
  "cw_ok ce K A (cw\<lparr>cw_descriptors := n\<rparr>) = cw_ok ce K A cw"
  by (simp_all add: cw_ok_def messages_ok_def)

lemma cw_ok_set:
  "cw_ok ce K A cw \<Longrightarrow> world_ok (ce_env ce) w \<Longrightarrow> w_id_pool w = w_id_pool (cw_world cw) \<Longrightarrow> cw_ok ce K A (cw_set w cw)"
  by (simp add: cw_ok_def messages_ok_def)

lemma mem_update_weak: "(j, g) \<in> set (AList.update i v al) \<Longrightarrow> j = i \<and> g = v \<or> (j, g) \<in> set al"
  by (induction al) (auto split: if_splits)

lemma set_messages_ok:
  "messages_ok cw \<Longrightarrow> \<forall>(k, b)\<in>set ms. msg_ok (vb_bytes b) \<Longrightarrow> messages_ok (set_messages i ms cw)"
  by (fastforce simp: messages_ok_def set_messages_def dest!: mem_update_weak)

lemma messages_of_all: "messages_ok cw \<Longrightarrow> \<forall>(k, b)\<in>set (messages_of i cw). msg_ok (vb_bytes b)"
  by (cases "map_of (cw_messages cw) i") (auto simp: messages_ok_def messages_of_def dest!: map_of_SomeD)

lemma messages_of_ok: "messages_ok cw \<Longrightarrow> map_of (messages_of i cw) k = Some b \<Longrightarrow> msg_ok (vb_bytes b)"
  using messages_of_all [of cw i] by (auto dest!: map_of_SomeD)

lemma cw_ok_messages:
  "cw_ok ce K A cw \<Longrightarrow> \<forall>(k, b)\<in>set ms. msg_ok (vb_bytes b) \<Longrightarrow> cw_ok ce K A (set_messages i ms cw)"
  by (simp add: cw_ok_def set_messages_ok) (simp add: set_messages_def)

lemma messages_of_set: "messages_of i (set_messages i ms cw) = ms"
  by (simp add: messages_of_def set_messages_def update_conv')

section \<open>Commands\<close>

lemma sockaddr_to_wire_length: "length ss = 128 \<Longrightarrow> length (sockaddr_to_wire ss) = 19"
  by (simp add: sockaddr_to_wire_def Let_def length_put sin_addr_def sin_port_def sin6_addr_def sin6_port_def length_field)

lemma connection_info_length: "length r = 128 \<Longrightarrow> length l = 128 \<Longrightarrow> length (connection_info i r l) = 42"
  by (simp add: connection_info_def sockaddr_to_wire_length)

lemma world_ok_addresses:
  assumes "world_ok env w" and "(i, b) \<in> set (w_active w)"
  shows "length (h_remote b) = 128" "length (h_local b) = 128"
proof -
  have "conn_ok env i w (b, w)" using assms by (auto simp: world_ok_def)
  from sess_okD(2,3) [OF conn_okD(1) [OF this]] show "length (h_remote b) = 128" "length (h_local b) = 128" .
qed

definition cxn_infos :: "(u32 \<times> handler) list \<Rightarrow> byte list" where
  "cxn_infos active = concat (map (\<lambda>(i, b). connection_info i (h_remote b) (h_local b)) active)"

lemma cxn_infos_length:
  "\<forall>(i, b)\<in>set active. length (h_remote b) = 128 \<and> length (h_local b) = 128 \<Longrightarrow> length (cxn_infos active) = 42 * length active"
  by (induction active) (auto simp: cxn_infos_def connection_info_length)

definition cxn_reply :: "(u32 \<times> handler) list \<Rightarrow> byte list" where
  "cxn_reply active = le32 (hton32 (of_nat (42 * length active))) @ cxn_infos active"

text \<open>A reply is queued and the connection waits for its socket to be writable.\<close>

definition replies :: "chandler \<Rightarrow> byte list \<Rightarrow> chandler \<Rightarrow> bool" where
  "replies h bs h' \<longleftrightarrow> wq_pend (ch_write h') = wq_pend (ch_write h) @ bs \<and>
     ch_state h' = (if bs = [] then ch_state h else ch_state h OR BC_SEND_MESSAGE)"

lemma ct_good_send:
  assumes "ct_good ce K A h0 (h, cw)" and "wq_ok wq" and "wq_pend wq = wq_pend (ch_write h) @ bs" and "bs \<noteq> []"
  shows "ct_good ce K A h0 (ch_send (h\<lparr>ch_write := wq\<rparr>), cw)" "replies h bs (ch_send (h\<lparr>ch_write := wq\<rparr>))"
  using assms by (simp_all add: ct_good_def ch_send_def replies_def or_nonzero)

lemma get_cxn_ok:
  assumes "ct_good ce K A h0 (h, cw)" and "0 < ps"
  shows "\<exists>h'. get_cxn ps h cw = Inr (h', cw) \<and> ct_good ce K A h0 (h', cw) \<and> replies h (cxn_reply (w_active (cw_world cw))) h'"
proof -
  let ?a = "w_active (cw_world cw)" and ?r = "cxn_reply (w_active (cw_world cw))"
  have W: "world_ok (ce_env ce) (cw_world cw)" using assms(1) by (simp add: ct_good_def cw_ok_def)
  have l: "length ?r = 4 + 42 * length ?a"
    using world_ok_addresses [OF W] by (auto simp: cxn_reply_def intro!: cxn_infos_length)
  obtain b where B: "vb_realloc ps (4 + 42 * length ?a) VNull = Inr b" by simp
  have al: "length ?r \<le> vb_allocated b" using vb_allocated_realloc [OF assms(2) B] l by simp
  moreover obtain c where C: "vb_write b 0 ?r = Inr c" using vb_write_ok [of 0 ?r b] al l by auto
  ultimately have "length ?r \<le> vb_allocated c" using vb_write_allocated [OF C] by simp
  moreover have "take (length ?r) (vb_bytes c) = ?r" using vb_write_take [OF C] by simp
  moreover have "wq_ok (ch_write h)" using assms(1) by (simp add: ct_good_def)
  ultimately obtain wq where Q: "wq_append_buf c (4 + 42 * length ?a) (ch_write h) = Inr wq" "wq_ok wq"
      "wq_pend wq = wq_pend (ch_write h) @ ?r"
    using wq_append_buf_ok [of "ch_write h" "length ?r" c] l by auto
  have "get_cxn ps h cw = Inr (ch_send (h\<lparr>ch_write := wq\<rparr>), cw)"
    using B C Q(1) by (simp add: get_cxn_def Let_def cxn_reply_def cxn_infos_def)
  with ct_good_send [OF assms(1) Q(2,3)] l show ?thesis by fastforce
qed

text \<open>The command in the memory \<open>cmd\<close> is whole, and no disconnection is broadcast.\<close>

definition cmd_wf :: "byte list \<Rightarrow> bool" where
  "cmd_wf cmd \<longleftrightarrow>
     (cmd ! 0 = COMMAND_SEND_MSG \<longrightarrow> targets_fit cmd) \<and> (cmd ! 0 = COMMAND_DISCONNECT \<longrightarrow> targets_fit cmd \<and> \<not> broadcasts cmd)"

text \<open>What a command may come to: it is carried out, or it was not well formed.\<close>

definition handled :: "cenv \<Rightarrow> nat \<Rightarrow> (u32 \<times> chandler) list \<Rightarrow> chandler \<Rightarrow> chandler \<Rightarrow> bool \<Rightarrow> (chandler \<times> cworld) res \<Rightarrow> bool" where
  "handled ce K A h0 h sane r \<longleftrightarrow> (\<exists>h' cw' bs. r = Inr (h', cw') \<and> ct_good ce K A h0 (h', cw') \<and> replies h bs h') \<or>
    \<not> sane \<and> (\<exists>e\<in>{Out_Of_Bounds, Dangling}. r = Inl e)"

lemma handled_reply:
  "r = Inr (h', cw') \<Longrightarrow> ct_good ce K A h0 (h', cw') \<Longrightarrow> replies h bs h' \<Longrightarrow> handled ce K A h0 h sane r"
  unfolding handled_def by blast

lemma handled_stay:
  assumes "r = Inr (h, cw')" and "ct_good ce K A h0 (h, cw)" and "cw_ok ce K A cw'"
  shows "handled ce K A h0 h sane r"
  by (rule handled_reply [OF assms(1), of _ _ _ _ _ "[]"]) (use assms(2,3) in \<open>simp_all add: ct_good_def replies_def\<close>)

lemma handled_error: "r = Inl e \<Longrightarrow> e \<in> {Out_Of_Bounds, Dangling} \<Longrightarrow> \<not> sane \<Longrightarrow> handled ce K A h0 h sane r"
  unfolding handled_def by blast

lemma ct_goodD: "ct_good ce K A h0 (h, cw) \<Longrightarrow> cw_ok ce K A cw" "ct_good ce K A h0 (h, cw) \<Longrightarrow> wq_ok (ch_write h)"
  "ct_good ce K A h0 (h, cw) \<Longrightarrow> ch_id h = ch_id h0"
  by (simp_all add: ct_good_def)

lemma cw_okD: "cw_ok ce K A cw \<Longrightarrow> world_ok (ce_env ce) (cw_world cw)" "cw_ok ce K A cw \<Longrightarrow> messages_ok cw"
  "cw_ok ce K A cw \<Longrightarrow> tor_table_ok (cw_tw cw)" "cw_ok ce K A cw \<Longrightarrow> 0 < e_ps (ce_env ce)"
  "cw_ok ce K A cw \<Longrightarrow> unat (w_id_pool (cw_world cw)) + (K - cw_kcount cw) + 1 < 2 ^ 32"
  using world_ok_tables(3) env_okD by (auto simp: cw_ok_def)

lemma send_command_ok:
  assumes "ct_good ce K A h0 (h, cw)" and "cmd \<noteq> []" and "cmd ! 0 = COMMAND_SEND_MSG"
  shows "handled ce K A h0 h (targets_fit cmd) (ct_handle_message_recv ce cmd h cw)" (is "handled _ _ _ _ _ _ ?r")
proof (cases "length cmd < 5")
  case True
  have "rd cmd 0 1 = Inr [cmd ! 0]" using assms(2) by (cases cmd) (simp_all add: rd_def)
  with True assms(3) have "?r = Inl Out_Of_Bounds" by (simp add: ct_handle_message_recv_def ct_commands rd_def)
  then show ?thesis by (rule handled_error) (use True in \<open>simp_all add: targets_fit_def\<close>)
next
  case False
  note ok = ct_goodD(1) [OF assms(1)] and W = cw_okD(1) [OF ct_goodD(1) [OF assms(1)]] and M = cw_okD(2) [OF ct_goodD(1) [OF assms(1)]]
  let ?m = "ntoh32 (get32 (take 4 (drop 1 cmd)))" and ?cw = "set_messages (ch_id h) (messages_of (ch_id h) cw) cw"
  have c: "rd cmd 0 1 = Inr [cmd ! 0]" using assms(2) by (cases cmd) (simp_all add: rd_def)
  have ok1: "cw_ok ce K A ?cw" "messages_of (ch_id h) ?cw = messages_of (ch_id h) cw" "cw_world ?cw = cw_world cw"
    using cw_ok_messages [OF ok messages_of_all [OF M]] messages_of_set by (auto simp: set_messages_def)
  have H: "?r = (case map_of (messages_of (ch_id h) cw) ?m of
      None \<Rightarrow> Inr (h, clog ERROR [ascii ''invalid message id'', e_dec (ce_env ce) (unat ?m)] ?cw)
    | Some packed \<Rightarrow> bindR (foreach_handlers (ce_env ce) (append_for_write_buf packed) cmd (cw_world ?cw)) (\<lambda>w. Inr (h, cw_set w ?cw)))"
    using assms(3) c False ok1(2) by (simp add: ct_handle_message_recv_def ct_commands rd_def Let_def cong: option.case_cong)
  show ?thesis
  proof (cases "map_of (messages_of (ch_id h) cw) ?m")
    case None
    have "?r = Inr (h, clog ERROR [ascii ''invalid message id'', e_dec (ce_env ce) (unat ?m)] ?cw)" unfolding H None by simp
    then show ?thesis by (rule handled_stay [OF _ assms(1)]) (rule cw_ok_clog [OF ok1(1)], simp)
  next
    case (Some b)
    let ?f = "foreach_handlers (ce_env ce) (append_for_write_buf b) cmd (cw_world cw)"
    have sent: "handled ce K A h0 h sane ?r" if "?f = Inr w" "world_ok (ce_env ce) w" "w_id_pool w = w_id_pool (cw_world cw)" for w sane
    proof (rule handled_stay [OF _ assms(1)])
      show "?r = Inr (h, cw_set w ?cw)" unfolding H Some using that(1) ok1(3) by simp
      show "cw_ok ce K A (cw_set w ?cw)" by (rule cw_ok_set [OF ok1(1) that(2)]) (simp add: ok1(3) that(3))
    qed
    have err: "?r = Inl e" if "?f = Inl e" for e unfolding H Some using that ok1(3) by simp
    note F = send_cmd.foreach_ok [OF W messages_of_ok [OF M Some], of "ce_env ce" cmd]
      and T = send_cmd.foreach_total [OF W messages_of_ok [OF M Some], of cmd "ce_env ce"]
    show ?thesis
    proof (cases "targets_fit cmd")
      case True
      with T sent show ?thesis by blast
    next
      case False
      with F sent handled_error [OF err] show ?thesis by blast
    qed
  qed
qed

lemma close_command_ok:
  assumes "ct_good ce K A h0 (h, cw)" and "cmd \<noteq> []" and "cmd ! 0 = COMMAND_DISCONNECT"
  shows "handled ce K A h0 h (targets_fit cmd \<and> \<not> broadcasts cmd) (ct_handle_message_recv ce cmd h cw)" (is "handled _ _ _ _ _ _ ?r")
proof -
  let ?cw = "clog DEBUG [ascii ''disconnect command received''] cw"
  have c: "rd cmd 0 1 = Inr [cmd ! 0]" using assms(2) by (cases cmd) (simp_all add: rd_def)
  have ok1: "cw_ok ce K A ?cw" by (rule cw_ok_clog [OF ct_goodD(1) [OF assms(1)]]) simp
  let ?f = "foreach_handlers (ce_env ce) (\<lambda>b v. Inr (bc_disconnect b v)) cmd (cw_world ?cw)"
  have H: "?r = bindR ?f (\<lambda>w. Inr (h, cw_set w ?cw))"
    using assms(3) c by (simp add: ct_handle_message_recv_def ct_commands)
  note D = disconnect_cmd.foreach_ok [OF cw_okD(1) [OF ok1] TrueI, of "ce_env ce" cmd]
  have closed: "handled ce K A h0 h sane ?r" if "?f = Inr w" "world_ok (ce_env ce) w" "w_id_pool w = w_id_pool (cw_world ?cw)" for w sane
  proof (rule handled_stay [OF _ assms(1)])
    show "?r = Inr (h, cw_set w ?cw)" unfolding H that(1) by simp
    show "cw_ok ce K A (cw_set w ?cw)" by (rule cw_ok_set [OF ok1 that(2,3)])
  qed
  have err: "?r = Inl e" if "?f = Inl e" for e unfolding H that by simp
  from D show ?thesis by (elim disjE exE conjE) (rule closed, assumption+, (rule handled_error [OF err], assumption, simp, simp)+)
qed

lemma ct_handle_ok:
  assumes "ct_good ce K A h0 (h, cw)" and "cmd \<noteq> []"
  shows "handled ce K A h0 h (cmd_wf cmd) (ct_handle_message_recv ce cmd h cw)" (is "handled _ _ _ _ _ _ ?r")
proof -
  note ok = ct_goodD(1) [OF assms(1)]
  have c: "rd cmd 0 1 = Inr [cmd ! 0]" using assms(2) by (cases cmd) (simp_all add: rd_def)
  consider (get) "cmd ! 0 = COMMAND_GET_CXN" | (send) "cmd ! 0 = COMMAND_SEND_MSG" | (close) "cmd ! 0 = COMMAND_DISCONNECT"
    | (other) "cmd ! 0 \<notin> {COMMAND_GET_CXN, COMMAND_SEND_MSG, COMMAND_DISCONNECT}" by blast
  then show ?thesis
  proof cases
    case get
    let ?cw = "clog CTRL [ascii ''All connections requested'', e_dec (ce_env ce) (unat (ch_regid h))] cw"
    have "cw_ok ce K A ?cw" by (rule cw_ok_clog [OF ok]) simp
    then have G: "ct_good ce K A h0 (h, ?cw)" using assms(1) by (simp add: ct_good_def)
    obtain h' where R: "get_cxn (e_ps (ce_env ce)) h ?cw = Inr (h', ?cw)" "ct_good ce K A h0 (h', ?cw)"
      "replies h (cxn_reply (w_active (cw_world ?cw))) h'" using get_cxn_ok [OF G cw_okD(4) [OF ok]] by blast
    have "?r = get_cxn (e_ps (ce_env ce)) h ?cw" using c get by (simp add: ct_handle_message_recv_def Let_def)
    then show ?thesis by (rule handled_reply [OF trans [OF _ R(1)] R(2,3)])
  next
    case send
    with send_command_ok [OF assms send] show ?thesis by (simp add: cmd_wf_def ct_commands)
  next
    case close
    with close_command_ok [OF assms close] show ?thesis by (simp add: cmd_wf_def ct_commands)
  next
    case other
    then have "?r = Inr (h, clog CTRL [ascii ''UNKNOWN COMMAND_MSG COMMAND: '', [cmd ! 0]] cw)"
      using c by (simp add: ct_handle_message_recv_def)
    then show ?thesis by (rule handled_stay [OF _ assms(1)]) (rule cw_ok_clog [OF ok], simp)
  qed
qed

section \<open>Frames\<close>

lemma append_reply:
  assumes "ct_good ce K A h0 (h, cw)" and "bs \<noteq> []"
  shows "\<exists>wq. wq_append (e_ps (ce_env ce)) bs (ch_write h) = Inr wq \<and> ct_good ce K A h0 (ch_send (h\<lparr>ch_write := wq\<rparr>), cw) \<and>
    replies h bs (ch_send (h\<lparr>ch_write := wq\<rparr>))"
proof -
  obtain wq where "wq_append (e_ps (ce_env ce)) bs (ch_write h) = Inr wq" "wq_ok wq" "wq_pend wq = wq_pend (ch_write h) @ bs"
    using wq_append_ok [OF cw_okD(4) [OF ct_goodD(1) [OF assms(1)]] ct_goodD(2) [OF assms(1)] assms(2)] by blast
  with ct_good_send [OF assms(1)] assms(2) show ?thesis by blast
qed

lemma ct_good_world: "ct_good ce K A h0 (h, cw) \<Longrightarrow> cw_ok ce K A cw' \<Longrightarrow> ct_good ce K A h0 (h, cw')"
  by (simp add: ct_good_def)

lemma ct_good_regid [simp]: "ct_good ce K A h0 (h\<lparr>ch_regid := r\<rparr>, cw) = ct_good ce K A h0 (h, cw)"
  by (simp add: ct_good_def)

lemma ct_good_recv: "ct_good ce K A h0 (h, cw) \<Longrightarrow> send_of s = send_of (ch_state h) \<Longrightarrow> ct_good ce K A h0 (h\<lparr>ch_state := s\<rparr>, cw)"
  by (simp add: ct_good_def)

lemma replies_state: "replies h bs h' \<Longrightarrow> recv_of (ch_state h') = recv_of (ch_state h)"
  by (simp add: replies_def)

lemma cw_ok_delete: "cw_ok ce K A cw \<Longrightarrow> cw_ok ce K A (cw\<lparr>cw_messages := AList.delete i (cw_messages cw)\<rparr>)"
  by (fastforce simp: cw_ok_def messages_ok_def mem_delete)

lemma receive_header_ok:
  assumes "ct_good ce K A h0 (h, cw)" and "recv_of (ch_state h) = BC_RECV_HEADER"
  shows "\<exists>h' cw'. receive_header ce msg h cw = Inr ((h', cw'), if cm_length msg = 0 then Restart 6 else Extend (cm_length msg)) \<and>
    ct_good ce K A h0 (h', cw') \<and> recv_of (ch_state h') = (if cm_length msg = 0 then BC_RECV_HEADER else BC_RECV_PAYLOAD)"
proof -
  let ?cw = "if cm_version msg \<noteq> 0
    then clog DEBUG [ascii ''Warning: Unsupported version'', e_dec (ce_env ce) (unat (cm_version msg))] cw else cw"
  have ok: "cw_ok ce K A ?cw" using cw_ok_clog [OF ct_goodD(1) [OF assms(1)]] ct_goodD(1) [OF assms(1)] by simp
  note G = ct_good_world [OF assms(1) ok]
  consider (payload) "cm_length msg \<noteq> 0" | (other) "cm_length msg = 0" "cm_type msg \<noteq> REGISTER"
    | (reg) "cm_length msg = 0" "cm_type msg = REGISTER" by blast
  then show ?thesis
  proof cases
    case payload
    have "ct_good ce K A h0 (h\<lparr>ch_state := send_of (ch_state h) OR BC_RECV_PAYLOAD\<rparr>, ?cw)" by (rule ct_good_recv [OF G]) simp
    with payload show ?thesis by (simp add: receive_header_def Let_def)
  next
    case other
    have "ct_good ce K A h0 (h, clog CTRL [ce_show ce msg] ?cw)" by (rule ct_good_world [OF G cw_ok_clog [OF ok]]) simp
    with other assms(2) show ?thesis by (simp add: receive_header_def Let_def)
  next
    case reg
    let ?id = "ce_nonce32 ce (cw_draws ?cw)"
    let ?cw3 = "clog CTRL [ascii ''REGISTERING'', e_dec (ce_env ce) (unat ?id)]
      (clog CTRL [ascii ''UNREGISTERING'', e_dec (ce_env ce) (unat (ch_regid h))] (?cw\<lparr>cw_draws := Suc (cw_draws ?cw)\<rparr>))"
    let ?cw4 = "?cw3\<lparr>cw_messages := AList.delete (ch_regid h) (cw_messages ?cw3)\<rparr>"
    have "cw_ok ce K A ?cw3" by (intro cw_ok_clog) (use ok in simp_all)
    then have "cw_ok ce K A ?cw4" by (rule cw_ok_delete)
    then have "ct_good ce K A h0 (h\<lparr>ch_regid := ?id\<rparr>, ?cw4)" unfolding ct_good_regid by (rule ct_good_world [OF G])
    moreover have "le32 (hton32 ?id) \<noteq> []" using length_enc_words(2) [of "hton32 ?id"] by (metis list.size(3) zero_neq_numeral)
    ultimately obtain wq where A: "wq_append (e_ps (ce_env ce)) (le32 (hton32 ?id)) (ch_write h) = Inr wq"
      "ct_good ce K A h0 (ch_send (h\<lparr>ch_regid := ?id, ch_write := wq\<rparr>), ?cw4)"
      "replies (h\<lparr>ch_regid := ?id\<rparr>) (le32 (hton32 ?id)) (ch_send (h\<lparr>ch_regid := ?id, ch_write := wq\<rparr>))"
      using append_reply [of ce K A h0 "h\<lparr>ch_regid := ?id\<rparr>" ?cw4 "le32 (hton32 ?id)"] by auto
    have "receive_header ce msg h cw = Inr ((ch_send (h\<lparr>ch_regid := ?id, ch_write := wq\<rparr>), ?cw4), Restart 6)"
      unfolding receive_header_def Let_def using reg A(1) by simp
    with A(2) replies_state [OF A(3)] assms(2) reg show ?thesis by auto
  qed
qed

text \<open>The memory \<open>msg\<close> starts with the header and holds the announced payload.\<close>

definition framed :: "byte list \<Rightarrow> bool" where
  "framed msg \<longleftrightarrow> 6 + cm_length msg \<le> length msg \<and> 0 < cm_length msg"

lemma registered_msg_ok:
  assumes "0 < ps" and "framed msg"
  shows "\<exists>b. registered_msg ps msg = Inr b \<and> take (cm_length msg) (vb_bytes b) = take (cm_length msg) (drop 6 msg) \<and> cm_length msg \<le> vb_allocated b"
proof -
  let ?p = "take (cm_length msg) (drop 6 msg)"
  have l: "length ?p = cm_length msg" "?p \<noteq> []" using assms(2) by (auto simp: framed_def)
  from vb_new_n_write [OF assms(1) l(2)] l(1) assms(2) show ?thesis
    by (auto simp: registered_msg_def rd_def framed_def)
qed

lemma valid_message:
  assumes "take n (vb_bytes b) = take n m" and "n \<le> vb_allocated b" and "24 \<le> n" and "n = 24 + msg_length m"
  shows "msg_ok (vb_bytes b)" "msg_take (vb_bytes b) = take n m"
proof -
  have "msg_length (vb_bytes b) = msg_length m"
    using msg_length_take [of n "vb_bytes b"] msg_length_take [of n m] assms(1,3) by simp
  with assms show "msg_ok (vb_bytes b)" "msg_take (vb_bytes b) = take n m"
    by (simp_all add: msg_ok_def msg_take_def vb_allocated_def)
qed

definition registrable :: "byte list \<Rightarrow> bool" where
  "registrable msg \<longleftrightarrow> 24 \<le> cm_length msg \<and> cm_length msg = 24 + msg_length (drop 6 msg)"

lemma register_valid:
  "framed msg \<Longrightarrow> (if cm_length msg < 24 then Inr True else bindR (rd msg 6 24) (\<lambda>bc. Inr (cm_length msg \<noteq> 24 + msg_length bc))) =
    (Inr (\<not> registrable msg) :: bool res)"
  by (auto simp: framed_def registrable_def rd_def msg_length_take)

lemma register_message_ok:
  assumes "ct_good ce K A h0 (h, cw)" and "framed msg"
  shows "handled ce K A h0 h True (register_message ce msg h cw)"
proof -
  note ok = ct_goodD(1) [OF assms(1)]
  have reply: "handled ce K A h0 h True
      (bindR (wq_append (e_ps (ce_env ce)) (le32 n) (ch_write h)) (\<lambda>wq. Inr (ch_send (h\<lparr>ch_write := wq\<rparr>), cw')))"
    if "cw_ok ce K A cw'" for n cw'
  proof -
    have "le32 n \<noteq> []" using length_enc_words(2) [of n] by (metis list.size(3) zero_neq_numeral)
    with append_reply [OF ct_good_world [OF assms(1) that], of "le32 n"] show ?thesis
      by (auto intro: handled_reply)
  qed
  show ?thesis
  proof (cases "registrable msg")
    case False
    with reply [OF cw_ok_clog [OF ok]] show ?thesis
      unfolding register_message_def Let_def register_valid [OF assms(2)] by simp
  next
    case True
    obtain b where B: "registered_msg (e_ps (ce_env ce)) msg = Inr b" "take (cm_length msg) (vb_bytes b) = take (cm_length msg) (drop 6 msg)"
      "cm_length msg \<le> vb_allocated b" using registered_msg_ok [OF cw_okD(4) [OF ok] assms(2)] by blast
    have b: "msg_ok (vb_bytes b)" by (rule valid_message(1) [OF B(2,3)]) (use True in \<open>simp_all add: registrable_def\<close>)
    let ?i = "cw_message_ids cw" and ?old = "messages_of (ch_id h) cw"
    let ?new = "if map_of ?old ?i = None then AList.update ?i b ?old else ?old"
    let ?cw1 = "set_messages (ch_id h) ?new (cw\<lparr>cw_message_ids := ?i + 1\<rparr>)"
    have "\<forall>(k, c)\<in>set ?new. msg_ok (vb_bytes c)"
      using messages_of_all [OF cw_okD(2) [OF ok], of "ch_id h"] b by (auto dest!: mem_update_weak)
    then have "cw_ok ce K A ?cw1" by (intro cw_ok_messages) (simp_all add: ok)
    then have L: "cw_ok ce K A (clog n xs ?cw1)" if "xs \<noteq> []" for n xs using cw_ok_clog that by blast
    show ?thesis
    proof (cases "map_of ?old ?i = None")
      case True
      with \<open>registrable msg\<close> B(1) reply [OF cw_ok_clog [OF L]] show ?thesis
        unfolding register_message_def Let_def register_valid [OF assms(2)] by simp
    next
      case False
      with \<open>registrable msg\<close> B(1) reply [OF cw_ok_clog [OF L]] show ?thesis
        unfolding register_message_def Let_def register_valid [OF assms(2)] by auto
    qed
  qed
qed

lemma tor_start_ok:
  assumes "world_ok env (tw_world tw)" and "tor_table_ok tw" and "length onion = 128"
  shows "world_ok env (tw_world (tor_start env p onion host proxy inp out tw))"
    "tor_table_ok (tor_start env p onion host proxy inp out tw)"
    "w_id_pool (tw_world (tor_start env p onion host proxy inp out tw)) = w_id_pool (tw_world tw)"
proof -
  have D: "distinct (map fst (tw_tors (reap_tors tw)))" "\<forall>(q, t)\<in>set (tw_tors (reap_tors tw)). length (tr_remote t) = 128"
    using assms(2) by (auto simp: tor_table_ok_def reap_tors_def distinct_map_filter)
  have r: "tw_world (reap_tors tw) = tw_world tw" by (simp add: reap_tors_def)
  show "tor_table_ok (tor_start env p onion host proxy inp out tw)"
    using distinct_update [OF D(1)] D(2) assms(3)
    by (auto simp: tor_start_def Let_def tor_table_ok_def dest!: mem_update_weak split: option.split)
  have "world_ok env (log_add (LBitcoin CONNECT_FAILURE 0 onion (set_family AF_INET6 (zeros 128)) (what @ [0])) w)" if "world_ok env w" for w what
    by (rule world_ok_log [OF that]) (use assms(3) family_length in simp_all)
  with assms(1) r show "world_ok env (tw_world (tor_start env p onion host proxy inp out tw))"
    by (simp add: tor_start_def Let_def world_ok_text split: option.split)
  show "w_id_pool (tw_world (tor_start env p onion host proxy inp out tw)) = w_id_pool (tw_world tw)"
    using r by (simp add: tor_start_def Let_def split: option.split)
qed

lemma wire_to_sockaddr_length: "length wa = 19 \<Longrightarrow> length (wire_to_sockaddr wa) = 128"
  by (simp add: wire_to_sockaddr_def Let_def length_put length_field set_family_def)

definition connect_wf :: "byte list \<Rightarrow> bool" where
  "connect_wf msg \<longleftrightarrow> 19 \<le> cm_length msg \<and> (msg ! 6 = ADDR_FAMILY_ONION \<longrightarrow> 38 \<le> cm_length msg)"

lemma cw_ok_tw:
  "cw_ok ce K A cw \<Longrightarrow> world_ok (ce_env ce) (tw_world tw) \<Longrightarrow> tor_table_ok tw \<Longrightarrow>
   w_id_pool (tw_world tw) = w_id_pool (cw_world cw) \<Longrightarrow> cw_ok ce K A (cw\<lparr>cw_tw := tw\<rparr>)"
  by (simp add: cw_ok_def messages_ok_def)

lemma cw_ok_call: "cw_ok ce K A cw \<Longrightarrow> cw_ok ce K A (cw\<lparr>cw_kcount := Suc (cw_kcount cw)\<rparr>)"
  unfolding cw_ok_def messages_ok_def by (simp; linarith)

lemma cm_length_u32: "cm_length msg < 2 ^ 32"
  using unat_lt [of "ntoh32 (get32 (field 1 4 msg))"] by (simp add: cm_length_def)

lemma hostname_fits:
  assumes "framed msg" and "38 \<le> cm_length msg"
  shows "6 + 38 + min (unat (of_nat (cm_length msg) - 38 :: u32)) 63 \<le> length msg"
proof -
  have "unat (of_nat (cm_length msg) :: u32) = cm_length msg" using cm_length_u32 by (simp add: unat_of_nat)
  then have "unat (of_nat (cm_length msg) - 38 :: u32) = cm_length msg - 38"
    using assms(2) by (subst unat_sub) (simp_all add: word_le_nat_alt)
  moreover have "min (cm_length msg - 38) 63 \<le> cm_length msg - 38" by simp
  ultimately show ?thesis using assms by (simp add: framed_def)
qed

text \<open>The world in which the new object is created.\<close>

abbreviation connecting :: "cenv \<Rightarrow> byte list \<Rightarrow> chandler \<Rightarrow> cworld \<Rightarrow> cworld" where
  "connecting ce msg h cw \<equiv> clog CTRL [ascii ''Attempting to connect to family'', e_dec (ce_env ce) (unat (take 19 (drop 6 msg) ! 0)),
     ascii ''for'', e_dec (ce_env ce) (unat (ch_regid h))] (cw\<lparr>cw_kcount := Suc (cw_kcount cw)\<rparr>)"

lemma connecting_ok:
  assumes "cw_ok ce K A cw"
  shows "cw_ok ce K A (connecting ce msg h cw)" "tor_table_ok (cw_tw (connecting ce msg h cw))"
    "world_ok (ce_env ce) (cw_world (connecting ce msg h cw))" "w_id_pool (cw_world (connecting ce msg h cw)) = w_id_pool (cw_world cw)"
proof -
  show "cw_ok ce K A (connecting ce msg h cw)" by (rule cw_ok_clog [OF cw_ok_call [OF assms]]) simp
  then show "tor_table_ok (cw_tw (connecting ce msg h cw))" "world_ok (ce_env ce) (cw_world (connecting ce msg h cw))" by (rule cw_okD)+
qed simp

lemma onion_connect_ok:
  assumes "cw_ok ce K A cw" and "framed msg" and "25 \<le> length msg" and "msg ! 6 = ADDR_FAMILY_ONION"
  shows "(\<exists>cw'. ct_connect ce msg h cw = Inr cw' \<and> cw_ok ce K A cw') \<or> \<not> connect_wf msg \<and> ct_connect ce msg h cw = Inl Out_Of_Bounds"
proof -
  let ?k = "ce_kernel ce (cw_kcount cw)" and ?p = "cw_kcount cw" and ?env = "ce_env ce" and ?wa = "take 19 (drop 6 msg)" and ?cw = "connecting ce msg h cw"
  have l: "length ?wa = 19" "?wa ! 0 = msg ! 6" using assms(3) by simp_all
  note ok = connecting_ok [OF assms(1), of msg h]
  have T: "cw_ok ce K A (?cw\<lparr>cw_tw := tor_start ?env ?p (wire_to_sockaddr ?wa) host (ka_proxy ?k) (ka_in ?k) (ka_out ?k) (cw_tw ?cw)\<rparr>)" for host
  proof -
    have "world_ok ?env (tw_world (cw_tw ?cw))" using ok(3) by simp
    note S = tor_start_ok [OF this ok(2) wire_to_sockaddr_length [OF l(1)], of ?p host "ka_proxy ?k" "ka_in ?k" "ka_out ?k"]
    show ?thesis by (rule cw_ok_tw [OF ok(1) S(1,2)]) (use S(3) in simp)
  qed
  let ?n = "of_nat (cm_length msg) - 38 :: u32"
  let ?h = "take (min (unat ?n) 63) (drop (6 + 38) msg)"
  consider (legacy) "\<not> ?n > 0" | (fits) "?n > 0" "6 + 38 + min (unat ?n) 63 \<le> length msg" | (long) "?n > 0" "\<not> 6 + 38 + min (unat ?n) 63 \<le> length msg"
    by blast
  then show ?thesis
  proof cases
    case legacy
    with T [of "onion_host (concat (map hex2 (sin6_addr (wire_to_sockaddr ?wa))))"] l assms(3,4) show ?thesis
      by (simp add: ct_connect_def rd_def Let_def tor_new_def)
  next
    case fits
    have "ct_connect ce msg h cw = Inr (?cw\<lparr>cw_tw := tor_start ?env ?p (wire_to_sockaddr ?wa)
        (onion_host (takeWhile (\<lambda>b. b \<noteq> 0) ?h)) (ka_proxy ?k) (ka_in ?k) (ka_out ?k) (cw_tw ?cw)\<rparr>)"
      using fits l assms(3,4) by (simp add: ct_connect_def rd_def Let_def tor_new_host_def)
    with T show ?thesis by blast
  next
    case long
    then have "\<not> connect_wf msg" using hostname_fits [OF assms(2)] assms(4) by (auto simp: connect_wf_def)
    with long l assms(3,4) show ?thesis by (simp add: ct_connect_def rd_def Let_def)
  qed
qed

lemma tcp_connect_ok:
  assumes "cw_ok ce K A cw" and "kernel_ok ce K" and "25 \<le> length msg" and "msg ! 6 \<noteq> ADDR_FAMILY_ONION"
  shows "\<exists>cw'. ct_connect ce msg h cw = Inr cw' \<and> cw_ok ce K A cw'"
proof -
  let ?k = "ce_kernel ce (cw_kcount cw)" and ?p = "cw_kcount cw" and ?env = "ce_env ce" and ?wa = "take 19 (drop 6 msg)" and ?cw = "connecting ce msg h cw"
  have l: "length ?wa = 19" "?wa ! 0 = msg ! 6" using assms(3) by simp_all
  note ok = connecting_ok [OF assms(1), of msg h] and P = cw_okD(5) [OF assms(1)]
  have N: "name_ok (ka_name ?k)" "so_written (ka_out ?k) = []" "K \<le> ?p \<Longrightarrow> ka_connect ?k \<noteq> ConnOk"
    using assms(2) by (simp_all add: kernel_ok_def)
  show ?thesis
  proof (cases "ka_socket ?k")
    case (Some e)
    let ?t = "clog ERROR [do_error ?env ''socket failure'' e, ascii ''(command_handler CONNECT)''] ?cw"
    have "ct_connect ce msg h cw = Inr ?t" using Some l assms(3,4) by (simp add: ct_connect_def rd_def Let_def)
    moreover have "cw_ok ce K A ?t" by (rule cw_ok_clog [OF ok(1)]) simp
    ultimately show ?thesis by blast
  next
    case None
    have p1: "unat (w_id_pool (cw_world ?cw)) + 1 < 2 ^ 32" using P ok(4) by simp
    obtain w where C: "connect_handler_new ?env ?p (wire_to_sockaddr ?wa) (ka_connect ?k) (ka_name ?k) (ka_in ?k) (ka_out ?k) (cw_world ?cw) = Inr w"
      "world_ok ?env w" using connect_new_ok [OF ok(3) wire_to_sockaddr_length [OF l(1)] N(1,2) p1] by blast
    have "w_id_pool w = w_id_pool (cw_world cw) \<or> ?p < K \<and> w_id_pool w = w_id_pool (cw_world cw) + 1"
      using connect_handler_pool [OF C(1)] ok(4) N(3) by (metis linorder_not_less)
    then have "unat (w_id_pool w) + (K - Suc ?p) + 1 < 2 ^ 32" using P unat_Suc_pool [of "w_id_pool (cw_world cw)"] by auto
    with C(2) ok(1) have "cw_ok ce K A (cw_set w ?cw)" by (simp add: cw_ok_def messages_ok_def)
    moreover have "ct_connect ce msg h cw = Inr (cw_set w ?cw)"
      using None C(1) l assms(3,4) by (simp add: ct_connect_def rd_def Let_def)
    ultimately show ?thesis by blast
  qed
qed

lemma ct_connect_ok:
  assumes "cw_ok ce K A cw" and "kernel_ok ce K" and "framed msg"
  shows "(\<exists>cw'. ct_connect ce msg h cw = Inr cw' \<and> cw_ok ce K A cw') \<or> \<not> connect_wf msg \<and> ct_connect ce msg h cw = Inl Out_Of_Bounds"
proof (cases "25 \<le> length msg")
  case False
  then have "\<not> connect_wf msg" using assms(3) by (simp add: framed_def connect_wf_def)
  with False show ?thesis by (simp add: ct_connect_def rd_def Let_def)
next
  case True
  with onion_connect_ok [OF assms(1,3)] tcp_connect_ok [OF assms(1,2)] show ?thesis by blast
qed

text \<open>A frame a client should send: counts and addresses fit, and no disconnection is broadcast.\<close>

definition frame_wf :: "byte list \<Rightarrow> bool" where
  "frame_wf msg \<longleftrightarrow> (cm_type msg = COMMAND \<longrightarrow> cmd_wf (drop 6 msg)) \<and> (cm_type msg = CONNECT \<longrightarrow> connect_wf msg)"

lemma receive_payload_ok:
  assumes "ct_good ce K A h0 (h, cw)" and "kernel_ok ce K" and "framed msg"
  shows "(\<exists>h' cw'. receive_payload ce msg h cw = Inr ((h', cw'), Restart 6) \<and> ct_good ce K A h0 (h', cw') \<and>
      recv_of (ch_state h') = BC_RECV_HEADER) \<or>
    \<not> frame_wf msg \<and> (\<exists>e\<in>{Out_Of_Bounds, Dangling}. receive_payload ce msg h cw = Inl e)"
proof -
  let ?cw = "if cm_version msg \<noteq> 0 then clog DEBUG [ascii ''Warning: unsupported version. Attempting to receive payload''] cw else cw"
  have ok: "cw_ok ce K A ?cw" using cw_ok_clog [OF ct_goodD(1) [OF assms(1)]] ct_goodD(1) [OF assms(1)] by simp
  note G = ct_good_world [OF assms(1) ok]
  let ?r = "if cm_type msg = BITCOIN_PACKED_MESSAGE then register_message ce msg h ?cw
    else if cm_type msg = COMMAND then
      bindR (ct_handle_message_recv ce (drop 6 msg) h ?cw) (\<lambda>(h1, cw2). Inr (h1\<lparr>ch_state := ch_state h1 AND CT_SEND_MASK\<rparr>, cw2))
    else if cm_type msg = CONNECT then bindR (ct_connect ce msg h ?cw) (\<lambda>cw2. Inr (h, cw2))
    else Inr (h, clog CTRL [ascii ''unknown payload type'', e_dec (ce_env ce) (unat (ch_regid h)), ce_show ce msg] ?cw)"
  have R: "receive_payload ce msg h cw =
      bindR ?r (\<lambda>(h2, cw3). Inr ((h2\<lparr>ch_state := send_of (ch_state h2) OR BC_RECV_HEADER\<rparr>, cw3), Restart 6))"
    by (simp add: receive_payload_def Let_def)
  have fin: ?thesis if "?r = Inr (h', cw')" "ct_good ce K A h0 (h', cw')" for h' cw'
  proof -
    have "ct_good ce K A h0 (h'\<lparr>ch_state := send_of (ch_state h') OR BC_RECV_HEADER\<rparr>, cw')" by (rule ct_good_recv [OF that(2)]) simp
    then show ?thesis unfolding R that(1) by simp
  qed
  have err: ?thesis if "?r = Inl e" "e \<in> {Out_Of_Bounds, Dangling}" "\<not> frame_wf msg" for e
    using that(2,3) unfolding R that(1) by simp
  consider (reg) "cm_type msg = BITCOIN_PACKED_MESSAGE" | (cmd) "cm_type msg = COMMAND" | (conn) "cm_type msg = CONNECT"
    | (other) "cm_type msg \<notin> {BITCOIN_PACKED_MESSAGE, COMMAND, CONNECT}" by blast
  then show ?thesis
  proof cases
    case reg
    with register_message_ok [OF G assms(3)] fin show ?thesis unfolding handled_def by auto
  next
    case cmd
    have "drop 6 msg \<noteq> []" using assms(3) by (auto simp: framed_def)
    from ct_handle_ok [OF G this] show ?thesis unfolding handled_def
    proof (elim disjE exE conjE bexE)
      fix h' cw' bs assume H: "ct_handle_message_recv ce (drop 6 msg) h ?cw = Inr (h', cw')" "ct_good ce K A h0 (h', cw')"
      have "ct_good ce K A h0 (h'\<lparr>ch_state := send_of (ch_state h')\<rparr>, cw')" by (rule ct_good_recv [OF H(2)]) simp
      with H(1) cmd show ?thesis by (intro fin) (simp_all add: ct_types)
    next
      fix e assume "ct_handle_message_recv ce (drop 6 msg) h ?cw = Inl e" "e \<in> {Out_Of_Bounds, Dangling}" "\<not> cmd_wf (drop 6 msg)"
      with cmd show ?thesis by (intro err) (simp_all add: ct_types frame_wf_def)
    qed
  next
    case conn
    from ct_connect_ok [OF ok assms(2,3), of h] show ?thesis
    proof (elim disjE exE conjE)
      fix cw' assume "ct_connect ce msg h ?cw = Inr cw'" "cw_ok ce K A cw'"
      with conn ct_good_world [OF G] show ?thesis by (intro fin) (simp_all add: ct_types)
    next
      assume "ct_connect ce msg h ?cw = Inl Out_Of_Bounds" "\<not> connect_wf msg"
      with conn show ?thesis by (intro err [of Out_Of_Bounds]) (simp_all add: ct_types frame_wf_def)
    qed
  next
    case other
    let ?t = "clog CTRL [ascii ''unknown payload type'', e_dec (ce_env ce) (unat (ch_regid h)), ce_show ce msg] ?cw"
    have "ct_good ce K A h0 (h, ?t)" by (rule ct_good_world [OF G cw_ok_clog [OF ok]]) simp
    then show ?thesis by (rule fin [rotated]) (use other in simp)
  qed
qed

section \<open>The stream of a client\<close>

text \<open>\<open>m\<close> is the length of the frame the connection waits for and \<open>pre\<close> the part that is there.\<close>

definition ct_inv :: "cenv \<Rightarrow> nat \<Rightarrow> (u32 \<times> chandler) list \<Rightarrow> chandler \<Rightarrow> chandler \<times> cworld \<Rightarrow> nat \<Rightarrow> byte list \<Rightarrow> bool" where
  "ct_inv ce K A h0 st m pre \<longleftrightarrow> kernel_ok ce K \<and> ct_good ce K A h0 st \<and>
     (let r = recv_of (ch_state (fst st)) in
      r = BC_RECV_HEADER \<and> m = 6 \<or> r = BC_RECV_PAYLOAD \<and> 6 \<le> length pre \<and> m = 6 + cm_length pre \<and> 0 < cm_length pre)"

lemma cm_take: "6 \<le> n \<Longrightarrow> cm_length (take n m) = cm_length m" "6 \<le> n \<Longrightarrow> cm_type (take n m) = cm_type m"
  by (simp_all add: cm_length_def cm_type_def field_def take_drop)

lemma cm_append: "6 \<le> length m \<Longrightarrow> cm_length (m @ xs) = cm_length m"
  using cm_take(1) [of "length m" "m @ xs"] by simp

lemma targets_fit_take:
  assumes "targets_fit (take n cmd)"
  shows "targets_fit cmd" "broadcasts (take n cmd) = broadcasts cmd"
proof -
  have n: "9 \<le> n" "9 \<le> length cmd" using assms by (simp_all add: targets_fit_def)
  then have c: "target_cnt (take n cmd) = target_cnt cmd" by (simp add: target_cnt_def field_def take_drop)
  with assms show "targets_fit cmd" by (simp add: targets_fit_def)
  show "broadcasts (take n cmd) = broadcasts cmd"
  proof (cases "target_cnt cmd = 1")
    case True
    with assms c have "13 \<le> n" by (simp add: targets_fit_def)
    with c show ?thesis by (simp add: broadcasts_def field_def take_drop)
  qed (simp add: broadcasts_def c)
qed

lemma frame_wf_take:
  assumes "frame_wf (take n msg)" and "6 < n"
  shows "frame_wf msg"
proof -
  have t: "cm_type (take n msg) = cm_type msg" "cm_length (take n msg) = cm_length msg" "take n msg ! 6 = msg ! 6"
    using assms(2) cm_take by simp_all
  have d: "drop 6 (take n msg) = take (n - 6) (drop 6 msg)" "take (n - 6) (drop 6 msg) ! 0 = drop 6 msg ! 0"
    using assms(2) by (simp_all add: drop_take)
  have "cmd_wf (drop 6 msg)" if "cmd_wf (drop 6 (take n msg))"
    using that targets_fit_take [of "n - 6" "drop 6 msg"] unfolding cmd_wf_def d by blast
  with assms(1) t show ?thesis by (simp add: frame_wf_def connect_wf_def)
qed

lemma ct_complete_ok:
  assumes "ct_inv ce K A h0 st m pre" and "length pre = m" and "take m (vb_bytes buf) = pre"
  shows "(\<exists>st' cmd. ct_complete ce st m buf = Inr (st', cmd) \<and>
      (case cmd of Extend n \<Rightarrow> ct_inv ce K A h0 st' (m + n) pre | Restart n \<Rightarrow> ct_inv ce K A h0 st' n [])) \<or>
    recv_of (ch_state (fst st)) = BC_RECV_PAYLOAD \<and> \<not> frame_wf pre \<and> (\<exists>e\<in>{Out_Of_Bounds, Dangling}. ct_complete ce st m buf = Inl e)"
proof -
  obtain h cw where st: "st = (h, cw)" by (cases st)
  have K: "kernel_ok ce K" "ct_good ce K A h0 (h, cw)" using assms(1) st by (simp_all add: ct_inv_def)
  let ?m = "vb_bytes buf"
  have l: "m \<le> length ?m" using assms(2,3) by (metis length_take min.cobounded1)
  consider (hdr) "recv_of (ch_state h) = BC_RECV_HEADER" "m = 6"
    | (pay) "recv_of (ch_state h) = BC_RECV_PAYLOAD" "6 \<le> m" "m = 6 + cm_length pre" "0 < cm_length pre"
    using assms(1,2) st by (auto simp: ct_inv_def Let_def)
  then show ?thesis
  proof cases
    case hdr
    have p: "vb_const_ptr buf = Inr ?m" "rd ?m 0 6 = Inr (take 6 ?m)" using l hdr(2) by (auto simp: vb_const_ptr_def rd_def)
    have c: "cm_length ?m = cm_length pre" using cm_take(1) [of 6 ?m] assms(3) hdr(2) by simp
    have C: "ct_complete ce st m buf = receive_header ce ?m h cw" using p hdr st by (simp add: ct_complete_def)
    obtain h' cw' where R: "receive_header ce ?m h cw = Inr ((h', cw'), if cm_length pre = 0 then Restart 6 else Extend (cm_length pre))"
      "ct_good ce K A h0 (h', cw')" "recv_of (ch_state h') = (if cm_length pre = 0 then BC_RECV_HEADER else BC_RECV_PAYLOAD)"
      using receive_header_ok [OF K(2) hdr(1), of ?m] unfolding c by blast
    show ?thesis unfolding C R(1) using R(2,3) K(1) hdr(2) assms(2) by (simp add: ct_inv_def)
  next
    case pay
    have p: "vb_const_ptr buf = Inr ?m" "rd ?m 0 6 = Inr (take 6 ?m)" using l pay(2) by (auto simp: vb_const_ptr_def rd_def)
    have c: "cm_length ?m = cm_length pre" using cm_take(1) [of m ?m] assms(3) pay(2) by simp
    have C: "ct_complete ce st m buf = receive_payload ce ?m h cw" using p pay st by (simp add: ct_complete_def)
    have f: "framed ?m" using l pay(3,4) c by (simp add: framed_def)
    have "\<not> frame_wf pre" if "\<not> frame_wf ?m" using frame_wf_take [of m ?m] that assms(3) pay(3,4) by auto
    with receive_payload_ok [OF K(2,1) f] show ?thesis
      unfolding C using K(1) pay(1) st by (auto simp: ct_inv_def Let_def)
  qed
qed

interpretation ctl: framed_reader "Suc p" "ct_complete ce" "ct_inv ce K A h0" "{Out_Of_Bounds, Dangling}" for p ce K A h0
proof
  show "ct_inv ce K A h0 st m (pre @ xs)" if "ct_inv ce K A h0 st m pre" "length (pre @ xs) \<le> m" for st m pre xs
    using that by (auto simp: ct_inv_def Let_def cm_append)
qed (simp, use ct_complete_ok in blast)

definition ct_live :: "chandler \<times> cworld \<Rightarrow> bool" where
  "ct_live st \<longleftrightarrow> recv_of (ch_state (fst st)) \<in> {BC_RECV_HEADER, BC_RECV_PAYLOAD}"

interpretation ctl_asks: hungry_reader "ct_complete ce" ct_live for ce
proof
  fix st m buf st' cmd assume L: "ct_live st" and F: "ct_complete ce st m buf = Inr (st', cmd)"
  obtain h cw where st: "st = (h, cw)" by (cases st)
  show "ct_live st' \<and> (case cmd of Extend n \<Rightarrow> 0 < n | Restart n \<Rightarrow> 0 < n)"
  proof (cases "recv_of (ch_state h) = BC_RECV_HEADER")
    case True
    with F st obtain msg where "receive_header ce msg h cw = Inr (st', cmd)" by (auto simp: ct_complete_def bindR_Inr_iff)
    with True show ?thesis
      by (auto simp: receive_header_def ct_live_def ch_send_def Let_def bindR_Inr_iff split: if_splits)
  next
    case False
    with F L st obtain msg where "receive_payload ce msg h cw = Inr (st', cmd)" by (auto simp: ct_complete_def ct_live_def bindR_Inr_iff)
    then show ?thesis by (auto simp: receive_payload_def ct_live_def Let_def bindR_Inr_iff)
  qed
qed

section \<open>Callbacks\<close>

text \<open>Between two callbacks.\<close>

definition ct_ok :: "cenv \<Rightarrow> nat \<Rightarrow> (u32 \<times> chandler) list \<Rightarrow> chandler \<times> cworld \<Rightarrow> bool" where
  "ct_ok ce K A st \<longleftrightarrow> (case st of (h, cw) \<Rightarrow>
     ctl.ready ce K A h (h, cw) (rb_cursor (ch_read h)) (rb_to_read (ch_read h)) (rb_buffer (ch_read h)) \<and> rb_to_read (ch_read h) \<noteq> 0)"

lemma ct_inv_rebase:
  assumes "ct_inv ce K A h0 (h, cw) m pre" and "wq_ok (ch_write h')" and "recv_of (ch_state h') = recv_of (ch_state h)"
    and "wq_pend (ch_write h') \<noteq> [] \<longrightarrow> send_of (ch_state h') \<noteq> 0" and "cw_ok ce K A cw'"
  shows "ct_inv ce K A h' (h', cw') m pre"
  using assms by (simp add: ct_inv_def ct_good_def)

lemma ct_ok_good: "ct_ok ce K A (h, cw) \<Longrightarrow> ct_good ce K A h (h, cw) \<and> kernel_ok ce K \<and> ct_live (h, cw)"
  by (auto simp: ct_ok_def ctl.ready_def ct_inv_def ct_live_def Let_def)

lemma ct_ok_rebase:
  assumes "ct_ok ce K A (h, cw)" and "wq_ok (ch_write h')" and "recv_of (ch_state h') = recv_of (ch_state h)"
    and "wq_pend (ch_write h') \<noteq> [] \<longrightarrow> send_of (ch_state h') \<noteq> 0" and "cw_ok ce K A cw'" and "ch_read h' = ch_read h"
  shows "ct_ok ce K A (h', cw')"
  using assms(1) ct_inv_rebase [OF _ assms(2-5), of h cw] assms(6) by (simp add: ct_ok_def ctl.ready_def)

lemma ct_suicide_ok: "ct_ok ce K A (h, cw) \<Longrightarrow> ct_ok ce K A (ct_suicide h cw)"
  unfolding ct_suicide_def by (rule ct_ok_rebase, assumption) (auto dest: ct_ok_good simp: ct_good_def)

lemma ct_ok_clog: "ct_ok ce K A (h, cw) \<Longrightarrow> args \<noteq> [] \<Longrightarrow> ct_ok ce K A (h, clog n args cw)"
  by (rule ct_ok_rebase, assumption) (auto dest: ct_ok_good simp: ct_good_def cw_ok_clog)

text \<open>A method either keeps the connection's state word and interest, or has closed the connection.\<close>

definition keeps :: "chandler \<Rightarrow> chandler \<Rightarrow> bool" where
  "keeps h h' \<longleftrightarrow> ch_id h' = ch_id h \<and> ch_events h' = ch_events h"

lemma ct_do_read_ok:
  assumes "ct_ok ce K A (h, cw)"
  shows "(\<exists>h' cw'. ct_do_read ce h cw = Inr (h', cw') \<and> ct_ok ce K A (h', cw') \<and> keeps h h') \<or>
    (\<exists>e\<in>{Out_Of_Bounds, Dangling}. ct_do_read ce h cw = Inl e)"
proof -
  have G: "ct_good ce K A h (h, cw)" "ct_live (h, cw)" using ct_ok_good [OF assms] by simp_all
  have pos: "0 < e_ps (ce_env ce)" by (rule cw_okD(4) [OF ct_goodD(1) [OF G(1)]])
  then have ps: "e_ps (ce_env ce) = Suc (e_ps (ce_env ce) - 1)" by simp
  have R: "ctl.ready ce K A h (h, cw) (rb_cursor (ch_read h)) (rb_to_read (ch_read h)) (rb_buffer (ch_read h))" "rb_to_read (ch_read h) \<noteq> 0"
    using assms by (simp_all add: ct_ok_def)
  from ctl.loop_total [OF R(1), of "e_ps (ce_env ce) - 1" "ch_in h", folded ps] show ?thesis
  proof (elim disjE exE conjE)
    fix st rb s r assume L: "read_loop (e_ps (ce_env ce)) (ct_complete ce) (h, cw) (ch_read h) (ch_in h) = Inr (st, rb, s, r)"
      and rd: "ctl.ready ce K A h st (rb_cursor rb) (rb_to_read rb) (rb_buffer rb)"
    obtain h1 cw1 where st: "st = (h1, cw1)" by (cases st)
    let ?h = "h1\<lparr>ch_read := rb, ch_in := s\<rparr>"
    have I: "ct_good ce K A h (h1, cw1)" using rd st by (simp add: ctl.ready_def ct_inv_def)
    have "ct_inv ce K A ?h (?h, cw1) m pre" if "ct_inv ce K A h (h1, cw1) m pre" for m pre
      by (rule ct_inv_rebase [OF that]) (use I in \<open>simp_all add: ct_good_def\<close>)
    then have ok: "ct_ok ce K A (?h, cw1)"
      using rd st ctl_asks.loop_hungry(2) [OF pos G(2) R(2) L] by (simp add: ct_ok_def ctl.ready_def)
    have k: "keeps h ?h" using I by (simp add: keeps_def ct_good_def)
    have s: "ct_ok ce K A (ct_suicide ?h (clog n args cw1))" "keeps h (fst (ct_suicide ?h (clog n args cw1)))" if "args \<noteq> []" for n args
      using ct_suicide_ok [OF ct_ok_clog [OF ok that]] k by (simp_all add: keeps_def ct_suicide_def)
    have "\<exists>h' cw'. ct_do_read ce h cw = Inr (h', cw') \<and> ct_ok ce K A (h', cw') \<and> keeps h h'"
    proof (cases "\<exists>n args. args \<noteq> [] \<and> ct_do_read ce h cw = Inr (ct_suicide ?h (clog n args cw1))")
      case True
      then show ?thesis using s by (metis surj_pair fst_conv)
    next
      case False
      then have "ct_do_read ce h cw = Inr (?h, cw1)"
        using L st by (auto simp: ct_do_read_def Let_def split: option.splits io_ret.splits nat.splits if_splits)
      with ok k show ?thesis by blast
    qed
    then show ?thesis by simp
  qed (auto simp: ct_do_read_def)
qed

lemma ct_do_write_ok:
  assumes "ct_ok ce K A (h, cw)"
  shows "\<exists>h' cw'. ct_do_write ce h cw = Inr (h', cw') \<and> ct_ok ce K A (h', cw') \<and> keeps h h'"
proof -
  have G: "ct_good ce K A h (h, cw)" using ct_ok_good [OF assms] by simp
  obtain r wq out bs where W: "write_loop (ch_write h) (ct_out h) = Inr (r, wq, out)" "wq_ok wq" "wq_pend (ch_write h) = bs @ wq_pend wq"
    "r = None \<longleftrightarrow> wq_pend wq = []" "\<forall>q. r = Some q \<longrightarrow> \<not> positive q"
    using write_loop_ok [OF ct_goodD(2) [OF G], of "ct_out h"] by blast
  let ?h = "h\<lparr>ch_write := wq, ch_out := out\<rparr>"
  have ok: "ct_ok ce K A (?h, cw)" by (rule ct_ok_rebase [OF assms]) (use G W in \<open>auto simp: ct_good_def\<close>)
  have k: "keeps h ?h" by (simp add: keeps_def)
  show ?thesis
  proof (cases r)
    case None
    have "recv_of (ch_state h AND NOT BC_SEND_MASK) = recv_of (ch_state h)"
      by (simp add: bc_states and.assoc)
    then have "ct_ok ce K A (?h\<lparr>ch_state := ch_state ?h AND NOT BC_SEND_MASK\<rparr>, cw)"
      by (intro ct_ok_rebase [OF ok]) (use G W None in \<open>auto simp: ct_good_def\<close>)
    with W(1) None show ?thesis by (simp add: ct_do_write_def keeps_def)
  next
    case (Some q)
    have s: "ct_ok ce K A (ct_suicide ?h (clog n args cw))" "keeps h (fst (ct_suicide ?h (clog n args cw)))" if "args \<noteq> []" for n args
      using ct_suicide_ok [OF ct_ok_clog [OF ok that]] by (simp_all add: keeps_def ct_suicide_def)
    show ?thesis
    proof (cases "\<exists>args. args \<noteq> [] \<and> ct_do_write ce h cw = Inr (ct_suicide ?h (clog ERROR args cw))")
      case True
      then show ?thesis using s by (metis surj_pair fst_conv)
    next
      case False
      then have "ct_do_write ce h cw = Inr (?h, cw)"
        using W(1) Some by (auto simp: ct_do_write_def Let_def split: io_ret.splits if_splits)
      with ok k show ?thesis by blast
    qed
  qed
qed

lemma ct_io_cb_ok:
  assumes "ct_ok ce K A (h, cw)" and "ch_events h = armed (ch_state h)"
  shows "(\<exists>h' cw'. ct_io_cb ce revents h cw = Inr (h', cw') \<and> ct_ok ce K A (h', cw') \<and> ch_events h' = armed (ch_state h') \<and> ch_id h' = ch_id h) \<or>
    (\<exists>e\<in>{Out_Of_Bounds, Dangling}. ct_io_cb ce revents h cw = Inl e)"
proof -
  let ?r = "if ch_state h AND CT_RECV_MASK \<noteq> 0 \<and> revents AND BEV_READ \<noteq> 0 then ct_do_read ce h cw else Inr (h, cw)"
  consider (err) e where "e \<in> {Out_Of_Bounds, Dangling}" "?r = Inl e"
    | (ok) h1 cw1 where "?r = Inr (h1, cw1)" "ct_ok ce K A (h1, cw1)" "keeps h h1"
  proof (cases "ch_state h AND CT_RECV_MASK \<noteq> 0 \<and> revents AND BEV_READ \<noteq> 0")
    case True
    then have "?r = ct_do_read ce h cw" by simp
    with ct_do_read_ok [OF assms(1)] that show thesis by metis
  next
    case False
    then have "?r = Inr (h, cw)" by auto
    moreover have "keeps h h" by (simp add: keeps_def)
    ultimately show thesis using that(2) assms(1) by blast
  qed
  then show ?thesis
  proof cases
    case err
    then show ?thesis by (auto simp: ct_io_cb_def)
  next
    case ok
    have a: "rb_to_read (ch_read h1) \<noteq> 0" "recv_of (ch_state h1) \<noteq> 0"
      using ok(2) ct_ok_good [OF ok(2)] by (auto simp: ct_ok_def ct_live_def bc_states)
    have "\<exists>h2 cw2. (if revents AND BEV_WRITE \<noteq> 0 then ct_do_write ce h1 cw1 else Inr (h1, cw1)) = Inr (h2, cw2) \<and>
        ct_ok ce K A (h2, cw2) \<and> keeps h1 h2"
      using ct_do_write_ok [OF ok(2)] ok(2) by (simp add: keeps_def)
    then obtain h2 cw2 where W: "(if revents AND BEV_WRITE \<noteq> 0 then ct_do_write ce h1 cw1 else Inr (h1, cw1)) = Inr (h2, cw2)"
        "ct_ok ce K A (h2, cw2)" "keeps h1 h2" by blast
    let ?h = "if ch_state h2 \<noteq> ch_state h then h2\<lparr>ch_events := armed (ch_state h2)\<rparr> else h2"
    have "ct_io_cb ce revents h cw = Inr (?h, cw2)"
      using ok(1) a W(1) by (simp add: ct_io_cb_def armed_def assertR_def)
    moreover have "ct_ok ce K A (?h, cw2)"
      by (rule ct_ok_rebase [OF W(2)]) (use ct_ok_good [OF W(2)] in \<open>auto simp: ct_good_def\<close>)
    moreover have "ch_events ?h = armed (ch_state ?h)" "ch_id ?h = ch_id h"
      using W(3) ok(3) assms(2) by (auto simp: keeps_def)
    ultimately show ?thesis by blast
  qed
qed

text \<open>The part of the invariant that is about the object alone.\<close>

definition ch_ok :: "chandler \<Rightarrow> bool" where
  "ch_ok h \<longleftrightarrow> wq_ok (ch_write h) \<and> (wq_pend (ch_write h) \<noteq> [] \<longrightarrow> send_of (ch_state h) \<noteq> 0) \<and>
     (let r = recv_of (ch_state h); rb = ch_read h; pre = take (rb_cursor rb) (vb_bytes (rb_buffer rb)) in
      rb_to_read rb \<noteq> 0 \<and> rb_cursor rb \<le> vb_allocated (rb_buffer rb) \<and> 0 < vb_allocated (rb_buffer rb) \<and>
      (r = BC_RECV_HEADER \<and> rb_cursor rb + rb_to_read rb = 6 \<or>
       r = BC_RECV_PAYLOAD \<and> 6 \<le> length pre \<and> rb_cursor rb + rb_to_read rb = 6 + cm_length pre \<and> 0 < cm_length pre))"

lemma ct_ok_iff: "ct_ok ce K A (h, cw) \<longleftrightarrow> kernel_ok ce K \<and> cw_ok ce K A cw \<and> ch_ok h"
  by (auto simp: ct_ok_def ctl.ready_def ct_inv_def ct_good_def ch_ok_def Let_def)

lemma ch_new_ok: "0 < e_ps (ce_env ce) \<Longrightarrow> ch_ok (fst (ch_new ce inp out cw))"
  using rb_new_allocated [of "e_ps (ce_env ce)" 6] by (simp add: ch_new_def ch_ok_def Let_def)

lemma ch_ok_feed [simp]: "ch_ok (h\<lparr>ch_in := inp, ch_out := out\<rparr>) = ch_ok h" "ch_ok (h\<lparr>ch_active := b\<rparr>) = ch_ok h"
  by (simp_all add: ch_ok_def)

end
