(* ===== verification/Control_Frames.thy ===== *)
theory Control_Frames
  imports Control_Session
begin

text \<open>
  What a client of the control protocol gets for the frames it sends: whole sessions of well-formed
  frames, the registration of a message and its delivery, the list of connections, the wire form
  of addresses, and two defects of the handlers.
\<close>

section \<open>The frames of a client\<close>

definition ct_wire :: "u8 \<Rightarrow> byte list \<Rightarrow> byte list" where
  "ct_wire ty p = [0] @ be32 (of_nat (length p)) @ [ty] @ p"

lemma ct_wire_length [simp]: "length (ct_wire ty p) = 6 + length p"
  by (simp add: ct_wire_def)

lemma ct_wire_fields:
  assumes "length p < 2 ^ 32" and "take (6 + length p) msg = ct_wire ty p"
  shows "cm_length msg = length p" "cm_type msg = ty" "cm_version msg = 0" "take (length p) (drop 6 msg) = p"
proof -
  let ?w = "ct_wire ty p"
  have l: "6 + length p \<le> length msg" using arg_cong [OF assms(2), of length] by simp
  have m: "msg = ?w @ drop (6 + length p) msg" using append_take_drop_id [of "6 + length p" msg] assms(2) by simp
  have f: "take 4 (drop 1 ?w) = be32 (of_nat (length p))" "?w ! 5 = ty" "?w ! 0 = 0" "drop 6 ?w = p"
    by (simp_all add: ct_wire_def nth_append)
  have "field 1 4 msg = be32 (of_nat (length p))"
    unfolding field_def by (subst m) (simp add: f [simplified])
  then show "cm_length msg = length p" using assms(1) by (simp add: cm_length_def ntoh32_get32 unat_of_nat)
  show "cm_type msg = ty" "cm_version msg = 0" using f(2,3) by (subst m, simp add: cm_type_def cm_version_def nth_append)+
  show "take (length p) (drop 6 msg) = p" by (subst m) (simp add: f)
qed

lemma ct_frame_run:
  assumes "0 < ps" and "recv_of (ch_state h) = BC_RECV_HEADER" and "p \<noteq> []" and "length p < 2 ^ 32" and "0 < vb_allocated buf"
  obtains mem where "take (6 + length p) (vb_bytes mem) = ct_wire ty p" and "0 < vb_allocated mem" and "framed (vb_bytes mem)"
    and "stream_run ps (ct_complete ce) (h, cw) 0 6 buf (ct_wire ty p @ rest) =
      bindR (receive_payload ce (vb_bytes mem) (h\<lparr>ch_state := send_of (ch_state h) OR BC_RECV_PAYLOAD\<rparr>) cw)
        (\<lambda>(st', cmd). case cmd of Extend k \<Rightarrow> stream_run ps (ct_complete ce) st' (6 + length p) k mem rest
          | Restart k \<Rightarrow> stream_run ps (ct_complete ce) st' 0 k mem rest)"
proof -
  let ?f = "ct_complete ce" and ?h = "h\<lparr>ch_state := send_of (ch_state h) OR BC_RECV_PAYLOAD\<rparr>" and ?w = "ct_wire ty p"
  have w: "?w = take 6 ?w @ p" "length (take 6 ?w) = 6" by (simp_all add: ct_wire_def)
  have cat: "take 6 ?w @ (p @ rest) = ?w @ rest" using w(1) by (metis append.assoc)
  obtain b1 where B1: "vb_allocated b1 \<ge> 6" "take 6 (vb_bytes b1) = take 6 ?w"
    and S1: "stream_run ps ?f (h, cw) 0 6 buf (take 6 ?w @ (p @ rest)) =
      bindR (?f (h, cw) 6 b1) (\<lambda>(st', cmd). case cmd of
          Extend k \<Rightarrow> stream_run ps ?f st' 6 k b1 (p @ rest) | Restart k \<Rightarrow> stream_run ps ?f st' 0 k b1 (p @ rest))"
    by (rule stream_run_frame [OF assms(1) zero_less_numeral assms(5) w(2)])
  have c1: "cm_length (vb_bytes b1) = length p" "cm_version (vb_bytes b1) = 0"
  proof -
    have "cm_length (vb_bytes b1) = cm_length ?w" using cm_take(1) [of 6 "vb_bytes b1"] cm_take(1) [of 6 ?w] B1(2) by simp
    then show "cm_length (vb_bytes b1) = length p" using ct_wire_fields(1) [of p ?w ty] assms(4) by simp
    have "vb_bytes b1 ! 0 = take 6 (vb_bytes b1) ! 0" by simp
    then show "cm_version (vb_bytes b1) = 0" unfolding B1(2) by (simp add: cm_version_def ct_wire_def)
  qed
  have p1: "vb_const_ptr b1 = Inr (vb_bytes b1)" "rd (vb_bytes b1) 0 6 = Inr (take 6 (vb_bytes b1))"
    using B1(1) by (auto simp: vb_const_ptr_def rd_def vb_allocated_def)
  have F1: "?f (h, cw) 6 b1 = Inr ((?h, cw), Extend (length p))"
    using assms(2,3) c1 p1 by (simp add: ct_complete_def receive_header_def)
  have a: "0 < vb_allocated b1" "0 < length p" using B1(1) assms(3) by simp_all
  obtain mem where B2: "vb_allocated mem \<ge> 6 + length p" "take (6 + length p) (vb_bytes mem) = take 6 (vb_bytes b1) @ p"
    and S2: "stream_run ps ?f (?h, cw) 6 (length p) b1 (p @ rest) =
      bindR (?f (?h, cw) (6 + length p) mem) (\<lambda>(st', cmd). case cmd of
          Extend k \<Rightarrow> stream_run ps ?f st' (6 + length p) k mem rest | Restart k \<Rightarrow> stream_run ps ?f st' 0 k mem rest)"
    by (rule stream_run_frame_at [OF assms(1) a(2,1) B1(1) refl])
  have t: "take (6 + length p) (vb_bytes mem) = ?w" using B2(2) B1(2) w(1) by simp
  note F = ct_wire_fields [OF assms(4) t]
  have p2: "vb_const_ptr mem = Inr (vb_bytes mem)" "rd (vb_bytes mem) 0 6 = Inr (take 6 (vb_bytes mem))"
    using B2(1) by (auto simp: vb_const_ptr_def rd_def vb_allocated_def)
  have F2: "?f (?h, cw) (6 + length p) mem = receive_payload ce (vb_bytes mem) ?h cw" using p2 by (simp add: ct_complete_def)
  show thesis
  proof (rule that [OF t])
    show "0 < vb_allocated mem" using B2(1) by simp
    show "framed (vb_bytes mem)" using B2(1) F(1) a(2) by (simp add: framed_def vb_allocated_def)
    show "stream_run ps ?f (h, cw) 0 6 buf (?w @ rest) =
      bindR (receive_payload ce (vb_bytes mem) ?h cw)
        (\<lambda>(st', cmd). case cmd of Extend k \<Rightarrow> stream_run ps ?f st' (6 + length p) k mem rest | Restart k \<Rightarrow> stream_run ps ?f st' 0 k mem rest)"
      using S1 S2 cat unfolding F1 F2 by simp
  qed
qed


section \<open>Registering and sending\<close>

lemma be32_not_Nil [simp]: "be32 x \<noteq> []"
  using length_enc_words(4) [of x] by (metis list.size(3) zero_neq_numeral)

text \<open>A valid message is stored under a fresh number, which is the answer.\<close>

lemma register_effect:
  assumes "ct_good ce K A h0 (h, cw)" and "framed msg" and "cm_version msg = 0" and "cm_type msg = BITCOIN_PACKED_MESSAGE"
    and "registrable msg" and "map_of (messages_of (ch_id h) cw) (cw_message_ids cw) = None"
  obtains h' cw' b where "receive_payload ce msg h cw = Inr ((h', cw'), Restart 6)" and "ct_good ce K A h0 (h', cw')"
    and "wq_pend (ch_write h') = wq_pend (ch_write h) @ be32 (cw_message_ids cw)" and "recv_of (ch_state h') = BC_RECV_HEADER"
    and "map_of (messages_of (ch_id h) cw') (cw_message_ids cw) = Some b" and "msg_ok (vb_bytes b)"
    and "msg_take (vb_bytes b) = take (cm_length msg) (drop 6 msg)" and "w_active (cw_world cw') = w_active (cw_world cw)"
    and "\<And>j. sent_log j (cw_world cw') = sent_log j (cw_world cw)"
proof -
  note ok = ct_goodD(1) [OF assms(1)]
  obtain b where B: "registered_msg (e_ps (ce_env ce)) msg = Inr b" "take (cm_length msg) (vb_bytes b) = take (cm_length msg) (drop 6 msg)"
    "cm_length msg \<le> vb_allocated b" using registered_msg_ok [OF cw_okD(4) [OF ok] assms(2)] by blast
  have v: "msg_ok (vb_bytes b)" "msg_take (vb_bytes b) = take (cm_length msg) (drop 6 msg)"
    using valid_message [OF B(2,3)] assms(5) by (simp_all add: registrable_def)
  let ?i = "cw_message_ids cw" and ?old = "messages_of (ch_id h) cw" and ?env = "ce_env ce"
  let ?cw1 = "set_messages (ch_id h) (AList.update ?i b ?old) (cw\<lparr>cw_message_ids := ?i + 1\<rparr>)"
  let ?cw3 = "clog CTRL [ascii ''message registered'', e_dec ?env (unat (ch_regid h)), e_dec ?env (unat ?i)]
    (clog CTRL [ascii ''Registering message '', e_dec ?env (unat (ch_regid h)), ce_show ce (drop 6 msg)] ?cw1)"
  have "\<forall>(k, c)\<in>set (AList.update ?i b ?old). msg_ok (vb_bytes c)"
    using messages_of_all [OF cw_okD(2) [OF ok], of "ch_id h"] v(1) by (auto dest!: mem_update_weak)
  then have "cw_ok ce K A ?cw1" by (intro cw_ok_messages) (simp_all add: ok)
  then have ok3: "cw_ok ce K A ?cw3" by (intro cw_ok_clog) simp_all
  have n: "le32 (hton32 ?i) \<noteq> []" by (simp add: le32_hton32)
  obtain wq where Q: "wq_append (e_ps ?env) (le32 (hton32 ?i)) (ch_write h) = Inr wq"
    "ct_good ce K A h0 (ch_send (h\<lparr>ch_write := wq\<rparr>), ?cw3)" "replies h (le32 (hton32 ?i)) (ch_send (h\<lparr>ch_write := wq\<rparr>))"
    using append_reply [OF ct_good_world [OF assms(1) ok3] n] by blast
  let ?h = "ch_send (h\<lparr>ch_write := wq\<rparr>)"
  have R: "register_message ce msg h cw = Inr (?h, ?cw3)"
    unfolding register_message_def Let_def register_valid [OF assms(2)] using assms(5,6) B(1) Q(1) by simp
  let ?h' = "?h\<lparr>ch_state := send_of (ch_state ?h) OR BC_RECV_HEADER\<rparr>"
  show thesis
  proof (rule that [of ?h' ?cw3 b])
    show "receive_payload ce msg h cw = Inr ((?h', ?cw3), Restart 6)" using R assms(3,4) by (simp add: receive_payload_def Let_def)
    show "ct_good ce K A h0 (?h', ?cw3)" by (rule ct_good_recv [OF Q(2)]) simp
    show "wq_pend (ch_write ?h') = wq_pend (ch_write h) @ be32 ?i" using Q(3) by (simp add: replies_def le32_hton32)
    show "map_of (messages_of (ch_id h) ?cw3) ?i = Some b"
      using messages_of_set [of "ch_id h" "AList.update ?i b ?old" "cw\<lparr>cw_message_ids := ?i + 1\<rparr>"]
      by (simp add: messages_of_def update_conv')
    show "w_active (cw_world ?cw3) = w_active (cw_world cw)" "sent_log j (cw_world ?cw3) = sent_log j (cw_world cw)" for j
      by (simp_all add: set_messages_def)
  qed (use v in simp_all)
qed

text \<open>Sending to one connection appends the message to what it has to send.\<close>

lemma send_target:
  assumes "world_ok env w" and "map_of (w_active w) t = Some c" and "msg_ok (vb_bytes b)"
  obtains w' where "on_handler t (append_for_write_buf b) w = Inr w'" and "world_ok env w'" and "map fst (w_active w') = map fst (w_active w)"
    and "sent_log t w' = sent_log t w @ msg_take (vb_bytes b)" and "\<And>j. j \<noteq> t \<Longrightarrow> sent_log j w' = sent_log j w"
proof -
  have "conn_ok env t w (c, w)" using assms(1) map_of_SomeD [OF assms(2)] by (auto simp: world_ok_def)
  note S = sess_okD(1,7) [OF conn_okD(1) [OF this]]
  obtain c' w' where F: "append_for_write_buf b c w = Inr (c', w')" "acts c w [] (msg_take (vb_bytes b)) c' w'"
    by (rule append_for_write_buf_ok [OF S(1) assms(3)])
  have L: "log_grows t w [] (msg_take (vb_bytes b)) w'" using F(2) S(2) by (simp add: acts_def)
  let ?w = "if h_active c' then w'\<lparr>w_active := AList.update t c' (w_active w')\<rparr>
               else w'\<lparr>w_active := AList.delete t (w_active w'), w_inactive := c' # w_inactive w'\<rparr>"
  have O: "on_handler t (append_for_write_buf b) w = Inr ?w" using F(1) assms(2) by (simp add: on_handler_def)
  have "world_ok env ?w" using send_cmd.target_ok [OF assms(1,3), of t] O by (metis Inr_inject)
  then show thesis
    by (rule that [OF O _ send_cmd.target_keys [OF assms(1) O]]) (use L in \<open>simp_all add: log_grows_def\<close>)
qed

text \<open>
  A command with the targets \<open>ts\<close>: every open connection gets one copy for each time it is named;
  a target that is not open is only reported.
\<close>

definition copies :: "world \<Rightarrow> u32 list \<Rightarrow> byte list \<Rightarrow> u32 \<Rightarrow> byte list" where
  "copies w ts m j = (if j \<in> fst ` set (w_active w) then concat (replicate (count_list ts j) m) else [])"

lemma copies_keys: "map fst (w_active w') = map fst (w_active w) \<Longrightarrow> copies w' = copies w"
  by (rule ext)+ (metis copies_def list.set_map)

lemma deliver_loop:
  assumes "msg_ok (vb_bytes b)"
  shows "world_ok env w \<Longrightarrow> drop (9 + 4 * k) cmd = concat (map be32 ts) @ r \<Longrightarrow> \<exists>w'. target_loop e (append_for_write_buf b) cmd k (length ts) w = Inr w' \<and>
    map fst (w_active w') = map fst (w_active w) \<and> (\<forall>j. sent_log j w' = sent_log j w @ copies w ts (msg_take (vb_bytes b)) j)"
proof (induction ts arbitrary: k w)
  case Nil
  then show ?case by (simp add: copies_def)
next
  case (Cons t ts)
  let ?m = "msg_take (vb_bytes b)" and ?f = "append_for_write_buf b"
  have l: "9 + 4 * k + 4 \<le> length cmd" using arg_cong [OF Cons.prems(2), of length] by simp
  have d: "drop (9 + 4 * Suc k) cmd = concat (map be32 ts) @ r"
    using arg_cong [OF Cons.prems(2), of "drop 4"] by (simp add: add.commute)
  have R: "rd cmd (9 + 4 * k) 4 = Inr (be32 t)" "rd cmd 1 4 = Inr (take 4 (drop 1 cmd))" using l Cons.prems(2) by (simp_all add: rd_def)
  let ?l = "LText DEBUG [ascii ''Attempting to send command message'', e_dec e (unat (ntoh32 (get32 (take 4 (drop 1 cmd))))),
                ascii ''to non-existant target'', e_dec e (unat t)]"
  obtain w1 where W: "(if map_of (w_active w) t \<noteq> None then on_handler t ?f w else Inr (log_add ?l w)) = Inr w1"
    "world_ok env w1" "map fst (w_active w1) = map fst (w_active w)"
    "\<And>j. sent_log j w1 = sent_log j w @ (if j = t \<and> j \<in> fst ` set (w_active w) then ?m else [])"
  proof (cases "map_of (w_active w) t")
    case None
    then have "t \<notin> fst ` set (w_active w)" by (simp add: map_of_eq_None_iff)
    with None Cons.prems(1) show thesis by (intro that [of "log_add ?l w"]) (auto simp: world_ok_text)
  next
    case (Some c)
    then have "t \<in> fst ` set (w_active w)" using map_of_SomeD by force
    moreover obtain w' where "on_handler t ?f w = Inr w'" "world_ok env w'" "map fst (w_active w') = map fst (w_active w)"
      "sent_log t w' = sent_log t w @ ?m" "\<And>j. j \<noteq> t \<Longrightarrow> sent_log j w' = sent_log j w"
      by (rule send_target [OF Cons.prems(1) Some assms]) blast
    ultimately show thesis using Some by (intro that [of w']) auto
  qed
  obtain w2 where V: "target_loop e ?f cmd (Suc k) (length ts) w1 = Inr w2" "map fst (w_active w2) = map fst (w_active w1)"
    "\<And>j. sent_log j w2 = sent_log j w1 @ copies w1 ts ?m j" using Cons.IH [OF W(2) d] by blast
  have "target_loop e ?f cmd k (length (t # ts)) w = Inr w2"
    using R W(1) V(1) by (simp add: ntoh32_get32 Let_def split: if_splits)
  with V(2,3) W(3,4) copies_keys [OF W(3)] show ?case by (auto simp: copies_def)
qed

definition send_payload :: "u32 \<Rightarrow> u32 list \<Rightarrow> byte list" where
  "send_payload i ts = [COMMAND_SEND_MSG] @ be32 i @ be32 (of_nat (length ts)) @ concat (map be32 ts)"

lemma length_concat_be32 [simp]: "length (concat (map be32 ts)) = 4 * length ts"
  by (induction ts) simp_all

lemma length_send_payload [simp]: "length (send_payload i ts) = 9 + 4 * length ts"
  by (simp add: send_payload_def)

lemma enc_le_4: "enc_le 4 v = [of_nat v, of_nat (v div 256), of_nat (v div 256 div 256), of_nat (v div 256 div 256 div 256)]"
proof -
  have "enc_le (Suc (Suc (Suc (Suc 0)))) v = [of_nat v, of_nat (v div 256), of_nat (v div 256 div 256), of_nat (v div 256 div 256 div 256)]"
    by simp
  then show ?thesis by (simp only: numeral_nat One_nat_def)
qed

lemma broadcast_order: "ntoh32 BROADCAST_TARGET = BROADCAST_TARGET"
proof -
  have "le32 BROADCAST_TARGET = [255, 255, 255, 255]" unfolding le32_def BROADCAST_TARGET_def enc_le_4 by simp
  then show ?thesis by (simp add: ntoh32_def get32_def BROADCAST_TARGET_def)
qed

lemma not_broadcast: "t \<noteq> BROADCAST_TARGET \<Longrightarrow> get32 (be32 t) \<noteq> BROADCAST_TARGET"
  by (metis broadcast_order getb32_be32 length_enc_words(4) ntoh32_get32)

lemma command_fields:
  assumes "c = [x] @ be32 i @ be32 n @ r"
  shows "c ! 0 = x" "take 4 (drop 1 c) = be32 i" "take 4 (drop 5 c) = be32 n" "drop 9 c = r"
  by (simp_all add: assms)

lemma send_foreach:
  assumes "world_ok env w" and "msg_ok (vb_bytes b)" and "c = send_payload i ts @ r" and "length ts < 2 ^ 32" and "ts \<noteq> [BROADCAST_TARGET]"
  shows "\<exists>w'. foreach_handlers e (append_for_write_buf b) c w = Inr w' \<and> (\<forall>j. sent_log j w' = sent_log j w @ copies w ts (msg_take (vb_bytes b)) j)"
proof -
  note f = command_fields [OF assms(3) [unfolded send_payload_def append.assoc]]
  have cnt: "unat (ntoh32 (get32 (take 4 (drop 5 c)))) = length ts" using f(3) assms(4) by (simp add: ntoh32_get32 unat_of_nat)
  have l: "9 + 4 * length ts \<le> length c" using assms(3) by simp
  let ?w = "if length ts > length (w_active w) then log_add (LText DEBUG [ascii ''Target count larger than all cxn'', e_dec e (length ts),
                        e_dec e (length (w_active w))]) w else w"
  have W: "world_ok env ?w" "copies ?w = copies w" "\<And>j. sent_log j ?w = sent_log j w"
    using world_ok_text [OF assms(1)] assms(1) by (simp_all add: copies_def fun_eq_iff)
  have nb: "get32 (take 4 (drop 9 c)) \<noteq> BROADCAST_TARGET" if one: "length ts = 1"
  proof -
    obtain t where "ts = [t]" using one by (cases ts) auto
    with not_broadcast [of t] assms(5) f(4) show ?thesis by simp
  qed
  have "foreach_handlers e (append_for_write_buf b) c w = target_loop e (append_for_write_buf b) c 0 (length ts) ?w"
    using l cnt nb by (simp add: foreach_handlers_def rd_def Let_def)
  moreover have "drop (9 + 4 * 0) c = concat (map be32 ts) @ r" using f(4) by simp
  ultimately show ?thesis using deliver_loop [OF assms(2) W(1), of 0 c ts r e] W(2,3) by auto
qed

lemma send_effect:
  assumes "ct_good ce K A h0 (h, cw)" and "framed msg" and "cm_version msg = 0" and "cm_type msg = COMMAND"
    and "drop 6 msg = send_payload i ts @ r" and "map_of (messages_of (ch_id h) cw) i = Some b"
    and "length ts < 2 ^ 32" and "ts \<noteq> [BROADCAST_TARGET]"
  obtains h' cw' where "receive_payload ce msg h cw = Inr ((h', cw'), Restart 6)" and "wq_pend (ch_write h') = wq_pend (ch_write h)"
    and "\<And>j. sent_log j (cw_world cw') = sent_log j (cw_world cw) @ copies (cw_world cw) ts (msg_take (vb_bytes b)) j"
proof -
  note ok = ct_goodD(1) [OF assms(1)]
  let ?c = "drop 6 msg" and ?cw = "set_messages (ch_id h) (messages_of (ch_id h) cw) cw"
  note f = command_fields [OF assms(5) [unfolded send_payload_def append.assoc]]
  from messages_of_ok [OF cw_okD(2) [OF ok] assms(6)] have b: "msg_ok (vb_bytes b)" .
  obtain w' where W: "foreach_handlers (ce_env ce) (append_for_write_buf b) ?c (cw_world cw) = Inr w'"
    "\<And>j. sent_log j w' = sent_log j (cw_world cw) @ copies (cw_world cw) ts (msg_take (vb_bytes b)) j"
    using send_foreach [OF cw_okD(1) [OF ok] b assms(5,7,8), of "ce_env ce"] by blast
  have ms: "messages_of (ch_id h) ?cw = messages_of (ch_id h) cw" "cw_world ?cw = cw_world cw"
    using messages_of_set by (auto simp: set_messages_def)
  have l: "9 \<le> length ?c" unfolding assms(5) by simp
  have H: "ct_handle_message_recv ce ?c h cw = Inr (h, cw_set w' ?cw)"
    using f(1,2) l W(1) ms assms(6) by (simp add: ct_handle_message_recv_def ct_commands rd_def Let_def ntoh32_get32 take_Suc_conv_app_nth)
  show thesis
    by (rule that [of "h\<lparr>ch_state := send_of (ch_state h) OR BC_RECV_HEADER\<rparr>" "cw_set w' ?cw"])
      (use H W(2) assms(3,4) in \<open>simp_all add: receive_payload_def ct_types\<close>)
qed

section \<open>Sessions\<close>

definition frame_ok :: "u8 \<times> byte list \<Rightarrow> bool" where
  "frame_ok f \<longleftrightarrow> (case f of (ty, p) \<Rightarrow> length p < 2 ^ 32 \<and> (p = [] \<or> frame_wf (ct_wire ty p)))"

lemma ct_inv_header: "ct_inv ce K A h0 (h, cw) 6 [] \<Longrightarrow> recv_of (ch_state h) = BC_RECV_HEADER"
  by (auto simp: ct_inv_def Let_def)

lemma ct_invD: "ct_inv ce K A h0 (h, cw) m pre \<Longrightarrow> ct_good ce K A h0 (h, cw)" "ct_inv ce K A h0 (h, cw) m pre \<Longrightarrow> kernel_ok ce K"
  by (simp_all add: ct_inv_def)

lemma ct_inv_waiting:
  "ct_good ce K A h0 (h, cw) \<Longrightarrow> kernel_ok ce K \<Longrightarrow> recv_of (ch_state h) = BC_RECV_HEADER \<Longrightarrow> ct_inv ce K A h0 (h, cw) 6 []"
  by (simp add: ct_inv_def)

lemma ct_good_ps: "ct_good ce K A h0 (h, cw) \<Longrightarrow> 0 < e_ps (ce_env ce)"
  by (rule cw_okD(4) [OF ct_goodD(1)])

lemma ct_one_frame:
  assumes "ct_inv ce K A h0 (h, cw) 6 []" and "frame_ok (ty, p)" and "0 < vb_allocated buf"
  obtains h' cw' b where "stream_run (e_ps (ce_env ce)) (ct_complete ce) (h, cw) 0 6 buf (ct_wire ty p @ rest) =
      stream_run (e_ps (ce_env ce)) (ct_complete ce) (h', cw') 0 6 b rest"
    and "0 < vb_allocated b" and "ct_inv ce K A h0 (h', cw') 6 []"
proof -
  note G = ct_invD [OF assms(1)] and H = ct_inv_header [OF assms(1)]
  note ps = ct_good_ps [OF G(1)]
  have l: "length p < 2 ^ 32" using assms(2) by (simp add: frame_ok_def)
  show thesis
  proof (cases "p = []")
    case True
    let ?w = "ct_wire ty p"
    have lw: "length ?w = 6" using True by simp
    obtain b where B: "vb_allocated b \<ge> 6" "take 6 (vb_bytes b) = ?w"
      "stream_run (e_ps (ce_env ce)) (ct_complete ce) (h, cw) 0 6 buf (?w @ rest) =
        bindR (ct_complete ce (h, cw) 6 b) (\<lambda>(st', cmd). case cmd of
          Extend k \<Rightarrow> stream_run (e_ps (ce_env ce)) (ct_complete ce) st' 6 k b rest
        | Restart k \<Rightarrow> stream_run (e_ps (ce_env ce)) (ct_complete ce) st' 0 k b rest)"
      by (rule stream_run_frame [OF ps zero_less_numeral assms(3) lw])
    have c: "cm_length (vb_bytes b) = 0" using ct_wire_fields(1) [of p "vb_bytes b" ty] True B(2) by simp
    have "vb_const_ptr b = Inr (vb_bytes b)" "rd (vb_bytes b) 0 6 = Inr (take 6 (vb_bytes b))"
      using B(1) by (auto simp: vb_const_ptr_def rd_def vb_allocated_def)
    then have C: "ct_complete ce (h, cw) 6 b = receive_header ce (vb_bytes b) h cw" using H by (simp add: ct_complete_def)
    obtain h' cw' where "receive_header ce (vb_bytes b) h cw = Inr ((h', cw'), Restart 6)" "ct_good ce K A h0 (h', cw')"
      "recv_of (ch_state h') = BC_RECV_HEADER"
      using receive_header_ok [OF G(1) H, of "vb_bytes b"] c by auto
    with B(1,3) C G(2) show thesis by (intro that [of h' cw' b]) (simp_all add: ct_inv_waiting)
  next
    case False
    obtain mem where M: "take (6 + length p) (vb_bytes mem) = ct_wire ty p" "0 < vb_allocated mem" "framed (vb_bytes mem)"
      "stream_run (e_ps (ce_env ce)) (ct_complete ce) (h, cw) 0 6 buf (ct_wire ty p @ rest) =
      bindR (receive_payload ce (vb_bytes mem) (h\<lparr>ch_state := send_of (ch_state h) OR BC_RECV_PAYLOAD\<rparr>) cw)
        (\<lambda>(st', cmd). case cmd of Extend k \<Rightarrow> stream_run (e_ps (ce_env ce)) (ct_complete ce) st' (6 + length p) k mem rest
          | Restart k \<Rightarrow> stream_run (e_ps (ce_env ce)) (ct_complete ce) st' 0 k mem rest)"
      by (rule ct_frame_run [OF ps H False l assms(3)])
    have "frame_wf (vb_bytes mem)" using frame_wf_take [of "6 + length p" "vb_bytes mem"] M(1) False assms(2) by (simp add: frame_ok_def)
    moreover have "ct_good ce K A h0 (h\<lparr>ch_state := send_of (ch_state h) OR BC_RECV_PAYLOAD\<rparr>, cw)" by (rule ct_good_recv [OF G(1)]) simp
    ultimately obtain h' cw' where "receive_payload ce (vb_bytes mem) (h\<lparr>ch_state := send_of (ch_state h) OR BC_RECV_PAYLOAD\<rparr>) cw = Inr ((h', cw'), Restart 6)"
      "ct_good ce K A h0 (h', cw')" "recv_of (ch_state h') = BC_RECV_HEADER"
      using receive_payload_ok [OF _ G(2) M(3)] by blast
    with M(2,4) G(2) show thesis by (intro that [of h' cw' mem]) (simp_all add: ct_inv_waiting)
  qed
qed

lemma ct_frames:
  assumes "ct_inv ce K A h0 (h, cw) 6 []" and "0 < vb_allocated buf" and "list_all frame_ok fs"
  shows "\<exists>h' cw' b. stream_run (e_ps (ce_env ce)) (ct_complete ce) (h, cw) 0 6 buf (concat (map (\<lambda>(ty, p). ct_wire ty p) fs)) =
      Inr ((h', cw'), 0, 6, b, []) \<and> ct_inv ce K A h0 (h', cw') 6 []"
  using assms
proof (induction fs arbitrary: h cw buf)
  case Nil
  then obtain b where "stream_run (e_ps (ce_env ce)) (ct_complete ce) (h, cw) 0 6 buf [] = Inr ((h, cw), 0, 6, b, [])"
    using stream_run_idle [OF ct_good_ps [OF ct_invD(1) [OF Nil.prems(1)]], of 6 buf "ct_complete ce" "(h, cw)"] by auto
  with Nil.prems show ?case by simp
next
  case (Cons f fs)
  obtain ty p where f: "f = (ty, p)" by (cases f)
  let ?rest = "concat (map (\<lambda>(ty, p). ct_wire ty p) fs)"
  have ok: "frame_ok (ty, p)" using Cons.prems(3) f by simp
  obtain h' cw' b where "stream_run (e_ps (ce_env ce)) (ct_complete ce) (h, cw) 0 6 buf (ct_wire ty p @ ?rest) =
      stream_run (e_ps (ce_env ce)) (ct_complete ce) (h', cw') 0 6 b ?rest" "0 < vb_allocated b" "ct_inv ce K A h0 (h', cw') 6 []"
    by (rule ct_one_frame [OF Cons.prems(1) ok Cons.prems(2)])
  with Cons.IH [of h' cw' b] Cons.prems(3) f show ?case by simp
qed

text \<open>
  Property C11: a client that sends well-formed frames of any kind, in any order and cut into chunks
  and callbacks in any way, is served: the connector processes every frame, raises nothing, keeps
  the invariant of all its connections and waits for the next header.
\<close>

theorem well_formed_session:
  assumes "ct_inv ce K A h (h, cw) 6 []" and "list_all frame_ok fs"
    and "\<forall>cs\<in>set evs. \<forall>c\<in>set cs. c \<noteq> []" and "evs \<noteq> []" and "concat (concat evs) = concat (map (\<lambda>(ty, p). ct_wire ty p) fs)"
  shows "\<exists>h' cw' rb s. callbacks (e_ps (ce_env ce)) (ct_complete ce) (h, cw) (rb_new (e_ps (ce_env ce)) 6) [] evs = Inr ((h', cw'), rb, s) \<and>
    ct_inv ce K A h (h', cw') 6 [] \<and> rb_cursor rb = 0 \<and> rb_to_read rb = 6 \<and> rb_pending rb @ avail s = []"
proof -
  note ps = ct_good_ps [OF ct_invD(1) [OF assms(1)]]
  obtain h' cw' b where "stream_run (e_ps (ce_env ce)) (ct_complete ce) (h, cw) 0 6 (rb_buffer (rb_new (e_ps (ce_env ce)) 6))
      (concat (map (\<lambda>(ty, p). ct_wire ty p) fs)) = Inr ((h', cw'), 0, 6, b, [])" "ct_inv ce K A h (h', cw') 6 []"
    using ct_frames [OF assms(1) rb_new_allocated [OF ps] assms(2)] by blast
  with seen_InrD [of "callbacks (e_ps (ce_env ce)) (ct_complete ce) (h, cw) (rb_new (e_ps (ce_env ce)) 6) [] evs"]
    callbacks_seen [OF assms(3,4) ps, of "ct_complete ce" "(h, cw)" 6] assms(5) show ?thesis by fastforce
qed

lemma register_frame:
  assumes "ct_good ce K A h0 (h, cw)" and "recv_of (ch_state h) = BC_RECV_HEADER" and "0 < vb_allocated buf"
    and "24 \<le> length m" and "length m = 24 + msg_length m" and "length m < 2 ^ 32" and "map_of (messages_of (ch_id h) cw) (cw_message_ids cw) = None"
  obtains h' cw' b mem where "stream_run (e_ps (ce_env ce)) (ct_complete ce) (h, cw) 0 6 buf (ct_wire BITCOIN_PACKED_MESSAGE m @ rest) =
      stream_run (e_ps (ce_env ce)) (ct_complete ce) (h', cw') 0 6 mem rest" and "0 < vb_allocated mem"
    and "ct_good ce K A h0 (h', cw')" and "recv_of (ch_state h') = BC_RECV_HEADER"
    and "wq_pend (ch_write h') = wq_pend (ch_write h) @ be32 (cw_message_ids cw)"
    and "map_of (messages_of (ch_id h) cw') (cw_message_ids cw) = Some b" and "msg_take (vb_bytes b) = m"
    and "w_active (cw_world cw') = w_active (cw_world cw)" and "\<And>j. sent_log j (cw_world cw') = sent_log j (cw_world cw)"
proof -
  let ?ps = "e_ps (ce_env ce)" and ?f = "ct_complete ce" and ?h = "h\<lparr>ch_state := send_of (ch_state h) OR BC_RECV_PAYLOAD\<rparr>"
  have ne: "m \<noteq> []" using assms(4) by auto
  obtain mem where M: "take (6 + length m) (vb_bytes mem) = ct_wire BITCOIN_PACKED_MESSAGE m" "0 < vb_allocated mem" "framed (vb_bytes mem)"
    "stream_run ?ps ?f (h, cw) 0 6 buf (ct_wire BITCOIN_PACKED_MESSAGE m @ rest) =
      bindR (receive_payload ce (vb_bytes mem) ?h cw)
        (\<lambda>(st', cmd). case cmd of Extend k \<Rightarrow> stream_run ?ps ?f st' (6 + length m) k mem rest | Restart k \<Rightarrow> stream_run ?ps ?f st' 0 k mem rest)"
    by (rule ct_frame_run [OF ct_good_ps [OF assms(1)] assms(2) ne assms(6,3)])
  note F = ct_wire_fields [OF assms(6) M(1)]
  have "msg_length (drop 6 (vb_bytes mem)) = msg_length m"
    using msg_length_take [of "length m" "drop 6 (vb_bytes mem)"] F(4) assms(4) by simp
  then have r: "registrable (vb_bytes mem)" using F(1) assms(4,5) by (simp add: registrable_def)
  have g: "ct_good ce K A h0 (?h, cw)" by (rule ct_good_recv [OF assms(1)]) simp
  obtain h1 cw1 b where R: "receive_payload ce (vb_bytes mem) ?h cw = Inr ((h1, cw1), Restart 6)" "ct_good ce K A h0 (h1, cw1)"
    "wq_pend (ch_write h1) = wq_pend (ch_write ?h) @ be32 (cw_message_ids cw)" "recv_of (ch_state h1) = BC_RECV_HEADER"
    "map_of (messages_of (ch_id ?h) cw1) (cw_message_ids cw) = Some b" "msg_ok (vb_bytes b)"
    "msg_take (vb_bytes b) = take (cm_length (vb_bytes mem)) (drop 6 (vb_bytes mem))" "w_active (cw_world cw1) = w_active (cw_world cw)"
    "\<And>j. sent_log j (cw_world cw1) = sent_log j (cw_world cw)"
    by (rule register_effect [OF g M(3) F(3,2) r]) (use assms(7) in simp_all)
  show thesis by (rule that [OF _ M(2) R(2,4) _ _ _ R(8,9)]) (use M(4) R(1,3,5,7) F(1,4) in simp_all)
qed

lemma send_frame:
  assumes "ct_good ce K A h0 (h, cw)" and "recv_of (ch_state h) = BC_RECV_HEADER" and "0 < vb_allocated buf"
    and "map_of (messages_of (ch_id h) cw) i = Some b" and "9 + 4 * length ts < 2 ^ 32" and "ts \<noteq> [BROADCAST_TARGET]"
  obtains h' cw' mem where "stream_run (e_ps (ce_env ce)) (ct_complete ce) (h, cw) 0 6 buf (ct_wire COMMAND (send_payload i ts)) =
      Inr ((h', cw'), 0, 6, mem, [])" and "wq_pend (ch_write h') = wq_pend (ch_write h)"
    and "\<And>j. sent_log j (cw_world cw') = sent_log j (cw_world cw) @ copies (cw_world cw) ts (msg_take (vb_bytes b)) j"
proof -
  let ?ps = "e_ps (ce_env ce)" and ?f = "ct_complete ce" and ?h = "h\<lparr>ch_state := send_of (ch_state h) OR BC_RECV_PAYLOAD\<rparr>"
  let ?p = "send_payload i ts"
  note ps = ct_good_ps [OF assms(1)]
  have p: "?p \<noteq> []" "length ?p < 2 ^ 32" "length ts < 2 ^ 32" using assms(5) by (simp_all add: send_payload_def)
  obtain mem where M: "take (6 + length ?p) (vb_bytes mem) = ct_wire COMMAND ?p" "0 < vb_allocated mem" "framed (vb_bytes mem)"
    "stream_run ?ps ?f (h, cw) 0 6 buf (ct_wire COMMAND ?p @ []) =
      bindR (receive_payload ce (vb_bytes mem) ?h cw)
        (\<lambda>(st', cmd). case cmd of Extend k \<Rightarrow> stream_run ?ps ?f st' (6 + length ?p) k mem [] | Restart k \<Rightarrow> stream_run ?ps ?f st' 0 k mem [])"
    by (rule ct_frame_run [OF ps assms(2) p(1,2) assms(3)])
  note F = ct_wire_fields [OF p(2) M(1)]
  have d: "drop 6 (vb_bytes mem) = ?p @ drop (length ?p) (drop 6 (vb_bytes mem))"
    using append_take_drop_id [of "length ?p" "drop 6 (vb_bytes mem)"] F(4) by simp
  have g: "ct_good ce K A h0 (?h, cw)" by (rule ct_good_recv [OF assms(1)]) simp
  obtain h2 cw2 where S: "receive_payload ce (vb_bytes mem) ?h cw = Inr ((h2, cw2), Restart 6)" "wq_pend (ch_write h2) = wq_pend (ch_write ?h)"
    "\<And>j. sent_log j (cw_world cw2) = sent_log j (cw_world cw) @ copies (cw_world cw) ts (msg_take (vb_bytes b)) j"
    by (rule send_effect [OF g M(3) F(3,2) d, of b]) (use assms(4,6) p(3) in simp_all)
  obtain b' where "stream_run ?ps ?f (h2, cw2) 0 6 mem [] = Inr ((h2, cw2), 0, 6, b', [])"
    using stream_run_idle [OF ps, of 6 mem ?f "(h2, cw2)"] M(2) by auto
  then show thesis by (intro that [of h2 cw2 b'] S(3)) (use M(4) S(1,2) in simp_all)
qed

lemma register_send_session:
  assumes "ct_inv ce K A h (h, cw) 6 []" and "24 \<le> length m" and "length m = 24 + msg_length m" and "length m < 2 ^ 32"
    and "map_of (messages_of (ch_id h) cw) (cw_message_ids cw) = None" and "9 + 4 * length ts < 2 ^ 32" and "ts \<noteq> [BROADCAST_TARGET]"
    and "\<forall>cs\<in>set evs. \<forall>c\<in>set cs. c \<noteq> []" and "evs \<noteq> []"
    and "concat (concat evs) = ct_wire BITCOIN_PACKED_MESSAGE m @ ct_wire COMMAND (send_payload (cw_message_ids cw) ts)"
  shows "\<exists>h' cw' rb s. callbacks (e_ps (ce_env ce)) (ct_complete ce) (h, cw) (rb_new (e_ps (ce_env ce)) 6) [] evs = Inr ((h', cw'), rb, s) \<and>
    wq_pend (ch_write h') = wq_pend (ch_write h) @ be32 (cw_message_ids cw) \<and>
    (\<forall>j. sent_log j (cw_world cw') = sent_log j (cw_world cw) @ copies (cw_world cw) ts m j)"
proof -
  let ?ps = "e_ps (ce_env ce)" and ?f = "ct_complete ce" and ?i = "cw_message_ids cw"
  note G = ct_invD [OF assms(1)] and H = ct_inv_header [OF assms(1)]
  note ps = ct_good_ps [OF G(1)]
  obtain h1 cw1 b mem where R: "stream_run ?ps ?f (h, cw) 0 6 (rb_buffer (rb_new ?ps 6)) (concat (concat evs)) =
      stream_run ?ps ?f (h1, cw1) 0 6 mem (ct_wire COMMAND (send_payload ?i ts))" "0 < vb_allocated mem"
    "ct_good ce K A h (h1, cw1)" "recv_of (ch_state h1) = BC_RECV_HEADER" "wq_pend (ch_write h1) = wq_pend (ch_write h) @ be32 ?i"
    "map_of (messages_of (ch_id h) cw1) ?i = Some b" "msg_take (vb_bytes b) = m" "w_active (cw_world cw1) = w_active (cw_world cw)"
    "\<And>j. sent_log j (cw_world cw1) = sent_log j (cw_world cw)"
    unfolding assms(10) by (rule register_frame [OF G(1) H rb_new_allocated [OF ps] assms(2-5)]) blast
  have i: "ch_id h1 = ch_id h" by (rule ct_goodD(3) [OF R(3)])
  obtain h2 cw2 b' where S: "stream_run ?ps ?f (h1, cw1) 0 6 mem (ct_wire COMMAND (send_payload ?i ts)) = Inr ((h2, cw2), 0, 6, b', [])"
    "wq_pend (ch_write h2) = wq_pend (ch_write h1)"
    "\<And>j. sent_log j (cw_world cw2) = sent_log j (cw_world cw1) @ copies (cw_world cw1) ts (msg_take (vb_bytes b)) j"
    by (rule send_frame [OF R(3,4,2), of ?i b ts]) (use R(6) i assms(6,7) in simp_all)
  obtain rb s where "callbacks ?ps ?f (h, cw) (rb_new ?ps 6) [] evs = Inr ((h2, cw2), rb, s)"
    using callbacks_seen [OF assms(8,9) ps, of ?f "(h, cw)" 6] R(1) S(1)
      seen_InrD [of "callbacks ?ps ?f (h, cw) (rb_new ?ps 6) [] evs"] by metis
  moreover have "copies (cw_world cw1) = copies (cw_world cw)" by (rule copies_keys) (simp add: R(8))
  ultimately show ?thesis using R(5,7,9) S(2,3) by auto
qed


lemma list_effect:
  assumes "ct_good ce K A h (h, cw)" and "framed msg" and "cm_type msg = COMMAND" and "msg ! 6 = COMMAND_GET_CXN"
  shows "\<exists>h' cw'. receive_payload ce msg h cw = Inr ((h', cw'), Restart 6) \<and> w_active (cw_world cw') = w_active (cw_world cw) \<and>
    wq_pend (ch_write h') = wq_pend (ch_write h) @ be32 (of_nat (42 * length (w_active (cw_world cw)))) @
      concat (map (\<lambda>(i, b). be32 i @ sockaddr_to_wire (h_remote b) @ sockaddr_to_wire (h_local b)) (w_active (cw_world cw))) \<and>
    length (wq_pend (ch_write h')) = length (wq_pend (ch_write h)) + 4 + 42 * length (w_active (cw_world cw)) \<and>
    send_of (ch_state h') \<noteq> 0"
proof -
  note ok = ct_goodD(1) [OF assms(1)]
  let ?v = "if cm_version msg \<noteq> 0 then clog DEBUG [ascii ''Warning: unsupported version. Attempting to receive payload''] cw else cw"
  let ?cw = "clog CTRL [ascii ''All connections requested'', e_dec (ce_env ce) (unat (ch_regid h))] ?v"
  have okv: "cw_ok ce K A ?v" using ok cw_ok_clog [OF ok] by simp
  have "cw_ok ce K A ?cw" by (rule cw_ok_clog [OF okv]) simp
  note G = ct_good_world [OF assms(1) this]
  have a: "w_active (cw_world ?cw) = w_active (cw_world cw)" by simp
  obtain h' where R: "get_cxn (e_ps (ce_env ce)) h ?cw = Inr (h', ?cw)" "ct_good ce K A h (h', ?cw)"
    "replies h (cxn_reply (w_active (cw_world cw))) h'"
    using get_cxn_ok [OF G cw_okD(4) [OF ok]] unfolding a by blast
  have m: "7 \<le> length msg" using assms(2) by (simp add: framed_def)
  then have "rd (drop 6 msg) 0 1 = Inr [msg ! 6]" by (simp add: rd_def take_Suc_conv_app_nth)
  then have C: "ct_handle_message_recv ce (drop 6 msg) h ?v = Inr (h', ?cw)"
    using R(1) assms(4) by (simp add: ct_handle_message_recv_def Let_def)
  let ?h = "h'\<lparr>ch_state := send_of (ch_state h') OR BC_RECV_HEADER\<rparr>"
  have P: "receive_payload ce msg h cw = Inr ((?h, ?cw), Restart 6)"
    unfolding receive_payload_def Let_def using C assms(3) by (simp add: ct_types)
  have r: "cxn_reply (w_active (cw_world cw)) = be32 (of_nat (42 * length (w_active (cw_world cw)))) @
      concat (map (\<lambda>(i, b). be32 i @ sockaddr_to_wire (h_remote b) @ sockaddr_to_wire (h_local b)) (w_active (cw_world cw)))"
    by (simp add: cxn_reply_def cxn_infos_def connection_info_def le32_hton32 del: of_nat_mult)
  have l: "length (cxn_reply (w_active (cw_world cw))) = 4 + 42 * length (w_active (cw_world cw))"
    using world_ok_addresses [OF cw_okD(1) [OF ok]] by (auto simp: cxn_reply_def intro!: cxn_infos_length)
  have s: "send_of (ch_state h') \<noteq> 0" "wq_pend (ch_write h') = wq_pend (ch_write h) @ cxn_reply (w_active (cw_world cw))"
    using R(3) l by (auto simp: replies_def or_nonzero)
  show ?thesis
    by (rule exI [of _ ?h], rule exI [of _ ?cw]) (use P a s l r in simp)
qed

lemma list_frame:
  assumes "ct_good ce K A h0 (h, cw)" and "recv_of (ch_state h) = BC_RECV_HEADER" and "0 < vb_allocated buf"
    and "p = COMMAND_GET_CXN # r" and "length p < 2 ^ 32"
  obtains h' cw' mem where "stream_run (e_ps (ce_env ce)) (ct_complete ce) (h, cw) 0 6 buf (ct_wire COMMAND p) = Inr ((h', cw'), 0, 6, mem, [])"
    and "w_active (cw_world cw') = w_active (cw_world cw)"
    and "wq_pend (ch_write h') = wq_pend (ch_write h) @ be32 (of_nat (42 * length (w_active (cw_world cw)))) @
      concat (map (\<lambda>(i, b). be32 i @ sockaddr_to_wire (h_remote b) @ sockaddr_to_wire (h_local b)) (w_active (cw_world cw)))"
proof -
  let ?ps = "e_ps (ce_env ce)" and ?f = "ct_complete ce" and ?h = "h\<lparr>ch_state := send_of (ch_state h) OR BC_RECV_PAYLOAD\<rparr>"
  note ps = ct_good_ps [OF assms(1)]
  have ne: "p \<noteq> []" using assms(4) by simp
  obtain mem where M: "take (6 + length p) (vb_bytes mem) = ct_wire COMMAND p" "0 < vb_allocated mem" "framed (vb_bytes mem)"
    "stream_run ?ps ?f (h, cw) 0 6 buf (ct_wire COMMAND p @ []) =
      bindR (receive_payload ce (vb_bytes mem) ?h cw)
        (\<lambda>(st', cmd). case cmd of Extend k \<Rightarrow> stream_run ?ps ?f st' (6 + length p) k mem [] | Restart k \<Rightarrow> stream_run ?ps ?f st' 0 k mem [])"
    by (rule ct_frame_run [OF ps assms(2) ne assms(5,3)])
  note F = ct_wire_fields [OF assms(5) M(1)]
  have "vb_bytes mem ! 6 = take (6 + length p) (vb_bytes mem) ! 6" using ne by simp
  also have "\<dots> = COMMAND_GET_CXN" unfolding M(1) using assms(4) by (simp add: ct_wire_def nth_append)
  finally have c: "vb_bytes mem ! 6 = COMMAND_GET_CXN" .
  have g0: "ct_good ce K A h0 (?h, cw)" by (rule ct_good_recv [OF assms(1)]) simp
  have g: "ct_good ce K A ?h (?h, cw)" using g0 by (simp add: ct_good_def)
  obtain h2 cw2 where S: "receive_payload ce (vb_bytes mem) ?h cw = Inr ((h2, cw2), Restart 6)" "w_active (cw_world cw2) = w_active (cw_world cw)"
    "wq_pend (ch_write h2) = wq_pend (ch_write ?h) @ be32 (of_nat (42 * length (w_active (cw_world cw)))) @
      concat (map (\<lambda>(i, b). be32 i @ sockaddr_to_wire (h_remote b) @ sockaddr_to_wire (h_local b)) (w_active (cw_world cw)))"
    using list_effect [OF g M(3) F(2) c] by blast
  obtain b' where "stream_run ?ps ?f (h2, cw2) 0 6 mem [] = Inr ((h2, cw2), 0, 6, b', [])"
    using stream_run_idle [OF ps, of 6 mem ?f "(h2, cw2)"] M(2) by auto
  then show thesis by (intro that [of h2 cw2 b'] S(2)) (use M(4) S(1,3) in simp_all)
qed

text \<open>
  The answer to a request for the connections, to the byte: the length of the list in
  network order, and for every open connection, in the order of the table, its identifier and its two
  addresses. Nothing about the connections changes.
\<close>

theorem connections_listed:
  assumes "ct_good ce K A h (h, cw)" and "framed msg" and "cm_type msg = COMMAND" and "msg ! 6 = COMMAND_GET_CXN"
  shows "\<exists>h' cw'. receive_payload ce msg h cw = Inr ((h', cw'), Restart 6) \<and> w_active (cw_world cw') = w_active (cw_world cw) \<and>
    wq_pend (ch_write h') = wq_pend (ch_write h) @ be32 (of_nat (42 * length (w_active (cw_world cw)))) @
      concat (map (\<lambda>(i, b). be32 i @ sockaddr_to_wire (h_remote b) @ sockaddr_to_wire (h_local b)) (w_active (cw_world cw))) \<and>
    length (wq_pend (ch_write h')) = length (wq_pend (ch_write h)) + 4 + 42 * length (w_active (cw_world cw)) \<and>
    send_of (ch_state h') \<noteq> 0"
  by (rule list_effect [OF assms])

lemma put_first: "0 < off \<Longrightarrow> xs \<noteq> [] \<Longrightarrow> put off ys xs ! 0 = xs ! 0" "put 0 [x] xs ! 0 = x"
  by (simp_all add: put_def nth_append)

lemma put_not_Nil: "xs \<noteq> [] \<Longrightarrow> off + length ys \<le> length xs \<Longrightarrow> put off ys xs \<noteq> []"
  using length_put [of off ys xs] by (metis length_0_conv)

lemmas sock_fields = ss_family_def sin_addr_def sin_port_def sin6_addr_def sin6_port_def

lemma wire_to_sockaddr_fields:
  assumes "length wa = 19"
  shows "wa ! 0 = ADDR_FAMILY_IPV4 \<Longrightarrow> ss_family (wire_to_sockaddr wa) = AF_INET \<and>
      sin_addr (wire_to_sockaddr wa) = field 1 4 wa \<and> sin_port (wire_to_sockaddr wa) = field 17 2 wa"
    and "wa ! 0 \<in> {ADDR_FAMILY_IPV6, ADDR_FAMILY_ONION} \<Longrightarrow> ss_family (wire_to_sockaddr wa) = AF_INET6 \<and>
      sin6_addr (wire_to_sockaddr wa) = field 1 16 wa \<and> sin6_port (wire_to_sockaddr wa) = field 17 2 wa"
    and "wa ! 0 \<notin> {ADDR_FAMILY_IPV4, ADDR_FAMILY_IPV6, ADDR_FAMILY_ONION} \<Longrightarrow> wire_to_sockaddr wa = zeros 128"
  using assms
  by (auto simp: wire_to_sockaddr_def Let_def sock_fields set_family_def field_put_same field_put_other length_put length_field addr_families)

lemma sockaddr_to_wire_fields:
  assumes "length ss = 128"
  shows "ss_family ss = AF_INET \<Longrightarrow> sockaddr_to_wire ss ! 0 = ADDR_FAMILY_IPV4 \<and> field 1 4 (sockaddr_to_wire ss) = sin_addr ss \<and>
      field 17 2 (sockaddr_to_wire ss) = sin_port ss"
    and "ss_family ss = AF_INET6 \<Longrightarrow> sockaddr_to_wire ss ! 0 = ADDR_FAMILY_IPV6 \<and> field 1 16 (sockaddr_to_wire ss) = sin6_addr ss \<and>
      field 17 2 (sockaddr_to_wire ss) = sin6_port ss"
    and "ss_family ss \<notin> {AF_INET, AF_INET6} \<Longrightarrow> sockaddr_to_wire ss ! 0 = 0"
proof -
  have a: "length (sin_addr ss) = 4" "length (sin_port ss) = 2" "length (sin6_addr ss) = 16" "length (sin6_port ss) = 2"
    using assms by (simp_all add: sock_fields length_field)
  show "ss_family ss = AF_INET \<Longrightarrow> sockaddr_to_wire ss ! 0 = ADDR_FAMILY_IPV4 \<and> field 1 4 (sockaddr_to_wire ss) = sin_addr ss \<and>
      field 17 2 (sockaddr_to_wire ss) = sin_port ss"
    using a by (simp add: sockaddr_to_wire_def Let_def field_put_same field_put_other length_put put_first put_not_Nil)
  show "ss_family ss = AF_INET6 \<Longrightarrow> sockaddr_to_wire ss ! 0 = ADDR_FAMILY_IPV6 \<and> field 1 16 (sockaddr_to_wire ss) = sin6_addr ss \<and>
      field 17 2 (sockaddr_to_wire ss) = sin6_port ss"
    using a af_distinct by (simp add: sockaddr_to_wire_def Let_def field_put_same field_put_other length_put put_first put_not_Nil)
  show "ss_family ss \<notin> {AF_INET, AF_INET6} \<Longrightarrow> sockaddr_to_wire ss ! 0 = 0"
    by (simp add: sockaddr_to_wire_def Let_def)
qed

lemma onion_listed_as_ipv6:
  assumes "length wa = 19" and "wa ! 0 = ADDR_FAMILY_ONION"
  shows "sockaddr_to_wire (wire_to_sockaddr wa) = put 0 [ADDR_FAMILY_IPV6] wa"
proof -
  have F: "ss_family (wire_to_sockaddr wa) = AF_INET6" "sin6_addr (wire_to_sockaddr wa) = field 1 16 wa" "sin6_port (wire_to_sockaddr wa) = field 17 2 wa"
    using wire_to_sockaddr_fields(2) [OF assms(1)] assms(2) by simp_all
  have "drop 1 wa = take 16 (drop 1 wa) @ take 2 (drop 17 wa)"
    using append_take_drop_id [of 16 "drop 1 wa"] assms(1) by simp
  then show ?thesis using F assms(1) af_distinct
    by (simp add: sockaddr_to_wire_def Let_def put_def field_def)
qed

text \<open>
  Property C12: addresses survive the wire. An IPv4 or IPv6 address read back has the same family,
  address and port, and an unknown family becomes the zero structure; on the wire nothing but
  the family distinguishes an onion address, so it is listed as IPv6 afterwards.
\<close>

theorem wire_address_round_trip:
  assumes "length ss = 128" and "length wa = 19"
  shows "(ss_family ss = AF_INET \<longrightarrow> ss_family (wire_to_sockaddr (sockaddr_to_wire ss)) = AF_INET \<and>
      sin_addr (wire_to_sockaddr (sockaddr_to_wire ss)) = sin_addr ss \<and> sin_port (wire_to_sockaddr (sockaddr_to_wire ss)) = sin_port ss) \<and>
    (ss_family ss = AF_INET6 \<longrightarrow> ss_family (wire_to_sockaddr (sockaddr_to_wire ss)) = AF_INET6 \<and>
      sin6_addr (wire_to_sockaddr (sockaddr_to_wire ss)) = sin6_addr ss \<and> sin6_port (wire_to_sockaddr (sockaddr_to_wire ss)) = sin6_port ss) \<and>
    (ss_family ss \<notin> {AF_INET, AF_INET6} \<longrightarrow> wire_to_sockaddr (sockaddr_to_wire ss) = zeros 128) \<and>
    (wa ! 0 = ADDR_FAMILY_ONION \<longrightarrow> sockaddr_to_wire (wire_to_sockaddr wa) = put 0 [ADDR_FAMILY_IPV6] wa)"
proof -
  note S = sockaddr_to_wire_fields [OF assms(1)] and W = wire_to_sockaddr_fields [OF sockaddr_to_wire_length [OF assms(1)]]
  have "wire_to_sockaddr (sockaddr_to_wire ss) = zeros 128" if "ss_family ss \<notin> {AF_INET, AF_INET6}"
    using W(3) S(3) [OF that] by (simp add: addr_families)
  with S(1,2) W(1,2) onion_listed_as_ipv6 [OF assms(2)] show ?thesis by simp
qed

text \<open>
  Property C13: a command to disconnect all connections uses an iterator of the map after the element it
  points to has been erased, as soon as there is one connection.
\<close>

theorem broadcast_disconnect_dangles:
  assumes "cw_ok ce K A cw" and "framed msg" and "cm_type msg = COMMAND" and "take 13 (drop 6 msg) = [COMMAND_DISCONNECT] @ be32 i @ be32 1 @ be32 BROADCAST_TARGET"
    and "w_active (cw_world cw) \<noteq> []"
  shows "receive_payload ce msg h cw = Inl Dangling"
proof -
  let ?v = "if cm_version msg \<noteq> 0 then clog DEBUG [ascii ''Warning: unsupported version. Attempting to receive payload''] cw else cw"
  let ?cw = "clog DEBUG [ascii ''disconnect command received''] ?v" and ?c = "drop 6 msg" and ?f = "\<lambda>b v. Inr (bc_disconnect b v)"
  have l: "13 \<le> length ?c" using arg_cong [OF assms(4), of length] by simp
  have "?c = [COMMAND_DISCONNECT] @ be32 i @ be32 1 @ be32 BROADCAST_TARGET @ drop 13 ?c"
    using append_take_drop_id [of 13 ?c] assms(4) by simp
  note f = command_fields [OF this]
  have br: "get32 (be32 BROADCAST_TARGET) = BROADCAST_TARGET"
    using broadcast_order hton_ntoh(2) [of "get32 (be32 BROADCAST_TARGET)"] ntoh32_get32 [of "be32 BROADCAST_TARGET"]
    by (simp add: hton32_def ntoh32_def)
  have "cw_ok ce K A ?v" using assms(1) cw_ok_clog [OF assms(1)] by simp
  then have "cw_ok ce K A ?cw" by (rule cw_ok_clog) simp
  from cw_okD(1) [OF this] have W: "world_ok (ce_env ce) (cw_world ?cw)" .
  have "w_active (cw_world ?cw) = w_active (cw_world cw)" by simp
  then obtain j b rest where a: "w_active (cw_world ?cw) = (j, b) # rest" using assms(5) by (cases "w_active (cw_world cw)") auto
  have "conn_ok (ce_env ce) j (cw_world ?cw) (b, cw_world ?cw)" using W a by (auto simp: world_ok_def)
  then obtain b' w' where D: "bc_disconnect b (cw_world ?cw) = (b', w')" "\<not> h_active b'" using bc_disconnect_ok by blast
  have E: "bc_each ?f (map fst (w_active (cw_world ?cw))) (cw_world ?cw) = Inl Dangling"
    using D a delete_notin_dom [of j "w_active w'"] by (simp add: on_handler_def)
  have F: "foreach_handlers (ce_env ce) ?f ?c (cw_world ?cw) = Inl Dangling"
    using l f br E by (simp add: foreach_handlers_def rd_def ntoh32_get32 Let_def)
  have "rd ?c 0 1 = Inr [COMMAND_DISCONNECT]" using l f(1) by (simp add: rd_def take_Suc_conv_app_nth)
  then have "ct_handle_message_recv ce ?c h ?v = Inl Dangling"
    using F by (simp add: ct_handle_message_recv_def ct_commands Let_def)
  then show ?thesis unfolding receive_payload_def Let_def using assms(3) by (simp add: ct_types)
qed

lemma write_loop_error:
  assumes "wq_ok wq" and "wq_pend wq \<noteq> []" and "so_script out = WriteErr e # s"
  shows "\<exists>out'. write_loop wq out = Inr (Some (IErr e), wq, out')"
proof -
  have tw: "wq_to_write wq \<noteq> 0" using assms(1,2) by (simp add: wq_ok_def)
  obtain r wq' out' where W: "wq_do_write wq out = Inr ((r, wq_to_write wq' = 0), wq', out')" "\<not> positive r \<longrightarrow> wq' = wq"
    using wq_do_write_ok [OF assms(1) tw, of out] by blast
  have "r = IErr e" using W(1) assms(3)
    by (auto simp: wq_do_write_def wq_do_write_n_def bindR_Inr_iff sys_write_def Let_def split: list.splits)
  with W tw show ?thesis by (simp add: write_loop.simps [of wq out] wq_get_to_write_ok [OF assms(1)])
qed

text \<open>
  A connection whose input fails while output is waiting is closed twice in one callback: the
  number of open descriptors drops by two.
\<close>

theorem control_close_counted_twice:
  assumes "recv_of (ch_state h) = BC_RECV_HEADER" and "ch_read h = rb_new (e_ps (ce_env ce)) 6" and "0 < e_ps (ce_env ce)"
    and "ch_in h = [RecvErr ECONNRESET]" and "wq_ok (ch_write h)" and "wq_pend (ch_write h) \<noteq> []"
  shows "\<exists>h' cw'. ct_io_cb ce (BEV_READ OR BEV_WRITE) h cw = Inr (h', cw') \<and> cw_descriptors cw' = cw_descriptors cw - 2"
proof -
  let ?ps = "e_ps (ce_env ce)" and ?f = "ct_complete ce"
  obtain b where "stream_run ?ps ?f (h, cw) 0 6 (rb_buffer (rb_new ?ps 6)) [] = Inr ((h, cw), 0, 6, b, [])"
    using stream_run_idle [OF assms(3) _ rb_new_allocated [OF assms(3)], of 6 ?f "(h, cw)" 6] by auto
  then obtain rb s where L: "read_loop ?ps ?f (h, cw) (ch_read h) (ch_in h) = Inr ((h, cw), rb, s, Some (IErr ECONNRESET))" "rb_to_read rb = 6"
    using read_loop_stream [OF assms(3), of "ch_in h" ?f "(h, cw)" "ch_read h"] assms(2,4)
    by (auto simp: agrees_def split: sum.splits)
  let ?h = "h\<lparr>ch_read := rb, ch_in := s\<rparr>"
  let ?cw = "clog ERROR [e_strerror (ce_env ce) ECONNRESET, ascii ''(command_handler)''] cw"
  have R: "ct_do_read ce h cw = Inr (ct_suicide ?h ?cw)" using L(1) by (simp add: ct_do_read_def ct_fatal_def)
  obtain h1 cw1 where S: "ct_suicide ?h ?cw = (h1, cw1)" by fastforce
  have h1: "ch_write h1 = ch_write h" "ch_state h1 = ch_state h" "ch_read h1 = rb" "\<not> ch_fd h1" "cw_descriptors cw1 = cw_descriptors cw - 1"
    using S by (auto simp: ct_suicide_def clog_def cw_set_def)
  have "so_script (ct_out h1) = [WriteErr EBADF]" using h1(4) by (simp add: ct_out_def)
  then obtain out where W: "write_loop (ch_write h1) (ct_out h1) = Inr (Some (IErr EBADF), ch_write h1, out)"
    using write_loop_error [of "ch_write h1" "ct_out h1" EBADF "[]"] assms(5,6) h1(1) by auto
  have "\<exists>h2 cw2. ct_do_write ce h1 cw1 = Inr (h2, cw2) \<and> cw_descriptors cw2 = cw_descriptors cw1 - 1 \<and> ch_state h2 = ch_state h1"
    using W by (simp add: ct_do_write_def ct_fatal_def EBADF_def ct_suicide_def clog_def cw_set_def)
  then obtain h2 cw2 where D: "ct_do_write ce h1 cw1 = Inr (h2, cw2)" "cw_descriptors cw2 = cw_descriptors cw1 - 1" "ch_state h2 = ch_state h1" by blast
  have "recv_of (ch_state h) \<noteq> 0" "(BEV_READ OR BEV_WRITE) AND BEV_READ \<noteq> 0" "(BEV_READ OR BEV_WRITE) AND BEV_WRITE \<noteq> 0"
    using assms(1) by (simp_all add: bc_states BEV_READ_def BEV_WRITE_def)
  then have "ct_io_cb ce (BEV_READ OR BEV_WRITE) h cw = Inr (h2, cw2)"
    using R S D(1,3) h1(2,3) L(2) by (simp add: ct_io_cb_def)
  with D(2) h1(5) show ?thesis by simp
qed

section \<open>Examples\<close>

definition demo_ce :: cenv where
  "demo_ce = \<lparr>ce_env = demo_env, ce_kernel = (\<lambda>n. \<lparr>ka_socket = None, ka_connect = ConnErr EINPROGRESS,
     ka_proxy = Proxy_Connect (ConnErr EINPROGRESS), ka_name = Inl EPIPE, ka_in = [], ka_out = \<lparr>so_script = [], so_written = []\<rparr>\<rparr>),
     ce_nonce32 = (\<lambda>n. of_nat n), ce_show = (\<lambda>m. [109])\<rparr>"

definition demo_cw :: cworld where
  "demo_cw = \<lparr>cw_tw = \<lparr>tw_world = demo_world, tw_tors = [], tw_dead = []\<rparr>, cw_messages = [], cw_message_ids = 1,
     cw_active = [], cw_inactive = [], cw_id_pool = 0, cw_descriptors = 0, cw_kcount = 0, cw_draws = 0\<rparr>"

definition demo_ch :: chandler where
  "demo_ch = fst (ch_new demo_ce [] \<lparr>so_script = [], so_written = []\<rparr> demo_cw)"

lemma demo_cw_world [simp]: "cw_world demo_cw = demo_world"
  by (simp add: demo_cw_def cw_world_def)

lemma demo_pool: "w_id_pool demo_world = 1"
  by (simp add: demo_world_def bc_accept_io_cb_def bl_count_def w_init_def bc_new_def bc_insert_def
      BC_RECV_VERSION_REPLY_HDR_def BC_SEND_VERSION_INIT_def demo_env_def log_add_def)

lemma demo_cw_ok: "cw_ok demo_ce 0 [] demo_cw" "kernel_ok demo_ce 0"
proof -
  have "world_ok demo_env demo_world" by (rule bc_reach_ok [OF demo_reach w_init_ok [OF demo_env_ok]])
  then show "cw_ok demo_ce 0 [] demo_cw"
    by (simp add: cw_ok_def demo_ce_def messages_ok_def tor_table_ok_def demo_pool) (simp add: demo_cw_def)
  show "kernel_ok demo_ce 0" by (simp add: kernel_ok_def demo_ce_def name_ok_def)
qed

lemma demo_ct_inv: "ct_inv demo_ce 0 [] demo_ch (demo_ch, demo_cw) 6 []"
  using demo_cw_ok by (simp add: ct_inv_def ct_good_def demo_ch_def ch_new_def)

lemma demo_ce_ps: "e_ps (ce_env demo_ce) = 4096"
  by (simp add: demo_ce_def demo_env_def)

theorem well_formed_session_witness:
  "\<exists>h' cw' rb s. callbacks 4096 (ct_complete demo_ce) (demo_ch, demo_cw) (rb_new 4096 6) [] [[[0, 0], [0, 0]], [[0, 3]]] = Inr ((h', cw'), rb, s) \<and>
    rb_to_read rb = 6"
proof -
  have w: "ct_wire REGISTER [] = [0, 0, 0, 0, 0, 3]" by code_simp
  have "list_all frame_ok [(REGISTER, [])]" by (simp add: frame_ok_def)
  with well_formed_session [OF demo_ct_inv, of "[(REGISTER, [])]" "[[[0, 0], [0, 0]], [[0, 3]]]"] w demo_ce_ps
  show ?thesis by fastforce
qed


theorem connections_listed_witness:
  "\<exists>h' cw'. receive_payload demo_ce (ct_wire COMMAND [1]) demo_ch demo_cw = Inr ((h', cw'), Restart 6) \<and> length (wq_pend (ch_write h')) = 46"
proof -
  note F = ct_wire_fields [of "[1]" "ct_wire COMMAND [1]" COMMAND, simplified]
  have f: "framed (ct_wire COMMAND [1])" "cm_type (ct_wire COMMAND [1]) = COMMAND" "ct_wire COMMAND [1] ! 6 = COMMAND_GET_CXN"
    using F by (simp_all add: framed_def) (simp add: ct_wire_def nth_append ct_commands)
  have "wq_pend (ch_write demo_ch) = []" by (simp add: demo_ch_def ch_new_def)
  with connections_listed [OF ct_invD(1) [OF demo_ct_inv] f] demo_accept(2) show ?thesis by auto
qed

theorem wire_address_round_trip_witness:
  "sin_addr (wire_to_sockaddr (sockaddr_to_wire ([2, 0, 0x20, 0x8d, 127, 0, 0, 1] @ zeros 120))) = [127, 0, 0, 1] \<and>
   sockaddr_to_wire (wire_to_sockaddr (10 # zeros 18)) = 6 # zeros 18"
proof -
  have "ss_family ([2, 0, 0x20, 0x8d, 127, 0, 0, 1] @ zeros 120) = AF_INET" by code_simp
  moreover have "sin_addr ([2, 0, 0x20, 0x8d, 127, 0, 0, 1] @ zeros 120) = [127, 0, 0, 1]" by code_simp
  moreover have "put 0 [6] (10 # zeros 18) = 6 # zeros 18" by code_simp
  ultimately show ?thesis
    using wire_address_round_trip [of "[2, 0, 0x20, 0x8d, 127, 0, 0, 1] @ zeros 120" "10 # zeros 18"] by (simp add: addr_families)
qed

theorem broadcast_disconnect_dangles_witness:
  "receive_payload demo_ce (ct_wire COMMAND ([2] @ be32 0 @ be32 1 @ be32 BROADCAST_TARGET)) demo_ch demo_cw = Inl Dangling"
proof -
  let ?p = "[2] @ be32 0 @ be32 1 @ be32 BROADCAST_TARGET" and ?m = "ct_wire COMMAND ([2] @ be32 0 @ be32 1 @ be32 BROADCAST_TARGET)"
  have l: "length ?p < 2 ^ 32" by simp
  note F = ct_wire_fields [OF l, of ?m COMMAND, simplified]
  have f: "framed ?m" "cm_type ?m = COMMAND" "take 13 (drop 6 ?m) = [COMMAND_DISCONNECT] @ be32 0 @ be32 1 @ be32 BROADCAST_TARGET"
    using F by (simp_all add: framed_def ct_commands)
  show ?thesis by (rule broadcast_disconnect_dangles [OF demo_cw_ok(1) f]) (simp add: demo_accept(2))
qed

end
