(* ===== verification/Connector.thy ===== *)
theory Connector
  imports Control_Frames
begin

text \<open>
  The connector as a whole: the event loop delivers events of Bitcoin connections, Tor
  connections, control connections and listeners in any order to the handlers of the three
  components, which share the tables of Bitcoin connections and the log.
\<close>

section \<open>Events\<close>

datatype cn_event =
    Cn_Bitcoin bc_event
  | Cn_Tor nat u32 "bool \<times> errno option" "errno + sockaddr"
  | Cn_Control u32 u32 sock_in "write_ev list"
  | Cn_Accept "errno + sock_in \<times> sock_out"

fun cn_step :: "cenv \<Rightarrow> cn_event \<Rightarrow> cworld \<Rightarrow> cworld res" where
  "cn_step ce (Cn_Bitcoin ev) cw = bindR (bc_step (ce_env ce) ev (cw_world cw)) (\<lambda>w. Inr (cw_set w cw))"
| "cn_step ce (Cn_Tor p revents sockopt name) cw =
     bindR (tor_io_cb (ce_env ce) p revents sockopt name (cw_tw cw)) (\<lambda>tw. Inr (cw\<lparr>cw_tw := tw\<rparr>))"
| "cn_step ce (Cn_Control i revents inp scr) cw =
     on_control i (\<lambda>h. ct_io_cb ce revents (h\<lparr>ch_in := ch_in h @ inp, ch_out := (ch_out h)\<lparr>so_script := scr\<rparr>\<rparr>)) cw"
| "cn_step ce (Cn_Accept client) cw = Inr (ct_accept_io_cb ce client cw)"

text \<open>
  What the event loop guarantees: events are for objects that exist, and the identifiers of Bitcoin
  connections have not been used up; \<open>K\<close> is the bound of \<open>kernel_ok\<close>.
\<close>

definition ids_left :: "nat \<Rightarrow> cworld \<Rightarrow> bool" where
  "ids_left K cw \<longleftrightarrow> unat (w_id_pool (cw_world cw)) + (K - cw_kcount cw) + 1 < 2 ^ 32"

fun cn_guard :: "nat \<Rightarrow> cn_event \<Rightarrow> cworld \<Rightarrow> bool" where
  "cn_guard K (Cn_Bitcoin ev) cw = bc_guard ev (cw_world cw)"
| "cn_guard K (Cn_Tor p revents sockopt name) cw = (ids_left K cw \<and> name_ok name \<and> p \<in> fst ` set (tw_tors (cw_tw cw)))"
| "cn_guard K (Cn_Control i revents inp scr) cw = (ids_left K cw \<and> i \<in> fst ` set (cw_active cw))"
| "cn_guard K (Cn_Accept client) cw = True"

text \<open>The failures an event may end with: a Bitcoin message or a control frame of the wrong shape.\<close>

fun cn_errors :: "cn_event \<Rightarrow> err set" where
  "cn_errors (Cn_Bitcoin (Bc_Io _ _ _ _)) = {Out_Of_Bounds}"
| "cn_errors (Cn_Control _ _ _ _) = {Out_Of_Bounds, Dangling}"
| "cn_errors _ = {}"

definition cn_inv :: "cenv \<Rightarrow> cworld \<Rightarrow> bool" where
  "cn_inv ce cw \<longleftrightarrow> world_ok (ce_env ce) (cw_world cw) \<and> tor_table_ok (cw_tw cw) \<and> messages_ok cw \<and>
     distinct (map fst (cw_active cw)) \<and>
     (\<forall>(i, h)\<in>set (cw_active cw). ch_id h = i \<and> ch_ok h \<and> ch_events h = armed (ch_state h))"

lemma cw_world_tables [simp]: "cw_world (cw\<lparr>cw_active := a\<rparr>) = cw_world cw" "cw_world (cw\<lparr>cw_inactive := b\<rparr>) = cw_world cw"
  "cw_world (cw\<lparr>cw_id_pool := i\<rparr>) = cw_world cw"
  unfolding cw_world_def by simp_all

lemma cn_inv_cw_ok: "cn_inv ce cw \<Longrightarrow> ids_left K cw \<Longrightarrow> cw_ok ce K (cw_active cw) cw"
  by (simp add: cn_inv_def cw_ok_def ids_left_def)

lemma cn_inv_world: "cn_inv ce cw \<Longrightarrow> world_ok (ce_env ce) w \<Longrightarrow> cn_inv ce (cw_set w cw)"
  by (simp add: cn_inv_def messages_ok_def)

section \<open>Each event\<close>

lemma cn_bitcoin_ok:
  assumes "cn_inv ce cw" and "bc_guard ev (cw_world cw)"
  shows "(\<exists>cw'. cn_step ce (Cn_Bitcoin ev) cw = Inr cw' \<and> cn_inv ce cw') \<or>
    (\<exists>e\<in>cn_errors (Cn_Bitcoin ev). cn_step ce (Cn_Bitcoin ev) cw = Inl e)"
proof -
  have "world_ok (ce_env ce) (cw_world cw)" using assms(1) by (simp add: cn_inv_def)
  from bc_step_ok [OF this assms(2)] show ?thesis using cn_inv_world [OF assms(1)] by auto
qed

lemma cn_tor_ok:
  assumes "cn_inv ce cw" and "cn_guard K (Cn_Tor p revents sockopt name) cw"
  shows "\<exists>cw'. cn_step ce (Cn_Tor p revents sockopt name) cw = Inr cw' \<and> cn_inv ce cw'"
proof -
  obtain t where t: "map_of (tw_tors (cw_tw cw)) p = Some t" using assms(2) by (auto dest: weak_map_of_SomeI)
  have I: "world_ok (ce_env ce) (tw_world (cw_tw cw))" "tor_table_ok (cw_tw cw)" "name_ok name" "unat (w_id_pool (tw_world (cw_tw cw))) + 1 < 2 ^ 32"
    using assms by (simp_all add: cn_inv_def ids_left_def)
  obtain tw where "tor_io_cb (ce_env ce) p revents sockopt name (cw_tw cw) = Inr tw" "world_ok (ce_env ce) (tw_world tw)" "tor_table_ok tw"
    using tor_io_cb_ok [OF I(1,2) t I(3,4)] by blast
  with assms(1) show ?thesis by (simp add: cn_inv_def messages_ok_def)
qed

lemma cn_control_ok:
  assumes "cn_inv ce cw" and "kernel_ok ce K" and "cn_guard K (Cn_Control i revents inp scr) cw"
  shows "(\<exists>cw'. cn_step ce (Cn_Control i revents inp scr) cw = Inr cw' \<and> cn_inv ce cw') \<or>
    (\<exists>e\<in>{Out_Of_Bounds, Dangling}. cn_step ce (Cn_Control i revents inp scr) cw = Inl e)"
proof -
  let ?A = "cw_active cw"
  obtain h where h: "map_of ?A i = Some h" using assms(3) by (auto dest: weak_map_of_SomeI)
  have D: "distinct (map fst ?A)" using assms(1) by (simp add: cn_inv_def)
  have H: "ch_id h = i" "ch_ok h" "ch_events h = armed (ch_state h)" using assms(1) map_of_SomeD [OF h] by (auto simp: cn_inv_def)
  let ?h = "h\<lparr>ch_in := ch_in h @ inp, ch_out := (ch_out h)\<lparr>so_script := scr\<rparr>\<rparr>"
  have "ct_ok ce K ?A (?h, cw)" using H(2) cn_inv_cw_ok [OF assms(1)] assms(2,3) by (simp add: ct_ok_iff)
  moreover have "ch_events ?h = armed (ch_state ?h)" using H(3) by simp
  ultimately show ?thesis using ct_io_cb_ok [of ce K ?A ?h cw revents]
  proof (elim disjE exE conjE bexE meta_impE)
    fix h' cw' assume R: "ct_io_cb ce revents ?h cw = Inr (h', cw')" "ct_ok ce K ?A (h', cw')" "ch_events h' = armed (ch_state h')" "ch_id h' = ch_id ?h"
    let ?cw = "if ch_active h' then cw'\<lparr>cw_active := AList.update i h' (cw_active cw')\<rparr>
               else cw'\<lparr>cw_active := AList.delete i (cw_active cw'), cw_inactive := h' # cw_inactive cw'\<rparr>"
    have ok: "cw_ok ce K ?A cw'" "ch_ok h'" using R(2) by (simp_all add: ct_ok_iff)
    have a: "cw_active cw' = ?A" using ok(1) by (simp add: cw_ok_def)
    have "ch_id g = j \<and> ch_ok g \<and> ch_events g = armed (ch_state g)" if "(j, g) \<in> set (cw_active ?cw)" for j g
    proof -
      have "j = i \<and> g = h' \<or> (j, g) \<in> set ?A" using that a mem_update_weak [of j g i h' ?A] by (auto simp: mem_delete split: if_splits)
      with assms(1) R(3,4) ok(2) H(1) show ?thesis by (auto simp: cn_inv_def)
    qed
    moreover have "distinct (map fst (cw_active ?cw))" using a distinct_update [OF D] distinct_delete [OF D] by simp
    ultimately have "cn_inv ce ?cw" using cw_okD(1-3) [OF ok(1)] by (auto simp: cn_inv_def messages_ok_def)
    with R(1) h show ?thesis by (simp add: on_control_def)
  qed (use h in \<open>auto simp: on_control_def\<close>)
qed

lemma ch_delete_simps [simp]:
  "cw_world (ch_delete h cw) = cw_world cw" "cw_tw (ch_delete h cw) = cw_tw cw" "cw_active (ch_delete h cw) = cw_active cw"
  by (simp_all add: ch_delete_def Let_def)

lemma ch_delete_messages: "messages_ok cw \<Longrightarrow> messages_ok (ch_delete h cw)"
  by (auto simp: messages_ok_def ch_delete_def Let_def AList.delete_eq)

lemma cn_delete_ok: "cn_inv ce cw \<Longrightarrow> cn_inv ce (foldr ch_delete hs cw)"
  by (induction hs) (simp_all add: cn_inv_def ch_delete_messages)

lemma cn_accept_ok:
  assumes "cn_inv ce cw"
  shows "cn_inv ce (ct_accept_io_cb ce client cw)"
proof (cases client)
  case (Inl e)
  with assms show ?thesis by (simp add: ct_accept_io_cb_def cn_inv_def messages_ok_def world_ok_text Let_def)
next
  case (Inr a)
  obtain inp out where a: "a = (inp, out)" by (cases a)
  let ?cw = "cw\<lparr>cw_descriptors := cw_descriptors cw + 1\<rparr>"
  obtain h cw1 where N: "ch_new ce inp out ?cw = (h, cw1)" by fastforce
  let ?cw2 = "if ch_id h \<in> fst ` set (cw_active cw1) then cw1 else cw1\<lparr>cw_active := (ch_id h, h\<lparr>ch_active := True\<rparr>) # cw_active cw1\<rparr>"
  have W: "world_ok (ce_env ce) (cw_world cw)" using assms by (simp add: cn_inv_def)
  have h: "ch_ok h" "ch_events h = armed (ch_state h)"
    using ch_new_ok [OF env_okD [OF world_ok_tables(3) [OF W]], of inp out ?cw] N by (auto simp: ch_new_def armed_def bc_states BEV_READ_def)
  have w1: "cw_world cw1 = cw_world cw" "cw_tw cw1 = cw_tw cw" "cw_messages cw1 = cw_messages cw" "cw_active cw1 = cw_active cw"
    using N by (auto simp: ch_new_def)
  have "cn_inv ce ?cw2" using assms w1 h by (auto simp: cn_inv_def messages_ok_def)
  then have "cn_inv ce (foldr ch_delete (cw_inactive ?cw2) ?cw2)" by (rule cn_delete_ok)
  moreover have "ct_accept_io_cb ce client cw = (foldr ch_delete (cw_inactive ?cw2) ?cw2)\<lparr>cw_inactive := []\<rparr>"
    using Inr a N by (simp add: ct_accept_io_cb_def Let_def)
  ultimately show ?thesis by (simp add: cn_inv_def messages_ok_def)
qed

lemma cn_step_ok:
  assumes "cn_inv ce cw" and "kernel_ok ce K" and "cn_guard K ev cw"
  shows "(\<exists>cw'. cn_step ce ev cw = Inr cw' \<and> cn_inv ce cw') \<or> (\<exists>e\<in>cn_errors ev. cn_step ce ev cw = Inl e)"
proof (cases ev)
  case (Cn_Bitcoin b)
  with cn_bitcoin_ok [OF assms(1), of b] assms(3) show ?thesis by simp
next
  case (Cn_Tor p r so n)
  with cn_tor_ok [OF assms(1), of K p r so n] assms(3) show ?thesis by blast
next
  case (Cn_Control i r inp scr)
  with cn_control_ok [OF assms(1,2), of i r inp scr] assms(3) show ?thesis by simp
next
  case (Cn_Accept c)
  with cn_accept_ok [OF assms(1), of c] show ?thesis by simp
qed

section \<open>Every run\<close>

text \<open>The static data before the first event.\<close>

definition cw_init :: "int \<Rightarrow> ipaddr_set \<Rightarrow> cworld" where
  "cw_init now bl = \<lparr>cw_tw = \<lparr>tw_world = w_init now bl, tw_tors = [], tw_dead = []\<rparr>, cw_messages = [], cw_message_ids = 1,
     cw_active = [], cw_inactive = [], cw_id_pool = 0, cw_descriptors = 0, cw_kcount = 0, cw_draws = 0\<rparr>"

inductive cn_reach :: "cenv \<Rightarrow> nat \<Rightarrow> cworld \<Rightarrow> cworld \<Rightarrow> bool" for ce K cw0 where
  start: "cn_reach ce K cw0 cw0"
| more: "cn_reach ce K cw0 cw \<Longrightarrow> cn_guard K ev cw \<Longrightarrow> cn_step ce ev cw = Inr cw' \<Longrightarrow> cn_reach ce K cw0 cw'"

lemma cw_init_inv: "env_ok (ce_env ce) \<Longrightarrow> cn_inv ce (cw_init now bl)"
  using w_init_ok [of "ce_env ce" now bl] by (simp add: cn_inv_def cw_init_def cw_world_def tor_table_ok_def messages_ok_def)

lemma cn_reach_inv:
  assumes "cn_reach ce K cw0 cw" and "cn_inv ce cw0" and "kernel_ok ce K"
  shows "cn_inv ce cw"
  using assms
proof (induction rule: cn_reach.induct)
  case (more cw ev cw')
  with cn_step_ok [of ce cw K ev] show ?case by auto
qed simp


text \<open>
  Property C2: what every such run keeps. The bytes a Bitcoin connection has written and has queued are the
  messages logged as sent under its identifier; every control connection waits for at least one
  more byte and, when it has an answer to send, for its socket to be writable; and every
  registered message is a whole Bitcoin message.
\<close>

theorem connector_invariant:
  assumes "env_ok (ce_env ce)" and "kernel_ok ce K" and "cn_reach ce K (cw_init now bl) cw"
  shows "((i, b) \<in> set (w_active (cw_world cw)) \<longrightarrow> so_written (h_out b) @ wq_pend (h_write b) = sent_log i (cw_world cw)) \<and>
    ((j, h) \<in> set (cw_active cw) \<longrightarrow> ch_id h = j \<and> rb_to_read (ch_read h) \<noteq> 0 \<and> ch_events h AND BEV_READ \<noteq> 0 \<and>
      (wq_pend (ch_write h) \<noteq> [] \<longrightarrow> ch_events h AND BEV_WRITE \<noteq> 0)) \<and>
    (map_of (messages_of k cw) n = Some m \<longrightarrow> 24 + msg_length (vb_bytes m) \<le> vb_allocated m)"
proof -
  have I: "cn_inv ce cw" by (rule cn_reach_inv [OF assms(3) cw_init_inv [OF assms(1)] assms(2)])
  have "conn_ok (ce_env ce) i (cw_world cw) (b, cw_world cw)" if "(i, b) \<in> set (w_active (cw_world cw))"
    using I that by (auto simp: cn_inv_def world_ok_def)
  then have A: "so_written (h_out b) @ wq_pend (h_write b) = sent_log i (cw_world cw)" if "(i, b) \<in> set (w_active (cw_world cw))"
    using that sess_okD(5) [OF conn_okD(1)] by blast
  have B: "ch_id h = j \<and> rb_to_read (ch_read h) \<noteq> 0 \<and> ch_events h AND BEV_READ \<noteq> 0 \<and> (wq_pend (ch_write h) \<noteq> [] \<longrightarrow> ch_events h AND BEV_WRITE \<noteq> 0)"
    if "(j, h) \<in> set (cw_active cw)"
  proof -
    have H: "ch_id h = j" "ch_ok h" "ch_events h = armed (ch_state h)" using I that by (auto simp: cn_inv_def)
    have "recv_of (ch_state h) \<noteq> 0" using H(2) by (auto simp: ch_ok_def Let_def bc_states)
    then show ?thesis using H by (auto simp: ch_ok_def armed_def Let_def BEV_READ_def BEV_WRITE_def)
  qed
  have C: "24 + msg_length (vb_bytes m) \<le> vb_allocated m" if "map_of (messages_of k cw) n = Some m"
    using messages_of_ok [OF _ that] I by (simp add: cn_inv_def msg_ok_def vb_allocated_def)
  from A B C show ?thesis by blast
qed

section \<open>Examples\<close>


theorem connector_invariant_witness:
  "\<exists>h. map_of (cw_active (ct_accept_io_cb demo_ce (Inr ([], \<lparr>so_script = [], so_written = []\<rparr>)) (cw_init 7 []))) 0 = Some h \<and> ch_events h AND BEV_READ \<noteq> 0"
proof -
  let ?out = "\<lparr>so_script = [], so_written = []\<rparr> :: sock_out"
  let ?cw = "ct_accept_io_cb demo_ce (Inr ([], ?out)) (cw_init 7 [])"
  have e: "env_ok (ce_env demo_ce)" using demo_env_ok by (simp add: demo_ce_def)
  have r: "cn_reach demo_ce 0 (cw_init 7 []) ?cw" by (rule cn_reach.more [OF cn_reach.start, of _ "Cn_Accept (Inr ([], ?out))"]) simp_all
  have "\<exists>h. cw_active ?cw = [(0, h)]" by (simp add: ct_accept_io_cb_def ch_new_def cw_init_def)
  then obtain h where h: "cw_active ?cw = [(0, h)]" by blast
  with connector_invariant [OF e demo_cw_ok(2) r, of 0 demo_handler 0 h] show ?thesis by simp
qed

end
