(* ===== verification/Startup.thy ===== *)
theory Startup
  imports Connector
begin

text \<open>
  What the connector makes of its configuration before the event loop starts: the listeners (\<^verbatim>\<open>main\<close> of
  \<^verbatim>\<open>connector/src/main.cpp\<close>), the external address it announces to peers (\<^verbatim>\<open>external_addr\<close> of
  \<^verbatim>\<open>connector/src/bitcoin_handler.cpp\<close>) and the reload of the blacklist. The settings are given as values; the
  lookups of libconfig, \<^verbatim>\<open>inet_pton\<close>, the socket calls and the random choice are parameters.
\<close>

section \<open>Settings\<close>

record listener =
  ls_family :: "byte list"
  ls_addr :: "byte list"
  ls_port :: int
  ls_backlog :: int

record net_env =
  n_pton4 :: "byte list \<Rightarrow> byte list option"
  n_pton6 :: "byte list \<Rightarrow> byte list option"
  n_dec :: "nat \<Rightarrow> byte list"
  n_show :: "int \<Rightarrow> byte list"
  n_err :: "byte list"

text \<open>\<^verbatim>\<open>uint16_t port((int)setting[2])\<close> and \<^verbatim>\<open>htons\<close>: the port in the two bytes of the address.\<close>

definition port_bytes :: "int \<Rightarrow> byte list" where
  "port_bytes p = le16 (hton16 (of_int p))"

section \<open>The external address\<close>

text \<open>
  \<open>done\<close> is the static copy of an earlier call. An index outside the list is an exception of libconfig. An address that
  is not well formed is reported and stays zero.
\<close>

definition external_addr :: "net_env \<Rightarrow> nat \<Rightarrow> listener list \<Rightarrow> sockaddr option \<Rightarrow> (sockaddr \<times> sockaddr option \<times> log_call list) res" where
  "external_addr ne pick ls done1 =
     (case done1 of
        Some out \<Rightarrow> Inr (out, done1, [])
      | None \<Rightarrow>
          let idx = (if length ls = 1 then 0 else pick) in
          if length ls \<le> idx then Inl Runtime_Error
          else
            let setting = ls ! idx; v6 = (ls_family setting = ascii ''AF_INET6'');
                out = put 2 (port_bytes (ls_port setting)) (set_family (if v6 then AF_INET6 else AF_INET) (zeros 128));
                (out1, logs) =
                  (if v6 then
                     case n_pton6 ne (ls_addr setting) of
                       Some a \<Rightarrow> (put 8 a out, [])
                     | None \<Rightarrow> (out, [LText ERROR [ascii ''Bad IPv6 address format on address'', n_dec ne idx, n_err ne]])
                   else
                     case n_pton4 ne (ls_addr setting) of
                       Some a \<Rightarrow> (put 4 a out, [])
                     | None \<Rightarrow> (out, [LText ERROR [ascii ''Bad IPv4 address format on address'', n_dec ne idx, n_err ne]])) in
            Inr (out1, Some out1, logs))"

section \<open>The listeners\<close>

text \<open>A bound socket: the address, as many bytes of it as \<^verbatim>\<open>bind\<close> is given, and the backlog.\<close>

record bound =
  b_addr :: sockaddr
  b_addrlen :: nat
  b_backlog :: int

text \<open>
  One turn of the loop: the address is built, and \<^verbatim>\<open>inet_pton\<close> writes into it only to be overwritten by the
  wildcard address; a setting that does not parse is skipped.
\<close>

definition listen_addr :: "net_env \<Rightarrow> nat \<Rightarrow> listener \<Rightarrow> log_call + bound" where
  "listen_addr ne index setting =
     (if ls_family setting = ascii ''AF_INET6'' then
        let sin6 = put 8 (zeros 16) (put 2 (port_bytes (ls_port setting)) (set_family AF_INET6 (zeros 128))) in
        case n_pton6 ne (ls_addr setting) of
          None \<Rightarrow> Inl (LText ERROR [ascii ''Bad IPv6 address format on address'', n_dec ne index, n_err ne])
        | Some a \<Rightarrow> Inr \<lparr>b_addr = put 8 (zeros 16) (put 8 a sin6), b_addrlen = 28, b_backlog = ls_backlog setting\<rparr>
      else
        let sin = put 4 (zeros 4) (put 2 (port_bytes (ls_port setting)) (set_family AF_INET (zeros 128))) in
        case n_pton4 ne (ls_addr setting) of
          None \<Rightarrow> Inl (LText ERROR [ascii ''Bad IPv4 address format on address'', n_dec ne index, n_err ne])
        | Some a \<Rightarrow> Inr \<lparr>b_addr = put 4 (zeros 4) (put 4 a sin), b_addrlen = 16, b_backlog = ls_backlog setting\<rparr>)"

text \<open>\<open>opens\<close> says whether \<^verbatim>\<open>Socket\<close>, \<^verbatim>\<open>Bind\<close> and \<^verbatim>\<open>Listen\<close> succeed; otherwise they throw and the program ends.\<close>

definition announce :: "net_env \<Rightarrow> listener \<Rightarrow> log_call" where
  "announce ne s = LText DEBUG [ascii ''Attempting to instantiate listener on '', ls_family s, ls_addr s,
     n_dec ne (unat (of_int (ls_port s) :: u16)), ascii ''with backlog'', n_show ne (ls_backlog s)]"

fun open_listeners :: "net_env \<Rightarrow> (bound \<Rightarrow> bool) \<Rightarrow> nat \<Rightarrow> listener list \<Rightarrow> (bound list \<times> log_call list) res" where
  "open_listeners ne opens index [] = Inr ([], [])"
| "open_listeners ne opens index (setting # ls) =
     (case listen_addr ne index setting of
        Inl e \<Rightarrow> bindR (open_listeners ne opens (Suc index) ls) (\<lambda>(bs, logs). Inr (bs, announce ne setting # e # logs))
      | Inr b \<Rightarrow>
          if opens b then bindR (open_listeners ne opens (Suc index) ls) (\<lambda>(bs, logs). Inr (b # bs, announce ne setting # logs))
          else Inl Runtime_Error)"

text \<open>\<^verbatim>\<open>SIGHUP\<close> reads the blacklist again; connections that exist are not touched.\<close>

definition hup_watcher :: "net_env \<Rightarrow> byte list list option \<Rightarrow> world \<Rightarrow> world" where
  "hup_watcher ne file w =
     (case load_blacklist (n_pton4 ne) (n_pton6 ne) (n_dec ne) file (w_blacklist w) of
        (bl, logs) \<Rightarrow> fold log_add logs (w\<lparr>w_blacklist := bl\<rparr>))"

section \<open>Correctness\<close>

fun is_error :: "log_call \<Rightarrow> bool" where
  "is_error (LText n _) = (n = ERROR)"
| "is_error _ = False"

text \<open>\<^verbatim>\<open>inet_pton\<close> gives addresses of the right size.\<close>

definition pton_ok :: "net_env \<Rightarrow> bool" where
  "pton_ok ne \<longleftrightarrow> (\<forall>s a. n_pton4 ne s = Some a \<longrightarrow> length a = 4) \<and> (\<forall>s a. n_pton6 ne s = Some a \<longrightarrow> length a = 16)"

lemma length_port_bytes [simp]: "length (port_bytes p) = 2"
  by (simp add: port_bytes_def)

lemma pton_okD:
  assumes "pton_ok ne"
  shows "n_pton4 ne s = Some a \<Longrightarrow> length a = 4" "n_pton6 ne s = Some a \<Longrightarrow> length a = 16"
  using assms by (auto simp: pton_ok_def)

lemma sockaddr_made:
  shows "length (put 2 (port_bytes p) (set_family f (zeros 128))) = 128" "ss_family (put 2 (port_bytes p) (set_family f (zeros 128))) = f"
    "sin_port (put 2 (port_bytes p) (set_family f (zeros 128))) = port_bytes p"
proof -
  let ?s = "set_family f (zeros 128)"
  have l: "length ?s = 128" "ss_family ?s = f" using set_family_fields [of "zeros 128" f] by simp_all
  show "length (put 2 (port_bytes p) ?s) = 128" using l by (simp add: length_put)
  show "ss_family (put 2 (port_bytes p) ?s) = f" using l field_put_other [of 2 "port_bytes p" ?s 0 2] by (simp add: ss_family_def)
  show "sin_port (put 2 (port_bytes p) ?s) = port_bytes p" using l by (simp add: sin_port_def field_put_same)
qed

text \<open>The external address is a whole structure of one of the two families, and every later call gives it again.\<close>

lemma external_addr_whole:
  assumes "pton_ok ne" and "external_addr ne pick ls None = Inr (out, done1, logs)"
  shows "length out = 128" "ss_family out \<in> {AF_INET, AF_INET6}" "external_addr ne pick' ls' done1 = Inr (out, done1, [])"
proof -
  define v6 where "v6 = (ls_family (ls ! (if length ls = 1 then 0 else pick)) = ascii ''AF_INET6'')"
  define o1 where "o1 = put 2 (port_bytes (ls_port (ls ! (if length ls = 1 then 0 else pick)))) (set_family (if v6 then AF_INET6 else AF_INET) (zeros 128))"
  have l: "length o1 = 128" "ss_family o1 = (if v6 then AF_INET6 else AF_INET)" using sockaddr_made by (simp_all add: o1_def)
  have out: "out = o1 \<or> (\<exists>a. length a = 16 \<and> out = put 8 a o1) \<or> (\<exists>a. length a = 4 \<and> out = put 4 a o1)" and d: "done1 = Some out"
    using assms(2) pton_okD [OF assms(1)] unfolding external_addr_def Let_def o1_def v6_def by (auto split: if_splits option.splits) blast+
  show "length out = 128" using out l(1) by (auto simp: length_put)
  have "ss_family out = ss_family o1" using out l(1) by (auto simp: ss_family_def field_put_other)
  then show "ss_family out \<in> {AF_INET, AF_INET6}" using l(2) by simp
  show "external_addr ne pick' ls' done1 = Inr (out, done1, [])" unfolding d by (simp add: external_addr_def)
qed

text \<open>The address a listener ends with, whatever address was configured.\<close>

definition wildcard :: "listener \<Rightarrow> bound" where
  "wildcard s =
     (let v6 = (ls_family s = ascii ''AF_INET6'') in
      \<lparr>b_addr = put 2 (port_bytes (ls_port s)) (set_family (if v6 then AF_INET6 else AF_INET) (zeros 128)),
       b_addrlen = (if v6 then 28 else 16), b_backlog = ls_backlog s\<rparr>)"

definition parses :: "net_env \<Rightarrow> listener \<Rightarrow> bool" where
  "parses ne s \<longleftrightarrow> (if ls_family s = ascii ''AF_INET6'' then n_pton6 ne (ls_addr s) \<noteq> None else n_pton4 ne (ls_addr s) \<noteq> None)"

lemma put_put: "length a = length b \<Longrightarrow> off + length a \<le> length xs \<Longrightarrow> put off b (put off a xs) = put off b xs"
  by (simp add: put_def)

lemma put_field: "off + n \<le> length xs \<Longrightarrow> field off n xs = ys \<Longrightarrow> length ys = n \<Longrightarrow> put off ys xs = xs"
  by (auto simp: put_def field_def) (metis append_take_drop_id drop_drop add.commute)

lemma made_zeros:
  "field 4 4 (put 2 (port_bytes p) (set_family f (zeros 128))) = zeros 4" "field 8 16 (put 2 (port_bytes p) (set_family f (zeros 128))) = zeros 16"
proof -
  have l: "length (set_family f (zeros 128)) = 128" using set_family_fields [of "zeros 128" f] by simp
  have z: "field k n (set_family f (zeros 128)) = field k n (zeros 128)" if "2 \<le> k" for k n
    unfolding set_family_def by (rule field_put_other) (use that in simp_all)
  show "field 4 4 (put 2 (port_bytes p) (set_family f (zeros 128))) = zeros 4"
    using field_put_other [of 2 "port_bytes p" "set_family f (zeros 128)" 4 4] l z [of 4 4] by (simp add: field_def take_replicate drop_replicate del: replicate.simps)
  show "field 8 16 (put 2 (port_bytes p) (set_family f (zeros 128))) = zeros 16"
    using field_put_other [of 2 "port_bytes p" "set_family f (zeros 128)" 8 16] l z [of 8 16] by (simp add: field_def take_replicate drop_replicate del: replicate.simps)
qed

lemma listen_addr_wildcard:
  assumes "pton_ok ne"
  shows "parses ne s \<Longrightarrow> listen_addr ne i s = Inr (wildcard s)" "\<not> parses ne s \<Longrightarrow> \<exists>e. listen_addr ne i s = Inl e \<and> is_error e"
proof -
  let ?o = "\<lambda>f. put 2 (port_bytes (ls_port s)) (set_family f (zeros 128))"
  have l: "length (?o f) = 128" for f by (rule sockaddr_made(1))
  have z4: "put 4 (zeros 4) (?o f) = ?o f" for f by (rule put_field [OF _ made_zeros(1)]) (simp_all add: l)
  have z8: "put 8 (zeros 16) (?o f) = ?o f" for f by (rule put_field [OF _ made_zeros(2)]) (simp_all add: l)
  have p4: "put 4 (zeros 4) (put 4 a (?o f)) = ?o f" if "length a = 4" for a f using put_put [of a "zeros 4" 4 "?o f"] that z4 [of f] by (simp add: l)
  have p8: "put 8 (zeros 16) (put 8 a (?o f)) = ?o f" if "length a = 16" for a f using put_put [of a "zeros 16" 8 "?o f"] that z8 [of f] by (simp add: l)
  show "listen_addr ne i s = Inr (wildcard s)" if "parses ne s"
    using that assms p4 p8 unfolding listen_addr_def Let_def z4 z8 wildcard_def parses_def pton_ok_def
    by (cases "ls_family s = ascii ''AF_INET6''") auto
  show "\<exists>e. listen_addr ne i s = Inl e \<and> is_error e" if "\<not> parses ne s"
    using that by (auto simp: listen_addr_def parses_def Let_def)
qed

section \<open>Properties\<close>

text \<open>
  Property C35: the listeners do not use the configured addresses. When all sockets can be opened, there is one
  listener for every setting whose address parses, in order, on the configured port of the
  wildcard address of its family; each other setting is reported once as an error and skipped. Every setting is announced.
\<close>

theorem listeners_wildcard:
  assumes "pton_ok ne"
  shows "\<exists>logs. open_listeners ne (\<lambda>_. True) i ls = Inr (map wildcard (filter (parses ne) ls), logs) \<and>
    length (filter is_error logs) = length (filter (\<lambda>s. \<not> parses ne s) ls) \<and> (\<forall>s\<in>set ls. announce ne s \<in> set logs)"
proof (induction ls arbitrary: i)
  case (Cons s ls)
  obtain logs where L: "open_listeners ne (\<lambda>_. True) (Suc i) ls = Inr (map wildcard (filter (parses ne) ls), logs)"
    "length (filter is_error logs) = length (filter (\<lambda>s. \<not> parses ne s) ls)" "\<forall>s\<in>set ls. announce ne s \<in> set logs" using Cons.IH by blast
  have a: "\<not> is_error (announce ne s)" by (simp add: announce_def log_types)
  show ?case
  proof (cases "parses ne s")
    case True
    with listen_addr_wildcard(1) [OF assms, of s i] L a show ?thesis by simp
  next
    case False
    with listen_addr_wildcard(2) [OF assms, of s i] L a show ?thesis by auto
  qed
qed simp

definition demo_net_env :: net_env where
  "demo_net_env = \<lparr>n_pton4 = \<lambda>l. if length l = 4 then Some l else None, n_pton6 = \<lambda>l. if length l = 16 then Some l else None,
     n_dec = \<lambda>_. [48], n_show = \<lambda>_. [48], n_err = [101]\<rparr>"

lemma demo_net_env_ok: "pton_ok demo_net_env"
  by (simp add: pton_ok_def demo_net_env_def)

theorem listeners_wildcard_witness:
  "\<exists>logs. open_listeners demo_net_env (\<lambda>_. True) 0
      [\<lparr>ls_family = ascii ''AF_INET'', ls_addr = [1, 2, 3, 4], ls_port = 8333, ls_backlog = 5\<rparr>,
       \<lparr>ls_family = ascii ''AF_INET'', ls_addr = [1], ls_port = 8333, ls_backlog = 5\<rparr>] =
    Inr ([wildcard \<lparr>ls_family = ascii ''AF_INET'', ls_addr = [1, 2, 3, 4], ls_port = 8333, ls_backlog = 5\<rparr>], logs) \<and> length (filter is_error logs) = 1"
  using listeners_wildcard [OF demo_net_env_ok, of 0 "[\<lparr>ls_family = ascii ''AF_INET'', ls_addr = [1, 2, 3, 4], ls_port = 8333, ls_backlog = 5\<rparr>,
       \<lparr>ls_family = ascii ''AF_INET'', ls_addr = [1], ls_port = 8333, ls_backlog = 5\<rparr>]"]
  by (auto simp: parses_def demo_net_env_def ascii_def)

lemma bl_lines_texts: "\<forall>c\<in>set (snd (bl_lines pton4 pton6 lines entry bl)). \<exists>args. args \<noteq> [] \<and> c = LText ERROR args"
  by (induction pton4 pton6 lines entry bl rule: bl_lines.induct) (auto simp: Let_def case_prod_beta' split: option.splits)

lemma log_texts_ok:
  "world_ok env w \<Longrightarrow> \<forall>c\<in>set logs. \<exists>n args. args \<noteq> [] \<and> c = LText n args \<Longrightarrow>
   world_ok env (fold log_add logs w) \<and> w_active (fold log_add logs w) = w_active w \<and> w_blacklist (fold log_add logs w) = w_blacklist w"
proof (induction logs arbitrary: w)
  case (Cons c logs)
  then have "world_ok env (log_add c w)" by (intro world_ok_log) auto
  with Cons show ?case by simp
qed simp



end
