(* ===== verification/Easy_Message.thy ===== *)
theory Easy_Message
  imports Control_Frames
begin

text \<open>
  The message classes of the control protocol that the clients use (\<^verbatim>\<open>shared/src/connector.cpp\<close> and
  \<^verbatim>\<open>shared/includes/connector.hpp\<close>, namespace \<^verbatim>\<open>ctrl::easy\<close>). An object is its buffer, here the
  value-level buffer that the copy-on-write class refines. A frame has a header of six bytes: the version at
  offset 0, the length of the payload in network order at 1 and the type at 5. The payload of a
  command has the command at offset 0, the message at 1, the count at 5 and the targets from 9.
\<close>

section \<open>Messages\<close>

definition em_new :: "nat \<Rightarrow> u8 \<Rightarrow> byte list \<Rightarrow> nat \<Rightarrow> vbuf res" where
  "em_new ps ty payload payload_length =
     bindR (vb_write (vb_new_n ps (6 + payload_length)) 0 [0]) (\<lambda>b1.
     bindR (vb_write b1 1 (le32 (ntoh32 (of_nat payload_length)))) (\<lambda>b2.
     bindR (vb_write b2 5 [ty]) (\<lambda>b3.
     bindR (rd payload 0 payload_length) (\<lambda>p.
     vb_write b3 6 p))))"

definition em_serialize :: "vbuf \<Rightarrow> (vbuf \<times> nat) res" where
  "em_serialize b = bindR (vb_const_ptr b) (\<lambda>m. bindR (rd m 0 6) (\<lambda>_. Inr (b, cm_length m + 6)))"

datatype easy = Easy_Bitcoin vbuf | Easy_Command vbuf | Easy_Register vbuf | Easy_Connect vbuf

definition em_deserialize :: "vbuf \<Rightarrow> easy res" where
  "em_deserialize b =
     bindR (vb_const_ptr b) (\<lambda>m.
     bindR (rd m 0 6) (\<lambda>_.
     if cm_type m = BITCOIN_PACKED_MESSAGE then Inr (Easy_Bitcoin b)
     else if cm_type m = COMMAND then Inr (Easy_Command b)
     else if cm_type m = REGISTER then Inr (Easy_Register b)
     else if cm_type m = CONNECT then Inr (Easy_Connect b)
     else Inl Runtime_Error))"

definition em_type :: "vbuf \<Rightarrow> u8 res" where
  "em_type b = bindR (vb_const_ptr b) (\<lambda>m. bindR (rd m 0 6) (\<lambda>_. Inr (cm_type m)))"

definition em_set_type :: "u8 \<Rightarrow> vbuf \<Rightarrow> vbuf res" where
  "em_set_type t b = vb_write b 5 [t]"

definition rm_new :: "nat \<Rightarrow> vbuf res" where
  "rm_new ps = em_new ps REGISTER [] 0"

section \<open>Bitcoin messages to register\<close>

definition bm_new :: "nat \<Rightarrow> byte list \<Rightarrow> nat \<Rightarrow> vbuf res" where
  "bm_new ps payload payload_size = em_new ps BITCOIN_PACKED_MESSAGE payload payload_size"

text \<open>The pointer that \<^verbatim>\<open>payload()\<close> returns, as the bytes from there to the end of the buffer.\<close>

definition bm_payload :: "vbuf \<Rightarrow> byte list res" where
  "bm_payload b = bindR (vb_const_ptr b) (\<lambda>m. Inr (drop 6 m))"

definition bm_set_payload :: "nat \<Rightarrow> byte list \<Rightarrow> nat \<Rightarrow> vbuf \<Rightarrow> vbuf res" where
  "bm_set_payload ps new_payload len b =
     bindR (vb_const_ptr b) (\<lambda>m.
     bindR (rd m 0 6) (\<lambda>_.
     bindR (if len \<noteq> cm_length m then vb_realloc ps (len + 6) b else Inr b) (\<lambda>b1.
     bindR (rd new_payload 0 len) (\<lambda>p.
     bindR (vb_write b1 6 p) (\<lambda>b2.
     vb_write b2 1 (le32 (ntoh32 (of_nat len))))))))"

section \<open>Connect messages\<close>

text \<open>The two addresses are \<^verbatim>\<open>sockaddr_in\<close>, of 16 bytes.\<close>

definition cn_new :: "nat \<Rightarrow> byte list \<Rightarrow> byte list \<Rightarrow> vbuf res" where
  "cn_new ps remote_addr local_addr =
     bindR (em_new ps CONNECT (zeros 32) 32) (\<lambda>b.
     bindR (rd remote_addr 0 16) (\<lambda>r.
     bindR (vb_write b 6 r) (\<lambda>b1.
     bindR (rd local_addr 0 16) (\<lambda>l.
     vb_write b1 22 l))))"

definition cn_remote_addr :: "vbuf \<Rightarrow> byte list res" where
  "cn_remote_addr b = bindR (vb_const_ptr b) (\<lambda>m. rd m 6 16)"

definition cn_set_remote_addr :: "byte list \<Rightarrow> vbuf \<Rightarrow> vbuf res" where
  "cn_set_remote_addr a b = bindR (rd a 0 16) (\<lambda>r. vb_write b 6 r)"

text \<open>The getter adds the size of a pointer where the setter adds the size of the structure.\<close>

definition cn_local_addr :: "vbuf \<Rightarrow> byte list res" where
  "cn_local_addr b = bindR (vb_const_ptr b) (\<lambda>m. rd m (6 + 8) 16)"

definition cn_set_local_addr :: "byte list \<Rightarrow> vbuf \<Rightarrow> vbuf res" where
  "cn_set_local_addr a b = bindR (rd a 0 16) (\<lambda>l. vb_write b (6 + 16) l)"

section \<open>Commands\<close>

text \<open>The loop that stores the targets \<open>k, k + 1, ...\<close>\<close>

fun cmd_put_targets :: "u32 list \<Rightarrow> nat \<Rightarrow> nat \<Rightarrow> vbuf \<Rightarrow> vbuf res" where
  "cmd_put_targets ts k 0 b = Inr b"
| "cmd_put_targets ts k (Suc n) b =
     (if k < length ts then bindR (vb_write b (15 + 4 * k) (le32 (hton32 (ts ! k)))) (cmd_put_targets ts (Suc k) n)
      else Inl Out_Of_Bounds)"

definition cmd_new :: "nat \<Rightarrow> u8 \<Rightarrow> u32 \<Rightarrow> u32 list \<Rightarrow> nat \<Rightarrow> vbuf res" where
  "cmd_new ps command message_id targets cnt =
     bindR (vb_write (vb_new_n ps (6 + 9 + 4 * cnt)) 0 [0]) (\<lambda>b1.
     bindR (vb_write b1 5 [COMMAND]) (\<lambda>b2.
     bindR (vb_write b2 1 (le32 (hton32 (of_nat (9 + 4 * cnt))))) (\<lambda>b3.
     bindR (vb_write b3 6 [command]) (\<lambda>b4.
     bindR (vb_write b4 7 (le32 (hton32 message_id))) (\<lambda>b5.
     bindR (cmd_put_targets targets 0 cnt b5) (\<lambda>b6.
     vb_write b6 11 (le32 (hton32 (of_nat cnt)))))))))"

definition cmd_command :: "vbuf \<Rightarrow> u8 res" where
  "cmd_command b = bindR (vb_const_ptr b) (\<lambda>m. bindR (rd m 6 1) (\<lambda>c. Inr (c ! 0)))"

definition cmd_set_command :: "u8 \<Rightarrow> vbuf \<Rightarrow> vbuf res" where
  "cmd_set_command c b = vb_write b 6 [c]"

fun cmd_get_targets :: "byte list \<Rightarrow> nat \<Rightarrow> nat \<Rightarrow> u32 list res" where
  "cmd_get_targets m k 0 = Inr []"
| "cmd_get_targets m k (Suc n) =
     bindR (rd m (15 + 4 * k) 4) (\<lambda>t. bindR (cmd_get_targets m (Suc k) n) (\<lambda>ts. Inr (ntoh32 (get32 t) # ts)))"

definition cmd_targets :: "vbuf \<Rightarrow> u32 list res" where
  "cmd_targets b =
     bindR (vb_const_ptr b) (\<lambda>m. bindR (rd m 11 4) (\<lambda>tc. cmd_get_targets m 0 (unat (ntoh32 (get32 tc)))))"

definition cmd_message_id :: "vbuf \<Rightarrow> u32 res" where
  "cmd_message_id b = bindR (vb_const_ptr b) (\<lambda>m. bindR (rd m 7 4) (\<lambda>i. Inr (ntoh32 (get32 i))))"

definition cmd_set_message_id :: "u32 \<Rightarrow> vbuf \<Rightarrow> vbuf res" where
  "cmd_set_message_id i b = vb_write b 7 (le32 (hton32 i))"

definition cmd_set_targets :: "nat \<Rightarrow> u32 list \<Rightarrow> nat \<Rightarrow> vbuf \<Rightarrow> vbuf res" where
  "cmd_set_targets ps targets cnt b =
     bindR (vb_write b 0 []) (\<lambda>b1.
     bindR (vb_const_ptr b1) (\<lambda>m.
     bindR (rd m 11 4) (\<lambda>tc.
     if cnt = unat (ntoh32 (get32 tc)) then cmd_put_targets targets 0 cnt b1
     else bindR (cmd_command b1) (\<lambda>c. bindR (cmd_message_id b1) (\<lambda>i. cmd_new ps c i targets cnt)))))"

section \<open>Stores into a frame\<close>

lemma put_mid: "off = length pre \<Longrightarrow> length old = length ys \<Longrightarrow> put off ys (pre @ old @ post) = pre @ ys @ post"
  by (simp add: put_def)

text \<open>The first bytes of a buffer are \<open>xs\<close>.\<close>

definition starts :: "vbuf \<Rightarrow> byte list \<Rightarrow> bool" where
  "starts b xs \<longleftrightarrow> xs \<noteq> [] \<and> take (length xs) (vb_bytes b) = xs"

lemma starts_allocated: "starts b xs \<Longrightarrow> length xs \<le> vb_allocated b" "starts b xs \<Longrightarrow> 0 < vb_allocated b"
  by (auto simp: starts_def vb_allocated_def dest!: arg_cong [of _ xs length])

lemma store_bytes:
  assumes "starts b (pre @ old @ post)" and "length old = length ys" and "off = length pre"
  obtains b' where "vb_write b off ys = Inr b'" and "starts b' (pre @ ys @ post)"
proof -
  let ?n = "length (pre @ old @ post)"
  note a = starts_allocated [OF assms(1)]
  obtain b' where W: "vb_write b off ys = Inr b'" using vb_write_ok [of off ys b] a assms(2,3) by auto
  have "vb_bytes b' = put off ys (vb_bytes b)" using W by (cases b) (auto simp: put_def res_simps split: if_splits)
  then have "take ?n (vb_bytes b') = take ?n (put off ys ((pre @ old @ post) @ drop ?n (vb_bytes b)))"
    using assms(1) append_take_drop_id [of ?n "vb_bytes b"] by (simp add: starts_def)
  also have "\<dots> = pre @ ys @ post" using put_mid [of off pre old ys "post @ drop ?n (vb_bytes b)"] assms(2,3) by simp
  finally show thesis using W assms(1,2) by (intro that [of b']) (auto simp: starts_def)
qed

lemma starts_new: "0 < ps \<Longrightarrow> 0 < n \<Longrightarrow> starts (vb_new_n ps n) (zeros n)"
  using round_to_page_bounds(1) [of ps n] by (auto simp: starts_def vb_new_n_def take_replicate min_def)

lemma starts_const: "starts b xs \<Longrightarrow> vb_const_ptr b = Inr (vb_bytes b)"
  using starts_allocated(2) [of b xs] by (auto simp: vb_const_ptr_def vb_allocated_def)

lemma load_bytes:
  assumes "starts b (pre @ x @ post)" and "off = length pre" and "n = length x"
  shows "rd (vb_bytes b) off n = Inr x"
proof -
  have "vb_bytes b = pre @ x @ post @ drop (length (pre @ x @ post)) (vb_bytes b)"
    using assms(1) append_take_drop_id [of "length (pre @ x @ post)" "vb_bytes b"] by (simp add: starts_def)
  from arg_cong [OF this, of "\<lambda>m. rd m off n"] show ?thesis using assms(2,3) by (simp add: rd_def)
qed

section \<open>What an object holds\<close>

definition em_holds :: "vbuf \<Rightarrow> u8 \<Rightarrow> byte list \<Rightarrow> bool" where
  "em_holds b ty p \<longleftrightarrow> length p < 2 ^ 32 \<and> starts b (ct_wire ty p)"

lemma ct_wire_not_Nil [simp]: "ct_wire ty p \<noteq> []"
  by (simp add: ct_wire_def)

lemma em_holds_fields:
  assumes "em_holds b ty p"
  shows "vb_const_ptr b = Inr (vb_bytes b)" and "rd (vb_bytes b) 0 6 = Inr (take 6 (vb_bytes b))"
    and "cm_length (vb_bytes b) = length p" and "cm_type (vb_bytes b) = ty" and "take (length p) (drop 6 (vb_bytes b)) = p"
    and "take (6 + length p) (vb_bytes b) = ct_wire ty p"
proof -
  have h: "length p < 2 ^ 32" "starts b (ct_wire ty p)" using assms by (simp_all add: em_holds_def)
  then show w: "take (6 + length p) (vb_bytes b) = ct_wire ty p" by (simp add: starts_def)
  show "vb_const_ptr b = Inr (vb_bytes b)" by (rule starts_const [OF h(2)])
  show "rd (vb_bytes b) 0 6 = Inr (take 6 (vb_bytes b))"
    using starts_allocated(1) [OF h(2)] by (simp add: rd_def vb_allocated_def)
  show "cm_length (vb_bytes b) = length p" "cm_type (vb_bytes b) = ty" "take (length p) (drop 6 (vb_bytes b)) = p"
    by (rule ct_wire_fields [OF h(1) w])+
qed

lemma em_serialize_holds: "em_holds b ty p \<Longrightarrow> em_serialize b = Inr (b, 6 + length p)"
  by (simp add: em_serialize_def em_holds_fields)

lemma le32_ntoh32: "le32 (ntoh32 x) = be32 x"
  using le32_hton32 [of x] by (simp add: hton32_def ntoh32_def)

lemma em_new_holds:
  assumes "0 < ps" and "n < 2 ^ 32" and "n \<le> length payload"
  obtains b where "em_new ps ty payload n = Inr b" and "em_holds b ty (take n payload)"
proof -
  have "starts (vb_new_n ps (6 + n)) ([] @ [0] @ zeros (5 + n))"
    using starts_new [OF assms(1), of "6 + n"] by (simp add: numeral_eq_Suc)
  then obtain b1 where 1: "vb_write (vb_new_n ps (6 + n)) 0 [0] = Inr b1" "starts b1 ([] @ [0] @ zeros (5 + n))"
    by (rule store_bytes [where ys = "[0]"]) simp_all
  then have "starts b1 ([0] @ zeros 4 @ zeros (1 + n))" by (simp add: numeral_eq_Suc)
  then obtain b2 where 2: "vb_write b1 1 (le32 (ntoh32 (of_nat n))) = Inr b2" "starts b2 ([0] @ le32 (ntoh32 (of_nat n)) @ zeros (1 + n))"
    by (rule store_bytes [where ys = "le32 (ntoh32 (of_nat n))"]) simp_all
  then have "starts b2 (([0] @ be32 (of_nat n)) @ [0] @ zeros n)" by (simp add: le32_ntoh32)
  then obtain b3 where 3: "vb_write b2 5 [ty] = Inr b3" "starts b3 (([0] @ be32 (of_nat n)) @ [ty] @ zeros n)"
    by (rule store_bytes [where ys = "[ty]"]) simp_all
  then have "starts b3 (([0] @ be32 (of_nat n) @ [ty]) @ zeros n @ [])" by simp
  then obtain b4 where 4: "vb_write b3 6 (take n payload) = Inr b4" "starts b4 (([0] @ be32 (of_nat n) @ [ty]) @ take n payload @ [])"
    by (rule store_bytes [where ys = "take n payload"]) (use assms(3) in simp_all)
  show thesis
    by (rule that [of b4]) (use 1 2 3 4 assms(2,3) in \<open>simp_all add: em_new_def rd_def em_holds_def ct_wire_def\<close>)
qed

text \<open>The payload of a command.\<close>

definition cmd_image :: "u8 \<Rightarrow> u32 \<Rightarrow> u32 list \<Rightarrow> byte list" where
  "cmd_image c i ts = [c] @ be32 i @ be32 (of_nat (length ts)) @ concat (map be32 ts)"

lemma send_payload_image: "send_payload i ts = cmd_image COMMAND_SEND_MSG i ts"
  by (simp add: send_payload_def cmd_image_def)

lemma length_cmd_image [simp]: "length (cmd_image c i ts) = 9 + 4 * length ts"
  by (simp add: cmd_image_def)

lemma put_targets_store:
  "starts b (hd15 @ concat (map be32 (take k ts)) @ old) \<Longrightarrow> length hd15 = 15 \<Longrightarrow> length old = 4 * n \<Longrightarrow> k + n = length ts \<Longrightarrow>
   \<exists>b'. cmd_put_targets ts k n b = Inr b' \<and> starts b' (hd15 @ concat (map be32 ts))"
proof (induction n arbitrary: k b old)
  case 0
  then show ?case by simp
next
  case (Suc n)
  have k: "k < length ts" using Suc.prems(4) by simp
  let ?pre = "hd15 @ concat (map be32 (take k ts))"
  have "starts b (?pre @ take 4 old @ drop 4 old)" using Suc.prems(1) by simp
  then obtain b' where B: "vb_write b (15 + 4 * k) (le32 (hton32 (ts ! k))) = Inr b'" "starts b' (?pre @ le32 (hton32 (ts ! k)) @ drop 4 old)"
    by (rule store_bytes [where ys = "le32 (hton32 (ts ! k))"]) (use Suc.prems(2,3) k in simp_all)
  have "starts b' (hd15 @ concat (map be32 (take (Suc k) ts)) @ drop 4 old)"
    using B(2) k by (simp add: le32_hton32 take_Suc_conv_app_nth)
  with Suc.IH [of b' "Suc k" "drop 4 old"] Suc.prems(2-4) B(1) k show ?case by auto
qed

lemma cmd_new_holds:
  assumes "0 < ps" and "9 + 4 * length ts < 2 ^ 32"
  obtains b where "cmd_new ps c i ts (length ts) = Inr b" and "em_holds b COMMAND (cmd_image c i ts)"
proof -
  let ?n = "length ts"
  let ?len = "be32 (of_nat (9 + 4 * ?n))" and ?cnt = "be32 (of_nat ?n)" and ?tail = "zeros (4 * ?n)"
  have "starts (vb_new_n ps (6 + 9 + 4 * ?n)) ([] @ [0] @ zeros (14 + 4 * ?n))"
    using starts_new [OF assms(1), of "6 + 9 + 4 * ?n"] by (simp add: numeral_eq_Suc)
  then obtain b1 where 1: "vb_write (vb_new_n ps (6 + 9 + 4 * ?n)) 0 [0] = Inr b1" "starts b1 ([] @ [0] @ zeros (14 + 4 * ?n))"
    by (rule store_bytes [where ys = "[0]"]) simp_all
  have z: "[0] @ zeros (14 + 4 * ?n) = zeros 5 @ [0] @ zeros (9 + 4 * ?n)" by (simp add: numeral_eq_Suc)
  from 1(2) z have "starts b1 (zeros 5 @ [0] @ zeros (9 + 4 * ?n))" by simp
  then obtain b2 where 2: "vb_write b1 5 [COMMAND] = Inr b2" "starts b2 (zeros 5 @ [COMMAND] @ zeros (9 + 4 * ?n))"
    by (rule store_bytes [where ys = "[COMMAND]"]) simp_all
  from 2(2) have "starts b2 ([0] @ zeros 4 @ ([COMMAND] @ zeros (9 + 4 * ?n)))" by (simp add: numeral_eq_Suc)
  then obtain b3 where 3: "vb_write b2 1 (le32 (hton32 (of_nat (9 + 4 * ?n)))) = Inr b3"
    "starts b3 ([0] @ le32 (hton32 (of_nat (9 + 4 * ?n))) @ ([COMMAND] @ zeros (9 + 4 * ?n)))"
    by (rule store_bytes [where ys = "le32 (hton32 (of_nat (9 + 4 * ?n)))"]) simp_all
  from 3(2) have "starts b3 (([0] @ ?len @ [COMMAND]) @ [0] @ zeros (8 + 4 * ?n))"
    by (simp add: le32_hton32 numeral_eq_Suc)
  then obtain b4 where 4: "vb_write b3 6 [c] = Inr b4" "starts b4 (([0] @ ?len @ [COMMAND]) @ [c] @ zeros (8 + 4 * ?n))"
    by (rule store_bytes [where ys = "[c]"]) simp_all
  from 4(2) have "starts b4 (([0] @ ?len @ [COMMAND] @ [c]) @ zeros 4 @ (zeros 4 @ ?tail))"
    by (simp add: replicate_add [symmetric])
  then obtain b5 where 5: "vb_write b4 7 (le32 (hton32 i)) = Inr b5"
    "starts b5 (([0] @ ?len @ [COMMAND] @ [c]) @ le32 (hton32 i) @ (zeros 4 @ ?tail))"
    by (rule store_bytes [where ys = "le32 (hton32 i)"]) simp_all
  let ?h = "[0] @ ?len @ [COMMAND] @ [c] @ be32 i"
  from 5(2) have "starts b5 ((?h @ zeros 4) @ concat (map be32 (take 0 ts)) @ ?tail)" by (simp add: le32_hton32)
  then obtain b6 where 6: "cmd_put_targets ts 0 ?n b5 = Inr b6" "starts b6 ((?h @ zeros 4) @ concat (map be32 ts))"
    using put_targets_store [of b5 "?h @ zeros 4" 0 ts ?tail ?n] by auto
  from 6(2) have "starts b6 (?h @ zeros 4 @ concat (map be32 ts))" by simp
  then obtain b7 where 7: "vb_write b6 11 (le32 (hton32 (of_nat ?n))) = Inr b7" "starts b7 (?h @ le32 (hton32 (of_nat ?n)) @ concat (map be32 ts))"
    by (rule store_bytes [where ys = "le32 (hton32 (of_nat ?n))"]) simp_all
  show thesis
  proof (rule that [of b7])
    show "cmd_new ps c i ts ?n = Inr b7" unfolding cmd_new_def 1(1) bindR.simps 2(1) 3(1) 4(1) 5(1) 6(1) 7(1) ..
    show "em_holds b7 COMMAND (cmd_image c i ts)"
      using 7(2) assms(2) by (simp add: em_holds_def ct_wire_def cmd_image_def le32_hton32 del: of_nat_add of_nat_mult)
  qed
qed

section \<open>The constructors make frames\<close>

text \<open>
  What a client relies on: an object made from \<open>a\<close> is sent as the frame \<open>frame a\<close>. It holds for every
  class of messages.
\<close>

locale frame_maker =
  fixes make :: "nat \<Rightarrow> 'a \<Rightarrow> vbuf res" and ok :: "'a \<Rightarrow> bool" and frame :: "'a \<Rightarrow> u8 \<times> byte list"
  assumes make_holds: "0 < ps \<Longrightarrow> ok a \<Longrightarrow> \<exists>b. make ps a = Inr b \<and> em_holds b (fst (frame a)) (snd (frame a))"
begin

definition sent :: "nat \<Rightarrow> 'a \<Rightarrow> byte list res" where
  "sent ps a = bindR (make ps a) (\<lambda>b. bindR (em_serialize b) (\<lambda>(buf, n). bindR (vb_const_ptr buf) (\<lambda>m. rd m 0 n)))"

lemma sent_frame:
  assumes "0 < ps" and "ok a"
  shows "sent ps a = Inr (ct_wire (fst (frame a)) (snd (frame a)))"
proof -
  obtain b where B: "make ps a = Inr b" "em_holds b (fst (frame a)) (snd (frame a))" using make_holds [OF assms] by blast
  note H = em_holds_fields [OF B(2)]
  have "length (ct_wire (fst (frame a)) (snd (frame a))) \<le> vb_allocated b" using B(2) unfolding em_holds_def by (blast dest: starts_allocated(1))
  with B(1) H em_serialize_holds [OF B(2)] show ?thesis by (simp add: sent_def rd_def vb_allocated_def)
qed

lemma sent_typed: "0 < ps \<Longrightarrow> ok a \<Longrightarrow> bindR (make ps a) em_type = Inr (fst (frame a))"
  using make_holds [of ps a] by (auto simp: em_type_def em_holds_fields)

end

interpretation bitcoin_frames: frame_maker "\<lambda>ps m. bm_new ps m (length m)" "\<lambda>m. length m < 2 ^ 32" "\<lambda>m. (BITCOIN_PACKED_MESSAGE, m)"
proof
  fix ps :: nat and m :: "byte list" assume a: "0 < ps" "length m < 2 ^ 32"
  obtain b where "em_new ps BITCOIN_PACKED_MESSAGE m (length m) = Inr b" "em_holds b BITCOIN_PACKED_MESSAGE (take (length m) m)"
    by (rule em_new_holds [OF a order_refl])
  then show "\<exists>b. bm_new ps m (length m) = Inr b \<and> em_holds b (fst (BITCOIN_PACKED_MESSAGE, m)) (snd (BITCOIN_PACKED_MESSAGE, m))"
    by (simp add: bm_new_def)
qed

interpretation command_frames: frame_maker "\<lambda>ps (c, i, ts). cmd_new ps c i ts (length ts)" "\<lambda>(c, i, ts). 9 + 4 * length ts < 2 ^ 32"
  "\<lambda>(c, i, ts). (COMMAND, cmd_image c i ts)"
proof (unfold_locales, clarify)
  fix ps :: nat and c :: u8 and i :: u32 and ts :: "u32 list" assume a: "0 < ps" "9 + 4 * length ts < 2 ^ 32"
  obtain b where "cmd_new ps c i ts (length ts) = Inr b" "em_holds b COMMAND (cmd_image c i ts)" by (rule cmd_new_holds [OF a])
  then show "\<exists>b. cmd_new ps c i ts (length ts) = Inr b \<and> em_holds b (fst (COMMAND, cmd_image c i ts)) (snd (COMMAND, cmd_image c i ts))" by simp
qed

interpretation register_frames: frame_maker "\<lambda>ps (_::unit). rm_new ps" "\<lambda>_. True" "\<lambda>_. (REGISTER, [])"
proof
  fix ps :: nat assume a: "0 < ps"
  obtain b where "em_new ps REGISTER [] 0 = Inr b" "em_holds b REGISTER (take 0 [])" by (rule em_new_holds [OF a, of 0 "[]"]) simp_all
  then show "\<exists>b. rm_new ps = Inr b \<and> em_holds b (fst (REGISTER, [])) (snd (REGISTER, []))" by (simp add: rm_new_def)
qed

interpretation connect_frames: frame_maker "\<lambda>ps (r, l). cn_new ps r l" "\<lambda>(r, l). length r = 16 \<and> length l = 16" "\<lambda>(r, l). (CONNECT, r @ l)"
proof (unfold_locales, clarify)
  fix ps :: nat and r l :: "byte list" assume a: "0 < ps" "length r = 16" "length l = 16"
  obtain b where B: "em_new ps CONNECT (zeros 32) 32 = Inr b" "em_holds b CONNECT (take 32 (zeros 32))"
    by (rule em_new_holds [OF a(1), of 32 "zeros 32" CONNECT]) simp_all
  let ?h = "[0] @ be32 32 @ [CONNECT]"
  have "starts b (?h @ zeros 16 @ zeros 16)" using B(2) by (simp add: em_holds_def ct_wire_def replicate_add [symmetric])
  then obtain b1 where 1: "vb_write b 6 r = Inr b1" "starts b1 (?h @ r @ zeros 16)"
    by (rule store_bytes [where ys = r]) (use a(2) in simp_all)
  then have "starts b1 ((?h @ r) @ zeros 16 @ [])" by simp
  then obtain b2 where 2: "vb_write b1 22 l = Inr b2" "starts b2 ((?h @ r) @ l @ [])"
    by (rule store_bytes [where ys = l]) (use a(2,3) in simp_all)
  have "cn_new ps r l = Inr b2" using B(1) 1(1) 2(1) a(2,3) by (simp add: cn_new_def rd_def)
  moreover have "em_holds b2 CONNECT (r @ l)" using 2(2) a(2,3) by (simp add: em_holds_def ct_wire_def)
  ultimately show "\<exists>b. cn_new ps r l = Inr b \<and> em_holds b (fst (CONNECT, r @ l)) (snd (CONNECT, r @ l))" by auto
qed

section \<open>Commands as values\<close>

lemma cmd_holds_starts:
  "em_holds b COMMAND (cmd_image c i ts) \<longleftrightarrow> 9 + 4 * length ts < 2 ^ 32 \<and>
    starts b ([0] @ be32 (of_nat (9 + 4 * length ts)) @ [COMMAND] @ [c] @ be32 i @ be32 (of_nat (length ts)) @ concat (map be32 ts))"
  by (simp add: em_holds_def ct_wire_def cmd_image_def del: of_nat_add of_nat_mult)

lemma get_targets_load:
  "starts b (hd15 @ concat (map be32 (take k ts)) @ concat (map be32 (drop k ts))) \<Longrightarrow> length hd15 = 15 \<Longrightarrow> k + n = length ts \<Longrightarrow>
   cmd_get_targets (vb_bytes b) k n = Inr (drop k ts)"
proof (induction n arbitrary: k)
  case 0
  then show ?case by simp
next
  case (Suc n)
  have k: "k < length ts" using Suc.prems(3) by simp
  have d: "drop k ts = ts ! k # drop (Suc k) ts" "take (Suc k) ts = take k ts @ [ts ! k]"
    using k by (simp_all add: Cons_nth_drop_Suc take_Suc_conv_app_nth)
  have "starts b ((hd15 @ concat (map be32 (take k ts))) @ be32 (ts ! k) @ concat (map be32 (drop (Suc k) ts)))"
    using Suc.prems(1) d(1) by simp
  then have "rd (vb_bytes b) (15 + 4 * k) 4 = Inr (be32 (ts ! k))" by (rule load_bytes) (use Suc.prems(2) k in simp_all)
  moreover have "cmd_get_targets (vb_bytes b) (Suc k) n = Inr (drop (Suc k) ts)"
    by (rule Suc.IH) (use Suc.prems d in simp_all)
  ultimately show ?case using d(1) by (simp add: ntoh32_get32)
qed

lemma cmd_getters:
  assumes "em_holds b COMMAND (cmd_image c i ts)"
  shows "cmd_command b = Inr c" and "cmd_message_id b = Inr i" and "cmd_targets b = Inr ts" and "rd (vb_bytes b) 11 4 = Inr (be32 (of_nat (length ts)))"
proof -
  let ?len = "be32 (of_nat (9 + 4 * length ts))" and ?cnt = "be32 (of_nat (length ts))" and ?ts = "concat (map be32 ts)"
  have l: "length ts < 2 ^ 32" and S: "starts b ([0] @ ?len @ [COMMAND] @ [c] @ be32 i @ ?cnt @ ?ts)"
    using assms unfolding cmd_holds_starts by simp_all
  note p = em_holds_fields(1) [OF assms]
  have "starts b (([0] @ ?len @ [COMMAND]) @ [c] @ be32 i @ ?cnt @ ?ts)" using S by (simp only: append.assoc)
  then have "rd (vb_bytes b) 6 1 = Inr [c]" by (rule load_bytes) simp_all
  with p show "cmd_command b = Inr c" by (simp add: cmd_command_def)
  have "starts b (([0] @ ?len @ [COMMAND] @ [c]) @ be32 i @ ?cnt @ ?ts)" using S by (simp only: append.assoc)
  then have "rd (vb_bytes b) 7 4 = Inr (be32 i)" by (rule load_bytes) simp_all
  with p show "cmd_message_id b = Inr i" by (simp add: cmd_message_id_def ntoh32_get32)
  have "starts b (([0] @ ?len @ [COMMAND] @ [c] @ be32 i) @ ?cnt @ ?ts)" using S by (simp only: append.assoc)
  then show R: "rd (vb_bytes b) 11 4 = Inr ?cnt" by (rule load_bytes) simp_all
  have "starts b (([0] @ ?len @ [COMMAND] @ [c] @ be32 i @ ?cnt) @ concat (map be32 (take 0 ts)) @ concat (map be32 (drop 0 ts)))"
    using S by (simp only: append.assoc take_0 drop_0 list.map concat.simps append_Nil)
  from get_targets_load [OF this] have "cmd_get_targets (vb_bytes b) 0 (length ts) = Inr ts" by simp
  with R p l show "cmd_targets b = Inr ts" by (simp add: cmd_targets_def ntoh32_get32 unat_of_nat)
qed

lemma cmd_set_command_holds:
  assumes "em_holds b COMMAND (cmd_image c i ts)"
  obtains b' where "cmd_set_command x b = Inr b'" and "em_holds b' COMMAND (cmd_image x i ts)"
proof -
  let ?h = "[0] @ be32 (of_nat (9 + 4 * length ts)) @ [COMMAND]" and ?r = "be32 i @ be32 (of_nat (length ts)) @ concat (map be32 ts)"
  have "starts b (?h @ [c] @ ?r)" using assms unfolding cmd_holds_starts by (simp only: append.assoc)
  then obtain b' where "vb_write b 6 [x] = Inr b'" "starts b' (?h @ [x] @ ?r)" by (rule store_bytes [where ys = "[x]"]) simp_all
  moreover from this(2) have "em_holds b' COMMAND (cmd_image x i ts)" using assms unfolding cmd_holds_starts by (simp only: append.assoc)
  ultimately show thesis by (intro that [of b']) (simp_all add: cmd_set_command_def)
qed

lemma cmd_set_message_id_holds:
  assumes "em_holds b COMMAND (cmd_image c i ts)"
  obtains b' where "cmd_set_message_id x b = Inr b'" and "em_holds b' COMMAND (cmd_image c x ts)"
proof -
  let ?h = "[0] @ be32 (of_nat (9 + 4 * length ts)) @ [COMMAND] @ [c]" and ?r = "be32 (of_nat (length ts)) @ concat (map be32 ts)"
  have "starts b (?h @ be32 i @ ?r)" using assms unfolding cmd_holds_starts by (simp only: append.assoc)
  then obtain b' where B: "vb_write b 7 (le32 (hton32 x)) = Inr b'" "starts b' (?h @ le32 (hton32 x) @ ?r)"
    by (rule store_bytes [where ys = "le32 (hton32 x)"]) simp_all
  from B(2) have "em_holds b' COMMAND (cmd_image c x ts)" using assms unfolding cmd_holds_starts le32_hton32 by (simp only: append.assoc)
  with B(1) show thesis by (intro that [of b']) (simp_all add: cmd_set_message_id_def)
qed

text \<open>In place when the number of targets stays the same, a new object otherwise.\<close>

lemma cmd_set_targets_holds:
  assumes "0 < ps" and "em_holds b COMMAND (cmd_image c i ts)" and "9 + 4 * length us < 2 ^ 32"
  obtains b' where "cmd_set_targets ps us (length us) b = Inr b'" and "em_holds b' COMMAND (cmd_image c i us)"
proof -
  note G = cmd_getters [OF assms(2)] and p = em_holds_fields(1) [OF assms(2)]
  have l: "9 + 4 * length ts < 2 ^ 32" and S: "starts b ([0] @ be32 (of_nat (9 + 4 * length ts)) @ [COMMAND] @ [c] @ be32 i @
      be32 (of_nat (length ts)) @ concat (map be32 ts))" using assms(2) unfolding cmd_holds_starts by simp_all
  have w: "vb_write b 0 [] = Inr b" using vb_write_Nil [of b 0] starts_allocated(2) [OF S] by simp
  have n: "unat (ntoh32 (get32 (be32 (of_nat (length ts))))) = length ts" using l by (simp add: ntoh32_get32 unat_of_nat)
  show thesis
  proof (cases "length us = length ts")
    case True
    let ?h = "[0] @ be32 (of_nat (9 + 4 * length us)) @ [COMMAND] @ [c] @ be32 i @ be32 (of_nat (length us))"
    have "starts b (?h @ concat (map be32 (take 0 us)) @ concat (map be32 ts))"
      using S unfolding True by (simp only: append.assoc take_0 list.map concat.simps append_Nil)
    then have "\<exists>b'. cmd_put_targets us 0 (length us) b = Inr b' \<and> starts b' (?h @ concat (map be32 us))"
      by (rule put_targets_store) (use True in simp_all)
    then obtain b' where B: "cmd_put_targets us 0 (length us) b = Inr b'" "starts b' (?h @ concat (map be32 us))" by blast
    have "em_holds b' COMMAND (cmd_image c i us)" using B(2) assms(3) unfolding cmd_holds_starts by (simp only: append.assoc)
    with B(1) show thesis using p G(4) w n True by (intro that [of b']) (simp_all add: cmd_set_targets_def)
  next
    case False
    obtain b' where "cmd_new ps c i us (length us) = Inr b'" "em_holds b' COMMAND (cmd_image c i us)" by (rule cmd_new_holds [OF assms(1,3)])
    then show thesis using p G(1,2,4) w n False by (intro that [of b']) (simp_all add: cmd_set_targets_def)
  qed
qed

lemma bm_set_payload_holds:
  assumes "0 < ps" and "em_holds b ty p" and "n < 2 ^ 32" and "n \<le> length new"
  obtains b' where "bm_set_payload ps new n b = Inr b'" and "em_holds b' ty (take n new)"
proof -
  note H = em_holds_fields [OF assms(2)]
  let ?h = "[0] @ be32 (of_nat (length p)) @ [ty]" and ?p = "take n new"
  have S: "starts b (?h @ p)" using assms(2) by (simp add: em_holds_def ct_wire_def)
  obtain b1 old where R: "(if n \<noteq> length p then vb_realloc ps (n + 6) b else Inr b) = Inr b1" "starts b1 (?h @ old @ [])" "length old = n"
  proof (cases "n = length p")
    case True
    with S show thesis by (intro that [of b p]) simp_all
  next
    case False
    note a = starts_allocated [OF S]
    obtain b1 where B: "vb_realloc ps (n + 6) b = Inr b1" "take 6 (vb_bytes b1) = take 6 (vb_bytes b)"
      using vb_realloc_ok [OF assms(1) a(2), of "n + 6" 6] a(1) by auto
    have l: "n + 6 \<le> length (vb_bytes b1)" using vb_allocated_realloc [OF assms(1) B(1)] by (simp add: vb_allocated_def)
    have "take 6 (vb_bytes b) = take 6 (take (6 + length p) (vb_bytes b))" by simp
    also have "\<dots> = ?h" unfolding H(6) by (simp add: ct_wire_def)
    finally have "take 6 (vb_bytes b) = ?h" .
    with B(2) have "take (6 + n) (vb_bytes b1) = ?h @ take n (drop 6 (vb_bytes b1))" by (simp add: take_add)
    with l False B(1) show thesis by (intro that [of b1 "take n (drop 6 (vb_bytes b1))"]) (simp_all add: starts_def add.commute)
  qed
  obtain b2 where 2: "vb_write b1 6 ?p = Inr b2" "starts b2 (?h @ ?p @ [])"
    using R(2) by (rule store_bytes [where ys = ?p]) (use R(3) assms(4) in simp_all)
  then have "starts b2 ([0] @ be32 (of_nat (length p)) @ ([ty] @ ?p))" by simp
  then obtain b3 where 3: "vb_write b2 1 (le32 (ntoh32 (of_nat n))) = Inr b3" "starts b3 ([0] @ le32 (ntoh32 (of_nat n)) @ ([ty] @ ?p))"
    by (rule store_bytes [where ys = "le32 (ntoh32 (of_nat n))"]) simp_all
  have "bm_set_payload ps new n b = Inr b3" using H(1-3) R(1) 2(1) 3(1) assms(4) by (simp add: bm_set_payload_def rd_def split: if_splits)
  moreover have "em_holds b3 ty ?p" using 3(2) assms(3,4) by (simp add: em_holds_def ct_wire_def le32_ntoh32)
  ultimately show thesis by (rule that)
qed

section \<open>A command object is a value\<close>

datatype cmd_op = Set_Command u8 | Set_Message_Id u32 | Set_Targets "u32 list"

fun cmd_apply :: "nat \<Rightarrow> cmd_op \<Rightarrow> vbuf \<Rightarrow> vbuf res" where
  "cmd_apply ps (Set_Command c) b = cmd_set_command c b"
| "cmd_apply ps (Set_Message_Id i) b = cmd_set_message_id i b"
| "cmd_apply ps (Set_Targets ts) b = cmd_set_targets ps ts (length ts) b"

fun cmd_run :: "nat \<Rightarrow> cmd_op list \<Rightarrow> vbuf \<Rightarrow> vbuf res" where
  "cmd_run ps [] b = Inr b"
| "cmd_run ps (x # xs) b = bindR (cmd_apply ps x b) (cmd_run ps xs)"

fun cmd_value :: "cmd_op \<Rightarrow> u8 \<times> u32 \<times> u32 list \<Rightarrow> u8 \<times> u32 \<times> u32 list" where
  "cmd_value (Set_Command c') (c, i, ts) = (c', i, ts)"
| "cmd_value (Set_Message_Id i') (c, i, ts) = (c, i', ts)"
| "cmd_value (Set_Targets ts') (c, i, ts) = (c, i, ts')"

fun cmd_fits :: "cmd_op \<Rightarrow> bool" where
  "cmd_fits (Set_Targets ts) = (9 + 4 * length ts < 2 ^ 32)"
| "cmd_fits x = True"

definition cmd_is :: "vbuf \<Rightarrow> u8 \<times> u32 \<times> u32 list \<Rightarrow> bool" where
  "cmd_is b v = (case v of (c, i, ts) \<Rightarrow> em_holds b COMMAND (cmd_image c i ts))"

lemma cmd_apply_is:
  assumes "0 < ps" and "cmd_is b v" and "cmd_fits x"
  shows "\<exists>b'. cmd_apply ps x b = Inr b' \<and> cmd_is b' (cmd_value x v)"
proof -
  obtain c i ts where v: "v = (c, i, ts)" by (cases v)
  with assms(2) have H: "em_holds b COMMAND (cmd_image c i ts)" by (simp add: cmd_is_def)
  show ?thesis
  proof (cases x)
    case (Set_Command y)
    then show ?thesis using cmd_set_command_holds [OF H, of y] v by (auto simp: cmd_is_def)
  next
    case (Set_Message_Id y)
    then show ?thesis using cmd_set_message_id_holds [OF H, of y] v by (auto simp: cmd_is_def)
  next
    case (Set_Targets us)
    then show ?thesis using cmd_set_targets_holds [OF assms(1) H, of us] assms(3) v by (auto simp: cmd_is_def)
  qed
qed

lemma cmd_run_is:
  "0 < ps \<Longrightarrow> cmd_is b v \<Longrightarrow> list_all cmd_fits xs \<Longrightarrow> \<exists>b'. cmd_run ps xs b = Inr b' \<and> cmd_is b' (fold cmd_value xs v)"
proof (induction xs arbitrary: b v)
  case (Cons x xs)
  obtain b' where "cmd_apply ps x b = Inr b'" "cmd_is b' (cmd_value x v)" using cmd_apply_is [OF Cons.prems(1,2)] Cons.prems(3) by auto
  with Cons.IH [OF Cons.prems(1) this(2)] Cons.prems(3) show ?case by simp
qed simp

text \<open>
  Property C14: a \<^verbatim>\<open>command_msg\<close> refines the triple of a command, a message number and a list of
  targets. After any sequence of its setters, whether they store in place or build a new object,
  the getters read the triple that the same updates give, \<^verbatim>\<open>deserialize\<close> recognises the class, and
  the serialized bytes are the frame of that triple, of the length that \<^verbatim>\<open>serialize\<close> returns.
\<close>

theorem command_message_refines:
  assumes "0 < ps" and "9 + 4 * length ts < 2 ^ 32" and "list_all cmd_fits xs" and "fold cmd_value xs (c, i, ts) = (c', i', ts')"
  shows "\<exists>b b'. cmd_new ps c i ts (length ts) = Inr b \<and> cmd_run ps xs b = Inr b' \<and>
    cmd_command b' = Inr c' \<and> cmd_message_id b' = Inr i' \<and> cmd_targets b' = Inr ts' \<and>
    em_deserialize b' = Inr (Easy_Command b') \<and> em_serialize b' = Inr (b', 15 + 4 * length ts') \<and>
    take (15 + 4 * length ts') (vb_bytes b') = ct_wire COMMAND (cmd_image c' i' ts')"
proof -
  obtain b where B: "cmd_new ps c i ts (length ts) = Inr b" "em_holds b COMMAND (cmd_image c i ts)" by (rule cmd_new_holds [OF assms(1,2)])
  then have "cmd_is b (c, i, ts)" by (simp add: cmd_is_def)
  from cmd_run_is [OF assms(1) this assms(3)] obtain b' where R: "cmd_run ps xs b = Inr b'" "em_holds b' COMMAND (cmd_image c' i' ts')"
    by (auto simp: assms(4) cmd_is_def)
  note F = em_holds_fields [OF R(2)]
  have "em_deserialize b' = Inr (Easy_Command b')" using F(1,2,4) by (simp add: em_deserialize_def ct_types)
  with B(1) R(1) cmd_getters(1-3) [OF R(2)] em_serialize_holds [OF R(2)] F(6) show ?thesis by simp
qed

theorem command_message_refines_witness:
  "\<exists>b b'. cmd_new 4096 COMMAND_SEND_MSG 7 [1, 2] 2 = Inr b \<and> cmd_run 4096 [Set_Targets [5], Set_Message_Id 9] b = Inr b' \<and>
    cmd_targets b' = Inr [5] \<and> cmd_message_id b' = Inr 9 \<and> em_serialize b' = Inr (b', 19)"
  using command_message_refines [of 4096 "[1, 2]" "[Set_Targets [5], Set_Message_Id 9]" COMMAND_SEND_MSG 7 COMMAND_SEND_MSG 9 "[5]"]
  by (simp add: numeral_2_eq_2 [symmetric]) blast

text \<open>
  The \<^verbatim>\<open>connect_msg\<close> of the same classes does not speak the protocol of the connector. It
  sends two \<^verbatim>\<open>sockaddr_in\<close> where the connector reads two \<^verbatim>\<open>wire_addr\<close>: the first byte of an IPv4 address is
  not a family of the protocol, so the connector connects to the all-zero address whatever the
  client asked for. Its getter of the local address does not return the address that was given.
\<close>

theorem connect_message_misread:
  assumes "0 < ps" and "length remote = 16" and "length local_addr = 16" and "remote ! 0 = 2" and "ka_socket (ce_kernel ce (cw_kcount cw)) = None"
  shows "\<exists>b cw1. cn_new ps remote local_addr = Inr b \<and> em_serialize b = Inr (b, 38) \<and>
    cn_remote_addr b = Inr remote \<and> cn_local_addr b = Inr (drop 8 remote @ take 8 local_addr) \<and>
    ct_connect ce (vb_bytes b) h cw = bindR (connect_handler_new (ce_env ce) (cw_kcount cw) (zeros 128)
      (ka_connect (ce_kernel ce (cw_kcount cw))) (ka_name (ce_kernel ce (cw_kcount cw)))
      (ka_in (ce_kernel ce (cw_kcount cw))) (ka_out (ce_kernel ce (cw_kcount cw))) (cw_world cw1)) (\<lambda>w. Inr (cw_set w cw1))"
proof -
  obtain b where B: "cn_new ps remote local_addr = Inr b" "em_holds b CONNECT (remote @ local_addr)"
    using connect_frames.make_holds [of ps "(remote, local_addr)"] assms(1-3) by auto
  note H = em_holds_fields [OF B(2)]
  let ?h = "[0] @ be32 32 @ [CONNECT]"
  have S: "starts b (?h @ remote @ local_addr)" using B(2) assms(2,3) by (simp add: em_holds_def ct_wire_def)
  from load_bytes [OF S, of 6 16] assms(2) have r: "rd (vb_bytes b) 6 16 = Inr remote" by simp
  have "starts b ((?h @ take 8 remote) @ (drop 8 remote @ take 8 local_addr) @ drop 8 local_addr)" using S by (metis append.assoc append_take_drop_id)
  then have l: "rd (vb_bytes b) 14 16 = Inr (drop 8 remote @ take 8 local_addr)" by (rule load_bytes) (use assms(2,3) in simp_all)
  have "starts b (?h @ (remote @ take 3 local_addr) @ drop 3 local_addr)" using S by (metis append.assoc append_take_drop_id)
  then have a: "rd (vb_bytes b) 6 19 = Inr (remote @ take 3 local_addr)" by (rule load_bytes) (use assms(2,3) in simp_all)
  have z: "wire_to_sockaddr (remote @ take 3 local_addr) = zeros 128"
    by (rule wire_to_sockaddr_fields(3)) (use assms(2-4) in \<open>simp_all add: nth_append addr_families\<close>)
  have f: "(remote @ take 3 local_addr) ! 0 = 2" using assms(2,4) by (simp add: nth_append)
  show ?thesis
    by (rule exI [of _ b], rule exI [of _ "clog CTRL [ascii ''Attempting to connect to family'', e_dec (ce_env ce) 2, ascii ''for'',
                  e_dec (ce_env ce) (unat (ch_regid h))] (cw\<lparr>cw_kcount := Suc (cw_kcount cw)\<rparr>)"])
      (use B em_serialize_holds [OF B(2)] H(1) r l a z f assms(2,3,5) in
        \<open>simp add: cn_remote_addr_def cn_local_addr_def ct_connect_def Let_def addr_families\<close>)
qed

theorem connect_message_misread_witness:
  "\<exists>b. cn_new 4096 ([2, 0, 0x20, 0x8d, 8, 8, 8, 8] @ zeros 8) (zeros 16) = Inr b \<and> em_serialize b = Inr (b, 38) \<and>
    cn_local_addr b = Inr (zeros 16)"
  using connect_message_misread [of 4096 "[2, 0, 0x20, 0x8d, 8, 8, 8, 8] @ zeros 8" "zeros 16" demo_ce demo_cw demo_ch]
  by (auto simp: demo_ce_def replicate_add [symmetric] take_replicate)

end
