(* ===== verification/Client_Lib.thy ===== *)
theory Client_Lib
  imports Easy_Message
begin

text \<open>
  The helpers of the client programs (\<^verbatim>\<open>clients/lib.hpp\<close>): blocking writes, the request for the list of
  connections and its answer, and the tests on IPv4 addresses. The addresses are \<^verbatim>\<open>sockaddr_in\<close>, here the
  number \<^verbatim>\<open>s_addr\<close> and the number \<^verbatim>\<open>sin_port\<close> as they are in memory.
\<close>

section \<open>Addresses\<close>

record sockaddr_in =
  sin_s_addr :: u32
  sin_sport :: u16

definition sockaddr_cmp :: "sockaddr_in \<Rightarrow> sockaddr_in \<Rightarrow> bool" where
  "sockaddr_cmp lhs rhs =
     (let t = sint (sin_s_addr lhs - sin_s_addr rhs);
          t' = (if t = 0 then int (unat (sin_sport lhs)) - int (unat (sin_sport rhs)) else t) in
      t' < 0)"

definition is_private :: "u32 \<Rightarrow> bool" where
  "is_private ip \<longleftrightarrow>
     0x000000FF AND ip = 10 \<or> 0x000000FF AND ip = 127 \<or>
     0x0000FFFF AND ip = 192 OR push_bit 8 168 \<or>
     0x0000F0FF AND ip = 172 OR push_bit 8 16"

definition sockaddr_hash :: "(u32 \<Rightarrow> u64) \<Rightarrow> (u16 \<Rightarrow> u64) \<Rightarrow> sockaddr_in \<Rightarrow> u64" where
  "sockaddr_hash hash32 hash16 a = hash32 (sin_s_addr a) + hash16 (sin_sport a)"

definition sockaddr_keyeq :: "sockaddr_in \<Rightarrow> sockaddr_in \<Rightarrow> bool" where
  "sockaddr_keyeq a b \<longleftrightarrow> sin_s_addr a = sin_s_addr b \<and> sin_sport a = sin_sport b"

section \<open>Blocking calls\<close>

text \<open>
  \<^verbatim>\<open>do_write\<close> on a blocking socket: an output script says how many bytes each call takes; where it
  answers \<^verbatim>\<open>EAGAIN\<close> the assertion of the code fails.
\<close>

function do_write :: "byte list \<Rightarrow> sock_out \<Rightarrow> sock_out res" where
  "do_write bs out =
     (case sys_write bs out of
        (IOk r, out') \<Rightarrow> if r < length bs then do_write (drop r bs) out' else Inr out'
      | (IErr e, out') \<Rightarrow>
          if e = EAGAIN \<or> e = EWOULDBLOCK then Inl Assert_Fail
          else if e \<noteq> EINTR then Inl Runtime_Error
          else if bs \<noteq> [] then do_write bs out' else Inr out')"
  by pat_completeness auto
termination
  by (relation "measure (\<lambda>(bs, out). length (so_script out))") (auto simp: sys_write_def split: list.splits write_ev.splits)

text \<open>
  \<^verbatim>\<open>recv\<close> with \<^verbatim>\<open>MSG_WAITALL\<close> waits for all bytes; an error or the end of the stream after some data gives
  what has arrived. An exhausted script is the end of the stream.
\<close>

fun recv_waitall :: "nat \<Rightarrow> sock_in \<Rightarrow> (io_ret \<times> byte list) \<times> sock_in" where
  "recv_waitall n [] = ((IOk 0, []), [])"
| "recv_waitall n (RecvErr e # s) = ((IErr e, []), s)"
| "recv_waitall n (RecvData bs # s) =
     (if bs = [] then ((IOk 0, []), s)
      else if n < length bs then ((IOk n, take n bs), RecvData (drop n bs) # s)
      else if n = length bs then ((IOk n, bs), s)
      else case recv_waitall (n - length bs) s of
             ((IOk k, ys), s') \<Rightarrow> ((IOk (length bs + k), bs @ ys), s')
           | ((IErr e, ys), s') \<Rightarrow> ((IOk (length bs), bs), s))"

section \<open>The list of connections\<close>

text \<open>The request, written over fresh memory \<open>fresh\<close>.\<close>

definition cxn_request :: "byte list \<Rightarrow> byte list" where
  "cxn_request fresh =
     (let msg = put 5 [COMMAND] (put 1 (le32 (hton32 9)) (put 0 [0] (put 0 (zeros 6) fresh)));
          cmsg = put 6 (zeros 9) msg in
      put 6 [COMMAND_GET_CXN] cmsg)"

definition get_all_cxn_prefix :: "byte list \<Rightarrow> sock_out \<Rightarrow> sock_in \<Rightarrow> (nat \<times> sock_out \<times> sock_in) res" where
  "get_all_cxn_prefix fresh out inp =
     bindR (do_write (cxn_request fresh) out) (\<lambda>out'.
     case recv_waitall 4 inp of ((rv, bs), inp') \<Rightarrow>
       if rv = IOk 0 then Inr (0, out', inp')
       else if rv \<noteq> IOk 4 then Inl Runtime_Error
       else Inr (unat (ntoh32 (get32 bs)), out', inp'))"

text \<open>The loop of \<^verbatim>\<open>get_all_cxn\<close>; the callback changes a state of its own.\<close>

function cxn_loop :: "(byte list \<Rightarrow> nat \<Rightarrow> 's \<Rightarrow> 's res) \<Rightarrow> nat \<Rightarrow> nat \<Rightarrow> 's \<Rightarrow> sock_in \<Rightarrow> ('s \<times> sock_in) res" where
  "cxn_loop callback i len st inp =
     (if len > 0 then
        case recv_waitall 42 inp of ((rv, info), inp') \<Rightarrow>
          if rv \<noteq> IOk 42 then Inl Runtime_Error
          else bindR (callback info i st) (\<lambda>st'. cxn_loop callback (i + 1) (len - 42) st' inp')
      else Inr (st, inp))"
  by pat_completeness auto
termination
  by (relation "measure (\<lambda>(_, _, len, _, _). len)") auto

definition get_all_cxn :: "byte list \<Rightarrow> (byte list \<Rightarrow> nat \<Rightarrow> 's \<Rightarrow> 's res) \<Rightarrow> 's \<Rightarrow> sock_out \<Rightarrow> sock_in \<Rightarrow> (nat \<times> 's \<times> sock_out \<times> sock_in) res" where
  "get_all_cxn fresh callback st out inp =
     bindR (get_all_cxn_prefix fresh out inp) (\<lambda>(len, out', inp').
     bindR (assertR (len mod 42 = 0)) (\<lambda>_.
     let addresses = len div 42 in
     if addresses = 0 then Inr (0, st, out', inp')
     else bindR (cxn_loop callback 0 len st inp') (\<lambda>(st', inp''). Inr (addresses, st', out', inp''))))"

section \<open>Lemmas\<close>

declare do_write.simps [simp del] cxn_loop.simps [simp del]

text \<open>What a blocking socket answers: some bytes are taken, or the call is interrupted.\<close>

fun blocking :: "write_ev list \<Rightarrow> bool" where
  "blocking [] = True"
| "blocking (WriteOk k # s) = blocking s"
| "blocking (WriteErr e # s) = (e = EINTR \<and> blocking s)"

text \<open>How many of its calls take at least one byte.\<close>

fun room :: "write_ev list \<Rightarrow> nat" where
  "room [] = 0"
| "room (WriteOk k # s) = (if k = 0 then 0 else 1) + room s"
| "room (WriteErr e # s) = room s"

lemma do_write_written: "do_write bs out = Inr out' \<Longrightarrow> so_written out' = so_written out @ bs"
proof (induction bs out rule: do_write.induct)
  case (1 bs out)
  obtain r o1 where W: "sys_write bs out = (r, o1)" by fastforce
  note S = sys_write_spec [OF W]
  show ?case
  proof (cases r)
    case (IOk k)
    show ?thesis
    proof (cases "k < length bs")
      case True
      with 1 W IOk have "so_written out' = so_written o1 @ drop k bs" by (auto simp: do_write.simps [of bs out])
      with S IOk show ?thesis by simp
    next
      case False
      with 1(3) W IOk S show ?thesis by (auto simp: do_write.simps [of bs out])
    qed
  next
    case (IErr e)
    with 1 W S show ?thesis by (auto simp: do_write.simps [of bs out] split: if_splits)
  qed
qed

lemma do_write_total:
  "blocking (so_script out) \<Longrightarrow> length bs \<le> room (so_script out) \<Longrightarrow> bs \<noteq> [] \<Longrightarrow>
   \<exists>out'. do_write bs out = Inr out' \<and> blocking (so_script out') \<and> room (so_script out) \<le> room (so_script out') + length bs"
proof (induction bs out rule: do_write.induct)
  case (1 bs out)
  show ?case
  proof (cases "so_script out")
    case Nil
    with 1(4,5) show ?thesis by simp
  next
    case (Cons ev s)
    show ?thesis
    proof (cases ev)
      case (WriteOk k)
      let ?out = "out\<lparr>so_script := s, so_written := so_written out @ take k bs\<rparr>"
      have W: "sys_write bs out = (IOk (min k (length bs)), ?out)" using Cons WriteOk by (simp add: sys_write_def)
      have s: "blocking s" "room (so_script out) = (if k = 0 then 0 else 1) + room s" using 1(3) Cons WriteOk by simp_all
      show ?thesis
      proof (cases "k < length bs")
        case True
        have l: "length (drop k bs) \<le> room s" using True 1(4) s(2) by (auto split: if_splits)
        obtain out' where "do_write (drop k bs) ?out = Inr out'" "blocking (so_script out')" "room s \<le> room (so_script out') + length (drop k bs)"
          using 1(1) [OF W [symmetric] refl] True s(1) l by auto
        with W True s(2) show ?thesis by (intro exI [of _ out']) (auto simp: do_write.simps [of bs out] split: if_splits)
      next
        case False
        with W have "do_write bs out = Inr ?out" by (simp add: do_write.simps [of bs out])
        with s 1(5) show ?thesis by (cases bs) simp_all
      qed
    next
      case (WriteErr e)
      then have W: "sys_write bs out = (IErr e, out\<lparr>so_script := s\<rparr>)" using Cons by (simp add: sys_write_def)
      with 1(2) [OF W [symmetric] refl] 1(3-5) Cons WriteErr show ?thesis by (simp add: do_write.simps [of bs out])
    qed
  qed
qed

lemma cxn_request_wire: "length fresh = 15 \<Longrightarrow> cxn_request fresh = ct_wire COMMAND ([COMMAND_GET_CXN] @ zeros 8)"
  by (simp add: cxn_request_def put_def le32_hton32 ct_wire_def numeral_eq_Suc)

lemma recv_waitall_data:
  "\<forall>c\<in>set cs. c \<noteq> [] \<Longrightarrow> length xs = n \<Longrightarrow> 0 < n \<Longrightarrow> concat cs = xs @ ys \<Longrightarrow>
   \<exists>cs'. recv_waitall n (map RecvData cs) = ((IOk n, xs), map RecvData cs') \<and> concat cs' = ys \<and> (\<forall>c\<in>set cs'. c \<noteq> [])"
proof (induction cs arbitrary: n xs)
  case Nil
  then show ?case by simp
next
  case (Cons c cs)
  have ne: "c \<noteq> []" using Cons.prems(1) by simp
  have cut: "take n (c @ concat cs) = xs" "drop n (c @ concat cs) = ys" using Cons.prems(2,4) by simp_all
  consider (more) "n < length c" | (eq) "n = length c" | (less) "length c < n" by linarith
  then show ?case
  proof cases
    case more
    then have "take n c = xs" "drop n c @ concat cs = ys" using cut by simp_all
    with more ne Cons.prems(1) show ?thesis by (intro exI [of _ "drop n c # cs"]) simp
  next
    case eq
    then have "xs = c" "ys = concat cs" using cut by simp_all
    with eq ne Cons.prems(1) show ?thesis by (intro exI [of _ cs]) simp
  next
    case less
    then have t: "xs = c @ take (n - length c) (concat cs)" using cut(1) by simp
    then have x: "xs = c @ drop (length c) xs" "concat cs = drop (length c) xs @ ys" using cut(2) less append_take_drop_id by auto
    obtain cs' where R: "recv_waitall (n - length c) (map RecvData cs) = ((IOk (n - length c), drop (length c) xs), map RecvData cs')"
      "concat cs' = ys" "\<forall>c\<in>set cs'. c \<noteq> []"
      using Cons.IH [of "drop (length c) xs" "n - length c"] Cons.prems(1,2) less x(2) by auto
    then show ?thesis using less ne x(1) by (intro exI [of _ cs']) simp
  qed
qed

lemma cxn_loop_data:
  "\<forall>x\<in>set infos. length x = 42 \<Longrightarrow> \<forall>c\<in>set cs. c \<noteq> [] \<Longrightarrow> concat cs = concat infos @ ys \<Longrightarrow>
   \<exists>cs'. cxn_loop (\<lambda>info i st. Inr (st @ [(i, info)])) i (42 * length infos) acc (map RecvData cs) =
     Inr (acc @ enumerate i infos, map RecvData cs') \<and> concat cs' = ys"
proof (induction infos arbitrary: i acc cs)
  case Nil
  then show ?case by (intro exI [of _ cs]) (simp add: cxn_loop.simps)
next
  case (Cons x infos)
  obtain cs1 where R: "recv_waitall 42 (map RecvData cs) = ((IOk 42, x), map RecvData cs1)" "concat cs1 = concat infos @ ys" "\<forall>c\<in>set cs1. c \<noteq> []"
    using recv_waitall_data [OF Cons.prems(2), of x 42 "concat infos @ ys"] Cons.prems(1,3) by auto
  have "\<forall>x\<in>set infos. length x = 42" using Cons.prems(1) by simp
  from Cons.IH [OF this R(3,2), of "i + 1" "acc @ [(i, x)]"] R(1) show ?case by (auto simp: cxn_loop.simps [of _ i])
qed

lemma get_all_cxn_prefix_data:
  assumes "length fresh = 15" and "blocking (so_script out)" and "15 \<le> room (so_script out)" and "n < 2 ^ 32"
    and "\<forall>c\<in>set cs. c \<noteq> []" and "concat cs = be32 (of_nat n) @ ys"
  obtains out' cs1 where "get_all_cxn_prefix fresh out (map RecvData cs) = Inr (n, out', map RecvData cs1)"
    "so_written out' = so_written out @ cxn_request fresh" "concat cs1 = ys" "\<forall>c\<in>set cs1. c \<noteq> []"
proof -
  have l: "length (cxn_request fresh) = 15" using cxn_request_wire [OF assms(1)] by simp
  then have "cxn_request fresh \<noteq> []" by auto
  then obtain out' where W: "do_write (cxn_request fresh) out = Inr out'" using do_write_total [OF assms(2), of "cxn_request fresh"] assms(3) l by auto
  obtain cs1 where R: "recv_waitall 4 (map RecvData cs) = ((IOk 4, be32 (of_nat n)), map RecvData cs1)" "concat cs1 = ys" "\<forall>c\<in>set cs1. c \<noteq> []"
    using recv_waitall_data [OF assms(5), of "be32 (of_nat n)" 4 ys] assms(6) by auto
  have "unat (ntoh32 (get32 (be32 (of_nat n)))) = n" using assms(4) by (simp add: ntoh32_get32 unat_of_nat)
  with W R(1) have "get_all_cxn_prefix fresh out (map RecvData cs) = Inr (n, out', map RecvData cs1)" by (simp add: get_all_cxn_prefix_def)
  with that R(2,3) do_write_written [OF W] show thesis by blast
qed

lemma get_all_cxn_data:
  assumes "length fresh = 15" and "blocking (so_script out)" and "15 \<le> room (so_script out)"
    and "\<forall>x\<in>set infos. length x = 42" and "42 * length infos < 2 ^ 32"
    and "\<forall>c\<in>set cs. c \<noteq> []" and "concat cs = be32 (of_nat (42 * length infos)) @ concat infos"
  shows "\<exists>out' s. get_all_cxn fresh (\<lambda>info i st. Inr (st @ [(i, info)])) [] out (map RecvData cs) =
      Inr (length infos, enumerate 0 infos, out', s) \<and> so_written out' = so_written out @ cxn_request fresh"
proof -
  obtain out' cs1 where P: "get_all_cxn_prefix fresh out (map RecvData cs) = Inr (42 * length infos, out', map RecvData cs1)"
    "so_written out' = so_written out @ cxn_request fresh" "concat cs1 = concat infos" "\<forall>c\<in>set cs1. c \<noteq> []"
    using get_all_cxn_prefix_data [OF assms(1-3,5-7)] by blast
  obtain cs2 where L: "cxn_loop (\<lambda>info i st. Inr (st @ [(i, info)])) 0 (42 * length infos) [] (map RecvData cs1) = Inr (enumerate 0 infos, map RecvData cs2)"
    using cxn_loop_data [OF assms(4) P(4), of "[]" 0 "[]"] P(3) by auto
  show ?thesis using P(1,2) L by (cases "infos = []") (auto simp: get_all_cxn_def)
qed

section \<open>Properties\<close>

text \<open>
  Property C5: the list of connections, from end to end. The request that a client writes is
  processed by the connector however the stream is cut; the answer that the connector queues, however it
  arrives, makes \<^verbatim>\<open>get_all_cxn\<close> call its callback once for every open connection, in the order of the
  connector's table and with consecutive indices, each time with the identifier and the two addresses
  of that connection, and return their number.
\<close>

theorem client_lists_connections:
  assumes "ct_inv ce K A h (h, cw) 6 []" and "wq_pend (ch_write h) = []"
    and "\<forall>cs\<in>set evs. \<forall>c\<in>set cs. c \<noteq> []" and "evs \<noteq> []" and "concat (concat evs) = cxn_request fresh" and "length fresh = 15"
    and "blocking (so_script out)" and "15 \<le> room (so_script out)" and "42 * length (w_active (cw_world cw)) < 2 ^ 32"
  shows "\<exists>h' cw' rb s. callbacks (e_ps (ce_env ce)) (ct_complete ce) (h, cw) (rb_new (e_ps (ce_env ce)) 6) [] evs = Inr ((h', cw'), rb, s) \<and>
    (\<forall>cs. (\<forall>c\<in>set cs. c \<noteq> []) \<and> concat cs = wq_pend (ch_write h') \<longrightarrow>
      (\<exists>out' s'. get_all_cxn fresh (\<lambda>info i st. Inr (st @ [(i, info)])) [] out (map RecvData cs) =
        Inr (length (w_active (cw_world cw)),
          enumerate 0 (map (\<lambda>(i, b). be32 i @ sockaddr_to_wire (h_remote b) @ sockaddr_to_wire (h_local b)) (w_active (cw_world cw))), out', s') \<and>
        so_written out' = so_written out @ concat (concat evs)))"
proof -
  let ?ps = "e_ps (ce_env ce)" and ?f = "ct_complete ce" and ?a = "w_active (cw_world cw)" and ?p = "COMMAND_GET_CXN # zeros 8"
  let ?infos = "map (\<lambda>(i, b). be32 i @ sockaddr_to_wire (h_remote b) @ sockaddr_to_wire (h_local b)) ?a"
  note G = ct_invD [OF assms(1)] and H = ct_inv_header [OF assms(1)]
  note ps = ct_good_ps [OF G(1)]
  have w: "concat (concat evs) = ct_wire COMMAND ?p" using assms(5) cxn_request_wire [OF assms(6)] by simp
  have lp: "length ?p < 2 ^ 32" by simp
  obtain h2 cw2 b' where S: "stream_run ?ps ?f (h, cw) 0 6 (rb_buffer (rb_new ?ps 6)) (ct_wire COMMAND ?p) = Inr ((h2, cw2), 0, 6, b', [])"
    "wq_pend (ch_write h2) = wq_pend (ch_write h) @ be32 (of_nat (42 * length ?a)) @ concat ?infos"
    by (rule list_frame [OF G(1) H rb_new_allocated [OF ps] refl lp]) blast
  obtain rb s where C: "callbacks ?ps ?f (h, cw) (rb_new ?ps 6) [] evs = Inr ((h2, cw2), rb, s)"
    using callbacks_seen [OF assms(3,4) ps, of ?f "(h, cw)" 6] S(1) w
      seen_InrD [of "callbacks ?ps ?f (h, cw) (rb_new ?ps 6) [] evs"] by metis
  have l: "\<forall>x\<in>set ?infos. length x = 42"
    using world_ok_addresses [OF cw_okD(1) [OF ct_goodD(1) [OF G(1)]]] by (auto simp: sockaddr_to_wire_length)
  have "\<exists>out' s'. get_all_cxn fresh (\<lambda>info i st. Inr (st @ [(i, info)])) [] out (map RecvData cs) =
      Inr (length ?a, enumerate 0 ?infos, out', s') \<and> so_written out' = so_written out @ concat (concat evs)"
    if "\<forall>c\<in>set cs. c \<noteq> []" "concat cs = wq_pend (ch_write h2)" for cs
    using get_all_cxn_data [OF assms(6-8) l _ that(1)] that(2) S(2) assms(2,5,9) by simp
  with C show ?thesis by blast
qed

theorem client_lists_connections_witness:
  "\<exists>h' cw' rb s out' s'. callbacks 4096 (ct_complete demo_ce) (demo_ch, demo_cw) (rb_new 4096 6) [] [[cxn_request (zeros 15)]] = Inr ((h', cw'), rb, s) \<and>
    get_all_cxn (zeros 15) (\<lambda>info i st. Inr (st @ [(i, info)])) [] \<lparr>so_script = WriteErr EINTR # replicate 15 (WriteOk 4), so_written = []\<rparr>
      [RecvData (wq_pend (ch_write h'))] =
      Inr (1, [(0, be32 0 @ sockaddr_to_wire (h_remote demo_handler) @ sockaddr_to_wire (h_local demo_handler))], out', s') \<and>
    so_written out' = cxn_request (zeros 15)"
proof -
  let ?out = "\<lparr>so_script = WriteErr EINTR # replicate 15 (WriteOk 4), so_written = []\<rparr>"
  have a: "w_active (cw_world demo_cw) = [(0, demo_handler)]" using demo_accept(2) by simp
  have w: "wq_pend (ch_write demo_ch) = []" by (simp add: demo_ch_def ch_new_def)
  have ne: "cxn_request (zeros 15) \<noteq> []" by (simp add: cxn_request_wire)
  have o: "blocking (replicate n (WriteOk 4))" "room (replicate n (WriteOk 4)) = n" for n by (induction n) simp_all
  obtain h' cw' rb s where C: "callbacks 4096 (ct_complete demo_ce) (demo_ch, demo_cw) (rb_new 4096 6) [] [[cxn_request (zeros 15)]] = Inr ((h', cw'), rb, s)"
    "\<And>cs. (\<forall>c\<in>set cs. c \<noteq> []) \<and> concat cs = wq_pend (ch_write h') \<Longrightarrow>
      (\<exists>out' s'. get_all_cxn (zeros 15) (\<lambda>info i st. Inr (st @ [(i, info)])) [] ?out (map RecvData cs) =
        Inr (1, [(0, be32 0 @ sockaddr_to_wire (h_remote demo_handler) @ sockaddr_to_wire (h_local demo_handler))], out', s') \<and>
        so_written out' = cxn_request (zeros 15))"
    using client_lists_connections [OF demo_ct_inv w, of "[[cxn_request (zeros 15)]]" "zeros 15" ?out] a ne demo_ce_ps
    by (auto simp del: callbacks.simps simp: o)
  show ?thesis
  proof (cases "wq_pend (ch_write h') = []")
    case True
    with C(2) [of "[]"] have False by (auto simp: get_all_cxn_def get_all_cxn_prefix_def bindR_Inr_iff)
    then show ?thesis ..
  next
    case False
    with C(2) [of "[wq_pend (ch_write h')]"] C(1) show ?thesis by fastforce
  qed
qed

text \<open>
  The comparison that orders a \<^verbatim>\<open>std::set\<close> of addresses is not an order. The difference of
  two addresses wraps around, and there are three addresses each of which is less than the next.
\<close>

theorem sockaddr_cmp_cyclic:
  "sockaddr_cmp \<lparr>sin_s_addr = 0, sin_sport = p\<rparr> \<lparr>sin_s_addr = 0x50000000, sin_sport = q\<rparr> \<and>
   sockaddr_cmp \<lparr>sin_s_addr = 0x50000000, sin_sport = q\<rparr> \<lparr>sin_s_addr = 0x90000000, sin_sport = r\<rparr> \<and>
   sockaddr_cmp \<lparr>sin_s_addr = 0x90000000, sin_sport = r\<rparr> \<lparr>sin_s_addr = 0, sin_sport = p\<rparr>"
  by (simp add: sockaddr_cmp_def)

end
