(* ===== verification/Collector.thy ===== *)
theory Collector
  imports Write_Buffer "HOL-Library.AList"
begin

text \<open>
  The log server's output side: \<^verbatim>\<open>collector\<close> (\<^verbatim>\<open>logserver/src/collector.cpp\<close>), which keeps one
  bounded queue of log records per consumer, and \<^verbatim>\<open>output_cxn::handler\<close>
  (\<^verbatim>\<open>logserver/src/output_cxn.cpp\<close>), which empties its queue into its socket. Handlers are
  identified by a number in place of their address; both hash tables are association lists
  with distinct keys. The main result is that every consumer is sent exactly the records it is
  interested in, whole and in order, or is dropped.
\<close>

definition EV_NONE :: u32 where "EV_NONE = 0"
definition EV_READ :: u32 where "EV_READ = 1"
definition EV_WRITE :: u32 where "EV_WRITE = 2"

section \<open>Data\<close>

record sized_buffer =
  sb_buffer :: vbuf
  sb_len :: nat
  sb_source :: u32

record sized_buffer_queue =
  sq_queue :: "sized_buffer list"   \<comment> \<open>front of the deque first\<close>
  sq_total :: nat

text \<open>
  \<open>oh_io\<close> is what the watcher \<^verbatim>\<open>io\<close> waits for, \<open>None\<close> when it is stopped; \<open>oh_out\<close> is the socket.
\<close>

record out_handler =
  oh_interests :: u8
  oh_events :: u32
  oh_io :: "u32 option"
  oh_write :: wbuf
  oh_out :: sock_out

record collector =
  co_queues :: "(nat \<times> sized_buffer_queue) list"
  co_handlers :: "(nat \<times> out_handler) list"

definition sb_default :: sized_buffer where
  "sb_default = \<lparr>sb_buffer = VNull, sb_len = 0, sb_source = 0\<rparr>"

definition sq_new :: sized_buffer_queue where
  "sq_new = \<lparr>sq_queue = [], sq_total = 0\<rparr>"

section \<open>Operations\<close>

definition co_add_consumer :: "nat \<Rightarrow> collector \<Rightarrow> collector" where
  "co_add_consumer h co =
     (if h \<in> fst ` set (co_queues co) then co else co\<lparr>co_queues := (h, sq_new) # co_queues co\<rparr>)"

definition co_retire_consumer :: "nat \<Rightarrow> collector \<Rightarrow> collector" where
  "co_retire_consumer h co = co\<lparr>co_queues := AList.delete h (co_queues co)\<rparr>"

definition oh_interested :: "out_handler \<Rightarrow> u8 \<Rightarrow> bool" where
  "oh_interested oh x = (x AND oh_interests oh \<noteq> 0)"

definition oh_set_events :: "u32 \<Rightarrow> out_handler \<Rightarrow> out_handler" where
  "oh_set_events e oh = (if e \<noteq> oh_events oh then oh\<lparr>oh_events := e, oh_io := Some e\<rparr> else oh)"

text \<open>The constructor, on a fresh address \<open>h\<close>, and the destructor.\<close>

definition oh_new :: "nat \<Rightarrow> u8 \<Rightarrow> sock_out \<Rightarrow> collector \<Rightarrow> collector" where
  "oh_new h interests out co =
     co_add_consumer h (co\<lparr>co_handlers :=
       (h, \<lparr>oh_interests = interests, oh_events = EV_NONE, oh_io = Some EV_NONE,
            oh_write = wq_new, oh_out = out\<rparr>) # co_handlers co\<rparr>)"

definition oh_delete :: "nat \<Rightarrow> collector \<Rightarrow> collector" where
  "oh_delete h co = (let co' = co_retire_consumer h co in co'\<lparr>co_handlers := AList.delete h (co_handlers co')\<rparr>)"

text \<open>
  \<^verbatim>\<open>collector::append\<close>: the loop over the queues, then the deletion of the consumers that
  have fallen too far behind.
\<close>

definition sq_push :: "sized_buffer \<Rightarrow> sized_buffer_queue \<Rightarrow> sized_buffer_queue" where
  "sq_push p q = \<lparr>sq_queue = p # sq_queue q, sq_total = sq_total q + sb_len p\<rparr>"

fun append_each :: "nat \<Rightarrow> sized_buffer \<Rightarrow> (nat \<times> sized_buffer_queue) list \<Rightarrow> (nat \<times> out_handler) list
    \<Rightarrow> ((nat \<times> sized_buffer_queue) list \<times> (nat \<times> out_handler) list \<times> nat list) res" where
  "append_each max_size p [] hs = Inr ([], hs, [])"
| "append_each max_size p ((h, q) # qs) hs =
     (case map_of hs h of
        None \<Rightarrow> Inl Dangling
      | Some oh \<Rightarrow>
          bindR (vb_const_ptr (sb_buffer p)) (\<lambda>bytes.
          if oh_interested oh (hd bytes) then
            let q' = sq_push p q in
            bindR (append_each max_size p qs (AList.update h (oh_set_events (oh_events oh OR EV_WRITE) oh) hs))
              (\<lambda>(qs', hs', morose).
            Inr ((h, q') # qs', hs', if sq_total q' > max_size then h # morose else morose))
          else
            bindR (append_each max_size p qs hs) (\<lambda>(qs', hs', morose). Inr ((h, q) # qs', hs', morose))))"

definition co_append :: "nat \<Rightarrow> vbuf \<Rightarrow> nat \<Rightarrow> u32 \<Rightarrow> collector \<Rightarrow> collector res" where
  "co_append max_size data len source_id co =
     bindR (append_each max_size \<lparr>sb_buffer = data, sb_len = len, sb_source = source_id\<rparr>
       (co_queues co) (co_handlers co)) (\<lambda>(qs, hs, morose).
     Inr (fold oh_delete morose (co\<lparr>co_queues := qs, co_handlers := hs\<rparr>)))"

definition co_pop :: "nat \<Rightarrow> collector \<Rightarrow> sized_buffer \<times> collector" where
  "co_pop h co =
     (case map_of (co_queues co) h of
        None \<Rightarrow> (sb_default, co)
      | Some q \<Rightarrow>
          (if sq_queue q \<noteq> [] then
             let rv = last (sq_queue q) in
             (rv, co\<lparr>co_queues := AList.update h
                \<lparr>sq_queue = butlast (sq_queue q), sq_total = sq_total q - sb_len rv\<rparr> (co_queues co)\<rparr>)
           else (sb_default, co)))"

text \<open>
  \<^verbatim>\<open>output_cxn::handler::io_cb\<close>. \<open>suicide\<close> closes the socket and deletes the handler.
\<close>

definition oh_put :: "nat \<Rightarrow> out_handler \<Rightarrow> collector \<Rightarrow> collector" where
  "oh_put h oh co = co\<lparr>co_handlers := AList.update h oh (co_handlers co)\<rparr>"

definition oh_suicide :: "nat \<Rightarrow> collector \<Rightarrow> collector" where
  "oh_suicide h co = oh_delete h co"

definition oh_io_cb :: "nat \<Rightarrow> nat \<Rightarrow> u32 \<Rightarrow> collector \<Rightarrow> collector res" where
  "oh_io_cb ps h revents co =
     (case map_of (co_handlers co) h of
        None \<Rightarrow> Inl Dangling
      | Some oh \<Rightarrow>
          if revents AND EV_WRITE \<noteq> 0 then
            bindR (write_loop (oh_write oh) (oh_out oh)) (\<lambda>(r, wq, out).
            let oh1 = oh\<lparr>oh_write := wq, oh_out := out\<rparr>; co1 = oh_put h oh1 co in
            case r of
              Some q \<Rightarrow> Inr (if fatal q \<or> q = IOk 0 then oh_suicide h co1 else co1)
            | None \<Rightarrow>
                let (p, co2) = co_pop h co1 in
                if sb_len p \<noteq> 0 then
                  bindR (wq_append ps (le32 (hton32 (of_nat (sb_len p + 4)))) wq) (\<lambda>wq1.
                  bindR (wq_append ps (le32 (hton32 (sb_source p))) wq1) (\<lambda>wq2.
                  bindR (wq_append_buf (sb_buffer p) (sb_len p) wq2) (\<lambda>wq3.
                  Inr (oh_put h (oh1\<lparr>oh_write := wq3\<rparr>) co2))))
                else Inr (oh_put h (oh1\<lparr>oh_events := EV_NONE, oh_io := None\<rparr>) co2))
          else Inr co)"

section \<open>Invariant\<close>

definition sb_ok :: "sized_buffer \<Rightarrow> bool" where
  "sb_ok p \<longleftrightarrow> 0 < sb_len p \<and> sb_len p \<le> vb_allocated (sb_buffer p)"

definition sq_ok :: "sized_buffer_queue \<Rightarrow> bool" where
  "sq_ok q \<longleftrightarrow> (\<forall>p\<in>set (sq_queue q). sb_ok p) \<and> sq_total q = sum_list (map sb_len (sq_queue q))"

text \<open>No lost wakeup: a handler with something to write waits for the socket to become writable.\<close>

definition awake :: "out_handler \<Rightarrow> sized_buffer_queue \<Rightarrow> bool" where
  "awake oh q \<longleftrightarrow>
     (oh_events oh AND EV_WRITE \<noteq> 0 \<longrightarrow> oh_io oh = Some (oh_events oh)) \<and>
     (sq_queue q \<noteq> [] \<or> wq_pend (oh_write oh) \<noteq> [] \<longrightarrow> oh_events oh AND EV_WRITE \<noteq> 0)"

definition co_ok :: "nat \<Rightarrow> collector \<Rightarrow> bool" where
  "co_ok max_size co \<longleftrightarrow>
     distinct (map fst (co_queues co)) \<and> distinct (map fst (co_handlers co)) \<and>
     (\<forall>h. map_of (co_queues co) h = None \<longleftrightarrow> map_of (co_handlers co) h = None) \<and>
     (\<forall>h q. map_of (co_queues co) h = Some q \<longrightarrow> sq_ok q \<and> sq_total q \<le> max_size) \<and>
     (\<forall>h oh. map_of (co_handlers co) h = Some oh \<longrightarrow> wq_ok (oh_write oh)) \<and>
     (\<forall>h oh q. map_of (co_handlers co) h = Some oh \<longrightarrow> map_of (co_queues co) h = Some q \<longrightarrow> awake oh q)"

text \<open>What a record looks like on a consumer's socket, and everything a consumer was sent or will be.\<close>

definition enc_record :: "sized_buffer \<Rightarrow> byte list" where
  "enc_record p = be32 (of_nat (sb_len p + 4)) @ be32 (sb_source p) @ take (sb_len p) (vb_bytes (sb_buffer p))"

definition stream_of :: "collector \<Rightarrow> nat \<Rightarrow> byte list option" where
  "stream_of co h =
     (case (map_of (co_handlers co) h, map_of (co_queues co) h) of
        (Some oh, Some q) \<Rightarrow>
          Some (so_written (oh_out oh) @ wq_pend (oh_write oh) @ concat (map enc_record (rev (sq_queue q))))
      | _ \<Rightarrow> None)"

section \<open>Appending a record\<close>

definition wants :: "(nat \<times> out_handler) list \<Rightarrow> u8 \<Rightarrow> nat \<Rightarrow> bool" where
  "wants hs b h = (case map_of hs h of None \<Rightarrow> False | Some oh \<Rightarrow> oh_interested oh b)"

lemma append_each_spec:
  assumes "vb_const_ptr (sb_buffer p) = Inr bytes" and "distinct (map fst qs)"
    and "\<forall>h\<in>fst ` set qs. map_of hs h \<noteq> None" and "distinct (map fst hs)"
  shows "\<exists>hs'. append_each max_size p qs hs =
      Inr (map (\<lambda>(h, q). (h, if wants hs (hd bytes) h then sq_push p q else q)) qs, hs',
           map fst (filter (\<lambda>(h, q). wants hs (hd bytes) h \<and> sq_total q + sb_len p > max_size) qs)) \<and>
    distinct (map fst hs') \<and>
    map_of hs' = (\<lambda>h. if h \<in> fst ` set qs \<and> wants hs (hd bytes) h
      then map_option (\<lambda>oh. oh_set_events (oh_events oh OR EV_WRITE) oh) (map_of hs h) else map_of hs h)"
  using assms(2-4)
proof (induction qs arbitrary: hs)
  case (Cons hq qs)
  obtain h q where hq: "hq = (h, q)" by (cases hq)
  obtain oh where oh: "map_of hs h = Some oh" using Cons.prems(2) hq by auto
  have h: "h \<notin> fst ` set qs" "distinct (map fst qs)" using Cons.prems(1) hq by auto
  show ?case
  proof (cases "oh_interested oh (hd bytes)")
    case True
    let ?hs = "AList.update h (oh_set_events (oh_events oh OR EV_WRITE) oh) hs"
    have w: "wants ?hs b k = wants hs b k" if "k \<noteq> h" for b k
      using that by (simp add: wants_def update_conv')
    have wq: "wants ?hs b k = wants hs b k" if "(k, v) \<in> set qs" for b k v
    proof -
      have "k \<noteq> h" using h(1) that by force
      then show ?thesis by (rule w)
    qed
    have w': "map (\<lambda>(h, q). (h, if wants ?hs (hd bytes) h then sq_push p q else q)) qs =
        map (\<lambda>(h, q). (h, if wants hs (hd bytes) h then sq_push p q else q)) qs"
      "filter (\<lambda>(h, q). wants ?hs (hd bytes) h \<and> sq_total q + sb_len p > max_size) qs =
       filter (\<lambda>(h, q). wants hs (hd bytes) h \<and> sq_total q + sb_len p > max_size) qs"
      by (auto simp: wq intro!: map_cong filter_cong)
    have pre: "\<forall>k\<in>fst ` set qs. map_of ?hs k \<noteq> None" "distinct (map fst ?hs)"
      using Cons.prems by (auto simp: update_conv' hq intro: distinct_update)
    from Cons.IH [OF h(2) pre] obtain hs' where
      A: "append_each max_size p qs ?hs =
        Inr (map (\<lambda>(h, q). (h, if wants hs (hd bytes) h then sq_push p q else q)) qs, hs',
           map fst (filter (\<lambda>(h, q). wants hs (hd bytes) h \<and> sq_total q + sb_len p > max_size) qs))"
      "distinct (map fst hs')"
      and M: "map_of hs' = (\<lambda>k. if k \<in> fst ` set qs \<and> wants ?hs (hd bytes) k
        then map_option (\<lambda>oh. oh_set_events (oh_events oh OR EV_WRITE) oh) (map_of ?hs k) else map_of ?hs k)"
      unfolding w' by blast
    have wh: "wants hs (hd bytes) h" using oh True by (simp add: wants_def)
    have "map_of hs' = (\<lambda>k. if k \<in> fst ` set (hq # qs) \<and> wants hs (hd bytes) k
        then map_option (\<lambda>oh. oh_set_events (oh_events oh OR EV_WRITE) oh) (map_of hs k) else map_of hs k)"
      unfolding M using h(1) oh wh by (auto simp: fun_eq_iff hq update_conv' w)
    with A wh oh True assms(1) show ?thesis
      by (simp add: hq Let_def sq_push_def)
  next
    case False
    have wh: "\<not> wants hs (hd bytes) h" using oh False by (simp add: wants_def)
    obtain hs' where
      A: "append_each max_size p qs hs =
        Inr (map (\<lambda>(h, q). (h, if wants hs (hd bytes) h then sq_push p q else q)) qs, hs',
           map fst (filter (\<lambda>(h, q). wants hs (hd bytes) h \<and> sq_total q + sb_len p > max_size) qs))"
      "distinct (map fst hs')"
      and M: "map_of hs' = (\<lambda>k. if k \<in> fst ` set qs \<and> wants hs (hd bytes) k
        then map_option (\<lambda>oh. oh_set_events (oh_events oh OR EV_WRITE) oh) (map_of hs k) else map_of hs k)"
      using Cons.IH [OF h(2), of hs] Cons.prems by auto
    have "map_of hs' = (\<lambda>k. if k \<in> fst ` set (hq # qs) \<and> wants hs (hd bytes) k
        then map_option (\<lambda>oh. oh_set_events (oh_events oh OR EV_WRITE) oh) (map_of hs k) else map_of hs k)"
      unfolding M using wh by (auto simp: fun_eq_iff hq)
    with A wh oh False assms(1) show ?thesis by (simp add: hq)
  qed
qed simp

lemma fold_oh_delete:
  "map_of (co_queues (fold oh_delete ms co)) h = (if h \<in> set ms then None else map_of (co_queues co) h)"
  "map_of (co_handlers (fold oh_delete ms co)) h = (if h \<in> set ms then None else map_of (co_handlers co) h)"
  "distinct (map fst (co_queues co)) \<Longrightarrow> distinct (map fst (co_queues (fold oh_delete ms co)))"
  "distinct (map fst (co_handlers co)) \<Longrightarrow> distinct (map fst (co_handlers (fold oh_delete ms co)))"
  by (induction ms arbitrary: co)
    (auto simp: oh_delete_def co_retire_consumer_def Let_def delete_conv' distinct_delete)

lemma map_of_map_val: "map_of (map (\<lambda>(h, q). (h, g h q)) qs) h = map_option (g h) (map_of qs h)"
  by (induction qs) auto

lemma sq_push_ok: "sq_ok q \<Longrightarrow> sb_ok p \<Longrightarrow> sq_ok (sq_push p q)"
  by (simp add: sq_ok_def sq_push_def)

lemma ev_write_set [simp]: "(e OR EV_WRITE) AND EV_WRITE \<noteq> 0"
  by (simp add: EV_WRITE_def bit.conj_disj_distrib2)

lemma oh_set_events_simps [simp]:
  "oh_write (oh_set_events e oh) = oh_write oh" "oh_out (oh_set_events e oh) = oh_out oh"
  "oh_events (oh_set_events e oh) = e"
  by (simp_all add: oh_set_events_def)

lemma awake_push: "awake oh q \<Longrightarrow> awake (oh_set_events (oh_events oh OR EV_WRITE) oh) (sq_push p q)"
proof -
  assume "awake oh q"
  have "oh_events oh OR EV_WRITE \<noteq> oh_events oh" if "oh_events oh AND EV_WRITE = 0"
    using that ev_write_set [of "oh_events oh"] by metis
  with \<open>awake oh q\<close> show ?thesis by (auto simp: awake_def oh_set_events_def)
qed

definition backlog :: "collector \<Rightarrow> nat \<Rightarrow> nat" where
  "backlog co h = (case map_of (co_queues co) h of None \<Rightarrow> 0 | Some q \<Rightarrow> sum_list (map sb_len (sq_queue q)))"

lemma co_append_state:
  fixes src :: u32
  assumes ok: "co_ok m co" and len: "0 < len" "len \<le> vb_allocated data"
  defines "p \<equiv> \<lparr>sb_buffer = data, sb_len = len, sb_source = src\<rparr>" and "b \<equiv> hd (vb_bytes data)"
  obtains co' where "co_append m data len src co = Inr co'"
    "distinct (map fst (co_queues co'))" "distinct (map fst (co_handlers co'))"
    "\<And>h. map_of (co_queues co') h =
      (if wants (co_handlers co) b h \<and> backlog co h + len > m then None
       else map_option (\<lambda>q. if wants (co_handlers co) b h then sq_push p q else q) (map_of (co_queues co) h))"
    "\<And>h. map_of (co_handlers co') h =
      (if wants (co_handlers co) b h \<and> backlog co h + len > m then None
       else if wants (co_handlers co) b h
         then map_option (\<lambda>oh. oh_set_events (oh_events oh OR EV_WRITE) oh) (map_of (co_handlers co) h)
         else map_of (co_handlers co) h)"
proof -
  have cp: "vb_const_ptr (sb_buffer p) = Inr (vb_bytes data)"
    using len by (auto simp: p_def vb_const_ptr_def vb_allocated_def)
  have D: "distinct (map fst (co_queues co))" "distinct (map fst (co_handlers co))"
    and nn: "\<And>h. map_of (co_queues co) h = None \<longleftrightarrow> map_of (co_handlers co) h = None"
    and Q: "\<And>h q. map_of (co_queues co) h = Some q \<Longrightarrow> sq_ok q"
    using ok unfolding co_ok_def by blast+
  have dm: "dom (map_of (co_queues co)) = dom (map_of (co_handlers co))"
    using nn by (auto simp: dom_def)
  have "\<forall>h\<in>fst ` set (co_queues co). map_of (co_handlers co) h \<noteq> None"
    using nn by (metis map_of_eq_None_iff)
  from append_each_spec [OF cp D(1) this D(2), of m] obtain hs' where
    A: "append_each m p (co_queues co) (co_handlers co) =
      Inr (map (\<lambda>(h, q). (h, if wants (co_handlers co) b h then sq_push p q else q)) (co_queues co), hs',
           map fst (filter (\<lambda>(h, q). wants (co_handlers co) b h \<and> sq_total q + sb_len p > m) (co_queues co)))"
      (is "_ = Inr (?qs, hs', ?ms)")
    and dh: "distinct (map fst hs')"
    and M: "map_of hs' = (\<lambda>h. if h \<in> fst ` set (co_queues co) \<and> wants (co_handlers co) b h
      then map_option (\<lambda>oh. oh_set_events (oh_events oh OR EV_WRITE) oh) (map_of (co_handlers co) h)
      else map_of (co_handlers co) h)" unfolding b_def by blast
  have bl: "(h, q) \<in> set (co_queues co) \<Longrightarrow> sq_total q = backlog co h" for h q
    using Q [of h q] D(1) by (simp add: backlog_def sq_ok_def)
  have ms: "h \<in> set ?ms \<longleftrightarrow> wants (co_handlers co) b h \<and> backlog co h + len > m" for h
  proof -
    have "wants (co_handlers co) b h \<Longrightarrow> \<exists>q. (h, q) \<in> set (co_queues co)"
      using dm by (auto simp: wants_def dom_def fun_eq_iff set_eq_iff split: option.splits) (meson map_of_SomeD)
    then show ?thesis using bl by (auto simp: p_def image_iff) metis+
  qed
  have wq: "wants (co_handlers co) b h \<Longrightarrow> h \<in> fst ` set (co_queues co)" for h
    using dm by (auto simp: wants_def dom_map_of_conv_image_fst [symmetric] dom_def split: option.splits)
  have dq: "distinct (map fst ?qs)" using D(1) by (simp add: comp_def case_prod_beta')
  let ?co = "fold oh_delete ?ms (co\<lparr>co_queues := ?qs, co_handlers := hs'\<rparr>)"
  show thesis
  proof (rule that [of ?co])
    show "co_append m data len src co = Inr ?co" using A by (simp add: co_append_def p_def [symmetric])
    show "distinct (map fst (co_queues ?co))" "distinct (map fst (co_handlers ?co))"
      using dq dh fold_oh_delete(3,4) by simp_all
  next
    fix h
    show "map_of (co_queues ?co) h =
      (if wants (co_handlers co) b h \<and> backlog co h + len > m then None
       else map_option (\<lambda>q. if wants (co_handlers co) b h then sq_push p q else q) (map_of (co_queues co) h))"
      unfolding fold_oh_delete ms by (simp add: map_of_map_val)
    show "map_of (co_handlers ?co) h =
      (if wants (co_handlers co) b h \<and> backlog co h + len > m then None
       else if wants (co_handlers co) b h
         then map_option (\<lambda>oh. oh_set_events (oh_events oh OR EV_WRITE) oh) (map_of (co_handlers co) h)
         else map_of (co_handlers co) h)"
      unfolding fold_oh_delete ms using wq [of h] by (simp add: M)
  qed
qed

lemma co_okD:
  assumes "co_ok m co"
  shows "map_of (co_queues co) h = Some q \<Longrightarrow> sq_ok q \<and> sq_total q \<le> m"
    and "map_of (co_handlers co) h = Some oh \<Longrightarrow> wq_ok (oh_write oh)"
    and "map_of (co_handlers co) h = Some oh \<Longrightarrow> map_of (co_queues co) h = Some q \<Longrightarrow> awake oh q"
    and "map_of (co_queues co) h = None \<longleftrightarrow> map_of (co_handlers co) h = None"
  using assms unfolding co_ok_def by blast+

lemma co_okI:
  assumes "distinct (map fst (co_queues co))" and "distinct (map fst (co_handlers co))"
    and "\<And>h. map_of (co_queues co) h = None \<longleftrightarrow> map_of (co_handlers co) h = None"
    and "\<And>h q oh. map_of (co_queues co) h = Some q \<Longrightarrow> map_of (co_handlers co) h = Some oh \<Longrightarrow>
      sq_ok q \<and> sq_total q \<le> m \<and> wq_ok (oh_write oh) \<and> awake oh q"
  shows "co_ok m co"
proof -
  have "sq_ok q \<and> sq_total q \<le> m" if q: "map_of (co_queues co) h = Some q" for h q
  proof -
    obtain oh where "map_of (co_handlers co) h = Some oh" using q assms(3) [of h] by auto
    with q assms(4) show ?thesis by blast
  qed
  moreover have "wq_ok (oh_write oh)" if oh: "map_of (co_handlers co) h = Some oh" for h oh
  proof -
    obtain q where "map_of (co_queues co) h = Some q" using oh assms(3) [of h] by auto
    with oh assms(4) show ?thesis by blast
  qed
  ultimately show ?thesis unfolding co_ok_def using assms by blast
qed

lemma backlog_total: "co_ok m co \<Longrightarrow> map_of (co_queues co) h = Some q \<Longrightarrow> backlog co h = sq_total q"
  using co_okD(1) [of m co h q] by (simp add: backlog_def sq_ok_def)

definition interest_of :: "collector \<Rightarrow> nat \<Rightarrow> u8 option" where
  "interest_of co h = map_option oh_interests (map_of (co_handlers co) h)"

lemma wants_interest: "wants (co_handlers co) b h \<longleftrightarrow> (\<exists>i. interest_of co h = Some i \<and> b AND i \<noteq> 0)"
  by (auto simp: wants_def interest_of_def oh_interested_def split: option.splits)

lemma oh_interests_set_events [simp]: "oh_interests (oh_set_events e oh) = oh_interests oh"
  by (simp add: oh_set_events_def)

lemma co_append_correct:
  assumes ok: "co_ok m co" and len: "0 < len" "len \<le> vb_allocated data"
  shows "\<exists>co'. co_append m data len src co = Inr co' \<and> co_ok m co' \<and>
    (\<forall>h. stream_of co' h =
      (case stream_of co h of
         None \<Rightarrow> None
       | Some s \<Rightarrow>
           if \<not> wants (co_handlers co) (hd (vb_bytes data)) h then Some s
           else if backlog co h + len > m then None
           else Some (s @ enc_record \<lparr>sb_buffer = data, sb_len = len, sb_source = src\<rparr>))) \<and>
    (\<forall>h. interest_of co' h \<in> {None, interest_of co h})"
proof -
  let ?p = "\<lparr>sb_buffer = data, sb_len = len, sb_source = src\<rparr>" and ?w = "wants (co_handlers co) (hd (vb_bytes data))"
  obtain co' where A: "co_append m data len src co = Inr co'"
    and D: "distinct (map fst (co_queues co'))" "distinct (map fst (co_handlers co'))"
    and Q: "\<And>h. map_of (co_queues co') h = (if ?w h \<and> backlog co h + len > m then None
       else map_option (\<lambda>q. if ?w h then sq_push ?p q else q) (map_of (co_queues co) h))"
    and H: "\<And>h. map_of (co_handlers co') h = (if ?w h \<and> backlog co h + len > m then None
       else if ?w h then map_option (\<lambda>oh. oh_set_events (oh_events oh OR EV_WRITE) oh) (map_of (co_handlers co) h)
       else map_of (co_handlers co) h)"
    by (rule co_append_state [OF ok len, of src]) (rule that, assumption+)
  have p: "sb_ok ?p" using len by (simp add: sb_ok_def)
  have "co_ok m co'"
  proof (rule co_okI [OF D])
    fix h
    show "map_of (co_queues co') h = None \<longleftrightarrow> map_of (co_handlers co') h = None"
      using co_okD(4) [OF ok, of h] by (simp add: Q H)
    fix q oh assume q': "map_of (co_queues co') h = Some q" and oh': "map_of (co_handlers co') h = Some oh"
    from q' obtain q0 where q0: "map_of (co_queues co) h = Some q0" by (auto simp: Q split: if_splits)
    from oh' obtain oh0 where oh0: "map_of (co_handlers co) h = Some oh0" by (auto simp: H split: if_splits)
    note B = co_okD(1) [OF ok q0] co_okD(2) [OF ok oh0] co_okD(3) [OF ok oh0 q0] and T = backlog_total [OF ok q0]
    show "sq_ok q \<and> sq_total q \<le> m \<and> wq_ok (oh_write oh) \<and> awake oh q"
    proof (cases "?w h")
      case True
      then have s: "q = sq_push ?p q0" "oh = oh_set_events (oh_events oh0 OR EV_WRITE) oh0" "sq_total q0 + len \<le> m"
        using q' oh' q0 oh0 T by (auto simp: Q H split: if_splits)
      then show ?thesis
        using B sq_push_ok [OF _ p, of q0] awake_push [of oh0 q0 ?p] by (simp add: sq_push_def)
    next
      case False
      then show ?thesis using q' oh' q0 oh0 B by (simp add: Q H)
    qed
  qed
  moreover have "stream_of co' h = (case stream_of co h of None \<Rightarrow> None | Some s \<Rightarrow>
      if \<not> ?w h then Some s else if backlog co h + len > m then None else Some (s @ enc_record ?p))" for h
    by (auto simp: stream_of_def Q H sq_push_def split: option.splits)
  moreover have "interest_of co' h \<in> {None, interest_of co h}" for h
    by (simp add: interest_of_def H option.map_comp comp_def)
  ultimately show ?thesis using A by blast
qed

section \<open>Writing to a consumer\<close>

lemma co_pop_queue:
  "map_of (co_queues co) h = Some q \<Longrightarrow> sq_queue q = xs @ [p] \<Longrightarrow>
     co_pop h co = (p, co\<lparr>co_queues := AList.update h \<lparr>sq_queue = xs, sq_total = sq_total q - sb_len p\<rparr> (co_queues co)\<rparr>)"
  by (simp add: co_pop_def Let_def)

lemma co_pop_empty:
  "map_of (co_queues co) h = Some q \<Longrightarrow> sq_queue q = [] \<Longrightarrow> co_pop h co = (sb_default, co)"
  by (simp add: co_pop_def)

text \<open>Replacing a consumer's handler and queue.\<close>

lemma co_ok_replace:
  assumes "co_ok m co" and "map_of (co_handlers co) h \<noteq> None"
    and "wq_ok (oh_write oh)" and "awake oh q" and "sq_ok q" and "sq_total q \<le> m"
  shows "co_ok m (co\<lparr>co_queues := AList.update h q (co_queues co), co_handlers := AList.update h oh (co_handlers co)\<rparr>)"
proof (rule co_okI)
  have D: "distinct (map fst (co_queues co))" "distinct (map fst (co_handlers co))"
    using assms(1) unfolding co_ok_def by blast+
  let ?co = "co\<lparr>co_queues := AList.update h q (co_queues co), co_handlers := AList.update h oh (co_handlers co)\<rparr>"
  show "distinct (map fst (co_queues ?co))" "distinct (map fst (co_handlers ?co))"
    using D by (simp_all add: distinct_update)
  fix k
  show "map_of (co_queues ?co) k = None \<longleftrightarrow> map_of (co_handlers ?co) k = None"
    using co_okD(4) [OF assms(1), of k] by (simp add: update_conv')
  fix q' oh' assume "map_of (co_queues ?co) k = Some q'" "map_of (co_handlers ?co) k = Some oh'"
  then show "sq_ok q' \<and> sq_total q' \<le> m \<and> wq_ok (oh_write oh') \<and> awake oh' q'"
    using co_okD(1-3) [OF assms(1), of k] assms(3-6) by (auto simp: update_conv' split: if_splits)
qed

lemma co_ok_delete: "co_ok m co \<Longrightarrow> co_ok m (oh_delete h co)"
proof (rule co_okI)
  assume ok: "co_ok m co"
  then have D: "distinct (map fst (co_queues co))" "distinct (map fst (co_handlers co))"
    unfolding co_ok_def by blast+
  note E = oh_delete_def co_retire_consumer_def Let_def delete_conv'
  show "distinct (map fst (co_queues (oh_delete h co)))" "distinct (map fst (co_handlers (oh_delete h co)))"
    using D by (simp_all add: E distinct_delete)
  fix k
  show "map_of (co_queues (oh_delete h co)) k = None \<longleftrightarrow> map_of (co_handlers (oh_delete h co)) k = None"
    using co_okD(4) [OF ok, of k] by (simp add: E)
  fix q' oh' assume "map_of (co_queues (oh_delete h co)) k = Some q'" "map_of (co_handlers (oh_delete h co)) k = Some oh'"
  then show "sq_ok q' \<and> sq_total q' \<le> m \<and> wq_ok (oh_write oh') \<and> awake oh' q'"
    using co_okD(1-3) [OF ok, of k] by (auto simp: E split: if_splits)
qed

lemma oh_put_queue:
  "map_of (co_queues co) h = Some q \<Longrightarrow> oh_put h oh co =
     co\<lparr>co_queues := AList.update h q (co_queues co), co_handlers := AList.update h oh (co_handlers co)\<rparr>"
  by (simp add: oh_put_def update_triv)

lemma stream_of_replace:
  "map_of (co_handlers co) h \<noteq> None \<Longrightarrow> stream_of
     (co\<lparr>co_queues := AList.update h q (co_queues co), co_handlers := AList.update h oh (co_handlers co)\<rparr>) k =
   (if k = h then Some (so_written (oh_out oh) @ wq_pend (oh_write oh) @ concat (map enc_record (rev (sq_queue q))))
    else stream_of co k)"
  by (simp add: stream_of_def update_conv')

lemma stream_of_delete: "stream_of (oh_delete h co) k = (if k = h then None else stream_of co k)"
  by (simp add: stream_of_def oh_delete_def co_retire_consumer_def Let_def delete_conv')

lemma sq_ok_snoc: "sq_ok q \<Longrightarrow> sq_queue q = xs @ [p] \<Longrightarrow>
    sb_ok p \<and> sq_ok \<lparr>sq_queue = xs, sq_total = sq_total q - sb_len p\<rparr> \<and> sq_total q - sb_len p \<le> sq_total q"
  by (simp add: sq_ok_def)

text \<open>The three appends that put a record on the wire.\<close>

lemma append_record_ok:
  assumes "0 < ps" and "wq_ok wq" and "wq_pend wq = []" and "sb_ok p"
  shows "\<exists>wq1 wq2 wq3. wq_append ps (le32 (hton32 (of_nat (sb_len p + 4)))) wq = Inr wq1 \<and>
      wq_append ps (le32 (hton32 (sb_source p))) wq1 = Inr wq2 \<and>
      wq_append_buf (sb_buffer p) (sb_len p) wq2 = Inr wq3 \<and> wq_ok wq3 \<and> wq_pend wq3 = enc_record p"
proof -
  have ne: "be32 x \<noteq> []" for x :: u32 by (metis length_enc_words(4) list.size(3) zero_neq_numeral)
  obtain wq1 where 1: "wq_append ps (be32 (of_nat (sb_len p + 4))) wq = Inr wq1" "wq_ok wq1"
    "wq_pend wq1 = be32 (of_nat (sb_len p + 4))"
    using wq_append_ok [OF assms(1,2) ne] assms(3) by auto
  obtain wq2 where 2: "wq_append ps (be32 (sb_source p)) wq1 = Inr wq2" "wq_ok wq2"
    "wq_pend wq2 = be32 (of_nat (sb_len p + 4)) @ be32 (sb_source p)"
    using wq_append_ok [OF assms(1) 1(2) ne] 1(3) by metis
  obtain wq3 where 3: "wq_append_buf (sb_buffer p) (sb_len p) wq2 = Inr wq3" "wq_ok wq3" "wq_pend wq3 = enc_record p"
    using wq_append_buf_ok [OF 2(2), of "sb_len p" "sb_buffer p"] 2(3) assms(4)
    by (auto simp: sb_ok_def enc_record_def)
  from 1 2 3 show ?thesis unfolding le32_hton32 by blast
qed

lemma oh_io_cb_correct:
  assumes ps: "0 < ps" and ok: "co_ok m co" and live: "map_of (co_handlers co) h \<noteq> None"
  shows "\<exists>co'. oh_io_cb ps h revents co = Inr co' \<and> co_ok m co' \<and>
    (\<forall>k. k \<noteq> h \<longrightarrow> stream_of co' k = stream_of co k) \<and>
    (stream_of co' h = stream_of co h \<or> stream_of co' h = None) \<and>
    (\<forall>k. interest_of co' k \<in> {None, interest_of co k})"
proof -
  obtain oh where oh: "map_of (co_handlers co) h = Some oh" using live by blast
  then obtain q where q: "map_of (co_queues co) h = Some q" using co_okD(4) [OF ok, of h] by auto
  note Q = co_okD(1) [OF ok q] and W = co_okD(2) [OF ok oh] and A = co_okD(3) [OF ok oh q]
  have s0: "stream_of co h =
      Some (so_written (oh_out oh) @ wq_pend (oh_write oh) @ concat (map enc_record (rev (sq_queue q))))"
    using oh q by (simp add: stream_of_def)
  show ?thesis
  proof (cases "revents AND EV_WRITE = 0")
    case True
    with ok oh show ?thesis by (simp add: oh_io_cb_def)
  next
    case False
    obtain r wq out bs where L: "write_loop (oh_write oh) (oh_out oh) = Inr (r, wq, out)" and wq: "wq_ok wq"
      and eq: "so_written out = so_written (oh_out oh) @ bs" "wq_pend (oh_write oh) = bs @ wq_pend wq"
      and rn: "r = None \<longleftrightarrow> wq_pend wq = []"
      using write_loop_ok [OF W, of "oh_out oh"] by blast
    let ?oh1 = "oh\<lparr>oh_write := wq, oh_out := out\<rparr>"
    note int = interest_of_def update_conv' oh oh_delete_def co_retire_consumer_def Let_def delete_conv'
    let ?rep = "\<lambda>q' oh'. co\<lparr>co_queues := AList.update h q' (co_queues co), co_handlers := AList.update h oh' (co_handlers co)\<rparr>"
    have put: "oh_put h ?oh1 co = ?rep q ?oh1" by (rule oh_put_queue [OF q])
    have s1: "so_written out @ wq_pend wq @ xs = so_written (oh_out oh) @ wq_pend (oh_write oh) @ xs" for xs
      using eq by simp
    have a1: "awake ?oh1 q"
      using A eq by (auto simp: awake_def)
    have ok1: "co_ok m (?rep q ?oh1)" using co_ok_replace [OF ok live] wq a1 Q by simp
    show ?thesis
    proof (cases r)
      case (Some e)
      show ?thesis
      proof (cases "fatal e \<or> e = IOk 0")
        case True
        then have "oh_io_cb ps h revents co = Inr (oh_delete h (?rep q ?oh1))"
          using oh False L Some put by (simp add: oh_io_cb_def oh_suicide_def)
        with co_ok_delete [OF ok1] show ?thesis
          by (simp add: stream_of_delete stream_of_replace [OF live]) (simp add: int)
      next
        case F: False
        then have "oh_io_cb ps h revents co = Inr (?rep q ?oh1)"
          using oh False L Some put by (simp add: oh_io_cb_def)
        with ok1 s0 s1 show ?thesis by (simp add: stream_of_replace [OF live] int)
      qed
    next
      case None
      then have pe: "wq_pend wq = []" using rn by simp
      have q1: "map_of (co_queues (oh_put h ?oh1 co)) h = Some q" using q by (simp add: oh_put_def)
      show ?thesis
      proof (cases "sq_queue q" rule: rev_cases)
        case Nil
        let ?oh2 = "?oh1\<lparr>oh_events := EV_NONE, oh_io := None\<rparr>"
        have "oh_io_cb ps h revents co = Inr (?rep q ?oh2)"
          using oh False L None co_pop_empty [OF q1 Nil] q
          by (simp add: oh_io_cb_def sb_default_def oh_put_def update_triv)
        moreover have "awake ?oh2 q" using Nil pe by (simp add: awake_def EV_NONE_def)
        then have "co_ok m (?rep q ?oh2)" using co_ok_replace [OF ok live] wq Q by simp
        ultimately show ?thesis using s0 s1 by (simp add: stream_of_replace [OF live] int)
      next
        case (snoc xs p)
        note S = sq_ok_snoc [OF conjunct1 [OF Q] snoc]
        let ?q' = "\<lparr>sq_queue = xs, sq_total = sq_total q - sb_len p\<rparr>"
        have p: "sb_ok p" "sb_len p \<noteq> 0" using S by (auto simp: sb_ok_def)
        obtain wq1 wq2 wq3 where AP: "wq_append ps (le32 (hton32 (of_nat (sb_len p + 4)))) wq = Inr wq1"
          "wq_append ps (le32 (hton32 (sb_source p))) wq1 = Inr wq2"
          "wq_append_buf (sb_buffer p) (sb_len p) wq2 = Inr wq3"
          and X: "wq_ok wq3" "wq_pend wq3 = enc_record p"
          using append_record_ok [OF ps wq pe p(1)] by blast
        let ?oh3 = "?oh1\<lparr>oh_write := wq3\<rparr>"
        have "oh_io_cb ps h revents co = Inr (?rep ?q' ?oh3)"
          using oh False L None co_pop_queue [OF q1 snoc] p(2) AP
          by (simp add: oh_io_cb_def oh_put_def)
        moreover have "awake ?oh3 ?q'" using A snoc by (auto simp: awake_def)
        then have "co_ok m (?rep ?q' ?oh3)" using co_ok_replace [OF ok live, of ?oh3 ?q'] X(1) S Q by simp
        ultimately show ?thesis using s0 s1 pe X(2) snoc by (simp add: stream_of_replace [OF live] int)
      qed
    qed
  qed
qed

section \<open>Runs of the output side\<close>

text \<open>
  What happens to the output side: a record arrives, a consumer's socket becomes ready, a new
  consumer connects (at an address that is not in use).
\<close>

datatype co_ev =
    Co_Record vbuf nat u32
  | Co_Ready nat u32
  | Co_Accept nat u8 sock_out

fun co_guard :: "collector \<Rightarrow> co_ev \<Rightarrow> bool" where
  "co_guard co (Co_Record data len src) = (0 < len \<and> len \<le> vb_allocated data)"
| "co_guard co (Co_Ready h revents) = (map_of (co_handlers co) h \<noteq> None)"
| "co_guard co (Co_Accept h i out) = (map_of (co_handlers co) h = None)"

fun co_step :: "nat \<Rightarrow> nat \<Rightarrow> co_ev \<Rightarrow> collector \<Rightarrow> collector res" where
  "co_step ps m (Co_Record data len src) co = co_append m data len src co"
| "co_step ps m (Co_Ready h revents) co = oh_io_cb ps h revents co"
| "co_step ps m (Co_Accept h i out) co = Inr (oh_new h i out co)"

inductive co_run :: "nat \<Rightarrow> nat \<Rightarrow> collector \<Rightarrow> co_ev list \<Rightarrow> collector \<Rightarrow> bool" for ps m where
  start: "co_run ps m co [] co"
| more: "co_run ps m co evs co1 \<Longrightarrow> co_guard co1 ev \<Longrightarrow> co_step ps m ev co1 = Inr co2 \<Longrightarrow>
    co_run ps m co (evs @ [ev]) co2"

lemma oh_new_correct:
  assumes ok: "co_ok m co" and fresh: "map_of (co_handlers co) h = None"
  shows "co_ok m (oh_new h i out co)"
    and "stream_of (oh_new h i out co) k = (if k = h then Some (so_written out) else stream_of co k)"
    and "interest_of (oh_new h i out co) k = (if k = h then Some i else interest_of co k)"
proof -
  have q: "map_of (co_queues co) h = None" using co_okD(4) [OF ok] fresh by blast
  then have n: "h \<notin> fst ` set (co_queues co)" "h \<notin> fst ` set (co_handlers co)"
    using fresh by (simp_all add: map_of_eq_None_iff)
  let ?oh = "\<lparr>oh_interests = i, oh_events = EV_NONE, oh_io = Some EV_NONE, oh_write = wq_new, oh_out = out\<rparr>"
  have e: "oh_new h i out co =
      co\<lparr>co_queues := (h, sq_new) # co_queues co, co_handlers := (h, ?oh) # co_handlers co\<rparr>"
    using n by (simp add: oh_new_def co_add_consumer_def)
  have D: "distinct (map fst (co_queues co))" "distinct (map fst (co_handlers co))"
    using ok unfolding co_ok_def by blast+
  have a: "awake ?oh sq_new" "sq_ok sq_new" "sq_total sq_new \<le> m"
    by (simp_all add: awake_def EV_NONE_def sq_new_def sq_ok_def)
  show "co_ok m (oh_new h i out co)"
    unfolding e
  proof (rule co_okI)
    fix k q' oh'
    assume "map_of (co_queues (co\<lparr>co_queues := (h, sq_new) # co_queues co, co_handlers := (h, ?oh) # co_handlers co\<rparr>)) k = Some q'"
      and "map_of (co_handlers (co\<lparr>co_queues := (h, sq_new) # co_queues co, co_handlers := (h, ?oh) # co_handlers co\<rparr>)) k = Some oh'"
    then show "sq_ok q' \<and> sq_total q' \<le> m \<and> wq_ok (oh_write oh') \<and> awake oh' q'"
      using co_okD(1-3) [OF ok, of k] a by (auto split: if_splits)
  qed (use n D co_okD(4) [OF ok] in auto)
  show "stream_of (oh_new h i out co) k = (if k = h then Some (so_written out) else stream_of co k)"
    unfolding e by (simp add: stream_of_def sq_new_def)
  show "interest_of (oh_new h i out co) k = (if k = h then Some i else interest_of co k)"
    unfolding e by (simp add: interest_of_def)
qed

lemma co_step_total:
  assumes "0 < ps" and "co_ok m co" and "co_guard co ev"
  shows "\<exists>co'. co_step ps m ev co = Inr co' \<and> co_ok m co'"
proof (cases ev)
  case (Co_Record data len src)
  with assms(3) co_append_correct [OF assms(2), of len data src] show ?thesis by auto
next
  case (Co_Ready h revents)
  with assms(3) oh_io_cb_correct [OF assms(1,2), of h revents] show ?thesis by auto
next
  case (Co_Accept h i out)
  with assms(3) oh_new_correct(1) [OF assms(2), of h i out] show ?thesis by simp
qed

lemma co_step_ok: "0 < ps \<Longrightarrow> co_ok m co \<Longrightarrow> co_guard co ev \<Longrightarrow> co_step ps m ev co = Inr co' \<Longrightarrow> co_ok m co'"
  using co_step_total [of ps m co ev] by auto

lemma co_run_ok: "co_run ps m co evs co' \<Longrightarrow> 0 < ps \<Longrightarrow> co_ok m co \<Longrightarrow> co_ok m co'"
  by (induction rule: co_run.induct) (auto intro: co_step_ok)

text \<open>The records of a run a consumer with the interest mask \<open>i\<close> has to receive.\<close>

fun recs_for :: "u8 \<Rightarrow> co_ev list \<Rightarrow> byte list" where
  "recs_for i [] = []"
| "recs_for i (Co_Record data len src # evs) =
     (if hd (vb_bytes data) AND i \<noteq> 0
      then enc_record \<lparr>sb_buffer = data, sb_len = len, sb_source = src\<rparr> else []) @ recs_for i evs"
| "recs_for i (_ # evs) = recs_for i evs"

lemma recs_for_append: "recs_for i (evs @ evs') = recs_for i evs @ recs_for i evs'"
  by (induction i evs rule: recs_for.induct) auto

lemma interest_None: "co_ok m co \<Longrightarrow> interest_of co h = None \<longleftrightarrow> stream_of co h = None"
  using co_okD(4) [of m co h] by (auto simp: interest_of_def stream_of_def split: option.splits)

lemma co_step_stream:
  assumes "0 < ps" and "co_ok m co" and "co_guard co ev" and "co_step ps m ev co = Inr co'"
    and "\<forall>i out. ev \<noteq> Co_Accept h i out" and "stream_of co' h = Some s'"
  shows "\<exists>s i. stream_of co h = Some s \<and> interest_of co h = Some i \<and> interest_of co' h = Some i \<and>
    s' = s @ recs_for i [ev]"
proof -
  have c': "interest_of co' h \<noteq> None"
    using interest_None [OF co_step_ok [OF assms(1-4)], of h] assms(6) by simp
  show ?thesis
  proof (cases ev)
    case (Co_Record data len src)
    with assms(3,4) co_append_correct [OF assms(2), of len data src]
    have S: "stream_of co' h = (case stream_of co h of None \<Rightarrow> None | Some s \<Rightarrow>
        if \<not> wants (co_handlers co) (hd (vb_bytes data)) h then Some s
        else if backlog co h + len > m then None
        else Some (s @ enc_record \<lparr>sb_buffer = data, sb_len = len, sb_source = src\<rparr>))"
      and I: "interest_of co' h \<in> {None, interest_of co h}" by auto
    from S assms(6) obtain s where s: "stream_of co h = Some s" by (auto split: option.splits)
    from I c' obtain i where i: "interest_of co h = Some i" "interest_of co' h = Some i" by auto
    from S s i assms(6) Co_Record show ?thesis by (auto simp: wants_interest split: if_splits)
  next
    case (Co_Ready k revents)
    with assms(3,4) oh_io_cb_correct [OF assms(1,2), of k revents]
    have "stream_of co' h = stream_of co h \<or> stream_of co' h = None"
      and I: "interest_of co' h \<in> {None, interest_of co h}" by (cases "h = k"; auto)+
    with assms(6) c' Co_Ready show ?thesis by auto
  next
    case (Co_Accept k i out)
    then have "k \<noteq> h" using assms(5) by auto
    with Co_Accept assms(3,4,6) oh_new_correct(2,3) [OF assms(2), of k i out h] c' show ?thesis by auto
  qed
qed

lemma co_run_stream:
  assumes "co_run ps m co evs co'" and "0 < ps" and "co_ok m co" and "\<forall>i out. Co_Accept h i out \<notin> set evs"
    and "stream_of co' h = Some s'"
  shows "\<exists>s i. stream_of co h = Some s \<and> interest_of co h = Some i \<and> interest_of co' h = Some i \<and>
    s' = s @ recs_for i evs"
  using assms
proof (induction arbitrary: s' rule: co_run.induct)
  case (start co)
  then show ?case using interest_None [OF start(2), of h] by auto
next
  case (more co evs co1 ev co2)
  have na: "\<forall>i out. ev \<noteq> Co_Accept h i out" using more.prems(3) by auto
  note ok1 = co_run_ok [OF more.hyps(1) more.prems(1,2)]
  from co_step_stream [OF more.prems(1) ok1 more.hyps(2,3) na more.prems(4)] obtain s1 i where
    1: "stream_of co1 h = Some s1" "interest_of co1 h = Some i" "interest_of co2 h = Some i" "s' = s1 @ recs_for i [ev]"
    by blast
  from more.IH [OF more.prems(1,2) _ 1(1)] more.prems(3) 1 show ?case by (auto simp: recs_for_append)
qed

section \<open>Properties\<close>

definition empty_collector :: collector where
  "empty_collector = \<lparr>co_queues = [], co_handlers = []\<rparr>"

lemma empty_collector_ok: "co_ok m empty_collector"
  by (rule co_okI) (simp_all add: empty_collector_def)

text \<open>
  Property C31: from the moment a consumer connects, whatever records arrive, however its socket
  accepts them and whatever other consumers do, the bytes written to it, the bytes in its write
  queue and the records in its collector queue are together exactly the records of its interest
  in order of arrival, each with its length and source prefix, unless the consumer has been
  dropped; its backlog stays within the configured bound, and if anything is left the watcher
  waits for the socket.
\<close>

theorem consumer_receives_every_record:
  assumes "0 < ps" and "co_ok m co" and "map_of (co_handlers co) h = None"
    and "co_run ps m (oh_new h i out co) evs co'" and "\<forall>i out. Co_Accept h i out \<notin> set evs"
    and "map_of (co_handlers co') h = Some oh" and "map_of (co_queues co') h = Some q"
  shows "so_written (oh_out oh) @ wq_pend (oh_write oh) @ concat (map enc_record (rev (sq_queue q)))
      = so_written out @ recs_for i evs \<and>
    sum_list (map sb_len (sq_queue q)) \<le> m \<and>
    (sq_queue q \<noteq> [] \<or> wq_pend (oh_write oh) \<noteq> [] \<longrightarrow> (\<exists>e. oh_io oh = Some e \<and> e AND EV_WRITE \<noteq> 0))"
proof -
  note N = oh_new_correct [OF assms(2,3), of i out]
  note ok = co_run_ok [OF assms(4,1) N(1)]
  have "stream_of co' h = Some (so_written (oh_out oh) @ wq_pend (oh_write oh) @ concat (map enc_record (rev (sq_queue q))))"
    using assms(6,7) by (simp add: stream_of_def)
  from co_run_stream [OF assms(4,1) N(1) assms(5) this] N(2,3) [of h]
  have "so_written (oh_out oh) @ wq_pend (oh_write oh) @ concat (map enc_record (rev (sq_queue q)))
      = so_written out @ recs_for i evs" by auto
  then show ?thesis
    using co_okD(1) [OF ok assms(7)] co_okD(3) [OF ok assms(6,7)] by (auto simp: sq_ok_def awake_def)
qed

definition demo_out :: sock_out where
  "demo_out = \<lparr>so_script = [], so_written = []\<rparr>"

theorem consumer_receives_every_record_witness:
  "\<exists>co' oh q. co_run 4096 100 (oh_new 7 16 demo_out empty_collector) [Co_Record (VAlloc [16, 9]) 2 5] co' \<and>
    map_of (co_handlers co') 7 = Some oh \<and> map_of (co_queues co') 7 = Some q \<and>
    concat (map enc_record (rev (sq_queue q))) = be32 6 @ be32 5 @ [16, 9] \<and> sum_list (map sb_len (sq_queue q)) \<le> 100"
proof -
  let ?co = "oh_new 7 16 demo_out empty_collector" and ?ev = "Co_Record (VAlloc [16, 9]) 2 5"
  have g: "co_guard ?co ?ev" by (simp add: vb_allocated_def)
  have S: "co_step 4096 100 ?ev ?co = Inr \<lparr>co_queues = [(7, \<lparr>sq_queue = [\<lparr>sb_buffer = VAlloc [16, 9], sb_len = 2, sb_source = 5\<rparr>], sq_total = 2\<rparr>)],
      co_handlers = [(7, \<lparr>oh_interests = 16, oh_events = 2, oh_io = Some 2, oh_write = wq_new, oh_out = demo_out\<rparr>)]\<rparr>"
    by (simp add: co_append_def oh_new_def co_add_consumer_def empty_collector_def vb_const_ptr_def oh_interested_def
        sq_push_def sq_new_def oh_set_events_def EV_WRITE_def EV_NONE_def)
  have r: "co_run 4096 100 ?co ([] @ [?ev]) \<lparr>co_queues = [(7, \<lparr>sq_queue = [\<lparr>sb_buffer = VAlloc [16, 9], sb_len = 2, sb_source = 5\<rparr>], sq_total = 2\<rparr>)],
      co_handlers = [(7, \<lparr>oh_interests = 16, oh_events = 2, oh_io = Some 2, oh_write = wq_new, oh_out = demo_out\<rparr>)]\<rparr>"
    (is "co_run _ _ _ _ ?co'")
    by (rule co_run.more [OF co_run.start g S])
  have e: "map_of (co_handlers empty_collector) 7 = None" by (simp add: empty_collector_def)
  have h: "\<exists>oh. map_of (co_handlers ?co') 7 = Some oh" "\<exists>q. map_of (co_queues ?co') 7 = Some q" by simp_all
  then obtain oh q where oq: "map_of (co_handlers ?co') 7 = Some oh" "map_of (co_queues ?co') 7 = Some q" by blast
  from consumer_receives_every_record [OF _ empty_collector_ok e r _ oq] oq r
  show ?thesis
    by (intro exI [of _ ?co'] exI [of _ oh] exI [of _ q])
      (auto simp: demo_out_def enc_record_def)
qed

end
