(* ===== verification/Record_Reader.thy ===== *)
theory Record_Reader
  imports Read_Buffer
begin

text \<open>
  Streams of records, each behind its length in 32 bits of network order. The log server and every log
  client read them in the same way: four bytes, then as many as they say. The interface of such a
  handler is stated once, and what it makes of a stream follows for all of them.
\<close>

lemma get_frame_length: "n < 2 ^ 32 \<Longrightarrow> unat (ntoh32 (get32 (be32 (of_nat n)))) = n"
  by (simp add: ntoh32_get32 unat_of_nat)

fun foldR :: "('a \<Rightarrow> 's \<Rightarrow> 's res) \<Rightarrow> 'a list \<Rightarrow> 's \<Rightarrow> 's res" where
  "foldR g [] st = Inr st"
| "foldR g (x # xs) st = bindR (g x st) (foldR g xs)"

text \<open>
  \<open>hdr st\<close> is the state of the handler that waits for a length, \<open>bod st\<close> the one that waits for a record;
  \<open>act\<close> is what it does with a record of \<open>n\<close> bytes in its buffer.
\<close>

locale record_reader =
  fixes f :: "'t complete" and hdr :: "'s \<Rightarrow> 't" and bod :: "'s \<Rightarrow> 't" and act :: "nat \<Rightarrow> vbuf \<Rightarrow> 's \<Rightarrow> 's res"
  assumes header: "4 \<le> vb_allocated b \<Longrightarrow> f (hdr st) 4 b = Inr (bod st, Restart (unat (ntoh32 (get32 (take 4 (vb_bytes b))))))"
    and body: "f (bod st) n b = bindR (act n b st) (\<lambda>st'. Inr (hdr st', Restart 4))"
begin

lemma one_record:
  assumes "0 < ps" and "0 < vb_allocated buf" and "r \<noteq> []" and "length r < 2 ^ 32"
  obtains b where "length r \<le> vb_allocated b" "take (length r) (vb_bytes b) = r"
    "stream_run ps f (hdr st) 0 4 buf (enc_frame r @ rest) = bindR (act (length r) b st) (\<lambda>st'. stream_run ps f (hdr st') 0 4 b rest)"
proof -
  obtain b1 where B1: "vb_allocated b1 \<ge> 4" "take 4 (vb_bytes b1) = be32 (of_nat (length r))"
    and S1: "stream_run ps f (hdr st) 0 4 buf (be32 (of_nat (length r)) @ (r @ rest)) =
      bindR (f (hdr st) 4 b1) (\<lambda>(st', cmd). case cmd of
          Extend k \<Rightarrow> stream_run ps f st' 4 k b1 (r @ rest) | Restart k \<Rightarrow> stream_run ps f st' 0 k b1 (r @ rest))"
    by (rule stream_run_frame [OF assms(1) zero_less_numeral assms(2) length_enc_words(4)])
  have l: "0 < length r" "0 < vb_allocated b1" using assms(3) B1(1) by auto
  obtain b2 where B2: "length r \<le> vb_allocated b2" "take (length r) (vb_bytes b2) = r"
    and S2: "stream_run ps f (bod st) 0 (length r) b1 (r @ rest) =
      bindR (f (bod st) (length r) b2) (\<lambda>(st', cmd). case cmd of
          Extend k \<Rightarrow> stream_run ps f st' (length r) k b2 rest | Restart k \<Rightarrow> stream_run ps f st' 0 k b2 rest)"
    by (rule stream_run_frame [OF assms(1) l refl])
  show thesis
    by (rule that [OF B2])
      (use S1 S2 header [OF B1(1), of st] get_frame_length [OF assms(4)] in \<open>simp add: enc_frame_def B1(2) body bindR_assoc\<close>)
qed

text \<open>A record of length zero: the handler announces nothing and never reads again.\<close>

lemma empty_record:
  assumes "0 < ps" and "0 < vb_allocated buf"
  obtains b where "stream_run ps f (hdr st) 0 4 buf (be32 0 @ rest) = Inr (bod st, 0, 0, b, rest)"
proof -
  obtain b1 where B1: "vb_allocated b1 \<ge> 4" "take 4 (vb_bytes b1) = be32 0"
    and S1: "stream_run ps f (hdr st) 0 4 buf (be32 0 @ rest) =
      bindR (f (hdr st) 4 b1) (\<lambda>(st', cmd). case cmd of
          Extend k \<Rightarrow> stream_run ps f st' 4 k b1 rest | Restart k \<Rightarrow> stream_run ps f st' 0 k b1 rest)"
    by (rule stream_run_frame [OF assms(1) zero_less_numeral assms(2) length_enc_words(4)])
  show thesis by (rule that) (use S1 header [OF B1(1), of st] get_frame_length [of 0] B1(2) in simp)
qed

end

text \<open>A handler whose action on the records of a set \<open>ok\<close> depends on the bytes of the record only.\<close>

locale record_consumer = record_reader +
  fixes ok :: "byte list \<Rightarrow> bool" and on :: "byte list \<Rightarrow> 's \<Rightarrow> 's res"
  assumes on_record: "n \<le> vb_allocated b \<Longrightarrow> ok (take n (vb_bytes b)) \<Longrightarrow> act n b st = on (take n (vb_bytes b)) st"
begin

lemma all_records:
  assumes "0 < ps"
  shows "\<forall>r\<in>set rs. r \<noteq> [] \<and> length r < 2 ^ 32 \<and> ok r \<Longrightarrow> 0 < vb_allocated buf \<Longrightarrow> foldR on rs st = Inr st' \<Longrightarrow>
    \<exists>b. stream_run ps f (hdr st) 0 4 buf (concat (map enc_frame rs)) = Inr (hdr st', 0, 4, b, [])"
proof (induction rs arbitrary: st buf)
  case Nil
  then show ?case using stream_run_idle [OF assms, of 4 buf f "hdr st"] by auto
next
  case (Cons r rs)
  have r: "r \<noteq> []" "length r < 2 ^ 32" "ok r" using Cons.prems(1) by auto
  obtain b where B: "length r \<le> vb_allocated b" "take (length r) (vb_bytes b) = r"
    "stream_run ps f (hdr st) 0 4 buf (enc_frame r @ concat (map enc_frame rs)) =
      bindR (act (length r) b st) (\<lambda>st'. stream_run ps f (hdr st') 0 4 b (concat (map enc_frame rs)))"
    by (rule one_record [OF assms Cons.prems(2) r(1,2)])
  obtain st1 where A: "act (length r) b st = Inr st1" "foldR on rs st1 = Inr st'"
    using Cons.prems(3) on_record [OF B(1)] B(2) r(3) by (auto simp: bindR_Inr_iff)
  have "0 < vb_allocated b" using B(1) r(1) by (cases r) auto
  with Cons.IH [OF _ _ A(2)] Cons.prems(1) A(1) B(3) show ?case by simp
qed

lemma all_records_seen:
  assumes "0 < ps" and "\<forall>cs\<in>set evs. \<forall>c\<in>set cs. c \<noteq> []" and "evs \<noteq> []" and "concat (concat evs) = concat (map enc_frame rs)"
    and "\<forall>r\<in>set rs. r \<noteq> [] \<and> length r < 2 ^ 32 \<and> ok r" and "foldR on rs st = Inr st'"
  shows "\<exists>rb s. callbacks ps f (hdr st) (rb_new ps 4) [] evs = Inr (hdr st', rb, s) \<and> rb_cursor rb = 0 \<and> rb_to_read rb = 4"
proof -
  obtain b where "stream_run ps f (hdr st) 0 4 (rb_buffer (rb_new ps 4)) (concat (map enc_frame rs)) = Inr (hdr st', 0, 4, b, [])"
    using all_records [OF assms(1,5) rb_new_allocated [OF assms(1)] assms(6)] by blast
  then have "seen (callbacks ps f (hdr st) (rb_new ps 4) [] evs) = Inr (hdr st', 0, 4, b, [])"
    using callbacks_seen [OF assms(2,3,1), of f "hdr st" 4] assms(4) by simp
  from seen_InrD [OF this] show ?thesis by blast
qed

end

end
