(* ===== verification/Input_Cxn.thy ===== *)
theory Input_Cxn
  imports Collector Record_Reader
begin

text \<open>
  The log server's input side (\<^verbatim>\<open>logserver/src/input_cxn.cpp\<close>), the accept handler template
  (\<^verbatim>\<open>shared/includes/accept_handler.hpp\<close>) and the interest table of the listening sockets
  (\<^verbatim>\<open>logserver/src/output_cxn.cpp\<close>). A producer sends records with a 32-bit length in network
  byte order; each is handed to the collector under the identifier of the connection.
\<close>

section \<open>The input handler\<close>

definition IC_RECV_HEADER :: u32 where "IC_RECV_HEADER = 1"
definition IC_RECV_LOG :: u32 where "IC_RECV_LOG = 2"

record in_handler =
  ic_read :: rbuf
  ic_state :: u32
  ic_id :: u32

text \<open>
  The identifier is the time of the connection; \<^verbatim>\<open>taken_ids\<close> keeps those in use and the
  constructor sleeps until the clock shows a new one. \<open>clock\<close> lists the readings of
  \<^verbatim>\<open>time(NULL)\<close>; no reading is left over when the loop has not ended.
\<close>

fun pick_id :: "u32 list \<Rightarrow> u32 list \<Rightarrow> (u32 \<times> u32 list) option" where
  "pick_id clock taken =
     (case clock of
        [] \<Rightarrow> None
      | t # clock' \<Rightarrow> (if t \<in> set taken then pick_id clock' taken else Some (t, t # taken)))"

definition ic_new :: "nat \<Rightarrow> u32 list \<Rightarrow> u32 list \<Rightarrow> (in_handler \<times> u32 list) option" where
  "ic_new ps clock taken =
     (case pick_id clock taken of
        None \<Rightarrow> None
      | Some (i, taken') \<Rightarrow> Some (\<lparr>ic_read = rb_new ps 4, ic_state = IC_RECV_HEADER, ic_id = i\<rparr>, taken'))"

text \<open>What \<^verbatim>\<open>io_cb\<close> does when the announced bytes are there; the state is the handler's and the collector.\<close>

definition ic_complete :: "nat \<Rightarrow> (u32 \<times> u32 \<times> collector) complete" where
  "ic_complete m st cursor buf =
     (case st of (state, ident, co) \<Rightarrow>
        if state = IC_RECV_HEADER then
          bindR (vb_const_ptr buf) (\<lambda>bytes.
          bindR (rd bytes 0 4) (\<lambda>len.
          Inr ((IC_RECV_LOG, ident, co), Restart (unat (ntoh32 (get32 len))))))
        else
          bindR (co_append m buf cursor ident co) (\<lambda>co'.
          Inr ((IC_RECV_HEADER, ident, co'), Restart 4)))"

text \<open>\<^verbatim>\<open>io_cb\<close>: a handler that has deleted itself is \<open>None\<close>.\<close>

definition ic_io_cb :: "nat \<Rightarrow> nat \<Rightarrow> u32 \<Rightarrow> in_handler \<Rightarrow> sock_in \<Rightarrow> collector
    \<Rightarrow> (in_handler option \<times> sock_in \<times> collector) res" where
  "ic_io_cb ps m revents h s co =
     (if revents AND EV_READ \<noteq> 0 then
        bindR (read_loop ps (ic_complete m) (ic_state h, ic_id h, co) (ic_read h) s)
          (\<lambda>((state, ident, co'), rb, s', r).
        let h' = \<lparr>ic_read = rb, ic_state = state, ic_id = ident\<rparr> in
        Inr (case r of
               Some q \<Rightarrow> if fatal q \<or> q = IOk 0 then None else Some h'
             | None \<Rightarrow> Some h', s', co'))
      else Inr (Some h, s, co))"

section \<open>Accepting connections\<close>

datatype accept_result = AcceptFd nat | AcceptErr errno

text \<open>
  \<^verbatim>\<open>handlers::accept_handler<T>::io_cb\<close>: \<open>on_error\<close> and \<open>on_accept\<close> are \<^verbatim>\<open>T::handle_accept_error\<close>
  and \<^verbatim>\<open>T::handle_accept\<close>.
\<close>

definition accept_io_cb :: "(errno \<Rightarrow> 'w \<Rightarrow> 'w) \<Rightarrow> (nat \<Rightarrow> 'w \<Rightarrow> 'w) \<Rightarrow> accept_result \<Rightarrow> 'w \<Rightarrow> 'w" where
  "accept_io_cb on_error on_accept res w =
     (case res of
        AcceptFd client \<Rightarrow> on_accept client w
      | AcceptErr e \<Rightarrow> (if e \<noteq> EWOULDBLOCK \<and> e \<noteq> EAGAIN \<and> e \<noteq> EINTR then on_error e w else w))"

text \<open>The interests of the listening sockets, \<^verbatim>\<open>g_interests\<close>.\<close>

type_synonym interests = "(nat \<times> u8) list"

definition set_interest :: "nat \<Rightarrow> u8 \<Rightarrow> interests \<Rightarrow> interests" where
  "set_interest h interest g = (if interest \<noteq> 0 then AList.update h interest g else AList.delete h g)"

definition get_interests :: "nat \<Rightarrow> interests \<Rightarrow> u8" where
  "get_interests h g = (case map_of g h of None \<Rightarrow> 0 | Some i \<Rightarrow> i)"

text \<open>\<^verbatim>\<open>output_cxn::handler::handle_accept\<close> on the listener \<open>l\<close>; \<open>out\<close> is the accepted socket.\<close>

definition oh_handle_accept :: "interests \<Rightarrow> nat \<Rightarrow> nat \<Rightarrow> sock_out \<Rightarrow> collector \<Rightarrow> collector" where
  "oh_handle_accept g l h out co = oh_new h (get_interests l g) out co"

lemma get_set_interest: "get_interests k (set_interest h i g) = (if k = h then i else get_interests k g)"
  by (simp add: get_interests_def set_interest_def update_conv' delete_conv')

section \<open>Identifiers\<close>

lemma pick_id_fresh:
  "pick_id clock taken = Some (i, taken') \<Longrightarrow> i \<notin> set taken \<and> taken' = i # taken \<and> i \<in> set clock"
  by (induction clock) (auto split: if_splits)

lemma pick_id_total: "\<not> set clock \<subseteq> set taken \<Longrightarrow> pick_id clock taken \<noteq> None"
  by (induction clock) auto

section \<open>The handler as a framed reader\<close>

fun ic_inv :: "nat \<Rightarrow> u32 \<Rightarrow> u32 \<times> u32 \<times> collector \<Rightarrow> nat \<Rightarrow> byte list \<Rightarrow> bool" where
  "ic_inv m i (state, ident, co) n pre \<longleftrightarrow> ident = i \<and> co_ok m co \<and> (state = IC_RECV_HEADER \<longrightarrow> n = 4)"

interpretation ic: framed_reader "Suc p" "ic_complete m" "ic_inv m i" "{}" for p m i
proof
  fix st :: "u32 \<times> u32 \<times> collector" and n pre xs
  assume "ic_inv m i st n pre"
  then show "ic_inv m i st n (pre @ xs)" by (cases st) simp
next
  fix st :: "u32 \<times> u32 \<times> collector" and n pre buf
  assume I: "ic_inv m i st n pre" and l: "length pre = n" "0 < n" and t: "take n (vb_bytes buf) = pre"
  obtain state ident co where st: "st = (state, ident, co)" by (cases st)
  have al: "n \<le> vb_allocated buf" using l t by (metis length_take min.cobounded1 vb_allocated_def)
  show "(\<exists>st' cmd. ic_complete m st n buf = Inr (st', cmd) \<and>
      (case cmd of Extend k \<Rightarrow> ic_inv m i st' (n + k) pre | Restart k \<Rightarrow> ic_inv m i st' k [])) \<or>
      (\<exists>e\<in>{}. ic_complete m st n buf = Inl e)"
  proof (cases "state = IC_RECV_HEADER")
    case True
    with I st al l(2) show ?thesis
      by (auto simp: ic_complete_def vb_const_ptr_def rd_def vb_allocated_def IC_RECV_HEADER_def IC_RECV_LOG_def)
  next
    case False
    then obtain co' where "co_append m buf n ident co = Inr co'" "co_ok m co'"
      using co_append_correct [of m co n buf ident] I st l(2) al by auto
    with False st I show ?thesis by (simp add: ic_complete_def)
  qed
qed simp

section \<open>Records on the wire\<close>

interpretation ic_records: record_reader "ic_complete m" "\<lambda>(i, co). (IC_RECV_HEADER, i, co)" "\<lambda>(i, co). (IC_RECV_LOG, i, co)"
  "\<lambda>n b (i, co). bindR (co_append m b n i co) (\<lambda>co'. Inr (i, co'))" for m
proof
  fix st :: "u32 \<times> collector" and n and b :: vbuf
  obtain i co where st: "st = (i, co)" by (cases st)
  show "ic_complete m ((\<lambda>(i, co). (IC_RECV_LOG, i, co)) st) n b =
      bindR ((\<lambda>(i, co). bindR (co_append m b n i co) (\<lambda>co'. Inr (i, co'))) st) (\<lambda>st'. Inr ((\<lambda>(i, co). (IC_RECV_HEADER, i, co)) st', Restart 4))"
    by (simp add: st ic_complete_def IC_RECV_LOG_def IC_RECV_HEADER_def bindR_assoc)
  assume "4 \<le> vb_allocated b"
  then show "ic_complete m ((\<lambda>(i, co). (IC_RECV_HEADER, i, co)) st) 4 b =
      Inr ((\<lambda>(i, co). (IC_RECV_LOG, i, co)) st, Restart (unat (ntoh32 (get32 (take 4 (vb_bytes b))))))"
    by (auto simp: st ic_complete_def vb_const_ptr_def rd_def vb_allocated_def)
qed

text \<open>Any number of records: the collector runs through them in order.\<close>

lemma co_run_Cons:
  assumes "co_guard co ev" and "co_step ps m ev co = Inr co1" and "co_run ps m co1 evs co2"
  shows "co_run ps m co (ev # evs) co2"
  using assms(3,1,2)
proof (induction rule: co_run.induct)
  case (start co1)
  then show ?case using co_run.more [OF co_run.start, of co ev ps m co1] by simp
next
  case (more co1 evs co2 ev2 co3)
  then show ?case using co_run.more [of ps m co "ev # evs" co2 ev2 co3] by simp
qed

definition recs_bytes :: "u8 \<Rightarrow> u32 \<Rightarrow> byte list list \<Rightarrow> byte list" where
  "recs_bytes i src rs =
     concat (map (\<lambda>r. if hd r AND i \<noteq> 0 then be32 (of_nat (length r + 4)) @ be32 src @ r else []) rs)"

lemma ic_all_records:
  assumes "0 < ps" and "\<forall>r\<in>set rs. r \<noteq> [] \<and> length r < 2 ^ 32"
    and "co_ok m co" and "0 < vb_allocated buf"
  shows "\<exists>co' evs b. stream_run ps (ic_complete m) (IC_RECV_HEADER, ident, co) 0 4 buf (concat (map enc_frame rs)) =
      stream_run ps (ic_complete m) (IC_RECV_HEADER, ident, co') 0 4 b [] \<and> 0 < vb_allocated b \<and>
    co_run ps m co evs co' \<and> (\<forall>h i out. Co_Accept h i out \<notin> set evs) \<and> (\<forall>i. recs_for i evs = recs_bytes i ident rs)"
  using assms(2-4)
proof (induction rs arbitrary: co buf)
  case Nil
  show ?case
    by (rule exI [of _ co], rule exI [of _ "[]"], rule exI [of _ buf])
      (use Nil in \<open>simp add: co_run.start recs_bytes_def\<close>)
next
  case (Cons r rs)
  have r: "r \<noteq> []" "length r < 2 ^ 32" using Cons.prems by auto
  obtain b where B: "length r \<le> vb_allocated b" "take (length r) (vb_bytes b) = r"
    and S: "stream_run ps (ic_complete m) (IC_RECV_HEADER, ident, co) 0 4 buf (enc_frame r @ concat (map enc_frame rs)) =
      bindR (co_append m b (length r) ident co) (\<lambda>co'.
        stream_run ps (ic_complete m) (IC_RECV_HEADER, ident, co') 0 4 b (concat (map enc_frame rs)))"
    by (rule ic_records.one_record [OF assms(1) Cons.prems(3) r, of m "(ident, co)" "concat (map enc_frame rs)"])
      (simp add: bindR_assoc)
  have l: "0 < length r" using r(1) by simp
  obtain co1 where A: "co_append m b (length r) ident co = Inr co1" "co_ok m co1"
    using co_append_correct [OF Cons.prems(2) l B(1), of ident] by blast
  have "0 < vb_allocated b" using l B(1) by linarith
  from Cons.IH [OF _ A(2) this] Cons.prems(1) obtain co' evs b' where
    I: "stream_run ps (ic_complete m) (IC_RECV_HEADER, ident, co1) 0 4 b (concat (map enc_frame rs)) =
      stream_run ps (ic_complete m) (IC_RECV_HEADER, ident, co') 0 4 b' []" "0 < vb_allocated b'"
      "co_run ps m co1 evs co'" "\<forall>h i out. Co_Accept h i out \<notin> set evs" "\<forall>i. recs_for i evs = recs_bytes i ident rs"
    by auto
  let ?ev = "Co_Record b (length r) ident"
  have run: "co_run ps m co (?ev # evs) co'"
    by (rule co_run_Cons [OF _ _ I(3)]) (use A(1) B(1) l in simp_all)
  have h: "hd (vb_bytes b) = hd r" using B r(1) by (metis hd_take length_greater_0_conv)
  show ?case
    by (rule exI [of _ co'], rule exI [of _ "?ev # evs"], rule exI [of _ b'])
      (use S A(1) I run h B(2) in \<open>simp add: recs_bytes_def enc_record_def\<close>)
qed

section \<open>Properties\<close>

lemma records_sent:
  assumes "co_ok m co" and "\<forall>r\<in>set rs. r \<noteq> [] \<and> length r < 2 ^ 32"
    and "\<forall>cs\<in>set evs. \<forall>c\<in>set cs. c \<noteq> []" and "evs \<noteq> []" and "concat (concat evs) = concat (map enc_frame rs)"
  shows "\<exists>co' rb s. callbacks (Suc p) (ic_complete m) (IC_RECV_HEADER, ident, co) (rb_new (Suc p) 4) [] evs
      = Inr ((IC_RECV_HEADER, ident, co'), rb, s) \<and> rb_cursor rb = 0 \<and> rb_to_read rb = 4 \<and> co_ok m co' \<and>
    (\<forall>h s'. stream_of co' h = Some s' \<longrightarrow>
      (\<exists>s i. stream_of co h = Some s \<and> interest_of co h = Some i \<and> s' = s @ recs_bytes i ident rs))"
proof -
  let ?buf = "rb_buffer (rb_new (Suc p) 4)"
  have al: "0 < vb_allocated ?buf" by (rule rb_new_allocated) simp
  obtain co' es b where S: "stream_run (Suc p) (ic_complete m) (IC_RECV_HEADER, ident, co) 0 4 ?buf (concat (map enc_frame rs)) =
      stream_run (Suc p) (ic_complete m) (IC_RECV_HEADER, ident, co') 0 4 b []" "0 < vb_allocated b"
    and R: "co_run (Suc p) m co es co'" "\<forall>h i out. Co_Accept h i out \<notin> set es" "\<forall>i. recs_for i es = recs_bytes i ident rs"
    using ic_all_records [OF zero_less_Suc assms(2,1) al, of p ident] by blast
  obtain b' where "stream_run (Suc p) (ic_complete m) (IC_RECV_HEADER, ident, co') 0 4 b [] = Inr ((IC_RECV_HEADER, ident, co'), 0, 4, b', [])"
    using stream_run_idle [of "Suc p" 4 b "ic_complete m" "(IC_RECV_HEADER, ident, co')"] S(2) by auto
  then have "seen (callbacks (Suc p) (ic_complete m) (IC_RECV_HEADER, ident, co) (rb_new (Suc p) 4) [] evs)
      = Inr ((IC_RECV_HEADER, ident, co'), 0, 4, b', [])"
    using callbacks_seen [OF assms(3,4), of "Suc p" "ic_complete m" "(IC_RECV_HEADER, ident, co)" 4] assms(5) S(1) by simp
  from seen_InrD [OF this] obtain rb s where
    C: "callbacks (Suc p) (ic_complete m) (IC_RECV_HEADER, ident, co) (rb_new (Suc p) 4) [] evs
      = Inr ((IC_RECV_HEADER, ident, co'), rb, s)" "rb_cursor rb = 0" "rb_to_read rb = 4" by blast
  have "\<exists>s i. stream_of co h = Some s \<and> interest_of co h = Some i \<and> s' = s @ recs_bytes i ident rs"
    if "stream_of co' h = Some s'" for h s'
    using co_run_stream [OF R(1) zero_less_Suc assms(1) _ that] R(2,3) by auto
  with C co_run_ok [OF R(1) zero_less_Suc assms(1)] show ?thesis by blast
qed

text \<open>
  Property C32: end to end through the log server. When a producer's connection delivers the
  records \<open>rs\<close>, cut into chunks and callbacks in any way, the handler ends between records and
  every consumer that is still connected has been sent or has queued exactly the records of
  its interest, in order, behind what it had before.
\<close>

theorem input_records_reach_consumers:
  assumes "co_ok m co" and "\<forall>r\<in>set rs. r \<noteq> [] \<and> length r < 2 ^ 32"
    and "\<forall>cs\<in>set evs. \<forall>c\<in>set cs. c \<noteq> []" and "evs \<noteq> []" and "concat (concat evs) = concat (map enc_frame rs)"
  shows "\<exists>co' rb s. callbacks (Suc p) (ic_complete m) (IC_RECV_HEADER, ident, co) (rb_new (Suc p) 4) [] evs
      = Inr ((IC_RECV_HEADER, ident, co'), rb, s) \<and> rb_cursor rb = 0 \<and> rb_to_read rb = 4 \<and> co_ok m co' \<and>
    (\<forall>h s'. stream_of co' h = Some s' \<longrightarrow>
      (\<exists>s i. stream_of co h = Some s \<and> interest_of co h = Some i \<and> s' = s @ recs_bytes i ident rs))"
  by (rule records_sent [OF assms])

theorem input_records_reach_consumers_witness:
  "\<exists>co' rb s. callbacks 4096 (ic_complete 100) (IC_RECV_HEADER, 5, oh_new 7 16 demo_out empty_collector)
      (rb_new 4096 4) [] [[[0, 0]], [[0], [2, 16], [9]]] = Inr ((IC_RECV_HEADER, 5, co'), rb, s) \<and>
    (\<forall>s'. stream_of co' 7 = Some s' \<longrightarrow> s' = be32 6 @ be32 5 @ [16, 9])"
proof -
  let ?co = "oh_new 7 16 demo_out empty_collector"
  have ok: "co_ok 100 ?co" using oh_new_correct(1) [OF empty_collector_ok] by (simp add: empty_collector_def)
  have st: "stream_of ?co 7 = Some []" "interest_of ?co 7 = Some 16"
    using oh_new_correct(2,3) [OF empty_collector_ok [of 100], of 7 16 demo_out 7]
    by (simp_all add: empty_collector_def demo_out_def)
  have en: "concat (concat [[[0, 0]], [[0], [2, 16], [9]]]) = concat (map enc_frame [[16, 9 :: byte]])"
    by code_simp
  have rb: "recs_bytes 16 5 [[16, 9]] = be32 6 @ be32 5 @ [16, 9]" by (simp add: recs_bytes_def)
  have "\<forall>r\<in>set [[16, 9 :: byte]]. r \<noteq> [] \<and> length r < 2 ^ 32" by simp
  from input_records_reach_consumers [OF ok this _ _ en, of 4095 5] obtain co' rb s where
    "callbacks 4096 (ic_complete 100) (IC_RECV_HEADER, 5, ?co) (rb_new 4096 4) [] [[[0, 0]], [[0], [2, 16], [9]]]
      = Inr ((IC_RECV_HEADER, 5, co'), rb, s)"
    "\<forall>h s'. stream_of co' h = Some s' \<longrightarrow> (\<exists>s i. stream_of ?co h = Some s \<and> interest_of ?co h = Some i \<and>
      s' = s @ recs_bytes i 5 [[16, 9]])"
    by (simp del: callbacks.simps) blast
  with st rb show ?thesis by fastforce
qed

text \<open>
  For an arbitrary byte stream, well formed or not, the result of the input handler
  depends only on the bytes, not on how the kernel and the event loop deliver them.
\<close>

theorem input_schedule_independent:
  assumes "\<forall>cs\<in>set evs. \<forall>c\<in>set cs. c \<noteq> []" and "\<forall>cs\<in>set evs'. \<forall>c\<in>set cs. c \<noteq> []"
    and "evs \<noteq> []" and "evs' \<noteq> []" and "concat (concat evs) = concat (concat evs')"
  shows "seen (callbacks (Suc p) (ic_complete m) st rb [] evs) = seen (callbacks (Suc p) (ic_complete m) st rb [] evs')"
  by (rule ic.schedule_independent [OF assms])

theorem input_schedule_independent_witness:
  "seen (callbacks 4096 (ic_complete 100) (IC_RECV_HEADER, 5, empty_collector) (rb_new 4096 4) [] [[[0, 0]], [[0], [2, 16]]]) =
   seen (callbacks 4096 (ic_complete 100) (IC_RECV_HEADER, 5, empty_collector) (rb_new 4096 4) [] [[[0, 0, 0, 2, 16]]])"
  using input_schedule_independent [of "[[[0, 0]], [[0], [2, 16]]]" "[[[0, 0, 0, 2, 16]]]" 4095] by simp

text \<open>
  No byte stream makes the input handler raise an exception, fail an assertion or
  touch memory outside its buffers, and the collector's invariant survives.
\<close>

theorem input_never_fails:
  assumes "co_ok m co"
  shows "\<exists>state co' rb s. callbacks (Suc p) (ic_complete m) (IC_RECV_HEADER, ident, co) (rb_new (Suc p) 4) [] evs
      = Inr ((state, ident, co'), rb, s) \<and> co_ok m co' \<and> (state = IC_RECV_HEADER \<longrightarrow> rb_cursor rb + rb_to_read rb = 4)"
proof -
  have "ic.ready m ident (IC_RECV_HEADER, ident, co) 0 4 (rb_buffer (rb_new (Suc p) 4))"
    using assms rb_new_allocated [of "Suc p" 4] by (simp add: ic.ready_def)
  with ic.callbacks_total [of m ident "(IC_RECV_HEADER, ident, co)" "rb_new (Suc p) 4" p "[]" evs]
  obtain st' rb' s' where C: "callbacks (Suc p) (ic_complete m) (IC_RECV_HEADER, ident, co) (rb_new (Suc p) 4) [] evs = Inr (st', rb', s')"
    "ic.ready m ident st' (rb_cursor rb') (rb_to_read rb') (rb_buffer rb')" by auto
  then show ?thesis by (cases st') (auto simp: ic.ready_def)
qed

theorem input_never_fails_witness:
  "\<exists>state co' rb s. callbacks 4096 (ic_complete 100) (IC_RECV_HEADER, 5, empty_collector) (rb_new 4096 4) []
      [[[255, 255, 255, 255, 1, 2, 3]], [[4, 5]]] = Inr ((state, 5, co'), rb, s) \<and> co_ok 100 co'"
  using input_never_fails [OF empty_collector_ok, of 4095 100 5 "[[[255, 255, 255, 255, 1, 2, 3]], [[4, 5]]]"] by auto

text \<open>
  A record of length zero ends the connection silently. The handler announces an
  empty frame, is never hungry again, and nothing that the producer sends afterwards is read:
  the bytes stay in the kernel and the collector does not change.
\<close>

theorem input_zero_length_wedges:
  assumes "\<forall>cs\<in>set evs. \<forall>c\<in>set cs. c \<noteq> []" and "evs \<noteq> []" and "concat (concat evs) = be32 0 @ rest"
  shows "\<exists>rb s. callbacks (Suc p) (ic_complete m) (IC_RECV_HEADER, ident, co) (rb_new (Suc p) 4) [] evs
      = Inr ((IC_RECV_LOG, ident, co), rb, s) \<and> rb_to_read rb = 0 \<and> rb_pending rb @ avail s = rest"
proof -
  have al: "0 < vb_allocated (rb_buffer (rb_new (Suc p) 4))" by (rule rb_new_allocated) simp
  obtain b where "stream_run (Suc p) (ic_complete m) (IC_RECV_HEADER, ident, co) 0 4 (rb_buffer (rb_new (Suc p) 4)) (be32 0 @ rest) =
      Inr ((IC_RECV_LOG, ident, co), 0, 0, b, rest)"
    by (rule ic_records.empty_record [OF zero_less_Suc al, where m = m and st = "(ident, co)" and rest = rest]) simp
  then have "seen (callbacks (Suc p) (ic_complete m) (IC_RECV_HEADER, ident, co) (rb_new (Suc p) 4) [] evs) = Inr ((IC_RECV_LOG, ident, co), 0, 0, b, rest)"
    using callbacks_seen [OF assms(1,2), of "Suc p" "ic_complete m" "(IC_RECV_HEADER, ident, co)" 4] assms(3) by simp
  from seen_InrD [OF this] show ?thesis by auto
qed

theorem input_zero_length_wedges_witness:
  "\<exists>rb s. callbacks 4096 (ic_complete 100) (IC_RECV_HEADER, 5, empty_collector) (rb_new 4096 4) []
      [[[0, 0, 0, 0]], [[0, 0, 0, 1, 16]]] = Inr ((IC_RECV_LOG, 5, empty_collector), rb, s) \<and>
    rb_pending rb @ avail s = [0, 0, 0, 1, 16]"
proof -
  have e: "concat (concat [[[0, 0, 0, 0]], [[0, 0, 0, 1, 16]]]) = be32 0 @ [0, 0, 0, 1, 16 :: byte]" by code_simp
  from input_zero_length_wedges [OF _ _ e, of 4095 100 5 empty_collector] show ?thesis by auto
qed

text \<open>
  Property C33: connection identifiers are unique, and the constructor's wait for a free one ends
  as soon as the clock shows a value that no connection has.
\<close>

theorem connection_ids_unique:
  assumes "\<not> set clock \<subseteq> set taken"
  shows "\<exists>h. ic_new ps clock taken = Some (h, ic_id h # taken) \<and> ic_id h \<notin> set taken"
  using pick_id_total [OF assms] pick_id_fresh [of clock taken]
  by (cases "pick_id clock taken") (auto simp: ic_new_def)

theorem connection_ids_unique_witness:
  "\<exists>h. ic_new 4096 [3, 3, 4] [3] = Some (h, [ic_id h, 3]) \<and> ic_id h \<noteq> 3"
  using connection_ids_unique [of "[3, 3, 4]" "[3]" 4096] by auto

end
