(* ===== verification/Bcwatch.thy ===== *)
theory Bcwatch
  imports Client_Lib Input_Cxn Logger
begin

text \<open>
  The reader of the log server's channel of connection events that the clients share (\<^verbatim>\<open>clients/bcwatch.cpp\<close>,
  \<^verbatim>\<open>clients/bcwatch.hpp\<close>). A record is a \<^verbatim>\<open>struct bitcoin_log_format\<close> of 57 bytes and a text: the source at
  offset 0, the type at 4, the time at 5, the connection at 13, the kind of event at 17, two
  \<^verbatim>\<open>sockaddr_in\<close> at 21 and 37, and the length of the text at 53. The functions that a client registers are
  parameters; they change a state of the client.
\<close>

section \<open>Messages\<close>

record bc_channel_msg =
  bm_source_id :: u32
  bm_type :: u8
  bm_timestamp :: u64
  bm_handle_id :: u32
  bm_update_type :: u32
  bm_remote_addr :: "byte list"
  bm_local_addr :: "byte list"
  bm_text_len :: u32
  bm_text :: "byte list"

text \<open>\<^verbatim>\<open>buf2msg\<close> copies the first \<open>cursor\<close> bytes of the read buffer; the fields are those of the copy.\<close>

definition buf2msg :: "vbuf \<Rightarrow> nat \<Rightarrow> bc_channel_msg res" where
  "buf2msg buf cursor =
     bindR (vb_const_ptr buf) (\<lambda>m.
     bindR (rd m 0 cursor) (\<lambda>msg.
     bindR (rd msg 4 1) (\<lambda>ty.
     bindR (assertR (ty ! 0 = BITCOIN)) (\<lambda>_.
     bindR (rd msg 0 57) (\<lambda>_.
     let text_len = ntoh32 (get32 (field 53 4 msg)) in
     bindR (assertR (57 + unat text_len = cursor)) (\<lambda>_.
     Inr \<lparr>bm_source_id = ntoh32 (get32 (field 0 4 msg)), bm_type = ty ! 0, bm_timestamp = ntoh64 (get64 (field 5 8 msg)),
          bm_handle_id = ntoh32 (get32 (field 13 4 msg)), bm_update_type = ntoh32 (get32 (field 17 4 msg)),
          bm_remote_addr = field 21 16 msg, bm_local_addr = field 37 16 msg, bm_text_len = text_len, bm_text = drop 57 msg\<rparr>))))))"

section \<open>The event handler\<close>

type_synonym 's on_event = "bc_channel_msg \<Rightarrow> 's \<Rightarrow> 's res"

text \<open>The state of the loop: \<^verbatim>\<open>reading_len\<close> and the state of the client.\<close>

definition bw_deliver :: "'s on_event \<Rightarrow> 's on_event \<Rightarrow> bc_channel_msg \<Rightarrow> 's \<Rightarrow> 's res" where
  "bw_deliver on_connect on_disconnect msg st =
     (if bm_update_type msg AND (CONNECT_SUCCESS OR ACCEPT_SUCCESS) \<noteq> 0 then on_connect msg st else on_disconnect msg st)"

definition bw_complete :: "'s on_event \<Rightarrow> 's on_event \<Rightarrow> (bool \<times> 's) complete" where
  "bw_complete on_connect on_disconnect st cursor buf =
     (case st of (reading_len, client) \<Rightarrow>
        if reading_len then
          bindR (vb_const_ptr buf) (\<lambda>bytes.
          bindR (rd bytes 0 4) (\<lambda>netlen.
          Inr ((False, client), Restart (unat (ntoh32 (get32 netlen))))))
        else
          bindR (buf2msg buf cursor) (\<lambda>msg.
          bindR (bw_deliver on_connect on_disconnect msg client) (\<lambda>client'.
          Inr ((True, client'), Restart 4))))"

record ev_handler =
  bw_read :: rbuf
  bw_reading_len :: bool
  bw_open :: bool

definition bw_new :: "nat \<Rightarrow> ev_handler" where
  "bw_new ps = \<lparr>bw_read = rb_new ps 4, bw_reading_len = True, bw_open = True\<rparr>"

definition bw_suicide :: "('s \<Rightarrow> 's) \<Rightarrow> ev_handler \<Rightarrow> 's \<Rightarrow> ev_handler \<times> 's" where
  "bw_suicide on_fd_loss h client = (h\<lparr>bw_open := False\<rparr>, on_fd_loss client)"

text \<open>\<open>log\<close> stands for the calls of \<^verbatim>\<open>g_log<ERROR>\<close>, with the text of the error when there is one.\<close>

definition bw_io_cb :: "nat \<Rightarrow> 's on_event \<Rightarrow> 's on_event \<Rightarrow> ('s \<Rightarrow> 's) \<Rightarrow> (errno option \<Rightarrow> 's \<Rightarrow> 's) \<Rightarrow> u32 \<Rightarrow> ev_handler \<Rightarrow> sock_in \<Rightarrow> 's
    \<Rightarrow> (ev_handler \<times> sock_in \<times> 's) res" where
  "bw_io_cb ps on_connect on_disconnect on_fd_loss log revents h s client =
     (if revents AND EV_READ \<noteq> 0 then
        bindR (read_loop ps (bw_complete on_connect on_disconnect) (bw_reading_len h, client) (bw_read h) s)
          (\<lambda>((reading_len, client1), rb, s', r).
        let h1 = h\<lparr>bw_read := rb, bw_reading_len := reading_len\<rparr>;
            (h2, client2) =
              (case r of
                 Some (IErr e) \<Rightarrow> if ct_fatal (IErr e) then bw_suicide on_fd_loss h1 (log (Some e) client1) else (h1, client1)
               | Some (IOk 0) \<Rightarrow> bw_suicide on_fd_loss h1 (log None client1)
               | _ \<Rightarrow> (h1, client1)) in
        Inr (h2, s', client2))
      else Inr (h, s, client))"

section \<open>The blocking reader\<close>

text \<open>\<^verbatim>\<open>bcwatch::loop_once\<close>: one length and one record from a blocking socket.\<close>

function bw_loop_once :: "nat \<Rightarrow> 's on_event \<Rightarrow> 's on_event \<Rightarrow> bool \<Rightarrow> 's \<Rightarrow> rbuf \<Rightarrow> sock_in \<Rightarrow> ('s \<times> rbuf \<times> sock_in) res" where
  "bw_loop_once ps on_connect on_disconnect reading_len client rb s =
     bindR (rb_do_read ps rb s) (\<lambda>(res, rb1, s1).
     if \<not> positive (fst res) then Inl Runtime_Error
     else if \<not> rb_hungry rb1 then
       if reading_len then
         bindR (vb_const_ptr (rb_extract_buffer rb1)) (\<lambda>bytes.
         bindR (rd bytes 0 4) (\<lambda>netlen.
         bindR (apply_cmd (Restart (unat (ntoh32 (get32 netlen)))) rb1) (\<lambda>rb2.
         bw_loop_once ps on_connect on_disconnect False client rb2 s1)))
       else
         bindR (buf2msg (rb_extract_buffer rb1) (rb_cursor rb1)) (\<lambda>msg.
         bindR (bw_deliver on_connect on_disconnect msg client) (\<lambda>client'.
         bindR (apply_cmd (Restart 4) rb1) (\<lambda>rb2.
         Inr (client', rb2, s1))))
     else bw_loop_once ps on_connect on_disconnect reading_len client rb1 s1)"
  by pat_completeness auto
termination
  by (relation "measure (\<lambda>(_, _, _, _, _, rb, s). load rb s)")
    (auto dest!: apply_cmd_load simp del: apply_cmd.simps intro: rb_do_read_consumes(2) dest: rb_do_read_consumes(2))

section \<open>The handler as a reader of records\<close>

interpretation bw_records: record_reader "bw_complete oc od" "Pair True" "Pair False"
  "\<lambda>n b st. bindR (buf2msg b n) (\<lambda>msg. bw_deliver oc od msg st)" for oc od
  by unfold_locales (auto simp: bw_complete_def bindR_assoc vb_const_ptr_def rd_def vb_allocated_def)

text \<open>The record of a message, as the structure and its text lie in memory.\<close>

definition bc_record :: "bc_channel_msg \<Rightarrow> byte list" where
  "bc_record m = be32 (bm_source_id m) @ [BITCOIN] @ be64 (bm_timestamp m) @ be32 (bm_handle_id m) @ be32 (bm_update_type m) @
     bm_remote_addr m @ bm_local_addr m @ be32 (of_nat (length (bm_text m))) @ bm_text m"

definition bc_record_ok :: "bc_channel_msg \<Rightarrow> bool" where
  "bc_record_ok m \<longleftrightarrow> bm_type m = BITCOIN \<and> length (bm_remote_addr m) = 16 \<and> length (bm_local_addr m) = 16 \<and>
     bm_text_len m = of_nat (length (bm_text m)) \<and> 57 + length (bm_text m) < 2 ^ 32"

lemma bc_record_not_Nil [simp]: "bc_record m \<noteq> []"
  by (simp add: bc_record_def)

lemma bc_record_length: "bc_record_ok m \<Longrightarrow> length (bc_record m) = 57 + length (bm_text m)"
  by (simp add: bc_record_def bc_record_ok_def)

lemma buf2msg_take: "0 < n \<Longrightarrow> n \<le> vb_allocated b \<Longrightarrow> buf2msg b n = buf2msg (VAlloc (take n (vb_bytes b))) n"
  by (auto simp: buf2msg_def vb_const_ptr_def rd_def vb_allocated_def Let_def)

lemma ntoh64_get64: "length bs = 8 \<Longrightarrow> ntoh64 (get64 bs) = getb64 bs"
  unfolding ntoh64_def by (simp add: le64_get64) (simp add: get64_def getb64_def dec_be_def)

lemma buf2msg_record:
  assumes "bc_record_ok m"
  shows "buf2msg (VAlloc (bc_record m)) (length (bc_record m)) = Inr m"
proof -
  let ?r = "bc_record m"
  have l: "length ?r = 57 + length (bm_text m)" "length (bm_text m) < 2 ^ 32" using bc_record_length [OF assms] assms by (simp_all add: bc_record_ok_def)
  have a: "length (bm_remote_addr m) = 16" "length (bm_local_addr m) = 16" "bm_type m = BITCOIN" "bm_text_len m = of_nat (length (bm_text m))"
    using assms by (simp_all add: bc_record_ok_def)
  have f: "take 1 (drop 4 ?r) = [BITCOIN]" "field 53 4 ?r = be32 (of_nat (length (bm_text m)))" "field 0 4 ?r = be32 (bm_source_id m)"
    "field 5 8 ?r = be64 (bm_timestamp m)" "field 13 4 ?r = be32 (bm_handle_id m)" "field 17 4 ?r = be32 (bm_update_type m)"
    "field 21 16 ?r = bm_remote_addr m" "field 37 16 ?r = bm_local_addr m" "drop 57 ?r = bm_text m"
    using a(1,2) by (simp_all add: bc_record_def field_def)
  show ?thesis
    using l f a by (cases m) (simp add: buf2msg_def vb_const_ptr_def rd_def ntoh32_get32 ntoh64_get64 Let_def unat_of_nat)
qed

interpretation bw_consumer: record_consumer "bw_complete oc od" "Pair True" "Pair False"
  "\<lambda>n b st. bindR (buf2msg b n) (\<lambda>msg. bw_deliver oc od msg st)" "\<lambda>r. r \<noteq> []"
  "\<lambda>r st. bindR (buf2msg (VAlloc r) (length r)) (\<lambda>msg. bw_deliver oc od msg st)" for oc od
proof
  fix n and b :: vbuf and st
  assume a: "n \<le> vb_allocated b" "take n (vb_bytes b) \<noteq> []"
  then have "0 < n" "length (take n (vb_bytes b)) = n" by (auto simp: vb_allocated_def intro: gr0I)
  with buf2msg_take [of n b] a(1) show "bindR (buf2msg b n) (\<lambda>msg. bw_deliver oc od msg st) =
      bindR (buf2msg (VAlloc (take n (vb_bytes b))) (length (take n (vb_bytes b)))) (\<lambda>msg. bw_deliver oc od msg st)" by simp
qed

lemma foldR_records:
  "\<forall>m\<in>set ms. bc_record_ok m \<Longrightarrow>
   foldR (\<lambda>r st. bindR (buf2msg (VAlloc r) (length r)) (\<lambda>msg. bw_deliver oc od msg st)) (map bc_record ms) st = foldR (bw_deliver oc od) ms st"
proof (induction ms arbitrary: st)
  case (Cons m ms)
  have "foldR (\<lambda>r st. bindR (buf2msg (VAlloc r) (length r)) (\<lambda>msg. bw_deliver oc od msg st)) (map bc_record ms) = foldR (bw_deliver oc od) ms"
    by (rule ext) (rule Cons.IH, use Cons.prems in simp)
  with buf2msg_record [of m] Cons.prems show ?case by simp
qed simp

lemma events_delivered:
  assumes "0 < ps" and "\<forall>m\<in>set ms. bc_record_ok m" and "foldR (bw_deliver oc od) ms st = Inr st'"
    and "\<forall>cs\<in>set evs. \<forall>c\<in>set cs. c \<noteq> []" and "evs \<noteq> []" and "concat (concat evs) = concat (map (\<lambda>m. enc_frame (bc_record m)) ms)"
  shows "\<exists>rb s. callbacks ps (bw_complete oc od) (True, st) (rb_new ps 4) [] evs = Inr ((True, st'), rb, s) \<and> rb_cursor rb = 0 \<and> rb_to_read rb = 4"
proof (rule bw_consumer.all_records_seen [OF assms(1,4,5), of "map bc_record ms"])
  show "concat (concat evs) = concat (map enc_frame (map bc_record ms))" using assms(6) by (simp add: o_def)
  show "\<forall>r\<in>set (map bc_record ms). r \<noteq> [] \<and> length r < 2 ^ 32 \<and> r \<noteq> []"
    using assms(2) bc_record_length by (auto simp: bc_record_ok_def)
  show "foldR (\<lambda>r st. bindR (buf2msg (VAlloc r) (length r)) (\<lambda>msg. bw_deliver oc od msg st)) (map bc_record ms) st = Inr st'"
    by (rule trans [OF foldR_records [OF assms(2)] assms(3)])
qed

section \<open>Properties\<close>

lemma recs_bytes_events:
  "\<forall>m\<in>set ms. bc_record_ok m \<and> bm_source_id m = ident \<Longrightarrow>
   recs_bytes BITCOIN ident (map (\<lambda>m. drop 4 (bc_record m)) ms) = concat (map (\<lambda>m. enc_frame (bc_record m)) ms)"
proof (induction ms)
  case Nil
  show ?case by (simp add: recs_bytes_def)
next
  case (Cons m ms)
  have r: "drop 4 (bc_record m) = BITCOIN # drop 5 (bc_record m)" "bc_record m = be32 ident @ drop 4 (bc_record m)"
    using Cons.prems by (simp_all add: bc_record_def)
  have "enc_frame (bc_record m) = be32 (of_nat (length (drop 4 (bc_record m)) + 4)) @ be32 ident @ drop 4 (bc_record m)"
    using Cons.prems bc_record_length [of m] r(2) by (simp add: enc_frame_def)
  moreover have "hd (drop 4 (bc_record m)) AND BITCOIN \<noteq> 0" unfolding r(1) by (simp add: BITCOIN_def)
  ultimately show ?case using Cons by (simp add: recs_bytes_def)
qed


definition demo_event :: bc_channel_msg where
  "demo_event = \<lparr>bm_source_id = 5, bm_type = BITCOIN, bm_timestamp = 0, bm_handle_id = 3, bm_update_type = 1, bm_remote_addr = zeros 16,
     bm_local_addr = zeros 16, bm_text_len = 0, bm_text = []\<rparr>"

lemma demo_event_ok: "bc_record_ok demo_event" "bm_source_id demo_event = 5" "bm_handle_id demo_event = 3"
  by (simp_all add: demo_event_def bc_record_ok_def)


text \<open>
  Property C19: the records that the connector itself writes are not of this form. It logs two
  \<^verbatim>\<open>sockaddr_storage\<close> of 128 bytes each, the watcher expects two \<^verbatim>\<open>sockaddr_in\<close> of 16: the length that it takes
  for that of the text lies in the padding of the first address, and the first event of any
  connection fails the assertion of \<^verbatim>\<open>buf2msg\<close>, which ends the client.
\<close>

theorem connector_records_rejected:
  assumes "0 < ps" and "length remote = 128" and "length local_addr = 128" and "field 32 4 remote = zeros 4" and "281 + length txt1 < 2 ^ 32"
    and "\<forall>cs\<in>set evs. \<forall>c\<in>set cs. c \<noteq> []" and "evs \<noteq> []"
    and "concat (concat evs) = enc_frame (be32 src @ log_payload now (LBitcoin upd hid remote local_addr txt1)) @ rest"
  shows "callbacks ps (bw_complete oc od) (True, st) (rb_new ps 4) [] evs = Inl Assert_Fail"
proof -
  let ?r = "be32 src @ log_payload now (LBitcoin upd hid remote local_addr txt1)"
  have l: "length ?r = 281 + length txt1" "?r \<noteq> []" "length ?r < 2 ^ 32" using assms(2,3,5) by simp_all
  obtain b where B: "length ?r \<le> vb_allocated b" "take (length ?r) (vb_bytes b) = ?r"
    "stream_run ps (bw_complete oc od) (True, st) 0 4 (rb_buffer (rb_new ps 4)) (enc_frame ?r @ rest) =
      bindR (bindR (buf2msg b (length ?r)) (\<lambda>msg. bw_deliver oc od msg st)) (\<lambda>st'. stream_run ps (bw_complete oc od) (True, st') 0 4 b rest)"
    by (rule bw_records.one_record [OF assms(1) rb_new_allocated [OF assms(1)] l(2,3), where oc = oc and od = od and st = st and rest = rest])
  have f: "take 1 (drop 4 ?r) = [BITCOIN]" "field 53 4 ?r = zeros 4"
    using assms(2,4) by (simp_all add: field_def)
  have z: "ntoh32 (get32 (zeros 4)) = 0" by (simp add: ntoh32_get32 getb32_def dec_be_def numeral_eq_Suc)
  have "buf2msg b (length ?r) = buf2msg (VAlloc ?r) (length ?r)" using buf2msg_take [of "length ?r" b] B(1,2) l(1) by simp
  also have "\<dots> = Inl Assert_Fail"
    using l(1,2) f z by (simp add: buf2msg_def vb_const_ptr_def rd_def assertR_def Let_def del: log_payload.simps)
  finally have "stream_run ps (bw_complete oc od) (True, st) 0 4 (rb_buffer (rb_new ps 4)) (concat (concat evs)) = Inl Assert_Fail"
    using B(3) assms(8) by simp
  then have "seen (callbacks ps (bw_complete oc od) (True, st) (rb_new ps 4) [] evs) = Inl Assert_Fail"
    using callbacks_seen [OF assms(6,7,1), of "bw_complete oc od" "(True, st)" 4] by simp
  then show ?thesis by (cases "callbacks ps (bw_complete oc od) (True, st) (rb_new ps 4) [] evs" rule: seen.cases) simp_all
qed

theorem connector_records_rejected_witness:
  "callbacks 4096 (bw_complete (\<lambda>msg st. Inr st) (\<lambda>msg st. Inr st)) (True, ()) (rb_new 4096 4) []
     [[enc_frame (be32 5 @ log_payload 0 (LBitcoin CONNECT_SUCCESS 3 ([2, 0, 0x20, 0x8d, 8, 8, 8, 8] @ zeros 120) (zeros 128) []))]] = Inl Assert_Fail"
proof -
  let ?r = "[2, 0, 0x20, 0x8d, 8, 8, 8, 8] @ zeros 120 :: byte list"
  let ?f = "enc_frame (be32 5 @ log_payload 0 (LBitcoin CONNECT_SUCCESS 3 ?r (zeros 128) []))"
  have "?f \<noteq> []" by (metis length_enc_frame add_is_0 list.size(3) zero_neq_numeral)
  then have e: "\<forall>cs\<in>set [[?f]]. \<forall>c\<in>set cs. c \<noteq> []" "concat (concat [[?f]]) = ?f @ []" by (simp_all del: log_payload.simps)
  have r: "length ?r = 128" "field 32 4 ?r = zeros 4" by (simp_all add: field_def take_replicate drop_replicate)
  have l: "length (zeros 128) = 128" "281 + length ([] :: byte list) < 2 ^ 32" "0 < (4096 :: nat)" by simp_all
  show ?thesis by (rule connector_records_rejected [OF l(3) r(1) l(1) r(2) l(2) e(1) not_Cons_self2 e(2)])
qed

end
