(* ===== verification/Getaddr.thy ===== *)
theory Getaddr
  imports Complex_Main Bcwatch
begin

text \<open>
  The crawler (\<^verbatim>\<open>clients/getaddr.cpp\<close>): it registers a \<^verbatim>\<open>getaddr\<close> message with the connector, asks every
  connection for addresses a limited number of times per round, reads the \<^verbatim>\<open>addr\<close> messages from the log
  server and has the connector connect to what it has not seen, with a backoff per address.

  The time of the event loop, \<^verbatim>\<open>ev::now\<close>, is an argument of the callbacks; a timer is the time at which
  it fires, or \<open>None\<close> when it is not active, and setting and starting it replaces that time. The random
  numbers are parameters: the \<open>n\<close>-th draw from \<open>0, ..., b\<close> is \<open>ga_uid n b\<close>, the \<open>n\<close>-th sample \<open>ga_sample n\<close>.
\<close>

section \<open>State\<close>

definition GETADDR_LIMIT :: u32 where "GETADDR_LIMIT = 24"

record ga_env =
  ga_env :: env
  ga_uid :: "nat \<Rightarrow> nat \<Rightarrow> nat"
  ga_sample :: "nat \<Rightarrow> bool"

record hid_handler =
  hh_hid :: u32
  hh_remote :: sockaddr_in
  hh_local :: sockaddr_in
  hh_timer :: "rat option"
  hh_last_enqueue :: rat
  hh_getaddr_seq :: u32
  hh_getaddr_cnt :: u32

datatype cxn_state = DISCONNECTED | CONNECTING | CONNECTED

record cxn_handler =
  cx_state :: cxn_state
  cx_pending_time :: rat
  cx_consecutive_fails :: nat
  cx_sers :: "vbuf \<times> nat"
  cx_timer :: "rat option"

record gworld =
  gw_current_getaddr :: u32
  gw_getaddr_start :: rat
  gw_control :: sock_out
  gw_pending_getaddrs :: "u32 list"
  gw_msg_id :: u32
  gw_known_addrs :: "(sockaddr_in \<times> u32) list"
  gw_known_hids :: "(u32 \<times> hid_handler) list"
  gw_cxns :: "(sockaddr_in \<times> cxn_handler) list"
  gw_uids :: nat
  gw_samples :: nat
  gw_log :: "log_call list"

definition ga_log :: "u8 \<Rightarrow> byte list list \<Rightarrow> gworld \<Rightarrow> gworld" where
  "ga_log ty args w = w\<lparr>gw_log := gw_log w @ [LText ty args]\<rparr>"

text \<open>The bytes of a \<^verbatim>\<open>sockaddr_in\<close> that was cleared and then filled in.\<close>

definition sockaddr_bytes :: "sockaddr_in \<Rightarrow> byte list" where
  "sockaddr_bytes a = le16 AF_INET @ le16 (sin_sport a) @ le32 (sin_s_addr a) @ zeros 8"

definition do_sample :: "ga_env \<Rightarrow> gworld \<Rightarrow> bool \<times> gworld" where
  "do_sample ge w =
     (if length (gw_known_addrs w) < 1000 then (True, w)
      else (ga_sample ge (gw_samples w), w\<lparr>gw_samples := Suc (gw_samples w)\<rparr>))"

section \<open>Messages to the connector\<close>

definition write_message :: "vbuf \<times> nat \<Rightarrow> gworld \<Rightarrow> gworld res" where
  "write_message p w =
     bindR (vb_const_ptr (fst p)) (\<lambda>m.
     bindR (rd m 0 (snd p)) (\<lambda>bs.
     bindR (do_write bs (gw_control w)) (\<lambda>out.
     Inr (w\<lparr>gw_control := out\<rparr>))))"

text \<open>A failed read of the answer aborts the program.\<close>

definition register_getaddr :: "ga_env \<Rightarrow> sock_in \<Rightarrow> gworld \<Rightarrow> (gworld \<times> sock_in) res" where
  "register_getaddr ge inp w =
     (let getaddr = message_bytes (ga_env ge) ''getaddr'' [] in
      bindR (bm_new (e_ps (ga_env ge)) getaddr (24 + msg_length getaddr)) (\<lambda>msg.
      bindR (em_serialize msg) (\<lambda>p.
      bindR (write_message p w) (\<lambda>w1.
      case recv_waitall 4 inp of ((r, bs), inp') \<Rightarrow>
        if r \<noteq> IOk 4 then Inl Assert_Fail
        else Inr (w1\<lparr>gw_msg_id := ntoh32 (get32 bs)\<rparr>, inp')))))"

definition send_getaddrs :: "ga_env \<Rightarrow> u32 list \<Rightarrow> gworld \<Rightarrow> gworld res" where
  "send_getaddrs ge handle_ids w =
     (if handle_ids = [] then Inr w
      else
        bindR (cmd_new (e_ps (ga_env ge)) COMMAND_SEND_MSG (gw_msg_id w) handle_ids (length handle_ids)) (\<lambda>msg.
        bindR (em_serialize msg) (\<lambda>p. write_message p w)))"

definition pusher_timer_cb :: "ga_env \<Rightarrow> gworld \<Rightarrow> gworld res" where
  "pusher_timer_cb ge w = bindR (send_getaddrs ge (gw_pending_getaddrs w) w) (\<lambda>w1. Inr (w1\<lparr>gw_pending_getaddrs := []\<rparr>))"

section \<open>Connections that are asked for addresses\<close>

definition hid_enqueue :: "rat \<Rightarrow> hid_handler \<Rightarrow> hid_handler" where
  "hid_enqueue now h =
     (let h1 = h\<lparr>hh_last_enqueue := now\<rparr> in
      if hh_timer h1 = None then h1\<lparr>hh_timer := Some (now + 10)\<rparr> else h1)"

definition hid_new :: "rat \<Rightarrow> u32 \<Rightarrow> sockaddr_in \<Rightarrow> sockaddr_in \<Rightarrow> gworld \<Rightarrow> hid_handler" where
  "hid_new now hid remote local_addr w =
     (let h = \<lparr>hh_hid = hid, hh_remote = remote, hh_local = local_addr, hh_timer = None, hh_last_enqueue = 0,
               hh_getaddr_seq = gw_current_getaddr w, hh_getaddr_cnt = 0\<rparr> in
      if now - gw_getaddr_start w < 600 then hid_enqueue now h else h)"

text \<open>The callback of a timer that has fired, and is not active any more.\<close>

definition hid_timer_cb :: "rat \<Rightarrow> hid_handler \<Rightarrow> gworld \<Rightarrow> hid_handler \<times> gworld" where
  "hid_timer_cb now h w =
     (let after = 10 + hh_last_enqueue h - now in
      if after \<le> 0 then
        if hh_getaddr_seq h = gw_current_getaddr w \<and> hh_getaddr_cnt h < GETADDR_LIMIT
        then (h\<lparr>hh_getaddr_cnt := hh_getaddr_cnt h + 1\<rparr>, w\<lparr>gw_pending_getaddrs := gw_pending_getaddrs w @ [hh_hid h]\<rparr>)
        else (h, w)
      else (h\<lparr>hh_timer := Some (now + after)\<rparr>, w))"

definition hid_set_sequence :: "u32 \<Rightarrow> hid_handler \<Rightarrow> hid_handler" where
  "hid_set_sequence s h = (if s \<noteq> hh_getaddr_seq h then h\<lparr>hh_getaddr_seq := s, hh_getaddr_cnt := 0\<rparr> else h)"

section \<open>Connection attempts\<close>

definition set_reconnect_timer :: "ga_env \<Rightarrow> rat \<Rightarrow> cxn_handler \<Rightarrow> gworld \<Rightarrow> cxn_handler \<times> gworld" where
  "set_reconnect_timer ge now h w =
     (let k = ga_uid ge (gw_uids w) (cx_consecutive_fails h);
          when = 5 * (2 ^ k - 1) in
      (h\<lparr>cx_timer := Some (now + when)\<rparr>, w\<lparr>gw_uids := Suc (gw_uids w)\<rparr>))"

definition cxn_timer_cb :: "ga_env \<Rightarrow> rat \<Rightarrow> cxn_handler \<Rightarrow> gworld \<Rightarrow> (cxn_handler \<times> gworld) res" where
  "cxn_timer_cb ge now h w =
     (let h1 = (if cx_pending_time h > 0 then
                  let after = (cx_pending_time h + 60 * 15) - now in
                  if after < 0 then
                    let h' = h\<lparr>cx_pending_time := 0\<rparr> in
                    if cx_state h' = CONNECTING then h'\<lparr>cx_state := DISCONNECTED\<rparr> else h'
                  else h\<lparr>cx_timer := Some (now + after)\<rparr>
                else h) in
      if cx_pending_time h1 = 0 then
        case cx_state h1 of
          CONNECTING \<Rightarrow> bindR (assertR (cx_timer h1 \<noteq> None)) (\<lambda>_. Inr (h1, w))
        | CONNECTED \<Rightarrow>
            if cx_consecutive_fails h1 \<noteq> 0
            then Inr (h1\<lparr>cx_consecutive_fails := cx_consecutive_fails h1 - 1, cx_timer := Some (now + 10)\<rparr>, w)
            else Inr (h1, w)
        | DISCONNECTED \<Rightarrow>
            bindR (write_message (cx_sers h1) w) (\<lambda>w1.
            Inr (set_reconnect_timer ge now
              (h1\<lparr>cx_state := CONNECTING, cx_pending_time := now, cx_consecutive_fails := min 14 (cx_consecutive_fails h1 + 1)\<rparr>) w1))
      else Inr (h1, w))"

text \<open>The constructor calls the callback itself; the local address is all zero.\<close>

definition cxn_new :: "ga_env \<Rightarrow> rat \<Rightarrow> sockaddr_in \<Rightarrow> cxn_state \<Rightarrow> gworld \<Rightarrow> (cxn_handler \<times> gworld) res" where
  "cxn_new ge now remote s w =
     bindR (cn_new (e_ps (ga_env ge)) (sockaddr_bytes remote) (zeros 16)) (\<lambda>msg.
     bindR (em_serialize msg) (\<lambda>sers.
     cxn_timer_cb ge now
       \<lparr>cx_state = s, cx_pending_time = 0, cx_consecutive_fails = 0, cx_sers = sers, cx_timer = None\<rparr> w))"

definition cxn_set_state :: "ga_env \<Rightarrow> rat \<Rightarrow> cxn_state \<Rightarrow> cxn_handler \<Rightarrow> gworld \<Rightarrow> cxn_handler \<times> gworld" where
  "cxn_set_state ge now s h w =
     (let h1 = h\<lparr>cx_state := s\<rparr>;
          (h2, w2) = (if cx_state h1 = DISCONNECTED \<and> cx_timer h1 = None then set_reconnect_timer ge now h1 w else (h1, w)) in
      (h2\<lparr>cx_pending_time := 0\<rparr>, w2))"

section \<open>Addresses from the log\<close>

text \<open>
  The record is a \<^verbatim>\<open>struct bitcoin_msg_log_format\<close> in the memory \<open>m\<close> of the read buffer: the connection at
  offset 13, the direction at 17, the message at 18. Entry \<open>i\<close> of an \<^verbatim>\<open>addr\<close> message has 30 bytes, with the
  IPv4 address at 24 and the port at 28. A new address is stored and gets a handler.
\<close>

definition harvest_entry :: "ga_env \<Rightarrow> rat \<Rightarrow> byte list \<Rightarrow> nat \<Rightarrow> nat \<Rightarrow> gworld \<Rightarrow> gworld res" where
  "harvest_entry ge now m addrs i w =
     bindR (rd m (addrs + 30 * i + 24) 4) (\<lambda>number.
     if is_private (get32 number) then Inr w
     else case do_sample ge w of (sampled, w1) \<Rightarrow>
       if sampled then
         bindR (rd m (addrs + 30 * i + 28) 2) (\<lambda>port.
         let to_insert = \<lparr>sin_s_addr = get32 number, sin_sport = get16 port\<rparr> in
         if map_of (gw_known_addrs w1) to_insert = None then
           bindR (cxn_new ge now to_insert DISCONNECTED (w1\<lparr>gw_known_addrs := (to_insert, NOT 0) # gw_known_addrs w1\<rparr>)) (\<lambda>(handler, w2).
           Inr (if map_of (gw_cxns w2) to_insert = None then w2\<lparr>gw_cxns := (to_insert, handler) # gw_cxns w2\<rparr> else w2))
         else Inr w1)
       else Inr w1)"

fun harvest_inner :: "ga_env \<Rightarrow> rat \<Rightarrow> byte list \<Rightarrow> nat \<Rightarrow> nat \<Rightarrow> nat \<Rightarrow> gworld \<Rightarrow> gworld res" where
  "harvest_inner ge now m addrs i 0 w = Inr w"
| "harvest_inner ge now m addrs i (Suc n) w = bindR (harvest_entry ge now m addrs i w) (harvest_inner ge now m addrs (Suc i) n)"

text \<open>The loop over the entries stands inside another loop over the entries.\<close>

fun harvest_outer :: "ga_env \<Rightarrow> rat \<Rightarrow> byte list \<Rightarrow> nat \<Rightarrow> nat \<Rightarrow> nat \<Rightarrow> gworld \<Rightarrow> gworld res" where
  "harvest_outer ge now m addrs entries 0 w = Inr w"
| "harvest_outer ge now m addrs entries (Suc n) w =
     bindR (harvest_inner ge now m addrs 0 entries w) (harvest_outer ge now m addrs entries n)"

text \<open>\<^verbatim>\<open>strcmp(p, s) == 0\<close> for a string that lies at \<open>off\<close>.\<close>

fun c_streq :: "byte list \<Rightarrow> nat \<Rightarrow> byte list \<Rightarrow> bool res" where
  "c_streq m off [] = bindR (rd m off 1) (\<lambda>c. Inr (c ! 0 = 0))"
| "c_streq m off (x # xs) = bindR (rd m off 1) (\<lambda>c. if c ! 0 = x then c_streq m (Suc off) xs else Inr False)"

definition ga_record :: "ga_env \<Rightarrow> rat \<Rightarrow> byte list \<Rightarrow> gworld \<Rightarrow> gworld res" where
  "ga_record ge now m w =
     bindR (rd m 17 1) (\<lambda>is_sender.
     bindR (if is_sender ! 0 = 0 then c_streq m 22 (ascii ''addr'') else Inr False) (\<lambda>addr.
     if addr then
       bindR (rd m 13 4) (\<lambda>i.
       let handle_id = ntoh32 (get32 i);
           w1 = (case map_of (gw_known_hids w) handle_id of
                   None \<Rightarrow> ga_log ERROR [ascii ''Got address from hid '', e_dec (ga_env ge) (unat handle_id),
                            ascii '' but could not find hid handler for it''] w
                 | Some h \<Rightarrow> w\<lparr>gw_known_hids := AList.update handle_id (hid_enqueue now h) (gw_known_hids w)\<rparr>) in
       bindR (get_varint (drop 42 m)) (\<lambda>(entries, bits).
       harvest_outer ge now m (42 + unat bits) (unat entries) (unat entries) w1))
     else Inr w))"

definition ga_complete :: "ga_env \<Rightarrow> rat \<Rightarrow> (bool \<times> gworld) complete" where
  "ga_complete ge now st cursor buf =
     (case st of (reading_len, w) \<Rightarrow>
        if reading_len then
          bindR (vb_const_ptr buf) (\<lambda>bytes.
          bindR (rd bytes 0 4) (\<lambda>netlen.
          Inr ((False, w), Restart (unat (ntoh32 (get32 netlen))))))
        else
          bindR (vb_const_ptr buf) (\<lambda>m.
          bindR (ga_record ge now m w) (\<lambda>w1.
          Inr ((True, w1), Restart 4))))"

record bc_msg_handler =
  mh_read :: rbuf
  mh_reading_len :: bool

definition mh_new :: "nat \<Rightarrow> bc_msg_handler" where
  "mh_new ps = \<lparr>mh_read = rb_new ps 4, mh_reading_len = True\<rparr>"

text \<open>Here an error and the end of the stream are exceptions, which end the program.\<close>

definition mh_io_cb :: "ga_env \<Rightarrow> rat \<Rightarrow> u32 \<Rightarrow> bc_msg_handler \<Rightarrow> sock_in \<Rightarrow> gworld \<Rightarrow> (bc_msg_handler \<times> sock_in \<times> gworld) res" where
  "mh_io_cb ge now revents h s w =
     (if revents AND EV_READ \<noteq> 0 then
        bindR (read_loop (e_ps (ga_env ge)) (ga_complete ge now) (mh_reading_len h, w) (mh_read h) s) (\<lambda>((reading_len, w1), rb, s', r).
        case r of
          Some (IErr e) \<Rightarrow> if ct_fatal (IErr e) then Inl Runtime_Error else Inr (\<lparr>mh_read = rb, mh_reading_len = reading_len\<rparr>, s', w1)
        | Some (IOk 0) \<Rightarrow> Inl Runtime_Error
        | _ \<Rightarrow> Inr (\<lparr>mh_read = rb, mh_reading_len = reading_len\<rparr>, s', w1))
      else Inr (h, s, w))"

section \<open>Rounds and events\<close>

text \<open>
  \<^verbatim>\<open>clock_cb\<close> starts a round and closes all connections that were not accepted on one of the addresses
  \<open>bound\<close>; \<^verbatim>\<open>find\<close> in the set compares with \<^verbatim>\<open>sockaddr_cmp\<close>. The map of connections is ordered by key.
\<close>

definition clock_cb :: "ga_env \<Rightarrow> sockaddr_in list \<Rightarrow> rat \<Rightarrow> gworld \<Rightarrow> gworld res" where
  "clock_cb ge bound now w =
     (let w1 = ga_log CLIENT [ascii ''Initiating GETADDR probe'']
                 (w\<lparr>gw_current_getaddr := gw_current_getaddr w + 1, gw_getaddr_start := now\<rparr>);
          w2 = w1\<lparr>gw_known_hids := map (\<lambda>(i, h). (i, hid_set_sequence (gw_current_getaddr w1) h)) (gw_known_hids w1)\<rparr>;
          hids = sort (map fst (filter (\<lambda>(i, h).
                   \<not> list_ex (\<lambda>b. \<not> sockaddr_cmp (hh_local h) b \<and> \<not> sockaddr_cmp b (hh_local h)) bound) (gw_known_hids w2))) in
      if hids \<noteq> [] then
        bindR (cmd_new (e_ps (ga_env ge)) COMMAND_DISCONNECT 0 hids (length hids)) (\<lambda>msg.
        bindR (em_serialize msg) (\<lambda>p. write_message p w2))
      else Inr w2)"

text \<open>The two functions that \<^verbatim>\<open>main\<close> registers with the watcher of connection events.\<close>

definition ga_on_connect :: "ga_env \<Rightarrow> rat \<Rightarrow> u32 \<Rightarrow> sockaddr_in \<Rightarrow> sockaddr_in \<Rightarrow> gworld \<Rightarrow> gworld res" where
  "ga_on_connect ge now hid remote local_addr w =
     (let w1 = w\<lparr>gw_known_addrs := AList.update remote hid (gw_known_addrs w)\<rparr> in
      bindR (case map_of (gw_cxns w1) remote of
               None \<Rightarrow> bindR (cxn_new ge now remote CONNECTED w1) (\<lambda>(h, w'). Inr (w'\<lparr>gw_cxns := (remote, h) # gw_cxns w'\<rparr>))
             | Some c \<Rightarrow> (case cxn_set_state ge now CONNECTED c w1 of (c', w') \<Rightarrow> Inr (w'\<lparr>gw_cxns := AList.update remote c' (gw_cxns w')\<rparr>))) (\<lambda>w2.
      let w3 = (if map_of (gw_known_hids w2) hid \<noteq> None
                then ga_log DEBUG [ascii ''Received a hid more than once? '', e_dec (ga_env ge) (unat hid)]
                       (w2\<lparr>gw_known_hids := AList.delete hid (gw_known_hids w2)\<rparr>)
                else w2) in
      Inr (w3\<lparr>gw_known_hids := (hid, hid_new now hid remote local_addr w3) # gw_known_hids w3\<rparr>)))"

definition ga_on_disconnect :: "ga_env \<Rightarrow> rat \<Rightarrow> u32 \<Rightarrow> sockaddr_in \<Rightarrow> gworld \<Rightarrow> gworld res" where
  "ga_on_disconnect ge now hid remote w =
     (let w1 = w\<lparr>gw_known_addrs := AList.update remote (NOT 0) (gw_known_addrs w)\<rparr> in
      bindR (case map_of (gw_cxns w1) remote of
               None \<Rightarrow>
                 bindR (cxn_new ge now remote DISCONNECTED
                   (ga_log DEBUG [ascii ''Somehow we got a disconnect for a connection we did not know about to '',
                      e_show (ga_env ge) (sockaddr_bytes remote)] w1)) (\<lambda>(h, w').
                 Inr (w'\<lparr>gw_cxns := (remote, h) # gw_cxns w'\<rparr>))
             | Some c \<Rightarrow> (case cxn_set_state ge now DISCONNECTED c w1 of (c', w') \<Rightarrow> Inr (w'\<lparr>gw_cxns := AList.update remote c' (gw_cxns w')\<rparr>))) (\<lambda>w2.
      Inr (w2\<lparr>gw_known_hids := AList.delete hid (gw_known_hids w2)\<rparr>)))"

end
