(* ===== verification/Getaddr_Rounds.thy ===== *)
theory Getaddr_Rounds
  imports Getaddr
begin

text \<open>
  Runs of the crawler: what its messages make the connector do, and an invariant of all its handlers
  over every sequence of timers, rounds and events.
\<close>

section \<open>The message and the connector\<close>

definition can_write :: "nat \<Rightarrow> gworld \<Rightarrow> bool" where
  "can_write n w \<longleftrightarrow> blocking (so_script (gw_control w)) \<and> n \<le> room (so_script (gw_control w))"

lemma write_message_ok:
  assumes "em_holds b ty p" and "can_write (6 + length p + n) w"
  obtains out where "write_message (b, 6 + length p) w = Inr (w\<lparr>gw_control := out\<rparr>)" and "can_write n (w\<lparr>gw_control := out\<rparr>)"
    and "so_written out = so_written (gw_control w) @ ct_wire ty p"
proof -
  note H = em_holds_fields [OF assms(1)]
  have l: "length (ct_wire ty p) \<le> vb_allocated b" using assms(1) unfolding em_holds_def by (blast dest: starts_allocated(1))
  obtain out where W: "do_write (ct_wire ty p) (gw_control w) = Inr out" "blocking (so_script out)"
    "room (so_script (gw_control w)) \<le> room (so_script out) + length (ct_wire ty p)"
    using do_write_total [of "gw_control w" "ct_wire ty p"] assms(2) by (auto simp: can_write_def)
  show thesis
    by (rule that [OF _ _ do_write_written [OF W(1)]])
      (use H(1,6) l W assms(2) in \<open>simp_all add: write_message_def rd_def vb_allocated_def can_write_def\<close>)
qed

lemma getaddr_message:
  "length (message_bytes env ''getaddr'' []) = 24" "msg_length (message_bytes env ''getaddr'' []) = 0"
  using get_message_length [of "[]"] by (simp_all add: message_bytes_def get_message_size)

lemma register_getaddr_ok:
  assumes "0 < e_ps (ga_env ge)" and "can_write (30 + n) w" and "\<forall>c\<in>set cs. c \<noteq> []" and "concat cs = be32 i"
  obtains w1 inp where "register_getaddr ge (map RecvData cs) w = Inr (w1, inp)" and "can_write n w1"
    and "so_written (gw_control w1) = so_written (gw_control w) @ ct_wire BITCOIN_PACKED_MESSAGE (message_bytes (ga_env ge) ''getaddr'' [])"
    and "gw_msg_id w1 = i" and "gw_pending_getaddrs w1 = gw_pending_getaddrs w"
proof -
  let ?m = "message_bytes (ga_env ge) ''getaddr'' []"
  note m = getaddr_message [of "ga_env ge"]
  have "length ?m < 2 ^ 32" using m by simp
  then obtain b where B: "bm_new (e_ps (ga_env ge)) ?m (length ?m) = Inr b" "em_holds b BITCOIN_PACKED_MESSAGE ?m"
    using bitcoin_frames.make_holds [OF assms(1), of ?m] by auto
  have c: "can_write (6 + length ?m + n) w" using assms(2) m by simp
  obtain out where W: "write_message (b, 6 + length ?m) w = Inr (w\<lparr>gw_control := out\<rparr>)" "can_write n (w\<lparr>gw_control := out\<rparr>)"
    "so_written out = so_written (gw_control w) @ ct_wire BITCOIN_PACKED_MESSAGE ?m" by (rule write_message_ok [OF B(2) c])
  obtain cs' where R: "recv_waitall 4 (map RecvData cs) = ((IOk 4, be32 i), map RecvData cs')"
    using recv_waitall_data [OF assms(3), of "be32 i" 4 "[]"] assms(4) by auto
  have "register_getaddr ge (map RecvData cs) w = Inr (w\<lparr>gw_control := out, gw_msg_id := i\<rparr>, map RecvData cs')"
    using B(1) em_serialize_holds [OF B(2)] W(1) R m by (simp add: register_getaddr_def ntoh32_get32)
  then show thesis by (rule that) (use W in \<open>simp_all add: can_write_def\<close>)
qed

lemma command_written:
  assumes "0 < e_ps (ga_env ge)" and "can_write (15 + 4 * length ts + n) w" and "9 + 4 * length ts < 2 ^ 32"
  obtains b out where "cmd_new (e_ps (ga_env ge)) c i ts (length ts) = Inr b" and "em_serialize b = Inr (b, 15 + 4 * length ts)"
    and "write_message (b, 15 + 4 * length ts) w = Inr (w\<lparr>gw_control := out\<rparr>)" and "can_write n (w\<lparr>gw_control := out\<rparr>)"
    and "so_written out = so_written (gw_control w) @ ct_wire COMMAND (cmd_image c i ts)"
proof -
  obtain b where B: "cmd_new (e_ps (ga_env ge)) c i ts (length ts) = Inr b" "em_holds b COMMAND (cmd_image c i ts)"
    by (rule cmd_new_holds [OF assms(1,3)])
  have cw: "can_write (6 + length (cmd_image c i ts) + n) w" using assms(2) by simp
  obtain out where "write_message (b, 6 + length (cmd_image c i ts)) w = Inr (w\<lparr>gw_control := out\<rparr>)" "can_write n (w\<lparr>gw_control := out\<rparr>)"
    "so_written out = so_written (gw_control w) @ ct_wire COMMAND (cmd_image c i ts)" by (rule write_message_ok [OF B(2) cw])
  then show thesis using em_serialize_holds [OF B(2)] B(1) by (intro that [of b out]) simp_all
qed

lemma pusher_ok:
  assumes "0 < e_ps (ga_env ge)" and "can_write (15 + 4 * length (gw_pending_getaddrs w) + n) w" and "9 + 4 * length (gw_pending_getaddrs w) < 2 ^ 32"
    and "gw_pending_getaddrs w \<noteq> []"
  obtains w1 where "pusher_timer_cb ge w = Inr w1" and "can_write n w1" and "gw_pending_getaddrs w1 = []"
    and "so_written (gw_control w1) = so_written (gw_control w) @ ct_wire COMMAND (send_payload (gw_msg_id w) (gw_pending_getaddrs w))"
proof -
  let ?ts = "gw_pending_getaddrs w"
  obtain b out where C: "cmd_new (e_ps (ga_env ge)) COMMAND_SEND_MSG (gw_msg_id w) ?ts (length ?ts) = Inr b" "em_serialize b = Inr (b, 15 + 4 * length ?ts)"
    "write_message (b, 15 + 4 * length ?ts) w = Inr (w\<lparr>gw_control := out\<rparr>)" "can_write n (w\<lparr>gw_control := out\<rparr>)"
    "so_written out = so_written (gw_control w) @ ct_wire COMMAND (cmd_image COMMAND_SEND_MSG (gw_msg_id w) ?ts)"
    by (rule command_written [OF assms(1-3), of COMMAND_SEND_MSG "gw_msg_id w"])
  have "pusher_timer_cb ge w = Inr (w\<lparr>gw_control := out, gw_pending_getaddrs := []\<rparr>)"
    using C(1-3) assms(4) by (simp add: pusher_timer_cb_def send_getaddrs_def)
  then show thesis by (rule that) (use C(4,5) in \<open>simp_all add: can_write_def send_payload_image\<close>)
qed


section \<open>Runs of the crawler\<close>

definition ga_init :: "sock_out \<Rightarrow> gworld" where
  "ga_init out = \<lparr>gw_current_getaddr = 1, gw_getaddr_start = 0, gw_control = out, gw_pending_getaddrs = [], gw_msg_id = 0,
     gw_known_addrs = [], gw_known_hids = [], gw_cxns = [], gw_uids = 0, gw_samples = 0, gw_log = []\<rparr>"

text \<open>A timer fires when its time has come; it is not active any more when its callback runs.\<close>

datatype ga_event =
    Ga_Push | Ga_Hid u32 | Ga_Cxn sockaddr_in | Ga_Clock | Ga_Connect u32 sockaddr_in sockaddr_in | Ga_Disconnect u32 sockaddr_in
  | Ga_Record "byte list"

fun ga_guard :: "rat \<Rightarrow> ga_event \<Rightarrow> gworld \<Rightarrow> bool" where
  "ga_guard now (Ga_Hid i) w = (\<exists>h t. map_of (gw_known_hids w) i = Some h \<and> hh_timer h = Some t \<and> t \<le> now)"
| "ga_guard now (Ga_Cxn a) w = (\<exists>c t. map_of (gw_cxns w) a = Some c \<and> cx_timer c = Some t \<and> t \<le> now)"
| "ga_guard now _ w = True"

fun ga_step :: "ga_env \<Rightarrow> sockaddr_in list \<Rightarrow> rat \<Rightarrow> ga_event \<Rightarrow> gworld \<Rightarrow> gworld res" where
  "ga_step ge bound now Ga_Push w = pusher_timer_cb ge w"
| "ga_step ge bound now (Ga_Hid i) w =
     (case map_of (gw_known_hids w) i of
        None \<Rightarrow> Inr w
      | Some h \<Rightarrow> (case hid_timer_cb now (h\<lparr>hh_timer := None\<rparr>) w of (h', w') \<Rightarrow> Inr (w'\<lparr>gw_known_hids := AList.update i h' (gw_known_hids w')\<rparr>)))"
| "ga_step ge bound now (Ga_Cxn a) w =
     (case map_of (gw_cxns w) a of
        None \<Rightarrow> Inr w
      | Some c \<Rightarrow> bindR (cxn_timer_cb ge now (c\<lparr>cx_timer := None\<rparr>) w) (\<lambda>(c', w'). Inr (w'\<lparr>gw_cxns := AList.update a c' (gw_cxns w')\<rparr>)))"
| "ga_step ge bound now Ga_Clock w = clock_cb ge bound now w"
| "ga_step ge bound now (Ga_Connect hid remote local_addr) w = ga_on_connect ge now hid remote local_addr w"
| "ga_step ge bound now (Ga_Disconnect hid remote) w = ga_on_disconnect ge now hid remote w"
| "ga_step ge bound now (Ga_Record m) w = ga_record ge now m w"

text \<open>The connections collected since the round began; a connection that opens starts afresh.\<close>

fun ga_collected :: "ga_event \<Rightarrow> gworld \<Rightarrow> gworld \<Rightarrow> u32 list \<Rightarrow> u32 list" where
  "ga_collected (Ga_Hid i) w w' P = P @ drop (length (gw_pending_getaddrs w)) (gw_pending_getaddrs w')"
| "ga_collected Ga_Clock w w' P = []"
| "ga_collected (Ga_Connect hid _ _) w w' P = filter (\<lambda>i. i \<noteq> hid) P"
| "ga_collected _ w w' P = P"

inductive ga_reach :: "ga_env \<Rightarrow> sockaddr_in list \<Rightarrow> rat \<Rightarrow> u32 list \<Rightarrow> gworld \<Rightarrow> bool" for ge bound where
  start: "0 < now \<Longrightarrow> ga_reach ge bound now [] (ga_init out)"
| step: "ga_reach ge bound now P w \<Longrightarrow> now \<le> now' \<Longrightarrow> ga_guard now' ev w \<Longrightarrow> ga_step ge bound now' ev w = Inr w' \<Longrightarrow>
    ga_reach ge bound now' (ga_collected ev w w' P) w'"

section \<open>The invariant\<close>

text \<open>An address: the longest backoff is \<open>5 * (2 ^ 14 - 1)\<close> seconds.\<close>

definition sers_ok :: "vbuf \<times> nat \<Rightarrow> bool" where
  "sers_ok p \<longleftrightarrow> (\<exists>a. length a = 32 \<and> em_holds (fst p) CONNECT a \<and> snd p = 38)"

definition cx_pre :: "rat \<Rightarrow> cxn_handler \<Rightarrow> bool" where
  "cx_pre now c \<longleftrightarrow> (cx_state c = CONNECTING \<longleftrightarrow> cx_pending_time c \<noteq> 0) \<and> 0 \<le> cx_pending_time c \<and> cx_pending_time c \<le> now \<and>
     cx_consecutive_fails c \<le> 14 \<and> sers_ok (cx_sers c)"

definition cx_ok :: "rat \<Rightarrow> cxn_handler \<Rightarrow> bool" where
  "cx_ok now c \<longleftrightarrow> cx_pre now c \<and> (cx_state c \<noteq> CONNECTED \<or> cx_consecutive_fails c \<noteq> 0 \<longrightarrow> cx_timer c \<noteq> None) \<and>
     (\<forall>t. cx_timer c = Some t \<longrightarrow> t \<le> now + 81915)"

text \<open>A connection: its counter is the number of times it was collected in this round.\<close>

definition hid_ok :: "u32 \<Rightarrow> rat \<Rightarrow> u32 list \<Rightarrow> u32 \<Rightarrow> hid_handler \<Rightarrow> bool" where
  "hid_ok current now P i h \<longleftrightarrow> hh_hid h = i \<and> hh_getaddr_seq h = current \<and> hh_getaddr_cnt h \<le> GETADDR_LIMIT \<and>
     count_list P i = unat (hh_getaddr_cnt h) \<and> hh_last_enqueue h \<le> now \<and> (\<forall>t. hh_timer h = Some t \<longrightarrow> t \<le> hh_last_enqueue h + 10)"

definition ga_inv :: "rat \<Rightarrow> u32 list \<Rightarrow> gworld \<Rightarrow> bool" where
  "ga_inv now P w \<longleftrightarrow> 0 < now \<and> (\<forall>a c. map_of (gw_cxns w) a = Some c \<longrightarrow> cx_ok now c) \<and>
     (\<forall>i h. map_of (gw_known_hids w) i = Some h \<longrightarrow> hid_ok (gw_current_getaddr w) now P i h)"

definition ga_env_ok :: "ga_env \<Rightarrow> bool" where
  "ga_env_ok ge \<longleftrightarrow> 0 < e_ps (ga_env ge) \<and> (\<forall>n b. ga_uid ge n b \<le> b)"

lemma cx_ok_mono: "cx_ok now c \<Longrightarrow> now \<le> now' \<Longrightarrow> cx_ok now' c"
  by (force simp: cx_ok_def cx_pre_def)

lemma hid_ok_mono: "hid_ok cur now P i h \<Longrightarrow> now \<le> now' \<Longrightarrow> hid_ok cur now' P i h"
  by (force simp: hid_ok_def)

lemma ga_inv_mono: "ga_inv now P w \<Longrightarrow> now \<le> now' \<Longrightarrow> ga_inv now' P w"
  unfolding ga_inv_def by (meson cx_ok_mono hid_ok_mono order_less_le_trans)

text \<open>The parts of the state that an operation on one address leaves alone.\<close>

definition same_but_cxn :: "gworld \<Rightarrow> gworld \<Rightarrow> bool" where
  "same_but_cxn w w' \<longleftrightarrow> gw_cxns w' = gw_cxns w \<and> gw_known_hids w' = gw_known_hids w \<and> gw_current_getaddr w' = gw_current_getaddr w \<and>
     gw_pending_getaddrs w' = gw_pending_getaddrs w \<and> gw_getaddr_start w' = gw_getaddr_start w"

lemma write_message_same: "write_message p w = Inr w' \<Longrightarrow> same_but_cxn w w'"
  by (auto simp: write_message_def bindR_Inr_iff same_but_cxn_def)

lemma reconnect_ok:
  assumes "ga_env_ok ge" and "cx_pre now c" and "set_reconnect_timer ge now c w = (c', w')"
  shows "cx_ok now c' \<and> same_but_cxn w w' \<and> cx_state c' = cx_state c \<and> gw_control w' = gw_control w \<and> cx_pending_time c' = cx_pending_time c"
proof -
  let ?k = "ga_uid ge (gw_uids w) (cx_consecutive_fails c)"
  have "?k \<le> 14" using assms(1,2) by (auto simp: ga_env_ok_def cx_pre_def intro: order_trans)
  then have "(2 :: rat) ^ ?k \<le> 2 ^ 14" by (intro power_increasing) simp_all
  then show ?thesis using assms(2,3)
    by (auto simp: set_reconnect_timer_def Let_def cx_ok_def cx_pre_def same_but_cxn_def)
qed

lemma cxn_timer_cb_ok:
  assumes "ga_env_ok ge" and "0 < now" and "cx_pre now c" and "cxn_timer_cb ge now c w = Inr (c', w')"
    and "cx_timer c = None"
  shows "cx_ok now c' \<and> same_but_cxn w w'"
proof -
  let ?p = "cx_pending_time c"
  consider (wait) "0 < ?p" "now \<le> ?p + 900" | (late) "0 < ?p" "?p + 900 < now" | (idle) "?p = 0"
    using assms(3) unfolding cx_pre_def by (metis less_eq_rat_def linorder_not_less)
  then show ?thesis
  proof cases
    case wait
    with assms(3-5) show ?thesis by (auto simp: cxn_timer_cb_def Let_def cx_ok_def cx_pre_def same_but_cxn_def)
  next
    case late
    then have s: "cx_state c = CONNECTING" using assms(3) by (auto simp: cx_pre_def)
    let ?h = "c\<lparr>cx_pending_time := now, cx_consecutive_fails := min 14 (cx_consecutive_fails c + 1), cx_state := CONNECTING\<rparr>"
    obtain w1 where W: "write_message (cx_sers c) w = Inr w1" "set_reconnect_timer ge now ?h w1 = (c', w')"
      using late s assms(4) by (cases c) (auto simp: cxn_timer_cb_def Let_def bindR_Inr_iff)
    have "cx_pre now ?h" using assms(2,3) by (auto simp: cx_pre_def)
    from reconnect_ok [OF assms(1) this W(2)] write_message_same [OF W(1)] show ?thesis by (auto simp: same_but_cxn_def)
  next
    case idle
    show ?thesis
    proof (cases "cx_state c")
      case DISCONNECTED
      let ?h = "c\<lparr>cx_state := CONNECTING, cx_pending_time := now, cx_consecutive_fails := min 14 (cx_consecutive_fails c + 1)\<rparr>"
      obtain w1 where W: "write_message (cx_sers c) w = Inr w1" "set_reconnect_timer ge now ?h w1 = (c', w')"
        using idle DISCONNECTED assms(4) by (auto simp: cxn_timer_cb_def Let_def bindR_Inr_iff)
      have "cx_pre now ?h" using assms(2,3) by (auto simp: cx_pre_def)
      from reconnect_ok [OF assms(1) this W(2)] write_message_same [OF W(1)] show ?thesis by (auto simp: same_but_cxn_def)
    next
      case CONNECTING
      with idle assms(3) show ?thesis by (simp add: cx_pre_def)
    next
      case CONNECTED
      with idle assms(3-5) show ?thesis
        by (auto simp: cxn_timer_cb_def Let_def cx_ok_def cx_pre_def same_but_cxn_def split: if_splits)
    qed
  qed
qed

lemma cxn_new_ok:
  assumes "ga_env_ok ge" and "0 < now" and "s \<noteq> CONNECTING" and "cxn_new ge now remote s w = Inr (c, w')"
  shows "cx_ok now c \<and> same_but_cxn w w'"
proof -
  let ?ps = "e_ps (ga_env ge)"
  have a: "length (sockaddr_bytes remote) = 16" by (simp add: sockaddr_bytes_def)
  obtain b where B: "cn_new ?ps (sockaddr_bytes remote) (zeros 16) = Inr b" "em_holds b CONNECT (sockaddr_bytes remote @ zeros 16)"
    using connect_frames.make_holds [of ?ps "(sockaddr_bytes remote, zeros 16)"] assms(1) a by (auto simp: ga_env_ok_def)
  let ?h = "\<lparr>cx_state = s, cx_pending_time = 0, cx_consecutive_fails = 0, cx_sers = (b, 38), cx_timer = None\<rparr>"
  have "cxn_timer_cb ge now ?h w = Inr (c, w')" using assms(4) B em_serialize_holds [OF B(2)] a by (simp add: cxn_new_def)
  moreover have "cx_pre now ?h"
    using assms(2,3) B(2) a by (auto simp: cx_pre_def sers_ok_def intro!: exI [of _ "sockaddr_bytes remote @ zeros 16"])
  ultimately show ?thesis using cxn_timer_cb_ok [OF assms(1,2)] by simp
qed

lemma cxn_set_state_ok:
  assumes "ga_env_ok ge" and "0 < now" and "cx_ok now c" and "s \<noteq> CONNECTING" and "cxn_set_state ge now s c w = (c', w')"
  shows "cx_ok now c' \<and> same_but_cxn w w'"
proof -
  let ?c = "c\<lparr>cx_state := s, cx_pending_time := 0\<rparr>"
  have P: "cx_pre now ?c" using assms(2-4) by (auto simp: cx_ok_def cx_pre_def)
  show ?thesis
  proof (cases "s = DISCONNECTED \<and> cx_timer c = None")
    case True
    obtain d v where D: "set_reconnect_timer ge now ?c w = (d, v)" by fastforce
    then have "c' = d" "w' = v" using True assms(5) by (auto simp: cxn_set_state_def set_reconnect_timer_def Let_def)
    with reconnect_ok [OF assms(1) P D] show ?thesis by blast
  next
    case False
    then have "c' = ?c" "w' = w" using assms(5) by (auto simp: cxn_set_state_def Let_def)
    with P False assms(3,4) show ?thesis by (cases s) (auto simp: cx_ok_def same_but_cxn_def)
  qed
qed

lemma hid_enqueue_ok: "hid_ok cur now P i h \<Longrightarrow> hid_ok cur now P i (hid_enqueue now h)"
  by (force simp: hid_ok_def hid_enqueue_def Let_def)

lemma hid_new_ok:
  "0 < now \<Longrightarrow> i \<notin> set P \<Longrightarrow> cur = gw_current_getaddr w \<Longrightarrow> hid_ok cur now P i (hid_new now i r l w)"
  by (simp add: hid_ok_def hid_new_def hid_enqueue_def Let_def GETADDR_LIMIT_def count_notin)

lemma hid_timer_cb_ok:
  assumes "hid_ok (gw_current_getaddr w) now P i h" and "hid_timer_cb now (h\<lparr>hh_timer := None\<rparr>) w = (h', w')"
  shows "\<exists>q. gw_pending_getaddrs w' = gw_pending_getaddrs w @ q \<and> set q \<subseteq> {i} \<and> hid_ok (gw_current_getaddr w) now (P @ q) i h' \<and>
    gw_cxns w' = gw_cxns w \<and> gw_known_hids w' = gw_known_hids w \<and> gw_current_getaddr w' = gw_current_getaddr w"
proof (cases "10 + hh_last_enqueue h - now \<le> 0 \<and> hh_getaddr_cnt h < GETADDR_LIMIT")
  case True
  then have e: "h' = h\<lparr>hh_timer := None, hh_getaddr_cnt := hh_getaddr_cnt h + 1\<rparr>" "w' = w\<lparr>gw_pending_getaddrs := gw_pending_getaddrs w @ [i]\<rparr>"
    using assms by (auto simp: hid_timer_cb_def Let_def hid_ok_def)
  have "hh_getaddr_cnt h < 24" using True by (simp add: GETADDR_LIMIT_def)
  then have "unat (hh_getaddr_cnt h + 1) = Suc (unat (hh_getaddr_cnt h))" "hh_getaddr_cnt h + 1 \<le> 24"
    by (auto simp: unat_word_ariths word_less_nat_alt word_le_nat_alt)
  with assms(1) e show ?thesis by (auto simp: hid_ok_def GETADDR_LIMIT_def intro!: exI [of _ "[i]"])
next
  case False
  then have "w' = w" "h' = h\<lparr>hh_timer := None\<rparr> \<or> h' = h\<lparr>hh_timer := Some (hh_last_enqueue h + 10)\<rparr>"
    using assms by (auto simp: hid_timer_cb_def Let_def hid_ok_def split: if_splits)
  with assms(1) show ?thesis by (auto simp: hid_ok_def intro!: exI [of _ "[]"])
qed

section \<open>Every step keeps the invariant\<close>

lemma ga_inv_cxns:
  assumes "ga_inv now P w" and "same_but_cxn w w'" and "cx_ok now c"
  shows "ga_inv now P (w'\<lparr>gw_cxns := AList.update a c (gw_cxns w')\<rparr>)" and "ga_inv now P (w'\<lparr>gw_cxns := (a, c) # gw_cxns w'\<rparr>)" and "ga_inv now P w'"
  using assms by (auto simp: ga_inv_def same_but_cxn_def update_conv')

lemma ga_inv_fields [simp]:
  "ga_inv now P (w\<lparr>gw_known_addrs := x\<rparr>) = ga_inv now P w" "ga_inv now P (w\<lparr>gw_samples := n\<rparr>) = ga_inv now P w"
  "ga_inv now P (w\<lparr>gw_pending_getaddrs := y\<rparr>) = ga_inv now P w" "ga_inv now P (ga_log ty args w) = ga_inv now P w"
  by (simp_all add: ga_inv_def ga_log_def)

lemma ga_inv_same: "ga_inv now P w \<Longrightarrow> same_but_cxn w w' \<Longrightarrow> ga_inv now P w'"
  by (simp add: ga_inv_def same_but_cxn_def)

lemma ga_inv_pos: "ga_inv now P w \<Longrightarrow> 0 < now"
  by (simp add: ga_inv_def)

lemma harvest_entry_inv:
  assumes "ga_env_ok ge" and "ga_inv now P w" and "harvest_entry ge now m base i w = Inr w'"
  shows "ga_inv now P w'"
proof -
  obtain sampled w1 where D: "do_sample ge w = (sampled, w1)" by fastforce
  then have I: "ga_inv now P w1" using assms(2) by (auto simp: do_sample_def split: if_splits)
  consider "w' = w" | "w' = w1"
    | a h w2 where "cxn_new ge now a DISCONNECTED (w1\<lparr>gw_known_addrs := (a, NOT 0) # gw_known_addrs w1\<rparr>) = Inr (h, w2)"
        "w' = w2 \<or> w' = w2\<lparr>gw_cxns := (a, h) # gw_cxns w2\<rparr>"
    using assms(3) D by (auto simp: harvest_entry_def Let_def bindR_Inr_iff split: if_splits)
  then show ?thesis
  proof cases
    case 3
    have I1: "ga_inv now P (w1\<lparr>gw_known_addrs := (a, NOT 0) # gw_known_addrs w1\<rparr>)" using I by simp
    note N = cxn_new_ok [OF assms(1) ga_inv_pos [OF I] _ 3(1)]
    show ?thesis using 3(2) N ga_inv_cxns(2,3) [OF I1] by auto
  qed (use I assms(2) in simp_all)
qed

lemma harvest_inner_inv:
  "ga_env_ok ge \<Longrightarrow> ga_inv now P w \<Longrightarrow> harvest_inner ge now m base i n w = Inr w' \<Longrightarrow> ga_inv now P w'"
  by (induction n arbitrary: i w) (auto simp: bindR_Inr_iff intro: harvest_entry_inv)

lemma harvest_outer_inv:
  "ga_env_ok ge \<Longrightarrow> ga_inv now P w \<Longrightarrow> harvest_outer ge now m base k n w = Inr w' \<Longrightarrow> ga_inv now P w'"
  by (induction n arbitrary: w) (auto simp: bindR_Inr_iff intro: harvest_inner_inv)

lemma ga_record_inv:
  assumes "ga_env_ok ge" and "ga_inv now P w" and "ga_record ge now m w = Inr w'"
  shows "ga_inv now P w'"
proof -
  consider "w' = w" | hid base k w1 where "w1 = (case map_of (gw_known_hids w) hid of
        None \<Rightarrow> ga_log ERROR [ascii ''Got address from hid '', e_dec (ga_env ge) (unat hid), ascii '' but could not find hid handler for it''] w
      | Some h \<Rightarrow> w\<lparr>gw_known_hids := AList.update hid (hid_enqueue now h) (gw_known_hids w)\<rparr>)" "harvest_outer ge now m base k k w1 = Inr w'"
    using assms(3) by (auto simp: ga_record_def Let_def bindR_Inr_iff split: if_splits)
  then show ?thesis
  proof cases
    case 2
    have "ga_inv now P w1" using assms(2) hid_enqueue_ok unfolding 2(1) by (auto simp: ga_inv_def ga_log_def update_conv' split: option.splits)
    with harvest_outer_inv [OF assms(1) _ 2(2)] show ?thesis .
  qed (use assms(2) in simp)
qed

lemma clock_cb_inv:
  assumes "ga_inv now P w" and "clock_cb ge bound now w = Inr w'"
  shows "ga_inv now [] w'"
proof -
  let ?w1 = "ga_log CLIENT [ascii ''Initiating GETADDR probe''] (w\<lparr>gw_current_getaddr := gw_current_getaddr w + 1, gw_getaddr_start := now\<rparr>)"
  let ?w2 = "?w1\<lparr>gw_known_hids := map (\<lambda>(i, h). (i, hid_set_sequence (gw_current_getaddr ?w1) h)) (gw_known_hids ?w1)\<rparr>"
  have "hid_ok (gw_current_getaddr w + 1) now [] i (hid_set_sequence (gw_current_getaddr w + 1) h)" if "hid_ok (gw_current_getaddr w) now P i h" for i h
    using that by (auto simp: hid_ok_def hid_set_sequence_def)
  then have I: "ga_inv now [] ?w2" using assms(1) by (auto simp: ga_inv_def ga_log_def map_of_map)
  have "w' = ?w2 \<or> (\<exists>p. write_message p ?w2 = Inr w')"
    using assms(2) by (auto simp: clock_cb_def Let_def bindR_Inr_iff split: if_splits)
  with I show ?thesis by (auto dest: write_message_same intro: ga_inv_same)
qed

text \<open>The common part of the two event functions: the handler of the address learns the state.\<close>

lemma address_state_inv:
  assumes "ga_env_ok ge" and "ga_inv now P w" and "s \<noteq> CONNECTING" and "same_but_cxn w v"
    and "(case map_of (gw_cxns w) remote of
            None \<Rightarrow> bindR (cxn_new ge now remote s v) (\<lambda>(h, w'). Inr (w'\<lparr>gw_cxns := (remote, h) # gw_cxns w'\<rparr>))
          | Some c \<Rightarrow> (case cxn_set_state ge now s c w of (c', w') \<Rightarrow> Inr (w'\<lparr>gw_cxns := AList.update remote c' (gw_cxns w')\<rparr>))) = Inr w'"
  shows "ga_inv now P w'" and "gw_known_hids w' = gw_known_hids w" and "gw_current_getaddr w' = gw_current_getaddr w" and "gw_pending_getaddrs w' = gw_pending_getaddrs w"
proof -
  note pos = ga_inv_pos [OF assms(2)] and V = ga_inv_same [OF assms(2,4)]
  have "ga_inv now P w' \<and> gw_known_hids w' = gw_known_hids w \<and> gw_current_getaddr w' = gw_current_getaddr w \<and> gw_pending_getaddrs w' = gw_pending_getaddrs w"
  proof (cases "map_of (gw_cxns w) remote")
    case None
    then obtain h w1 where N: "cxn_new ge now remote s v = Inr (h, w1)" "w' = w1\<lparr>gw_cxns := (remote, h) # gw_cxns w1\<rparr>"
      using assms(5) by (auto simp: bindR_Inr_iff)
    note S = cxn_new_ok [OF assms(1) pos assms(3) N(1)]
    then have "ga_inv now P w'" using ga_inv_cxns(2) [OF V] N(2) by blast
    with S assms(4) N(2) show ?thesis by (auto simp: same_but_cxn_def)
  next
    case (Some c)
    then have c: "cx_ok now c" using assms(2) by (auto simp: ga_inv_def)
    obtain c' w1 where N: "cxn_set_state ge now s c w = (c', w1)" "w' = w1\<lparr>gw_cxns := AList.update remote c' (gw_cxns w1)\<rparr>"
      using assms(5) Some by (cases "cxn_set_state ge now s c w") auto
    note S = cxn_set_state_ok [OF assms(1) pos c assms(3) N(1)]
    then have "ga_inv now P w'" using ga_inv_cxns(1) [OF assms(2)] N(2) by blast
    with S N(2) show ?thesis by (auto simp: same_but_cxn_def)
  qed
  then show "ga_inv now P w'" and "gw_known_hids w' = gw_known_hids w" and "gw_current_getaddr w' = gw_current_getaddr w"
    and "gw_pending_getaddrs w' = gw_pending_getaddrs w" by simp_all
qed

lemma ga_inv_filter:
  assumes "ga_inv now P w"
  shows "ga_inv now (filter (\<lambda>i. i \<noteq> hid) P) (w\<lparr>gw_known_hids := AList.delete hid (gw_known_hids w)\<rparr>)"
proof -
  have "count_list (filter (\<lambda>i. i \<noteq> hid) P) j = count_list P j" if "j \<noteq> hid" for j
    using that by (induction P) auto
  with assms show ?thesis by (auto simp: ga_inv_def hid_ok_def delete_conv')
qed

lemma ga_on_connect_inv:
  assumes "ga_env_ok ge" and "ga_inv now P w" and "ga_on_connect ge now hid remote l w = Inr w'"
  shows "ga_inv now (filter (\<lambda>i. i \<noteq> hid) P) w'"
proof -
  let ?w1 = "w\<lparr>gw_known_addrs := AList.update remote hid (gw_known_addrs w)\<rparr>" and ?P = "filter (\<lambda>i. i \<noteq> hid) P"
  have I1: "ga_inv now P ?w1" "same_but_cxn ?w1 ?w1" using assms(2) by (simp_all add: same_but_cxn_def)
  obtain w2 w3 where W: "(case map_of (gw_cxns ?w1) remote of
            None \<Rightarrow> bindR (cxn_new ge now remote CONNECTED ?w1) (\<lambda>(h, w'). Inr (w'\<lparr>gw_cxns := (remote, h) # gw_cxns w'\<rparr>))
          | Some c \<Rightarrow> (case cxn_set_state ge now CONNECTED c ?w1 of (c', w') \<Rightarrow> Inr (w'\<lparr>gw_cxns := AList.update remote c' (gw_cxns w')\<rparr>))) = Inr w2"
    "w3 = (if map_of (gw_known_hids w2) hid \<noteq> None
           then ga_log DEBUG [ascii ''Received a hid more than once? '', e_dec (ga_env ge) (unat hid)]
             (w2\<lparr>gw_known_hids := AList.delete hid (gw_known_hids w2)\<rparr>) else w2)"
    "w' = w3\<lparr>gw_known_hids := (hid, hid_new now hid remote l w3) # gw_known_hids w3\<rparr>"
    using assms(3) unfolding ga_on_connect_def Let_def bindR_Inr_iff by blast
  have c: "CONNECTED \<noteq> CONNECTING" by simp
  have "ga_inv now P w2" by (rule address_state_inv(1) [OF assms(1) I1(1) c I1(2) W(1)])
  then have D: "ga_inv now ?P (w2\<lparr>gw_known_hids := AList.delete hid (gw_known_hids w2)\<rparr>)" by (rule ga_inv_filter)
  have n: "AList.delete hid (gw_known_hids w2) = gw_known_hids w2" if "map_of (gw_known_hids w2) hid = None"
    using that by (simp add: map_of_eq_None_iff delete_id)
  have "ga_inv now ?P w3" using D n unfolding W(2) by (cases "map_of (gw_known_hids w2) hid") simp_all
  moreover have "hid_ok (gw_current_getaddr w3) now ?P hid (hid_new now hid remote l w3)"
    by (rule hid_new_ok) (use ga_inv_pos [OF assms(2)] in simp_all)
  ultimately show ?thesis unfolding W(3) by (auto simp: ga_inv_def)
qed

lemma ga_on_disconnect_inv:
  assumes "ga_env_ok ge" and "ga_inv now P w" and "ga_on_disconnect ge now hid remote w = Inr w'"
  shows "ga_inv now P w'"
proof -
  let ?w1 = "w\<lparr>gw_known_addrs := AList.update remote (NOT 0) (gw_known_addrs w)\<rparr>"
  let ?v = "ga_log DEBUG [ascii ''Somehow we got a disconnect for a connection we did not know about to '', e_show (ga_env ge) (sockaddr_bytes remote)] ?w1"
  have I1: "ga_inv now P ?w1" "same_but_cxn ?w1 ?v" using assms(2) by (simp_all add: same_but_cxn_def ga_log_def)
  obtain w2 where W: "(case map_of (gw_cxns ?w1) remote of
            None \<Rightarrow> bindR (cxn_new ge now remote DISCONNECTED ?v) (\<lambda>(h, w'). Inr (w'\<lparr>gw_cxns := (remote, h) # gw_cxns w'\<rparr>))
          | Some c \<Rightarrow> (case cxn_set_state ge now DISCONNECTED c ?w1 of (c', w') \<Rightarrow> Inr (w'\<lparr>gw_cxns := AList.update remote c' (gw_cxns w')\<rparr>))) = Inr w2"
    "w' = w2\<lparr>gw_known_hids := AList.delete hid (gw_known_hids w2)\<rparr>"
    using assms(3) unfolding ga_on_disconnect_def Let_def bindR_Inr_iff by blast
  have d: "DISCONNECTED \<noteq> CONNECTING" by simp
  have "ga_inv now P w2" by (rule address_state_inv(1) [OF assms(1) I1(1) d I1(2) W(1)])
  then show ?thesis unfolding W(2) by (auto simp: ga_inv_def delete_conv')
qed

lemma ga_step_inv:
  assumes "ga_env_ok ge" and "ga_inv now P w" and "ga_guard now ev w" and "ga_step ge bound now ev w = Inr w'"
  shows "ga_inv now (ga_collected ev w w' P) w'"
proof (cases ev)
  case Ga_Push
  with assms(4) have "w' = w\<lparr>gw_pending_getaddrs := []\<rparr> \<or> (\<exists>p v. write_message p w = Inr v \<and> w' = v\<lparr>gw_pending_getaddrs := []\<rparr>)"
    by (auto simp: pusher_timer_cb_def send_getaddrs_def bindR_Inr_iff split: if_splits)
  with assms(2) Ga_Push show ?thesis by (auto intro: ga_inv_same [OF assms(2) write_message_same])
next
  case (Ga_Hid i)
  with assms(3) obtain h where h: "map_of (gw_known_hids w) i = Some h" by auto
  with assms(2) have H: "hid_ok (gw_current_getaddr w) now P i h" by (auto simp: ga_inv_def)
  obtain h' w1 where T: "hid_timer_cb now (h\<lparr>hh_timer := None\<rparr>) w = (h', w1)" by fastforce
  then have w': "w' = w1\<lparr>gw_known_hids := AList.update i h' (gw_known_hids w1)\<rparr>" using assms(4) Ga_Hid h by simp
  obtain q where Q: "gw_pending_getaddrs w1 = gw_pending_getaddrs w @ q" "set q \<subseteq> {i}" "hid_ok (gw_current_getaddr w) now (P @ q) i h'"
    "gw_cxns w1 = gw_cxns w" "gw_known_hids w1 = gw_known_hids w" "gw_current_getaddr w1 = gw_current_getaddr w"
    using hid_timer_cb_ok [OF H T] by blast
  have "count_list q j = 0" if "j \<noteq> i" for j using Q(2) that by (auto simp: count_list_0_iff)
  then have "hid_ok (gw_current_getaddr w) now (P @ q) j k" if "hid_ok (gw_current_getaddr w) now P j k" "j \<noteq> i" for j k
    using that by (simp add: hid_ok_def)
  with assms(2) Q w' Ga_Hid show ?thesis by (auto simp: ga_inv_def update_conv')
next
  case (Ga_Cxn a)
  with assms(3) obtain c where c: "map_of (gw_cxns w) a = Some c" by auto
  with assms(2) have C: "cx_pre now (c\<lparr>cx_timer := None\<rparr>)" by (auto simp: ga_inv_def cx_ok_def cx_pre_def)
  obtain c' w1 where T: "cxn_timer_cb ge now (c\<lparr>cx_timer := None\<rparr>) w = Inr (c', w1)" "w' = w1\<lparr>gw_cxns := AList.update a c' (gw_cxns w1)\<rparr>"
    using assms(4) Ga_Cxn c by (auto simp: bindR_Inr_iff)
  have "cx_ok now c' \<and> same_but_cxn w w1" by (rule cxn_timer_cb_ok [OF assms(1) ga_inv_pos [OF assms(2)] C T(1)]) simp
  with ga_inv_cxns(1) [OF assms(2)] T(2) Ga_Cxn show ?thesis by simp
next
  case Ga_Clock
  with clock_cb_inv [OF assms(2)] assms(4) show ?thesis by simp
next
  case (Ga_Connect hid r l)
  with ga_on_connect_inv [OF assms(1,2)] assms(4) show ?thesis by simp
next
  case (Ga_Disconnect hid r)
  with ga_on_disconnect_inv [OF assms(1,2)] assms(4) show ?thesis by simp
next
  case (Ga_Record m)
  with ga_record_inv [OF assms(1,2)] assms(4) show ?thesis by simp
qed

lemma ga_reach_inv: "ga_reach ge bound now P w \<Longrightarrow> ga_env_ok ge \<Longrightarrow> ga_inv now P w"
proof (induction rule: ga_reach.induct)
  case (start now out)
  then show ?case by (simp add: ga_inv_def ga_init_def)
next
  case (step now P w now' ev w')
  from ga_inv_mono [OF step.IH [OF step.prems] step.hyps(2)] step.hyps(3,4) show ?case by (rule ga_step_inv [OF step.prems])
qed

section \<open>Properties of the crawler\<close>


text \<open>
  Property C15: over every run of the crawler, an address is never forgotten and never hammered: unless
  it is connected and has no failures to forget, its timer is active and fires within the
  longest backoff; an attempt is pending exactly while its state says so; the counter of failures stays
  within its bound.
\<close>

theorem crawler_backoff:
  assumes "ga_env_ok ge" and "ga_reach ge bound now P w" and "map_of (gw_cxns w) a = Some c"
  shows "(cx_state c = CONNECTING \<longleftrightarrow> cx_pending_time c \<noteq> 0) \<and> cx_consecutive_fails c \<le> 14 \<and>
    (cx_state c \<noteq> CONNECTED \<or> cx_consecutive_fails c \<noteq> 0 \<longrightarrow> (\<exists>t. cx_timer c = Some t \<and> t \<le> now + 5 * (2 ^ 14 - 1)))"
proof -
  have "cx_ok now c" using ga_reach_inv [OF assms(2,1)] assms(3) by (simp add: ga_inv_def)
  then show ?thesis by (auto simp: cx_ok_def cx_pre_def)
qed


section \<open>Harvesting\<close>

definition addr_entry :: "byte list \<Rightarrow> nat \<Rightarrow> nat \<Rightarrow> sockaddr_in" where
  "addr_entry m base i = \<lparr>sin_s_addr = get32 (field (base + 30 * i + 24) 4 m), sin_sport = get16 (field (base + 30 * i + 28) 2 m)\<rparr>"

definition public_entries :: "byte list \<Rightarrow> nat \<Rightarrow> nat \<Rightarrow> nat \<Rightarrow> sockaddr_in list" where
  "public_entries m base i n = filter (\<lambda>a. \<not> is_private (sin_s_addr a)) (map (addr_entry m base) [i..<i + n])"

text \<open>The addresses that are not known yet, each once, in the order in which they appear.\<close>

fun fresh_addrs :: "sockaddr_in set \<Rightarrow> sockaddr_in list \<Rightarrow> sockaddr_in list" where
  "fresh_addrs K [] = []"
| "fresh_addrs K (a # as) = (if a \<in> K then fresh_addrs K as else a # fresh_addrs (insert a K) as)"

definition connect_frame :: "sockaddr_in \<Rightarrow> byte list" where
  "connect_frame a = ct_wire CONNECT (sockaddr_bytes a @ zeros 16)"

lemma fresh_addrs_known: "set as \<subseteq> K \<Longrightarrow> fresh_addrs K as = []"
  by (induction as) auto

lemma set_fresh_addrs: "K \<union> set (fresh_addrs K as) = K \<union> set as"
proof (induction as arbitrary: K)
  case (Cons a as)
  from Cons.IH [of "insert a K"] Cons.IH [of K] show ?case by auto
qed simp

lemma length_fresh_addrs: "length (fresh_addrs K as) \<le> length as"
proof (induction as arbitrary: K)
  case (Cons a as)
  from Cons.IH [of "insert a K"] Cons.IH [of K] show ?case by simp
qed simp

lemma cxn_new_total:
  assumes "ga_env_ok ge" and "can_write (38 + n) w"
  obtains c w' where "cxn_new ge now a DISCONNECTED w = Inr (c, w')" and "can_write n w'" and "gw_known_addrs w' = gw_known_addrs w"
    and "so_written (gw_control w') = so_written (gw_control w) @ connect_frame a" and "gw_known_hids w' = gw_known_hids w"
proof -
  let ?ps = "e_ps (ga_env ge)" and ?p = "sockaddr_bytes a @ zeros 16"
  have a: "length (sockaddr_bytes a) = 16" by (simp add: sockaddr_bytes_def)
  obtain b where B: "cn_new ?ps (sockaddr_bytes a) (zeros 16) = Inr b" "em_holds b CONNECT ?p"
    using connect_frames.make_holds [of ?ps "(sockaddr_bytes a, zeros 16)"] assms(1) a by (auto simp: ga_env_ok_def)
  have cw: "can_write (6 + length ?p + n) w" using assms(2) a by simp
  obtain out where W: "write_message (b, 6 + length ?p) w = Inr (w\<lparr>gw_control := out\<rparr>)" "can_write n (w\<lparr>gw_control := out\<rparr>)"
    "so_written out = so_written (gw_control w) @ ct_wire CONNECT ?p" by (rule write_message_ok [OF B(2) cw])
  obtain c w' where N: "cxn_new ge now a DISCONNECTED w = Inr (c, w')" "gw_control w' = out" "gw_known_addrs w' = gw_known_addrs w" "gw_known_hids w' = gw_known_hids w"
    using B(1) em_serialize_holds [OF B(2)] W(1) a by (auto simp: cxn_new_def cxn_timer_cb_def set_reconnect_timer_def Let_def)
  then show thesis by (intro that [of c w']) (use W in \<open>simp_all add: connect_frame_def can_write_def\<close>)
qed

lemma harvest_entry_ok:
  assumes "ga_env_ok ge" and "base + 30 * i + 30 \<le> length m" and "length (gw_known_addrs w) < 1000"
    and "F = fresh_addrs (fst ` set (gw_known_addrs w)) (public_entries m base i 1)" and "can_write (38 * length F + n) w"
  shows "\<exists>w'. harvest_entry ge now m base i w = Inr w' \<and> can_write n w' \<and> map fst (gw_known_addrs w') = rev F @ map fst (gw_known_addrs w) \<and>
    so_written (gw_control w') = so_written (gw_control w) @ concat (map connect_frame F) \<and> gw_known_hids w' = gw_known_hids w"
proof -
  let ?a = "addr_entry m base i"
  have R: "rd m (base + 30 * i + 24) 4 = Inr (field (base + 30 * i + 24) 4 m)" "rd m (base + 30 * i + 28) 2 = Inr (field (base + 30 * i + 28) 2 m)"
    using assms(2) by (simp_all add: rd_def field_def)
  have p: "public_entries m base i 1 = (if is_private (sin_s_addr ?a) then [] else [?a])" by (simp add: public_entries_def)
  consider (old) "F = []" "is_private (sin_s_addr ?a) \<or> map_of (gw_known_addrs w) ?a \<noteq> None"
    | (new) "F = [?a]" "\<not> is_private (sin_s_addr ?a)" "map_of (gw_known_addrs w) ?a = None"
    using assms(4) p by (auto simp: map_of_eq_None_iff split: if_splits)
  then show ?thesis
  proof cases
    case old
    then have "harvest_entry ge now m base i w = Inr w"
      using R assms(3) by (auto simp: harvest_entry_def do_sample_def addr_entry_def Let_def)
    with old(1) assms(5) show ?thesis by simp
  next
    case new
    let ?w = "w\<lparr>gw_known_addrs := (?a, NOT 0) # gw_known_addrs w\<rparr>"
    have "can_write (38 + n) ?w" using assms(5) new(1) by (simp add: can_write_def)
    then obtain c w1 where N: "cxn_new ge now ?a DISCONNECTED ?w = Inr (c, w1)" "can_write n w1" "gw_known_addrs w1 = gw_known_addrs ?w"
      "so_written (gw_control w1) = so_written (gw_control ?w) @ connect_frame ?a" "gw_known_hids w1 = gw_known_hids ?w"
      by (rule cxn_new_total [OF assms(1)])
    let ?w' = "if map_of (gw_cxns w1) ?a = None then w1\<lparr>gw_cxns := (?a, c) # gw_cxns w1\<rparr> else w1"
    have "harvest_entry ge now m base i w = Inr ?w'"
      using R new(2,3) N(1) assms(3) by (simp add: harvest_entry_def do_sample_def addr_entry_def Let_def)
    then show ?thesis using N(2-5) new(1) by (intro exI [of _ ?w']) (auto simp: can_write_def)
  qed
qed

lemma fresh_addrs_append: "fresh_addrs K (xs @ ys) = fresh_addrs K xs @ fresh_addrs (K \<union> set xs) ys"
proof (induction xs arbitrary: K)
  case (Cons x xs)
  have "insert x K \<union> set xs = K \<union> set (x # xs)" by auto
  moreover have "K \<union> set xs = K \<union> set (x # xs)" if "x \<in> K" using that by auto
  ultimately show ?case using Cons.IH [of K] Cons.IH [of "insert x K"] by simp
qed simp

lemma public_entries_Suc: "public_entries m base i (Suc n) = public_entries m base i 1 @ public_entries m base (Suc i) n"
proof -
  have "[i..<i + Suc n] = [i..<i + 1] @ [Suc i..<Suc i + n]" by (simp add: upt_conv_Cons)
  then show ?thesis unfolding public_entries_def by (simp only: map_append filter_append)
qed

lemma harvest_inner_ok:
  assumes "ga_env_ok ge"
  shows "base + 30 * (i + n) \<le> length m \<Longrightarrow> length (gw_known_addrs w) + n \<le> 1000 \<Longrightarrow>
    F = fresh_addrs (fst ` set (gw_known_addrs w)) (public_entries m base i n) \<Longrightarrow> can_write (38 * length F + r) w \<Longrightarrow>
    \<exists>w'. harvest_inner ge now m base i n w = Inr w' \<and> can_write r w' \<and> map fst (gw_known_addrs w') = rev F @ map fst (gw_known_addrs w) \<and>
      so_written (gw_control w') = so_written (gw_control w) @ concat (map connect_frame F) \<and> gw_known_hids w' = gw_known_hids w"
proof (induction n arbitrary: i w F)
  case 0
  then show ?case by (simp add: public_entries_def)
next
  case (Suc n)
  let ?K = "fst ` set (gw_known_addrs w)" and ?p = "public_entries m base i 1"
  let ?F1 = "fresh_addrs ?K ?p" and ?F2 = "fresh_addrs (?K \<union> set ?p) (public_entries m base (Suc i) n)"
  have F: "F = ?F1 @ ?F2" using Suc.prems(3) by (simp only: public_entries_Suc fresh_addrs_append)
  have b: "base + 30 * i + 30 \<le> length m" "length (gw_known_addrs w) < 1000" "can_write (38 * length ?F1 + (38 * length ?F2 + r)) w"
    using Suc.prems(1,2,4) unfolding F by (simp_all add: add.assoc algebra_simps)
  obtain w1 where W: "harvest_entry ge now m base i w = Inr w1" "can_write (38 * length ?F2 + r) w1" "map fst (gw_known_addrs w1) = rev ?F1 @ map fst (gw_known_addrs w)"
    "so_written (gw_control w1) = so_written (gw_control w) @ concat (map connect_frame ?F1)" "gw_known_hids w1 = gw_known_hids w"
    using harvest_entry_ok [OF assms b(1,2) refl b(3), of now] by blast
  have K1: "fst ` set (gw_known_addrs w1) = ?K \<union> set ?p"
    using arg_cong [OF W(3), of set] set_fresh_addrs [of ?K ?p] by auto
  have l: "length (gw_known_addrs w1) + n \<le> 1000"
  proof -
    have "length (gw_known_addrs w1) = length ?F1 + length (gw_known_addrs w)" using arg_cong [OF W(3), of length] by simp
    moreover have "length ?F1 \<le> 1" using length_fresh_addrs [of ?K ?p] length_filter_le [of _ "map (addr_entry m base) [i..<i + 1]"]
      by (simp add: public_entries_def split: if_splits)
    ultimately show ?thesis using Suc.prems(2) by simp
  qed
  have i1: "base + 30 * (Suc i + n) \<le> length m" using Suc.prems(1) by simp
  obtain w2 where V: "harvest_inner ge now m base (Suc i) n w1 = Inr w2" "can_write r w2" "map fst (gw_known_addrs w2) = rev ?F2 @ map fst (gw_known_addrs w1)"
    "so_written (gw_control w2) = so_written (gw_control w1) @ concat (map connect_frame ?F2)" "gw_known_hids w2 = gw_known_hids w1"
    using Suc.IH [OF i1 l _ W(2)] unfolding K1 by blast
  have "harvest_inner ge now m base i (Suc n) w = Inr w2" using W(1) V(1) by simp
  with V(2-5) W(3-5) F show ?case by simp
qed

text \<open>The repetitions of the loop find nothing new.\<close>

lemma harvest_inner_known:
  "base + 30 * (i + n) \<le> length m \<Longrightarrow> set (public_entries m base i n) \<subseteq> fst ` set (gw_known_addrs w) \<Longrightarrow>
   \<exists>k. harvest_inner ge now m base i n w = Inr (w\<lparr>gw_samples := k\<rparr>)"
proof (induction n arbitrary: i w)
  case 0
  then show ?case by (intro exI [of _ "gw_samples w"]) simp
next
  case (Suc n)
  let ?a = "addr_entry m base i"
  have R: "rd m (base + 30 * i + 24) 4 = Inr (field (base + 30 * i + 24) 4 m)" "rd m (base + 30 * i + 28) 2 = Inr (field (base + 30 * i + 28) 2 m)"
    using Suc.prems(1) by (simp_all add: rd_def field_def)
  have p: "set (public_entries m base i 1) \<subseteq> fst ` set (gw_known_addrs w)" "set (public_entries m base (Suc i) n) \<subseteq> fst ` set (gw_known_addrs w)"
    using Suc.prems(2) unfolding public_entries_Suc by simp_all
  then have "is_private (sin_s_addr ?a) \<or> map_of (gw_known_addrs w) ?a \<noteq> None"
    by (auto simp: public_entries_def map_of_eq_None_iff split: if_splits)
  then obtain k where E: "harvest_entry ge now m base i w = Inr (w\<lparr>gw_samples := k\<rparr>)"
  proof
    assume "is_private (sin_s_addr ?a)"
    then show thesis using R by (intro that [of "gw_samples w"]) (simp add: harvest_entry_def addr_entry_def)
  next
    assume "map_of (gw_known_addrs w) ?a \<noteq> None"
    then obtain v where "map_of (gw_known_addrs w) ?a = Some v" by blast
    then have "harvest_entry ge now m base i w = Inr w \<or> harvest_entry ge now m base i w = Inr (w\<lparr>gw_samples := Suc (gw_samples w)\<rparr>)"
      using R by (simp add: harvest_entry_def do_sample_def addr_entry_def Let_def)
    then show thesis using that [of "gw_samples w"] that [of "Suc (gw_samples w)"] by auto
  qed
  obtain k' where "harvest_inner ge now m base (Suc i) n (w\<lparr>gw_samples := k\<rparr>) = Inr (w\<lparr>gw_samples := k, gw_samples := k'\<rparr>)"
    using Suc.IH [of "Suc i" "w\<lparr>gw_samples := k\<rparr>"] Suc.prems(1) p(2) by auto
  with E show ?case by (intro exI [of _ k']) simp
qed

lemma harvest_outer_known:
  "base + 30 * n \<le> length m \<Longrightarrow> set (public_entries m base 0 n) \<subseteq> fst ` set (gw_known_addrs w) \<Longrightarrow>
   \<exists>k. harvest_outer ge now m base n q w = Inr (w\<lparr>gw_samples := k\<rparr>)"
proof (induction q arbitrary: w)
  case 0
  show ?case by (intro exI [of _ "gw_samples w"]) simp
next
  case (Suc q)
  obtain k where K: "harvest_inner ge now m base 0 n w = Inr (w\<lparr>gw_samples := k\<rparr>)"
    using harvest_inner_known [of base 0 n m w ge now] Suc.prems by auto
  obtain k' where "harvest_outer ge now m base n q (w\<lparr>gw_samples := k\<rparr>) = Inr (w\<lparr>gw_samples := k, gw_samples := k'\<rparr>)"
    using Suc.IH [of "w\<lparr>gw_samples := k\<rparr>"] Suc.prems by auto
  with K show ?case by (intro exI [of _ k']) simp
qed

lemma harvest_outer_ok:
  assumes "ga_env_ok ge" and "base + 30 * n \<le> length m" and "length (gw_known_addrs w) + n \<le> 1000"
    and "F = fresh_addrs (fst ` set (gw_known_addrs w)) (public_entries m base 0 n)" and "can_write (38 * length F) w"
  shows "\<exists>w'. harvest_outer ge now m base n n w = Inr w' \<and> map fst (gw_known_addrs w') = rev F @ map fst (gw_known_addrs w) \<and>
    so_written (gw_control w') = so_written (gw_control w) @ concat (map connect_frame F) \<and> gw_known_hids w' = gw_known_hids w"
proof (cases n)
  case 0
  with assms(4) show ?thesis by (simp add: public_entries_def)
next
  case (Suc q)
  have b: "base + 30 * (0 + n) \<le> length m" "can_write (38 * length F + 0) w" using assms(2,5) by simp_all
  obtain w1 where W: "harvest_inner ge now m base 0 n w = Inr w1" "map fst (gw_known_addrs w1) = rev F @ map fst (gw_known_addrs w)"
    "so_written (gw_control w1) = so_written (gw_control w) @ concat (map connect_frame F)" "gw_known_hids w1 = gw_known_hids w"
    using harvest_inner_ok [OF assms(1) b(1) assms(3,4) b(2), of now] by blast
  have "set (public_entries m base 0 n) \<subseteq> fst ` set (gw_known_addrs w1)"
    using arg_cong [OF W(2), of set] set_fresh_addrs [of "fst ` set (gw_known_addrs w)" "public_entries m base 0 n"] assms(4) by auto
  from harvest_outer_known [OF assms(2) this, of ge now q] obtain k where "harvest_outer ge now m base n q w1 = Inr (w1\<lparr>gw_samples := k\<rparr>)" by blast
  with W Suc have "harvest_outer ge now m base n n w = Inr (w1\<lparr>gw_samples := k\<rparr>)" by simp
  with W(2-4) show ?thesis by simp
qed


section \<open>Concrete runs\<close>

definition demo_ge :: ga_env where
  "demo_ge = \<lparr>ga_env = demo_env, ga_uid = (\<lambda>n b. b), ga_sample = (\<lambda>n. False)\<rparr>"

definition demo_control :: sock_out where
  "demo_control = \<lparr>so_script = WriteErr EINTR # replicate 200 (WriteOk 7), so_written = []\<rparr>"

definition demo_addr :: sockaddr_in where
  "demo_addr = \<lparr>sin_s_addr = 0x08080808, sin_sport = 0x8d20\<rparr>"

lemma demo_ge_ok: "ga_env_ok demo_ge" "0 < e_ps (ga_env demo_ge)" "ga_env demo_ge = demo_env"
  by (simp_all add: ga_env_ok_def demo_ge_def demo_env_def)

lemma demo_can_write: "n \<le> 200 \<Longrightarrow> gw_control w = demo_control \<Longrightarrow> can_write n w"
proof -
  have "blocking (replicate k (WriteOk 7))" "room (replicate k (WriteOk 7)) = k" for k by (induction k) simp_all
  then show "n \<le> 200 \<Longrightarrow> gw_control w = demo_control \<Longrightarrow> can_write n w" by (simp add: can_write_def demo_control_def)
qed


text \<open>A connection opens at time 1 and is asked ten seconds later.\<close>

lemma demo_connected:
  obtains w where "ga_reach demo_ge [] 1 [] w" and "map_of (gw_known_hids w) 3 = Some (hid_new 1 3 demo_addr demo_addr (ga_init demo_control))"
    and "gw_pending_getaddrs w = []" and "gw_current_getaddr w = 1"
proof -
  let ?ini = "ga_init demo_control" and ?one = "(ga_init demo_control)\<lparr>gw_known_addrs := [(demo_addr, 3)]\<rparr>"
  have R0: "ga_reach demo_ge [] 1 [] ?ini" by (rule ga_reach.start) simp
  obtain c where C: "cxn_new demo_ge 1 demo_addr CONNECTED ?one = Inr (c, ?one)"
  proof -
    have a: "length (sockaddr_bytes demo_addr) = 16" by (simp add: sockaddr_bytes_def)
    obtain b where B: "cn_new (e_ps (ga_env demo_ge)) (sockaddr_bytes demo_addr) (zeros 16) = Inr b" "em_holds b CONNECT (sockaddr_bytes demo_addr @ zeros 16)"
      using connect_frames.make_holds [of "e_ps (ga_env demo_ge)" "(sockaddr_bytes demo_addr, zeros 16)"] demo_ge_ok(2) a by auto
    show thesis by (rule that) (use B(1) em_serialize_holds [OF B(2)] in \<open>simp add: cxn_new_def cxn_timer_cb_def Let_def\<close>)
  qed
  let ?w = "?one\<lparr>gw_cxns := [(demo_addr, c)], gw_known_hids := [(3, hid_new 1 3 demo_addr demo_addr ?ini)]\<rparr>"
  have S: "ga_step demo_ge [] 1 (Ga_Connect 3 demo_addr demo_addr) ?ini = Inr ?w"
    using C by (simp add: ga_on_connect_def ga_init_def hid_new_def hid_enqueue_def)
  have "ga_reach demo_ge [] 1 (ga_collected (Ga_Connect 3 demo_addr demo_addr) ?ini ?w []) ?w"
    by (rule ga_reach.step [OF R0 order_refl _ S]) simp
  then show thesis by (intro that [of ?w]) (simp_all add: ga_init_def)
qed


text \<open>An address whose first attempt fails.\<close>

lemma demo_disconnected:
  obtains w c where "ga_reach demo_ge [] 1 [] w" and "map_of (gw_cxns w) demo_addr = Some c" and "cx_state c = DISCONNECTED" and "can_write 38 w"
proof -
  let ?ini = "ga_init demo_control" and ?one = "ga_log DEBUG [ascii ''Somehow we got a disconnect for a connection we did not know about to '',
    e_show (ga_env demo_ge) (sockaddr_bytes demo_addr)] ((ga_init demo_control)\<lparr>gw_known_addrs := [(demo_addr, NOT 0)]\<rparr>)"
  have R0: "ga_reach demo_ge [] 1 [] ?ini" by (rule ga_reach.start) simp
  have cw: "can_write (38 + 38) ?one" by (rule demo_can_write) (simp_all add: ga_log_def ga_init_def)
  obtain c v where C: "cxn_new demo_ge 1 demo_addr DISCONNECTED ?one = Inr (c, v)" "can_write 38 v" "gw_known_addrs v = gw_known_addrs ?one"
    "gw_known_hids v = gw_known_hids ?one" by (rule cxn_new_total [OF demo_ge_ok(1) cw])
  have ok: "cx_ok 1 c \<and> same_but_cxn ?one v" by (rule cxn_new_ok [OF demo_ge_ok(1) _ _ C(1)]) simp_all
  let ?w = "v\<lparr>gw_cxns := [(demo_addr, c)]\<rparr>"
  have S: "ga_step demo_ge [] 1 (Ga_Disconnect 3 demo_addr) ?ini = Inr ?w"
    using C(1,4) ok by (simp add: ga_on_disconnect_def ga_init_def same_but_cxn_def ga_log_def)
  have R1: "ga_reach demo_ge [] 1 [] ?w" using ga_reach.step [OF R0 order_refl _ S] by simp
  obtain c' v' where T: "cxn_set_state demo_ge 1 DISCONNECTED c (?w\<lparr>gw_known_addrs := AList.update demo_addr (NOT 0) (gw_known_addrs ?w)\<rparr>) = (c', v')" by fastforce
  then have t: "cx_state c' = DISCONNECTED" "gw_control v' = gw_control v"
    by (auto simp: cxn_set_state_def set_reconnect_timer_def Let_def split: if_splits)
  let ?u = "v'\<lparr>gw_cxns := AList.update demo_addr c' (gw_cxns v'), gw_known_hids := AList.delete 3 (gw_known_hids v')\<rparr>"
  have S2: "ga_step demo_ge [] 1 (Ga_Disconnect 3 demo_addr) ?w = Inr ?u" using T by (simp add: ga_on_disconnect_def)
  have "ga_reach demo_ge [] 1 [] ?u" using ga_reach.step [OF R1 order_refl _ S2] by simp
  then show thesis by (rule that [of _ c']) (use t C(2) in \<open>simp_all add: update_conv' can_write_def\<close>)
qed

theorem crawler_backoff_witness:
  "\<exists>w c t. ga_reach demo_ge [] 1 [] w \<and> map_of (gw_cxns w) demo_addr = Some c \<and> cx_state c = DISCONNECTED \<and> cx_timer c = Some t \<and> t \<le> 1 + 5 * (2 ^ 14 - 1)"
proof -
  obtain w c where W: "ga_reach demo_ge [] 1 [] w" "map_of (gw_cxns w) demo_addr = Some c" "cx_state c = DISCONNECTED" "can_write 38 w" by (rule demo_disconnected)
  from crawler_backoff [OF demo_ge_ok(1) W(1,2)] W(3) obtain t where "cx_timer c = Some t" "t \<le> 1 + 5 * (2 ^ 14 - 1)" by auto
  with W show ?thesis by blast
qed


definition demo_addr_record :: "byte list" where
  "demo_addr_record = zeros 13 @ [0, 0, 0, 3] @ [0] @ zeros 4 @ ascii ''addr'' @ zeros 8 @ zeros 8 @ [1] @ zeros 24 @ [8, 8, 8, 8, 0x20, 0x8d]"


end
