(* ===== verification/Verbatim.thy ===== *)
theory Verbatim
  imports Input_Cxn
begin

text \<open>
  The log client that keeps the log (\<^verbatim>\<open>logclient/verbatim.cpp\<close>): it reads the records the log server sends
  and appends each of them, with its length in front, to a file. Two signals rotate the file: after
  \<^verbatim>\<open>SIGUSR1\<close> it is closed and nothing is written until \<^verbatim>\<open>SIGUSR2\<close> says that it has been moved away, then it
  is opened, and created, again.
  The model keeps the file as the bytes handed to the stream; what a crash leaves of them is the
  subject of \<^verbatim>\<open>Log_Tools\<close>. When signals arrive, and whether the file has been moved and can be
  opened, is given for each iteration of the loop; the answers of the socket are a script as everywhere.
\<close>

section \<open>Signals and the file\<close>

datatype signal = SIGUSR1 | SIGUSR2

record vlog =
  v_prerotate :: bool
  v_postrotate :: bool
  v_log :: "byte list"
  v_moved :: "byte list list"

definition sigusr :: "signal \<Rightarrow> vlog \<Rightarrow> vlog" where
  "sigusr num v = (case num of SIGUSR1 \<Rightarrow> v\<lparr>v_prerotate := True\<rparr> | SIGUSR2 \<Rightarrow> v\<lparr>v_postrotate := True\<rparr>)"

definition print_message :: "vbuf \<Rightarrow> nat \<Rightarrow> vlog \<Rightarrow> vlog res" where
  "print_message input_buf cursor v =
     bindR (vb_const_ptr input_buf) (\<lambda>m.
     bindR (rd m 0 cursor) (\<lambda>bs.
     Inr (v\<lparr>v_log := v_log v @ bs\<rparr>)))"

text \<open>
  \<open>moved\<close>: the file of this name has been moved away since it was closed, so an empty one is created;
  otherwise the stream is positioned at the end of what is there. A file that cannot be opened
  ends in \<^verbatim>\<open>abort\<close>, as a failed assertion does.
\<close>

definition open_log :: "bool \<Rightarrow> bool \<Rightarrow> vlog \<Rightarrow> vlog res" where
  "open_log moved opens v =
     (if opens then Inr (if moved then v\<lparr>v_log := [], v_moved := v_moved v @ [v_log v]\<rparr> else v) else Inl Assert_Fail)"

text \<open>One iteration's environment: the signals before the test, and those during the wait.\<close>

record iter_ev =
  ie_signals :: "signal list"
  ie_wait :: "signal list"
  ie_moved :: bool
  ie_opens :: bool

definition quiet :: iter_ev where
  "quiet = \<lparr>ie_signals = [], ie_wait = [], ie_moved = False, ie_opens = True\<rparr>"

fun next_ev :: "iter_ev list \<Rightarrow> iter_ev \<times> iter_ev list" where
  "next_ev [] = (quiet, [])"
| "next_ev (e # es) = (e, es)"

text \<open>The wait for \<^verbatim>\<open>SIGUSR2\<close>; \<open>None\<close> when it does not come.\<close>

fun await_post :: "signal list \<Rightarrow> vlog \<Rightarrow> vlog option" where
  "await_post [] v = (if v_postrotate v then Some v else None)"
| "await_post (x # xs) v = (if v_postrotate v then Some v else await_post xs (sigusr x v))"

definition v_rotate :: "iter_ev \<Rightarrow> vlog \<Rightarrow> vlog option res" where
  "v_rotate e v =
     (let v1 = fold sigusr (ie_signals e) v in
      if v_prerotate v1 then
        case await_post (ie_wait e) v1 of
          None \<Rightarrow> Inr None
        | Some v2 \<Rightarrow>
            bindR (open_log (ie_moved e) (ie_opens e) v2) (\<lambda>v3.
            Inr (Some (v3\<lparr>v_prerotate := False, v_postrotate := False\<rparr>)))
      else Inr (Some v1))"

section \<open>The loop\<close>

definition v_complete :: "(bool \<times> vlog) complete" where
  "v_complete st cursor input_buf =
     (case st of (reading_len, v) \<Rightarrow>
        if reading_len then
          bindR (vb_const_ptr input_buf) (\<lambda>m.
          bindR (rd m 0 4) (\<lambda>netlen.
          Inr ((False, v), Extend (unat (ntoh32 (get32 netlen))))))
        else
          bindR (print_message input_buf cursor v) (\<lambda>v'.
          Inr ((True, v'), Restart 4)))"

text \<open>How the program ends: at the end of the stream, on an error, or not, because it waits.\<close>

datatype v_exit = Exit_Success | Exit_Failure errno | Sleeping

definition v_verdict :: "io_ret \<Rightarrow> v_exit option" where
  "v_verdict r =
     (case r of
        IOk k \<Rightarrow> if k = 0 then Some Exit_Success else None
      | IErr e \<Rightarrow> if e = EINTR then None else Some (Exit_Failure e))"

lemma v_verdict_None: "v_verdict r = None \<longleftrightarrow> positive r \<or> r = IErr EINTR"
  by (cases r) (auto simp: v_verdict_def)

lemma sys_recv_length: "sys_recv n s = ((r, bs), s') \<Longrightarrow> length s' \<le> length s \<and> (r = IErr EINTR \<longrightarrow> length s' < length s)"
  by (cases "(n, s)" rule: sys_recv.cases) (auto split: if_splits)

lemma rb_do_read_length:
  assumes "rb_do_read ps rb s = Inr ((r, d), rb', s')"
  shows "length s' \<le> length s" and "r = IErr EINTR \<Longrightarrow> load rb' s' \<le> load rb s \<and> length s' < length s"
proof -
  have t: "total_in s1 \<le> total_in s \<and> (r = IErr e \<longrightarrow> bs = [])" if "sys_recv 4096 s = ((r, bs), s1)" for r bs s1 e
    by (rule sys_recv_cases [of 4096 s]) (use that in auto)
  show "length s' \<le> length s"
    using assms unfolding rb_do_read_def rb_do_read_n_def
    by (auto simp: res_simps Let_def dest: sys_recv_length split: if_splits prod.splits)
  show "load rb' s' \<le> load rb s \<and> length s' < length s" if "r = IErr EINTR"
    using assms that unfolding rb_do_read_def rb_do_read_n_def
    by (auto simp: res_simps Let_def load_def rb_pending_def dest: sys_recv_length t split: if_splits prod.splits)
qed

lemma rb_do_read_progress:
  assumes "rb_do_read ps rb s = Inr (res, rb', s')" and "v_verdict (fst res) = None"
  shows "load rb' s' + length s' < load rb s + length s"
proof -
  obtain r d where r: "res = (r, d)" by fastforce
  note L = rb_do_read_length [OF assms(1) [unfolded r]]
  from assms(2) r consider "positive r" | "r = IErr EINTR" by (auto simp: v_verdict_None)
  then show ?thesis
  proof cases
    case 1
    with rb_do_read_consumes(2) [OF assms(1) [unfolded r]] L(1) show ?thesis by simp
  next
    case 2
    with L(2) show ?thesis by simp
  qed
qed

function v_loop :: "nat \<Rightarrow> iter_ev list \<Rightarrow> bool \<times> vlog \<Rightarrow> rbuf \<Rightarrow> sock_in \<Rightarrow> (v_exit \<times> (bool \<times> vlog) \<times> sock_in) res" where
  "v_loop ps es st rb s =
     bindR (rb_do_read ps rb s) (\<lambda>(res, rb1, s1).
     case v_verdict (fst res) of
       Some x \<Rightarrow> Inr (x, st, s1)
     | None \<Rightarrow>
         bindR (v_rotate (fst (next_ev es)) (snd st)) (\<lambda>o1.
         case o1 of
           None \<Rightarrow> Inr (Sleeping, st, s1)
         | Some v1 \<Rightarrow>
             if \<not> rb_hungry rb1 then
               bindR (v_complete (fst st, v1) (rb_cursor rb1) (rb_extract_buffer rb1)) (\<lambda>(st', cmd).
               bindR (apply_cmd cmd rb1) (\<lambda>rb2.
               v_loop ps (snd (next_ev es)) st' rb2 s1))
             else v_loop ps (snd (next_ev es)) (fst st, v1) rb1 s1))"
  by pat_completeness auto
termination
  by (relation "measure (\<lambda>(_, _, _, rb, s). load rb s + length s)")
    (auto dest!: apply_cmd_load rb_do_read_progress simp del: apply_cmd.simps)

declare v_loop.simps [simp del]

text \<open>The program: the file is opened, and the first thing to read is a length.\<close>

definition v_main :: "nat \<Rightarrow> bool \<Rightarrow> iter_ev list \<Rightarrow> vlog \<Rightarrow> sock_in \<Rightarrow> (v_exit \<times> (bool \<times> vlog) \<times> sock_in) res" where
  "v_main ps opens es v s = bindR (open_log False opens v) (\<lambda>v'. v_loop ps es (True, v') (rb_new ps 4) s)"

section \<open>The loop keeps whole records\<close>

definition log_bytes :: "byte list list \<Rightarrow> byte list" where
  "log_bytes rs = concat (map enc_frame rs)"

lemma log_bytes_simps [simp]: "log_bytes [] = []" "log_bytes (r # rs) = enc_frame r @ log_bytes rs"
  "log_bytes (rs @ qs) = log_bytes rs @ log_bytes qs"
  by (simp_all add: log_bytes_def)

text \<open>The bytes of a script, across interruptions, and a script that ends with the end of the stream.\<close>

fun all_in :: "sock_in \<Rightarrow> byte list" where
  "all_in [] = []"
| "all_in (RecvErr e # s) = all_in s"
| "all_in (RecvData bs # s) = bs @ all_in s"

fun served :: "sock_in \<Rightarrow> bool" where
  "served [] = False"
| "served (RecvErr e # s) = (e = EINTR \<and> served s)"
| "served (RecvData bs # s) = (if bs = [] then s = [] else served s)"

lemma all_in_stop: "all_in s = avail s @ all_in (snd (stop_ret s))"
  by (induction s rule: all_in.induct) auto

lemma served_stop: "served s \<Longrightarrow> stop_ret s = (IOk 0, []) \<or> (\<exists>s'. stop_ret s = (IErr EINTR, s') \<and> served s')"
  by (induction s rule: served.induct) (auto split: if_splits)

lemma sys_recv_served: "served s \<Longrightarrow> sys_recv n s = ((r, bs), s') \<Longrightarrow> bs \<noteq> [] \<Longrightarrow> served s'"
  by (cases "(n, s)" rule: sys_recv.cases) (auto split: if_splits)

lemma rb_do_read_served:
  assumes "served s" and "rb_do_read ps rb s = Inr ((IOk k, d), rb', s')" and "0 < k"
  shows "served s'"
proof -
  have "k = 0" if "sys_recv 4096 s = ((IOk k, []), s1)" for k s1
    by (rule sys_recv_cases [of 4096 s]) (use that in auto)
  with assms show ?thesis unfolding rb_do_read_def rb_do_read_n_def
    by (auto simp: res_simps Let_def split: if_splits prod.splits dest: sys_recv_served)
qed

text \<open>
  \<open>todo\<close> is what is still to be written, the record that is being read included. The read buffer holds a
  first part of it, the socket the rest.
\<close>

definition v_read :: "byte list list \<Rightarrow> bool \<Rightarrow> rbuf \<Rightarrow> sock_in \<Rightarrow> bool" where
  "v_read todo reading_len rb s \<longleftrightarrow>
     served s \<and> 0 < vb_allocated (rb_buffer rb) \<and> rb_cursor rb \<le> vb_allocated (rb_buffer rb) \<and>
     take (rb_cursor rb) (vb_bytes (rb_buffer rb)) = take (rb_cursor rb) (log_bytes todo) \<and>
     rb_pending rb @ all_in s = drop (rb_cursor rb) (log_bytes todo) \<and>
     rb_cursor rb \<le> length (log_bytes todo) \<and>
     (if reading_len then rb_cursor rb + rb_to_read rb = 4
      else todo \<noteq> [] \<and> 4 \<le> rb_cursor rb \<and> rb_cursor rb + rb_to_read rb = 4 + length (hd todo))"

definition v_files :: "byte list list \<Rightarrow> byte list list \<Rightarrow> vlog \<Rightarrow> bool" where
  "v_files rs todo v \<longleftrightarrow> \<not> v_prerotate v \<and> (\<exists>rss. v_moved v @ [v_log v] = map log_bytes rss \<and> concat rss @ todo = rs)"

text \<open>An iteration that opens the file and does not wait for ever.\<close>

definition iter_ok :: "iter_ev \<Rightarrow> bool" where
  "iter_ok e \<longleftrightarrow> ie_opens e \<and> (SIGUSR1 \<in> set (ie_signals e) \<longrightarrow> SIGUSR2 \<in> set (ie_wait e))"

lemma sigusr_log [simp]: "v_log (sigusr x v) = v_log v" "v_moved (sigusr x v) = v_moved v"
  "v_prerotate (sigusr x v) \<longleftrightarrow> v_prerotate v \<or> x = SIGUSR1" "v_postrotate (sigusr x v) \<longleftrightarrow> v_postrotate v \<or> x = SIGUSR2"
  by (cases x; simp add: sigusr_def)+

lemma fold_sigusr: "v_log (fold sigusr xs v) = v_log v" "v_moved (fold sigusr xs v) = v_moved v"
  "v_prerotate (fold sigusr xs v) \<longleftrightarrow> v_prerotate v \<or> SIGUSR1 \<in> set xs"
  by (induction xs arbitrary: v) auto

lemma await_post_ok: "SIGUSR2 \<in> set xs \<Longrightarrow> \<exists>v'. await_post xs v = Some v' \<and> v_log v' = v_log v \<and> v_moved v' = v_moved v"
proof (induction xs arbitrary: v)
  case (Cons x xs)
  show ?case
  proof (cases "x = SIGUSR2 \<or> v_postrotate v")
    case True
    then show ?thesis by (cases xs) auto
  next
    case False
    with Cons.prems have "SIGUSR2 \<in> set xs" by auto
    from Cons.IH [OF this, of "sigusr x v"] False show ?thesis by simp
  qed
qed simp

lemma v_rotate_ok:
  assumes "iter_ok e" and "v_files rs todo v"
  obtains v' where "v_rotate e v = Inr (Some v')" "v_files rs todo v'"
proof (cases "SIGUSR1 \<in> set (ie_signals e)")
  case False
  with assms(2) have "v_rotate e v = Inr (Some (fold sigusr (ie_signals e) v))" "v_files rs todo (fold sigusr (ie_signals e) v)"
    by (simp_all add: v_rotate_def v_files_def fold_sigusr)
  then show thesis by (rule that)
next
  case True
  let ?v = "fold sigusr (ie_signals e) v"
  from assms(1) True have w: "SIGUSR2 \<in> set (ie_wait e)" "ie_opens e" by (auto simp: iter_ok_def)
  obtain v2 where v2: "await_post (ie_wait e) ?v = Some v2" "v_log v2 = v_log v" "v_moved v2 = v_moved v"
    using await_post_ok [OF w(1), of ?v] by (auto simp: fold_sigusr)
  let ?v3 = "(if ie_moved e then v2\<lparr>v_log := [], v_moved := v_moved v2 @ [v_log v2]\<rparr> else v2)\<lparr>v_prerotate := False, v_postrotate := False\<rparr>"
  obtain rss where r: "v_moved v @ [v_log v] = map log_bytes rss" "concat rss @ todo = rs" using assms(2) by (auto simp: v_files_def)
  have "v_rotate e v = Inr (Some ?v3)" using True v2(1) w(2) by (simp add: v_rotate_def open_log_def fold_sigusr)
  moreover have "v_files rs todo ?v3"
    unfolding v_files_def
    by (intro conjI exI [of _ "if ie_moved e then rss @ [[]] else rss"]) (use r v2 in simp_all)
  ultimately show thesis by (rule that)
qed

lemma v_read_step:
  assumes "0 < ps" and "v_read todo reading_len rb s" and "0 < rb_to_read rb"
  shows "(\<exists>d rb1. rb_do_read ps rb s = Inr ((IOk 0, d), rb1, []) \<and> todo = [] \<and> reading_len) \<or>
    (\<exists>res rb1 s1. rb_do_read ps rb s = Inr (res, rb1, s1) \<and> v_verdict (fst res) = None \<and> v_read todo reading_len rb1 s1)"
proof -
  let ?c = "rb_cursor rb" and ?n = "rb_to_read rb" and ?L = "log_bytes todo"
  have I: "served s" "0 < vb_allocated (rb_buffer rb)" "?c \<le> vb_allocated (rb_buffer rb)"
    "take ?c (vb_bytes (rb_buffer rb)) = take ?c ?L" "rb_pending rb @ all_in s = drop ?c ?L" "?c \<le> length ?L"
    "if reading_len then ?c + ?n = 4 else todo \<noteq> [] \<and> 4 \<le> ?c \<and> ?c + ?n = 4 + length (hd todo)"
    using assms(2) by (simp_all add: v_read_def)
  have cn: "0 < ?c + ?n" "?c \<le> ?c + ?n" using assms(3) by simp_all
  obtain buf where R: "vb_realloc ps (?c + ?n) (rb_buffer rb) = Inr buf" "take ?c (vb_bytes buf) = take ?c (vb_bytes (rb_buffer rb))"
    using vb_realloc_ok [OF assms(1) I(2) cn(1) I(3) cn(2)] by blast
  note A = vb_allocated_realloc [OF assms(1) R(1)]
  show ?thesis
  proof (cases "rb_pending rb @ avail s = []")
    case True
    then have e: "rb_pending rb = []" "avail s = []" by simp_all
    obtain r s' where S: "stop_ret s = (r, s')" by fastforce
    note D = rb_do_read_stop [OF assms(1) R(1) e S]
    have al: "all_in s = all_in s'" using all_in_stop [of s] e(2) S by simp
    consider "r = IOk 0" "s' = []" | "r = IErr EINTR" "served s'" using served_stop [OF I(1)] S by auto
    then show ?thesis
    proof cases
      case 1
      have "length ?L \<le> ?c" using I(5) e(1) al 1(2) by simp
      then have "todo = []" using I(7) assms(3) by (cases todo) (auto split: if_splits)
      with 1 D I(7) show ?thesis by auto
    next
      case 2
      have "0 < vb_allocated buf" using A cn(1) by linarith
      then have "v_read todo reading_len (rb\<lparr>rb_buffer := buf, rb_recv := [], rb_loc := 0\<rparr>) s'"
        using I R(2) A al e(1) 2(2) by (simp add: v_read_def rb_pending_def)
      with D 2(1) show ?thesis by (auto simp: v_verdict_def)
    qed
  next
    case False
    show ?thesis
    proof (rule rb_do_read_data [OF assms(1) R(1) assms(3) False])
      fix k buf' rb1 s1
      assume D: "rb_do_read ps rb s = Inr ((IOk k, ?n = k), rb1, s1)" "0 < k" "k \<le> ?n"
        and r: "rb_cursor rb1 = ?c + k" "rb_to_read rb1 = ?n - k" "rb_buffer rb1 = buf'"
        and W: "vb_write buf ?c (take k (rb_pending rb @ avail s)) = Inr buf'"
        and P: "rb_pending rb1 @ avail s1 = drop k (rb_pending rb @ avail s)" "k \<le> length (rb_pending rb @ avail s)" "stop_ret s1 = stop_ret s"
      let ?x = "rb_pending rb @ avail s" and ?rest = "all_in (snd (stop_ret s))"
      have dL: "drop ?c ?L = ?x @ ?rest" using I(5) all_in_stop [of s] by simp
      have "rb_pending rb1 @ all_in s1 = drop k ?x @ ?rest" using all_in_stop [of s1] P(1,3) by (metis append.assoc)
      also have "\<dots> = drop k (drop ?c ?L)" using dL P(2) by simp
      also have "\<dots> = drop (?c + k) ?L" by (simp add: add.commute)
      finally have p: "rb_pending rb1 @ all_in s1 = drop (?c + k) ?L" .
      have "take k (drop ?c ?L) = take k ?x" using dL P(2) by simp
      then have t: "take (?c + k) ?L = take ?c ?L @ take k ?x" by (simp add: take_add)
      have lx: "length (take k ?x) = k" using P(2) by simp
      have tb: "take (?c + k) (vb_bytes buf') = take (?c + k) ?L" using vb_write_take [OF W] unfolding lx R(2) I(4) t .
      have "length (drop ?c ?L) = length ?x + length ?rest" using dL by simp
      then have "?c + k \<le> length ?L" using P(2) I(6) by simp
      with p tb r D(2,3) I vb_write_allocated [OF W] A rb_do_read_served [OF I(1) D(1,2)] have "v_read todo reading_len rb1 s1"
        by (auto simp: v_read_def)
      with D show ?thesis by (auto simp: v_verdict_def)
    qed
  qed
qed

lemma v_complete_ok:
  assumes "v_read todo reading_len rb s" and "rb_to_read rb = 0" and "v_files rs todo v" and "\<forall>r\<in>set todo. r \<noteq> [] \<and> length r < 2 ^ 32"
  obtains reading_len' v' cmd rb' todo' where
    "v_complete (reading_len, v) (rb_cursor rb) (rb_buffer rb) = Inr ((reading_len', v'), cmd)" "apply_cmd cmd rb = Inr rb'"
    "v_read todo' reading_len' rb' s" "0 < rb_to_read rb'" "v_files rs todo' v'" "set todo' \<subseteq> set todo"
proof -
  let ?c = "rb_cursor rb" and ?m = "vb_bytes (rb_buffer rb)" and ?L = "log_bytes todo"
  have I: "served s" "0 < vb_allocated (rb_buffer rb)" "?c \<le> vb_allocated (rb_buffer rb)"
    "take ?c ?m = take ?c ?L" "rb_pending rb @ all_in s = drop ?c ?L" "?c \<le> length ?L"
    using assms(1) by (simp_all add: v_read_def)
  have m: "vb_const_ptr (rb_buffer rb) = Inr ?m" "rd ?m 0 ?c = Inr (take ?c ?L)"
    using I(2-4) by (auto simp: vb_const_ptr_def vb_allocated_def rd_def)
  have "todo \<noteq> []" using assms(1,2) I(6) by (auto simp: v_read_def split: if_splits)
  then obtain r rest where t: "todo = r # rest" by (cases todo) auto
  have r: "r \<noteq> []" "length r < 2 ^ 32" using assms(4) t by auto
  show thesis
  proof (cases reading_len)
    case True
    then have c: "?c = 4" using assms(1,2) by (simp add: v_read_def)
    have n: "take 4 ?L = be32 (of_nat (length r))" unfolding t by (simp add: enc_frame_def)
    show thesis
    proof (rule that)
      show "v_complete (reading_len, v) ?c (rb_buffer rb) = Inr ((False, v), Extend (length r))"
        using True m c n get_frame_length [OF r(2)] by (simp add: v_complete_def)
      show "apply_cmd (Extend (length r)) rb = Inr (rb_set_to_read (length r) rb)" by simp
      show "v_read todo False (rb_set_to_read (length r) rb) s" using I c t by (simp add: v_read_def rb_set_to_read_def rb_pending_def)
    qed (use r(1) assms(3) in \<open>simp_all add: rb_set_to_read_def\<close>)
  next
    case False
    then have c: "?c = length (enc_frame r)" using assms(1,2) t by (simp add: v_read_def)
    let ?v = "v\<lparr>v_log := v_log v @ enc_frame r\<rparr>"
    obtain rss where f: "\<not> v_prerotate v" "v_moved v @ [v_log v] = map log_bytes rss" "concat rss @ todo = rs"
      using assms(3) by (auto simp: v_files_def)
    then obtain xs ys where x: "rss = xs @ [ys]" "v_moved v = map log_bytes xs" "v_log v = log_bytes ys"
      by (cases rss rule: rev_cases) auto
    show thesis
    proof (rule that)
      have "print_message (rb_buffer rb) ?c v = Inr ?v"
        unfolding print_message_def m(1) bindR.simps m(2) by (simp add: c t del: length_enc_frame)
      then show "v_complete (reading_len, v) ?c (rb_buffer rb) = Inr ((True, ?v), Restart 4)" using False by (simp add: v_complete_def)
      show "apply_cmd (Restart 4) rb = Inr (rb\<lparr>rb_cursor := 0, rb_to_read := 4\<rparr>)"
        using I(2) by (simp add: rb_set_cursor_def rb_set_to_read_def)
      show "v_read rest True (rb\<lparr>rb_cursor := 0, rb_to_read := 4\<rparr>) s"
        using I(1,2,5) c t by (simp add: v_read_def rb_pending_def del: length_enc_frame)
      show "v_files rs rest ?v" unfolding v_files_def
        by (intro conjI exI [of _ "xs @ [ys @ [r]]"]) (use f x t in simp_all)
    qed (use t in auto)
  qed
qed

lemma v_loop_ok:
  assumes "0 < ps"
  shows "\<forall>e\<in>set es. iter_ok e \<Longrightarrow> v_read todo reading_len rb s \<Longrightarrow> 0 < rb_to_read rb \<Longrightarrow> v_files rs todo v \<Longrightarrow>
    \<forall>r\<in>set todo. r \<noteq> [] \<and> length r < 2 ^ 32 \<Longrightarrow>
    \<exists>v'. v_loop ps es (reading_len, v) rb s = Inr (Exit_Success, (True, v'), []) \<and> v_files rs [] v'"
proof (induction "load rb s + length s" arbitrary: es todo reading_len v rb s rule: less_induct)
  case less
  have e: "iter_ok (fst (next_ev es))" "\<forall>e\<in>set (snd (next_ev es)). iter_ok e"
    using less.prems(1) by (cases es; simp add: iter_ok_def quiet_def)+
  from v_read_step [OF assms less.prems(2,3)] show ?case
  proof (elim disjE exE conjE)
    fix d rb1 assume "rb_do_read ps rb s = Inr ((IOk 0, d), rb1, [])" "todo = []" "reading_len"
    with less.prems(4) show ?thesis by (simp add: v_loop.simps [of ps es _ rb s] v_verdict_def)
  next
    fix res rb1 s1 assume D: "rb_do_read ps rb s = Inr (res, rb1, s1)" "v_verdict (fst res) = None" and R: "v_read todo reading_len rb1 s1"
    note P = rb_do_read_progress [OF D]
    obtain v1 where V: "v_rotate (fst (next_ev es)) v = Inr (Some v1)" "v_files rs todo v1" by (rule v_rotate_ok [OF e(1) less.prems(4)])
    show ?thesis
    proof (cases "rb_to_read rb1 = 0")
      case False
      with less.hyps [OF P e(2) R _ V(2) less.prems(5)] D V(1) show ?thesis
        by (simp add: v_loop.simps [of ps es _ rb s] rb_hungry_def)
    next
      case True
      from v_complete_ok [OF R True V(2) less.prems(5)] obtain reading_len' v' cmd rb' todo' where
        C: "v_complete (reading_len, v1) (rb_cursor rb1) (rb_buffer rb1) = Inr ((reading_len', v'), cmd)" "apply_cmd cmd rb1 = Inr rb'"
          "v_read todo' reading_len' rb' s1" "0 < rb_to_read rb'" "v_files rs todo' v'" "set todo' \<subseteq> set todo" .
      have P': "load rb' s1 + length s1 < load rb s + length s" using P apply_cmd_load [OF C(2)] by simp
      have t: "\<forall>r\<in>set todo'. r \<noteq> [] \<and> length r < 2 ^ 32" using less.prems(5) C(6) by blast
      show ?thesis using less.hyps [OF P' e(2) C(3,4,5) t] D V(1) C(1,2) True
        by (simp add: v_loop.simps [of ps es _ rb s] rb_hungry_def rb_extract_buffer_def)
    qed
  qed
qed

section \<open>The files at the end\<close>

text \<open>
  However the stream of records is cut and interrupted by signals, and whenever the file is rotated, the
  program ends with the stream, and the files it leaves, in order, hold all records, each with its
  length in front: every file a sequence of whole records, none of them lost, written twice or
  split between two files.
\<close>

lemma verbatim_keeps_records:
  assumes "0 < ps" and "\<forall>e\<in>set es. iter_ok e"
    and "served s" and "all_in s = log_bytes rs" and "\<forall>r\<in>set rs. r \<noteq> [] \<and> length r < 2 ^ 32"
    and "\<not> v_prerotate v" and "v_log v = log_bytes old" and "v_moved v = []"
  shows "\<exists>v' rss. v_main ps True es v s = Inr (Exit_Success, (True, v'), []) \<and>
    v_moved v' @ [v_log v'] = map log_bytes rss \<and> concat rss = old @ rs"
proof -
  have "v_files (old @ rs) rs v" unfolding v_files_def
    by (intro conjI exI [of _ "[old]"]) (use assms(6-8) in simp_all)
  moreover have "v_read rs True (rb_new ps 4) s" using assms(1,3,4) rb_new_allocated by (simp add: v_read_def)
  ultimately show ?thesis
    using v_loop_ok [OF assms(1,2), of rs True "rb_new ps 4" s "old @ rs" v] assms(5)
    by (auto simp: v_main_def open_log_def v_files_def)
qed

definition demo_vlog :: vlog where
  "demo_vlog = \<lparr>v_prerotate = False, v_postrotate = False, v_log = [], v_moved = []\<rparr>"

end
