(* ===== verification/Log_Tools.thy ===== *)
theory Log_Tools
  imports Verbatim Logger
begin

text \<open>
  The programs that look after the files of the log: \<^verbatim>\<open>tools/src/logtruncate.cpp\<close> cuts off the incomplete record that
  a crash leaves at the end of a file, \<^verbatim>\<open>tools/src/logchecker.cpp\<close> tests whether the records of a file are plausible.
  A file is read through a descriptor with a position; \<^verbatim>\<open>read\<close> gives what is asked for and there,
  unless the script says that it gives less or fails. The results of \<^verbatim>\<open>stat\<close> and of the
  options are parameters.
\<close>

section \<open>Reading a file\<close>

datatype read_ev = ReadUpTo nat | ReadErr errno

record fdesc =
  fd_file :: "byte list"
  fd_pos :: nat
  fd_script :: "read_ev list"

definition give :: "nat \<Rightarrow> fdesc \<Rightarrow> (io_ret \<times> byte list) \<times> fdesc" where
  "give n fd =
     (let bs = take n (drop (fd_pos fd) (fd_file fd)) in
      ((IOk (length bs), bs), fd\<lparr>fd_pos := fd_pos fd + length bs, fd_script := tl (fd_script fd)\<rparr>))"

definition sys_read :: "nat \<Rightarrow> fdesc \<Rightarrow> (io_ret \<times> byte list) \<times> fdesc" where
  "sys_read n fd =
     (case fd_script fd of
        [] \<Rightarrow> give n fd
      | ReadUpTo k # _ \<Rightarrow> give (min k n) fd
      | ReadErr e # s \<Rightarrow> ((IErr e, []), fd\<lparr>fd_script := s\<rparr>))"

definition fd_open :: "read_ev list \<Rightarrow> byte list \<Rightarrow> fdesc" where
  "fd_open script file = \<lparr>fd_file = file, fd_pos = 0, fd_script = script\<rparr>"

lemma sys_read_IOk:
  assumes "sys_read n fd = ((IOk k, bs), fd')"
  shows "k = length bs" "k \<le> n" "fd_file fd' = fd_file fd" "fd_pos fd' = fd_pos fd + k" "bs = take k (drop (fd_pos fd) (fd_file fd))"
    "0 < k \<Longrightarrow> fd_pos fd' \<le> length (fd_file fd)" "fd_script fd' = tl (fd_script fd)"
  using assms by (auto simp: sys_read_def give_def Let_def min_def split: list.splits read_ev.splits if_splits)

section \<open>logtruncate\<close>

text \<open>
  The loop that reads a length. A second read that gives data writes in front of \<^verbatim>\<open>netlen\<close>, since the pointer
  is \<^verbatim>\<open>buf + remaining - 4\<close>. The result has the error, or \<^verbatim>\<open>remaining\<close> and \<^verbatim>\<open>netlen\<close>.
\<close>

function lt_read_len :: "nat \<Rightarrow> byte list \<Rightarrow> fdesc \<Rightarrow> ((errno + nat \<times> byte list) \<times> fdesc) res" where
  "lt_read_len remaining netlen fd =
     (case sys_read remaining fd of
        ((IErr e, _), fd1) \<Rightarrow> Inr (Inl e, fd1)
      | ((IOk k, bs), fd1) \<Rightarrow>
          if k = 0 then Inr (Inr (remaining, netlen), fd1)
          else if remaining < 4 then Inl Out_Of_Bounds
          else
            bindR (wr netlen (remaining - 4) bs) (\<lambda>netlen'.
            if remaining - k > 0 then lt_read_len (remaining - k) netlen' fd1 else Inr (Inr (0, netlen'), fd1)))"
  by pat_completeness auto
termination by (relation "measure (\<lambda>(n, _, _). n)") auto

declare lt_read_len.simps [simp del]

text \<open>\<^verbatim>\<open>lseek\<close> moves past the end of a file; an offset that does not fit \<^verbatim>\<open>off_t\<close> is an error, and not \<^verbatim>\<open>EINVAL\<close>.\<close>

definition lseek_cur :: "nat \<Rightarrow> fdesc \<Rightarrow> nat option" where
  "lseek_cur d fd = (if fd_pos fd + d < 2 ^ 63 then Some (fd_pos fd + d) else None)"

lemma lt_read_len_pos:
  "lt_read_len remaining netlen fd = Inr (Inr (0, netlen'), fd') \<Longrightarrow> 0 < remaining \<Longrightarrow>
   fd_pos fd < fd_pos fd' \<and> fd_pos fd' \<le> length (fd_file fd) \<and> fd_file fd' = fd_file fd"
proof (induction remaining netlen fd rule: lt_read_len.induct)
  case (1 remaining netlen fd)
  obtain r bs fd1 where S: "sys_read remaining fd = ((r, bs), fd1)" by (metis surj_pair)
  show ?case
  proof (cases r)
    case (IErr e)
    with 1 S show ?thesis by (simp add: lt_read_len.simps [of remaining netlen fd])
  next
    case (IOk k)
    note P = sys_read_IOk [OF S [unfolded IOk]]
    have k: "k \<noteq> 0" "\<not> remaining < 4" using 1(2,3) S IOk by (auto simp: lt_read_len.simps [of remaining netlen fd] split: if_splits)
    then obtain nl where W: "wr netlen (remaining - 4) bs = Inr nl"
      using 1(2) S IOk by (auto simp: lt_read_len.simps [of remaining netlen fd] bindR_Inr_iff)
    show ?thesis
    proof (cases "remaining - k > 0")
      case True
      then have L: "lt_read_len (remaining - k) nl fd1 = Inr (Inr (0, netlen'), fd')"
        using 1(2) S IOk k W by (simp add: lt_read_len.simps [of remaining netlen fd])
      show ?thesis using "1.IH" [OF S [symmetric] refl IOk k W True L True] P(3,4) k(1) by simp
    next
      case False
      then show ?thesis using 1(2) S IOk k W P(3,4,6) by (simp add: lt_read_len.simps [of remaining netlen fd])
    qed
  qed
qed

text \<open>
  The loop over the records; \<^verbatim>\<open>4 + ntoh(netlen)\<close> is a sum of 32 bits. After a failed \<^verbatim>\<open>lseek\<close> the loop goes on
  with the position \<open>-1\<close>, and the assertion fails. \<open>fresh\<close> is the memory of \<^verbatim>\<open>netlen\<close>.
\<close>

function lt_scan :: "byte list \<Rightarrow> nat \<Rightarrow> nat \<Rightarrow> fdesc \<Rightarrow> (errno + nat) res" where
  "lt_scan fresh actual size1 fd =
     bindR (lt_read_len 4 fresh fd) (\<lambda>(r, fd1).
     case r of
       Inl e \<Rightarrow> Inr (Inl e)
     | Inr (remaining, netlen) \<Rightarrow>
         if remaining > 0 then Inr (Inr size1)
         else
           let len = ntoh32 (get32 netlen) in
           case lseek_cur (unat len) fd1 of
             None \<Rightarrow> Inl Assert_Fail
           | Some sought \<Rightarrow>
               if sought > actual then Inr (Inr size1)
               else
                 bindR (assertR (sought = size1 + unat (4 + len))) (\<lambda>_.
                 lt_scan fresh actual (size1 + unat (4 + len)) (fd1\<lparr>fd_pos := sought\<rparr>)))"
  by pat_completeness auto
termination
  by (relation "measure (\<lambda>(_, _, _, fd). length (fd_file fd) - fd_pos fd)")
    (auto simp: lseek_cur_def split: if_splits dest!: lt_read_len_pos)

declare lt_scan.simps [simp del]

text \<open>The exit status and the file afterwards; \<open>truncates\<close> says whether the final call succeeds.\<close>

definition logtruncate :: "byte list \<Rightarrow> read_ev list \<Rightarrow> bool \<Rightarrow> byte list \<Rightarrow> (bool \<times> byte list) res" where
  "logtruncate fresh script truncates file =
     bindR (lt_scan fresh (length file) 0 (fd_open script file)) (\<lambda>r.
     case r of
       Inl e \<Rightarrow> Inr (False, file)
     | Inr size1 \<Rightarrow> Inr (True, if size1 < length file \<and> truncates then take size1 file else file))"

section \<open>What logtruncate keeps\<close>

text \<open>The end of a file that is no whole record: fewer bytes than a length, or fewer than the length says.\<close>

definition incomplete :: "byte list \<Rightarrow> bool" where
  "incomplete t \<longleftrightarrow> length t < 4 \<or> length t < 4 + unat (ntoh32 (get32 (take 4 t)))"

text \<open>Reads that give a length at once when it is there.\<close>

definition whole_reads :: "read_ev list \<Rightarrow> bool" where
  "whole_reads script \<longleftrightarrow> (\<forall>x\<in>set script. \<exists>k\<ge>4. x = ReadUpTo k)"

lemma whole_reads_tl: "whole_reads script \<Longrightarrow> whole_reads (tl script)"
  by (cases script) (auto simp: whole_reads_def)

lemma whole_read:
  assumes "whole_reads (fd_script fd)" and "n \<le> 4"
  shows "sys_read n fd = give n fd"
proof (cases "fd_script fd")
  case (Cons x xs)
  with assms obtain k where "x = ReadUpTo k" "n \<le> k" by (auto simp: whole_reads_def)
  with Cons show ?thesis by (simp add: sys_read_def min_def)
qed (simp add: sys_read_def)

lemma lt_read_len_full:
  assumes "whole_reads (fd_script fd)" and "length fresh = 4" and "fd_pos fd + 4 \<le> length (fd_file fd)"
  shows "lt_read_len 4 fresh fd = Inr (Inr (0, take 4 (drop (fd_pos fd) (fd_file fd))), fd\<lparr>fd_pos := fd_pos fd + 4, fd_script := tl (fd_script fd)\<rparr>)"
  using assms(2,3) by (simp add: lt_read_len.simps [of 4] whole_read [OF assms(1)] give_def wr_def)

lemma lt_read_len_short:
  assumes "whole_reads (fd_script fd)" and "length fresh = 4" and "length (fd_file fd) < fd_pos fd + 4"
  shows "\<exists>n nl fd'. lt_read_len 4 fresh fd = Inr (Inr (Suc n, nl), fd')"
proof -
  let ?bs = "take 4 (drop (fd_pos fd) (fd_file fd))"
  let ?fd = "fd\<lparr>fd_pos := fd_pos fd + length ?bs, fd_script := tl (fd_script fd)\<rparr>"
  have S: "sys_read 4 fd = ((IOk (length ?bs), ?bs), ?fd)" using whole_read [OF assms(1), of 4] by (simp add: give_def Let_def)
  show ?thesis
  proof (cases "length ?bs = 0")
    case True
    then show ?thesis using S by (simp add: lt_read_len.simps [of 4])
  next
    case False
    have l: "length ?bs < 4" using assms(3) by auto
    obtain nl where W: "wr fresh 0 ?bs = Inr nl" using l assms(2) by (auto simp: wr_def)
    have w: "whole_reads (fd_script ?fd)" using whole_reads_tl [OF assms(1)] by simp
    have d: "drop (fd_pos ?fd) (fd_file ?fd) = []" using assms(3) by auto
    have "sys_read (4 - length ?bs) ?fd = ((IOk 0, []), ?fd\<lparr>fd_script := tl (fd_script ?fd)\<rparr>)"
      using whole_read [OF w, of "4 - length ?bs"] d by (simp add: give_def)
    then have "lt_read_len (4 - length ?bs) nl ?fd = Inr (Inr (4 - length ?bs, nl), ?fd\<lparr>fd_script := tl (fd_script ?fd)\<rparr>)"
      by (subst lt_read_len.simps) (simp del: length_take length_drop)
    moreover have "lt_read_len 4 fresh fd = lt_read_len (4 - length ?bs) nl ?fd"
      using S W False l by (subst lt_read_len.simps) (simp del: length_take length_drop)
    moreover obtain n where "4 - length ?bs = Suc n" using l by (metis Suc_diff_Suc)
    ultimately show ?thesis by (simp del: length_take length_drop)
  qed
qed

lemma frame_length_word:
  assumes "length r < 2 ^ 32 - 4"
  shows "unat (4 + (of_nat (length r) :: u32)) = 4 + length r"
  using assms by (simp add: unat_word_ariths unat_of_nat)

lemma lt_scan_records:
  assumes "length fresh = 4" and "length file < 2 ^ 62" and "incomplete t"
  shows "file = log_bytes pre @ log_bytes rs @ t \<Longrightarrow> \<forall>r\<in>set rs. length r < 2 ^ 32 - 4 \<Longrightarrow>
    fd_file fd = file \<Longrightarrow> fd_pos fd = length (log_bytes pre) \<Longrightarrow> whole_reads (fd_script fd) \<Longrightarrow>
    lt_scan fresh (length file) (length (log_bytes pre)) fd = Inr (Inr (length (log_bytes (pre @ rs))))"
proof (induction rs arbitrary: pre fd)
  case Nil
  have d: "drop (fd_pos fd) (fd_file fd) = t" "length (fd_file fd) = fd_pos fd + length t" using Nil by simp_all
  show ?case
  proof (cases "length t < 4")
    case True
    with lt_read_len_short [OF Nil.prems(5) assms(1)] d(2) show ?thesis by (auto simp: lt_scan.simps [of fresh])
  next
    case False
    then have R: "lt_read_len 4 fresh fd = Inr (Inr (0, take 4 t), fd\<lparr>fd_pos := fd_pos fd + 4, fd_script := tl (fd_script fd)\<rparr>)"
      using lt_read_len_full [OF Nil.prems(5) assms(1)] d by simp
    let ?n = "unat (ntoh32 (get32 (take 4 t)))"
    have b: "?n < 2 ^ 32" using unat_lt [of "ntoh32 (get32 (take 4 t))"] by simp
    have "length file = fd_pos fd + length t" using d(2) Nil.prems(3) by simp
    then have "lseek_cur ?n (fd\<lparr>fd_pos := fd_pos fd + 4, fd_script := tl (fd_script fd)\<rparr>) = Some (fd_pos fd + 4 + ?n)" "length file < fd_pos fd + 4 + ?n"
      using b assms(2,3) False by (auto simp: lseek_cur_def incomplete_def)
    with R show ?thesis by (simp add: lt_scan.simps [of fresh] Let_def)
  qed
next
  case (Cons r rs)
  let ?p = "length (log_bytes pre)"
  have lr: "length r < 2 ^ 32 - 4" "length r < 2 ^ 32" using Cons.prems(2) by simp_all
  have d: "drop ?p file = enc_frame r @ log_bytes rs @ t" "?p + 4 + length r \<le> length file" using Cons.prems(1) by simp_all
  let ?fd = "fd\<lparr>fd_pos := ?p + 4, fd_script := tl (fd_script fd)\<rparr>"
  have "lt_read_len 4 fresh fd = Inr (Inr (0, be32 (of_nat (length r))), ?fd)"
    using lt_read_len_full [OF Cons.prems(5) assms(1)] d Cons.prems(3,4) by (simp add: enc_frame_def)
  moreover have "lseek_cur (length r) ?fd = Some (?p + 4 + length r)" using d(2) assms(2) by (simp add: lseek_cur_def)
  moreover have "unat (4 + ntoh32 (get32 (be32 (of_nat (length r))))) = 4 + length r"
    using frame_length_word [OF lr(1)] by (simp add: ntoh32_get32)
  ultimately have "lt_scan fresh (length file) ?p fd = lt_scan fresh (length file) (?p + (4 + length r)) (?fd\<lparr>fd_pos := ?p + 4 + length r\<rparr>)"
    using d(2) get_frame_length [OF lr(2)] by (simp add: lt_scan.simps [of fresh "length file" ?p fd] Let_def add.assoc)
  also have "\<dots> = Inr (Inr (length (log_bytes ((pre @ [r]) @ rs))))"
    using Cons.IH [of "pre @ [r]" "?fd\<lparr>fd_pos := ?p + 4 + length r\<rparr>"] Cons.prems whole_reads_tl [OF Cons.prems(5)]
    by (simp add: add.assoc)
  finally show ?case by simp
qed

text \<open>A crash keeps a first part of the file: some records, and a piece of the next one.\<close>

lemma crash_cut:
  assumes "\<forall>r\<in>set rs. length r < 2 ^ 32"
  shows "\<exists>j t. take k (log_bytes rs) = log_bytes (take j rs) @ t \<and> incomplete t \<and> j \<le> length rs \<and>
    (j < length rs \<longrightarrow> k < length (log_bytes (take (Suc j) rs))) \<and> length (log_bytes (take j rs)) \<le> k"
  using assms
proof (induction rs arbitrary: k)
  case Nil
  show ?case by (intro exI [of _ 0] exI [of _ "[]"]) (simp add: incomplete_def)
next
  case (Cons r rs)
  show ?case
  proof (cases "k < length (enc_frame r)")
    case True
    have i: "incomplete (take k (enc_frame r))"
    proof (cases "k < 4")
      case False
      then have "take 4 (take k (enc_frame r)) = be32 (of_nat (length r))" by (simp add: enc_frame_def min_def)
      with get_frame_length [of "length r"] Cons.prems True show ?thesis by (simp add: incomplete_def)
    qed (simp add: incomplete_def)
    from True i show ?thesis by (intro exI [of _ 0] exI [of _ "take k (enc_frame r)"]) (simp del: length_enc_frame)
  next
    case False
    then obtain k' where k: "k = length (enc_frame r) + k'" by (metis le_Suc_ex not_less)
    from Cons.IH [of k'] Cons.prems obtain j t where J: "take k' (log_bytes rs) = log_bytes (take j rs) @ t" "incomplete t" "j \<le> length rs"
      "j < length rs \<longrightarrow> k' < length (log_bytes (take (Suc j) rs))" "length (log_bytes (take j rs)) \<le> k'" by auto
    show ?thesis
      by (intro exI [of _ "Suc j"] exI [of _ t]) (use J k in \<open>simp del: length_enc_frame\<close>)
  qed
qed

lemma truncate_recovers:
  assumes "length fresh = 4" and "whole_reads script" and "length (log_bytes rs) < 2 ^ 62" and "\<forall>r\<in>set rs. length r < 2 ^ 32 - 4"
  shows "\<exists>j. logtruncate fresh script True (take k (log_bytes rs)) = Inr (True, log_bytes (take j rs)) \<and> j \<le> length rs \<and>
    (j < length rs \<longrightarrow> k < length (log_bytes (take (Suc j) rs))) \<and> length (log_bytes (take j rs)) \<le> k"
proof -
  have l: "\<forall>r\<in>set rs. length r < 2 ^ 32" using assms(4) by fastforce
  from crash_cut [OF l, of k] obtain j t where J: "take k (log_bytes rs) = log_bytes (take j rs) @ t" "incomplete t" "j \<le> length rs"
    "j < length rs \<longrightarrow> k < length (log_bytes (take (Suc j) rs))" "length (log_bytes (take j rs)) \<le> k" by auto
  let ?file = "take k (log_bytes rs)" and ?js = "take j rs"
  have "length ?file \<le> length (log_bytes rs)" by simp
  with assms(3) J(1) have f: "length ?file < 2 ^ 62" "?file = log_bytes [] @ log_bytes ?js @ t" by (auto simp del: length_take)
  have m: "\<forall>r\<in>set ?js. length r < 2 ^ 32 - 4" using assms(4) in_set_takeD [of _ j rs] by blast
  have "lt_scan fresh (length ?file) 0 (fd_open script ?file) = Inr (Inr (length (log_bytes ?js)))"
    using lt_scan_records [OF assms(1) f(1) J(2) f(2) m, of "fd_open script ?file"] assms(2) by (simp add: fd_open_def)
  moreover have "(if length (log_bytes ?js) < length ?file then take (length (log_bytes ?js)) ?file else ?file) = log_bytes ?js"
    unfolding J(1) by simp
  ultimately have "logtruncate fresh script True ?file = Inr (True, log_bytes ?js)" by (simp add: logtruncate_def)
  with J(3-5) show ?thesis by blast
qed

section \<open>logchecker\<close>

text \<open>The types the checker accepts.\<close>

definition known_type :: "byte \<Rightarrow> bool" where
  "known_type ty \<longleftrightarrow> ty \<in> {DEBUG, CTRL, ERROR, BITCOIN, BITCOIN_MSG, CONNECTOR}"

definition isprint :: "byte \<Rightarrow> bool" where
  "isprint b \<longleftrightarrow> 0x20 \<le> b \<and> b \<le> 0x7e"

text \<open>\<^verbatim>\<open>for(s = msg->msg.command; *s && isprint(*s); ++s)\<close>: is the character at its end not the terminator?\<close>

fun bad_command :: "byte list \<Rightarrow> bool res" where
  "bad_command [] = Inl Out_Of_Bounds"
| "bad_command (b # bs) = (if b \<noteq> 0 \<and> isprint b then bad_command bs else Inr (b \<noteq> 0))"

text \<open>
  The type is at offset 4 of a record, the time at 5 and the command of a message at 22. The static \<^verbatim>\<open>last_timestamp\<close>
  is an argument, and returned; the flags are 1, 2 and 4.
\<close>

definition validate_record :: "vbuf \<Rightarrow> u64 \<Rightarrow> (u32 \<times> u64) res" where
  "validate_record buf last_timestamp =
     bindR (vb_const_ptr buf) (\<lambda>m.
     bindR (rd m 4 1) (\<lambda>ty.
     bindR (rd m 5 8) (\<lambda>ts.
     let rv = (if known_type (ty ! 0) then 0 else 1);
         timestamp = ntoh64 (get64 ts) + 120;
         rv1 = (if last_timestamp \<noteq> 0 \<and> (timestamp < last_timestamp \<or> timestamp - last_timestamp > 86300 * 3) then rv OR 2 else rv);
         last1 = timestamp - 120 in
     if ty ! 0 = BITCOIN_MSG then
       bindR (bad_command (drop 22 m)) (\<lambda>bad. Inr (if bad then rv1 OR 4 else rv1, last1))
     else Inr (rv1, last1))))"

text \<open>The loop that fills the buffer: at the end of the file it stops with bytes remaining.\<close>

function lc_fill :: "nat \<Rightarrow> nat \<Rightarrow> vbuf \<Rightarrow> fdesc \<Rightarrow> ((errno + nat) \<times> vbuf \<times> fdesc) res" where
  "lc_fill cursor remaining buf fd =
     (case sys_read remaining fd of
        ((IErr e, _), fd1) \<Rightarrow> Inr (Inl e, buf, fd1)
      | ((IOk k, bs), fd1) \<Rightarrow>
          if k = 0 then Inr (Inr remaining, buf, fd1)
          else
            bindR (vb_write buf cursor bs) (\<lambda>buf'.
            if remaining - k > 0 then lc_fill (cursor + k) (remaining - k) buf' fd1 else Inr (Inr 0, buf', fd1)))"
  by pat_completeness auto
termination by (relation "measure (\<lambda>(_, n, _, _). n)") (auto dest!: sym [THEN sys_read_IOk(2)])

declare lc_fill.simps [simp del]

lemma lc_fill_pos:
  "lc_fill cursor remaining buf fd = Inr (Inr 0, buf', fd') \<Longrightarrow>
   fd_pos fd \<le> fd_pos fd' \<and> fd_file fd' = fd_file fd \<and> (0 < remaining \<longrightarrow> fd_pos fd < fd_pos fd' \<and> fd_pos fd' \<le> length (fd_file fd))"
proof (induction cursor remaining buf fd rule: lc_fill.induct)
  case (1 cursor remaining buf fd)
  obtain r bs fd1 where S: "sys_read remaining fd = ((r, bs), fd1)" by (metis surj_pair)
  show ?case
  proof (cases r)
    case (IErr e)
    with 1 S show ?thesis by (simp add: lc_fill.simps [of cursor remaining buf fd])
  next
    case (IOk k)
    note P = sys_read_IOk(2-4,6) [OF S [unfolded IOk]]
    show ?thesis
    proof (cases "k = 0")
      case True
      then show ?thesis using 1(2) S IOk P by (simp add: lc_fill.simps [of cursor remaining buf fd])
    next
      case k: False
      then obtain b where W: "vb_write buf cursor bs = Inr b" using 1(2) S IOk by (auto simp: lc_fill.simps [of cursor remaining buf fd] bindR_Inr_iff)
      show ?thesis
      proof (cases "remaining - k > 0")
        case True
        then have L: "lc_fill (cursor + k) (remaining - k) b fd1 = Inr (Inr 0, buf', fd')"
          using 1(2) S IOk k W by (simp add: lc_fill.simps [of cursor remaining buf fd])
        show ?thesis using "1.IH" [OF S [symmetric] refl IOk k W True L] P k True by auto
      next
        case False
        then show ?thesis using 1(2) S IOk k W P by (simp add: lc_fill.simps [of cursor remaining buf fd])
      qed
    qed
  qed
qed

text \<open>
  The main loop. \<^verbatim>\<open>None\<close> stands for \<^verbatim>\<open>reading_len\<close>, with 4 bytes remaining, \<open>Some n\<close> for a record of \<open>n\<close> bytes; the cursor is 0
  at the start of every iteration. The result is the exit status.
\<close>

function lc_loop :: "nat \<Rightarrow> nat option \<Rightarrow> u64 \<Rightarrow> vbuf \<Rightarrow> fdesc \<Rightarrow> nat res" where
  "lc_loop ps st last_timestamp buf fd =
     bindR (lc_fill 0 (case st of None \<Rightarrow> 4 | Some n \<Rightarrow> n) buf fd) (\<lambda>(r, buf1, fd1).
     case r of
       Inl e \<Rightarrow> Inr 1
     | Inr remaining \<Rightarrow>
         if remaining > 0 then Inr 0
         else
           case st of
             None \<Rightarrow>
               bindR (vb_const_ptr buf1) (\<lambda>m.
               bindR (rd m 0 4) (\<lambda>netlen.
               bindR (vb_realloc ps (unat (ntoh32 (get32 netlen))) buf1) (\<lambda>buf2.
               lc_loop ps (Some (unat (ntoh32 (get32 netlen)))) last_timestamp buf2 fd1)))
           | Some n \<Rightarrow>
               bindR (validate_record buf1 last_timestamp) (\<lambda>(rv, last1).
               if rv AND (1 OR 2) \<noteq> 0 then Inr 1
               else lc_loop ps None last1 buf1 fd1))"
  by pat_completeness auto
termination
  by (relation "measure (\<lambda>(_, st, _, _, fd). 2 * (length (fd_file fd) - fd_pos fd) + (case st of None \<Rightarrow> 0 | Some _ \<Rightarrow> 1))")
    (auto dest!: lc_fill_pos)

declare lc_loop.simps [simp del]

definition logchecker :: "nat \<Rightarrow> read_ev list \<Rightarrow> byte list \<Rightarrow> nat res" where
  "logchecker ps script file = lc_loop ps None 0 (vb_new_n ps 4) (fd_open script file)"

section \<open>What logchecker accepts\<close>

text \<open>Reads that always give something when there is something.\<close>

definition giving :: "read_ev list \<Rightarrow> bool" where
  "giving script \<longleftrightarrow> (\<forall>x\<in>set script. \<exists>k>0. x = ReadUpTo k)"

lemma giving_read:
  assumes "giving (fd_script fd)" and "0 < n" and "fd_pos fd \<le> length (fd_file fd)"
  obtains k fd' where "sys_read n fd = ((IOk k, take k (drop (fd_pos fd) (fd_file fd))), fd')" "k \<le> n" "k \<le> length (fd_file fd) - fd_pos fd"
    "fd_file fd' = fd_file fd" "fd_pos fd' = fd_pos fd + k" "giving (fd_script fd')" "fd_pos fd < length (fd_file fd) \<Longrightarrow> 0 < k"
proof -
  obtain m where m: "sys_read n fd = give m fd" "m \<le> n" "0 < m"
  proof (cases "fd_script fd")
    case Nil
    with assms(2) show thesis by (intro that [of n]) (simp_all add: sys_read_def)
  next
    case (Cons x xs)
    with assms(1,2) show thesis by (intro that [of "case x of ReadUpTo k \<Rightarrow> min k n"]) (auto simp: sys_read_def giving_def)
  qed
  let ?k = "min m (length (fd_file fd) - fd_pos fd)"
  have t: "take m (drop (fd_pos fd) (fd_file fd)) = take ?k (drop (fd_pos fd) (fd_file fd))" by (cases "m \<le> length (fd_file fd) - fd_pos fd") simp_all
  show thesis
  proof (rule that)
    show "sys_read n fd = ((IOk ?k, take ?k (drop (fd_pos fd) (fd_file fd))), fd\<lparr>fd_pos := fd_pos fd + ?k, fd_script := tl (fd_script fd)\<rparr>)"
      using m(1) t by (simp add: give_def Let_def)
    show "giving (fd_script (fd\<lparr>fd_pos := fd_pos fd + ?k, fd_script := tl (fd_script fd)\<rparr>))"
      using assms(1) by (cases "fd_script fd") (auto simp: giving_def)
  qed (use m in auto)
qed

lemma lc_fill_full:
  "giving (fd_script fd) \<Longrightarrow> 0 < n \<Longrightarrow> fd_pos fd + n \<le> length (fd_file fd) \<Longrightarrow> c + n \<le> vb_allocated buf \<Longrightarrow>
   \<exists>b fd'. lc_fill c n buf fd = Inr (Inr 0, b, fd') \<and> fd_file fd' = fd_file fd \<and> fd_pos fd' = fd_pos fd + n \<and> giving (fd_script fd') \<and>
     vb_allocated b = vb_allocated buf \<and> take (c + n) (vb_bytes b) = take c (vb_bytes buf) @ take n (drop (fd_pos fd) (fd_file fd))"
proof (induction n arbitrary: c buf fd rule: less_induct)
  case (less n)
  have p: "fd_pos fd \<le> length (fd_file fd)" using less.prems by simp
  obtain k fd' where S: "sys_read n fd = ((IOk k, take k (drop (fd_pos fd) (fd_file fd))), fd')" "k \<le> n"
    and F: "fd_file fd' = fd_file fd" "fd_pos fd' = fd_pos fd + k" "giving (fd_script fd')" "0 < k"
    by (rule giving_read [OF less.prems(1,2) p]) (use less.prems in auto)
  let ?bs = "take k (drop (fd_pos fd) (fd_file fd))"
  have l: "length ?bs = k" using less.prems(3) S(2) by simp
  then obtain b where W: "vb_write buf c ?bs = Inr b" using vb_write_ok [of c ?bs buf] less.prems(2,4) S(2) by auto
  note B = vb_write_allocated [OF W] vb_write_take [OF W, unfolded l]
  show ?case
  proof (cases "k = n")
    case True
    with S W F B show ?thesis using less.prems(2) by (subst lc_fill.simps) simp
  next
    case False
    then have k: "n - k < n" "0 < n - k" "fd_pos fd' + (n - k) \<le> length (fd_file fd')" "c + k + (n - k) \<le> vb_allocated b"
      using less.prems S(2) F B(1) by simp_all
    have "lc_fill c n buf fd = lc_fill (c + k) (n - k) b fd'" using S W F(4) k(2) by (subst lc_fill.simps) simp
    moreover have "take n (drop (fd_pos fd) (fd_file fd)) = ?bs @ take (n - k) (drop (fd_pos fd + k) (fd_file fd))"
      using S(2) take_add [of k "n - k" "drop (fd_pos fd) (fd_file fd)"] by (simp add: add.commute)
    ultimately show ?thesis using less.IH [OF k(1) F(3) k(2-4)] S(2) F B by auto
  qed
qed

lemma lc_fill_short:
  "giving (fd_script fd) \<Longrightarrow> 0 < n \<Longrightarrow> fd_pos fd \<le> length (fd_file fd) \<Longrightarrow> length (fd_file fd) < fd_pos fd + n \<Longrightarrow> c + n \<le> vb_allocated buf \<Longrightarrow>
   \<exists>m b fd'. lc_fill c n buf fd = Inr (Inr (Suc m), b, fd')"
proof (induction n arbitrary: c buf fd rule: less_induct)
  case (less n)
  obtain k fd' where S: "sys_read n fd = ((IOk k, take k (drop (fd_pos fd) (fd_file fd))), fd')" "k \<le> n" "k \<le> length (fd_file fd) - fd_pos fd"
    and F: "fd_file fd' = fd_file fd" "fd_pos fd' = fd_pos fd + k" "giving (fd_script fd')"
    by (rule giving_read [OF less.prems(1-3)]) auto
  let ?bs = "take k (drop (fd_pos fd) (fd_file fd))"
  show ?case
  proof (cases "k = 0")
    case True
    then show ?thesis using S(1) less.prems(2) by (subst lc_fill.simps) (auto simp: gr0_conv_Suc)
  next
    case False
    have l: "length ?bs = k" using S(3) by simp
    then obtain b where W: "vb_write buf c ?bs = Inr b" using vb_write_ok [of c ?bs buf] less.prems(2,5) S(2) by auto
    have k: "n - k < n" "0 < n - k" "fd_pos fd' \<le> length (fd_file fd')" "length (fd_file fd') < fd_pos fd' + (n - k)" "c + k + (n - k) \<le> vb_allocated b"
      using less.prems S(2,3) F(1,2) False vb_write_allocated [OF W] by simp_all
    have "lc_fill c n buf fd = lc_fill (c + k) (n - k) b fd'" using S(1) W False k(2) by (subst lc_fill.simps) simp
    with less.IH [OF k(1) F(3) k(2-5)] show ?thesis by simp
  qed
qed

definition rec_time :: "byte list \<Rightarrow> nat" where
  "rec_time r = unat (getb64 (field 5 8 r))"

text \<open>
  A log is plausible when every record has a known type and no record is more than two minutes older,
  or 258780 seconds younger, than the one before it. A time of 0 is not compared with.
\<close>

fun plausible :: "nat \<Rightarrow> byte list list \<Rightarrow> bool" where
  "plausible t [] = True"
| "plausible t (r # rs) =
     (known_type (r ! 4) \<and> (t = 0 \<or> t \<le> rec_time r + 120 \<and> rec_time r + 120 \<le> t + 258900) \<and> plausible (rec_time r) rs)"

text \<open>A record the checker can read: a header, and in a message a character that ends the command.\<close>

definition checkable :: "byte list \<Rightarrow> bool" where
  "checkable r \<longleftrightarrow> 13 \<le> length r \<and> length r < 2 ^ 32 \<and> rec_time r + 120 < 2 ^ 64 \<and>
     (r ! 4 = BITCOIN_MSG \<longrightarrow> (\<exists>b\<in>set (drop 22 r). b = 0 \<or> \<not> isprint b))"

lemma bad_command_found: "\<exists>b\<in>set xs. b = 0 \<or> \<not> isprint b \<Longrightarrow> \<exists>x. bad_command (xs @ ys) = Inr x"
  by (induction xs) auto

lemma jitter:
  fixes t :: u64
  assumes "unat t + 120 < 2 ^ 64"
  shows "(last1 \<noteq> 0 \<and> (t + 120 < last1 \<or> t + 120 - last1 > 86300 * 3)) \<longleftrightarrow>
    \<not> (unat last1 = 0 \<or> unat last1 \<le> unat t + 120 \<and> unat t + 120 \<le> unat last1 + 258900)"
proof -
  have u: "unat (t + 120) = unat t + 120" using assms by (simp add: unat_word_ariths)
  have lt: "(t + 120 < last1) = (unat t + 120 < unat last1)" using u by (simp only: word_less_nat_alt)
  have z: "(last1 = 0) = (unat last1 = 0)" by (simp only: unat_eq_zero)
  have gt: "(t + 120 - last1 > 86300 * 3) = (258900 < unat t + 120 - unat last1)" if "\<not> t + 120 < last1"
  proof -
    have "unat (t + 120 - last1) = unat t + 120 - unat last1" using unat_sub [of last1 "t + 120"] that u by (simp only: not_less)
    then show ?thesis by (simp add: word_less_nat_alt)
  qed
  show ?thesis
  proof (cases "t + 120 < last1")
    case True
    then show ?thesis using lt unfolding z by linarith
  next
    case False
    then show ?thesis using lt unfolding z gt [OF False] by linarith
  qed
qed

lemma validate_record_spec:
  assumes "checkable r" and "length r \<le> vb_allocated b" and "take (length r) (vb_bytes b) = r"
  obtains rv where "validate_record b last1 = Inr (rv, of_nat (rec_time r))"
    "rv AND (1 OR 2) = 0 \<longleftrightarrow> known_type (r ! 4) \<and> (unat last1 = 0 \<or> unat last1 \<le> rec_time r + 120 \<and> rec_time r + 120 \<le> unat last1 + 258900)"
proof -
  let ?m = "vb_bytes b" and ?t = "getb64 (field 5 8 r)"
  define q where "q \<longleftrightarrow> unat last1 = 0 \<or> unat last1 \<le> rec_time r + 120 \<and> rec_time r + 120 \<le> unat last1 + 258900"
  have l: "13 \<le> length r" "rec_time r + 120 < 2 ^ 64" using assms(1) by (simp_all add: checkable_def)
  obtain ys where m: "?m = r @ ys" using assms(3) by (metis append_take_drop_id)
  have p: "vb_const_ptr b = Inr ?m" using l(1) m by (auto simp: vb_const_ptr_def)
  have f: "rd ?m 4 1 = Inr [r ! 4]" "rd ?m 5 8 = Inr (field 5 8 r)"
    unfolding m using l(1) by (simp_all add: rd_def field_def take_Suc_conv_app_nth [of 0] nth_append)
  have t: "ntoh64 (get64 (field 5 8 r)) = ?t"
    using length_field [of 5 8 r] l(1) unfolding ntoh64_def by (simp add: le64_get64) (simp add: get64_def getb64_def dec_be_def)
  have j: "(last1 \<noteq> 0 \<and> (?t + 120 < last1 \<or> ?t + 120 - last1 > 86300 * 3)) = (\<not> q)"
    unfolding q_def using jitter [of ?t last1] l(2) by (simp add: rec_time_def)
  define rv where "rv = (let a = (if known_type (r ! 4) then 0 else 1 :: u32) in if q then a else a OR 2)"
  have rv: "rv AND (1 OR 2) = 0 \<longleftrightarrow> known_type (r ! 4) \<and> q" "(rv OR 4) AND (1 OR 2) = 0 \<longleftrightarrow> known_type (r ! 4) \<and> q"
    by (simp_all add: rv_def)
  have tm: "of_nat (rec_time r) = ?t" by (simp add: rec_time_def)
  have V: "validate_record b last1 = (if r ! 4 = BITCOIN_MSG then bindR (bad_command (drop 22 ?m)) (\<lambda>bad. Inr (if bad then rv OR 4 else rv, ?t)) else Inr (rv, ?t))"
    unfolding validate_record_def p bindR.simps f t Let_def j nth_Cons_0 rv_def by simp
  show thesis
  proof (cases "r ! 4 = BITCOIN_MSG")
    case True
    then have "\<exists>b\<in>set (drop 22 r). b = 0 \<or> \<not> isprint b" using assms(1) by (simp add: checkable_def)
    moreover from this have "drop 22 ?m = drop 22 r @ ys" unfolding m by (cases "22 \<le> length r") auto
    ultimately obtain x where "bad_command (drop 22 ?m) = Inr x" using bad_command_found by metis
    then show thesis using V True rv tm q_def by (intro that [of "if x then rv OR 4 else rv"]) auto
  next
    case False
    then show thesis using V rv tm q_def by (intro that [of rv]) auto
  qed
qed

lemma lc_loop_records:
  assumes "0 < ps" and "incomplete t"
  shows "file = log_bytes pre @ log_bytes rs @ t \<Longrightarrow> \<forall>r\<in>set rs. checkable r \<Longrightarrow> fd_file fd = file \<Longrightarrow> fd_pos fd = length (log_bytes pre) \<Longrightarrow>
    giving (fd_script fd) \<Longrightarrow> 4 \<le> vb_allocated buf \<Longrightarrow> lc_loop ps None last1 buf fd = Inr (if plausible (unat last1) rs then 0 else 1)"
proof (induction rs arbitrary: pre fd buf last1)
  case Nil
  have d: "drop (fd_pos fd) (fd_file fd) = t" "length (fd_file fd) = fd_pos fd + length t" using Nil.prems(1,3,4) by simp_all
  show ?case
  proof (cases "length t < 4")
    case True
    with lc_fill_short [OF Nil.prems(5), of 4 0 buf] d(2) Nil.prems(6) show ?thesis by (auto simp: lc_loop.simps [of ps None])
  next
    case False
    let ?n = "unat (ntoh32 (get32 (take 4 t)))"
    from lc_fill_full [OF Nil.prems(5), of 4 0 buf] False d Nil.prems(6) obtain b fd1 where
      L: "lc_fill 0 4 buf fd = Inr (Inr 0, b, fd1)" "fd_file fd1 = fd_file fd" "fd_pos fd1 = fd_pos fd + 4" "giving (fd_script fd1)"
        "vb_allocated b = vb_allocated buf" "take 4 (vb_bytes b) = take 4 t" by auto
    have n: "0 < ?n" "length t < 4 + ?n" using assms(2) False by (auto simp: incomplete_def)
    have m: "vb_const_ptr b = Inr (vb_bytes b)" "rd (vb_bytes b) 0 4 = Inr (take 4 t)"
      using L(5,6) Nil.prems(6) by (auto simp: vb_const_ptr_def vb_allocated_def rd_def)
    obtain b2 where R: "vb_realloc ps ?n b = Inr b2" using vb_realloc_ok [OF assms(1) _ n(1), of b 0] L(5) Nil.prems(6) by auto
    obtain k b3 fd2 where S: "lc_fill 0 ?n b2 fd1 = Inr (Inr (Suc k), b3, fd2)"
      using lc_fill_short [OF L(4) n(1), of 0 b2] L(2,3) d(2) n(2) False vb_allocated_realloc [OF assms(1) R] by auto
    show ?thesis using L(1) m R S by (simp add: lc_loop.simps [of ps None] lc_loop.simps [of ps "Some ?n"])
  qed
next
  case (Cons r rs)
  let ?p = "length (log_bytes pre)"
  have c: "checkable r" "13 \<le> length r" "length r < 2 ^ 32" "rec_time r + 120 < 2 ^ 64" using Cons.prems(2) by (simp_all add: checkable_def)
  have r0: "0 < length r" using c(2) by linarith
  have d: "drop ?p file = be32 (of_nat (length r)) @ r @ log_bytes rs @ t" "drop (?p + 4) file = r @ log_bytes rs @ t"
    "?p + 4 + length r \<le> length file" using Cons.prems(1) by (simp_all add: enc_frame_def)
  from lc_fill_full [OF Cons.prems(5), of 4 0 buf] d Cons.prems(3,4,6) obtain b fd1 where
    L: "lc_fill 0 4 buf fd = Inr (Inr 0, b, fd1)" "fd_file fd1 = file" "fd_pos fd1 = ?p + 4" "giving (fd_script fd1)"
      "vb_allocated b = vb_allocated buf" "take 4 (vb_bytes b) = be32 (of_nat (length r))" by auto
  have m: "vb_const_ptr b = Inr (vb_bytes b)" "rd (vb_bytes b) 0 4 = Inr (be32 (of_nat (length r)))"
    using L(5,6) Cons.prems(6) by (auto simp: vb_const_ptr_def vb_allocated_def rd_def)
  obtain b2 where R: "vb_realloc ps (length r) b = Inr b2" using vb_realloc_ok [OF assms(1) _ r0, of b 0] L(5) Cons.prems(6) by auto
  note A = vb_allocated_realloc [OF assms(1) R]
  from lc_fill_full [OF L(4) r0, of 0 b2] L(2,3) d(2,3) A obtain b3 fd2 where
    F: "lc_fill 0 (length r) b2 fd1 = Inr (Inr 0, b3, fd2)" "fd_file fd2 = file" "fd_pos fd2 = ?p + 4 + length r" "giving (fd_script fd2)"
      "vb_allocated b3 = vb_allocated b2" "take (length r) (vb_bytes b3) = r" by auto
  have al: "length r \<le> vb_allocated b3" using F(5) A by simp
  obtain rv where V: "validate_record b3 last1 = Inr (rv, of_nat (rec_time r))"
    "rv AND (1 OR 2) = 0 \<longleftrightarrow> known_type (r ! 4) \<and> (unat last1 = 0 \<or> unat last1 \<le> rec_time r + 120 \<and> rec_time r + 120 \<le> unat last1 + 258900)"
    by (rule validate_record_spec [OF c(1) al F(6)])
  have "lc_loop ps None last1 buf fd = lc_loop ps (Some (length r)) last1 b2 fd1"
    using L(1) m R get_frame_length [OF c(3)] by (subst lc_loop.simps) simp
  also have "\<dots> = (if rv AND (1 OR 2) \<noteq> 0 then Inr 1 else lc_loop ps None (of_nat (rec_time r)) b3 fd2)"
    using F(1) V(1) by (subst lc_loop.simps) simp
  also have "lc_loop ps None (of_nat (rec_time r)) b3 fd2 = Inr (if plausible (rec_time r) rs then 0 else 1)"
  proof -
    have "unat (of_nat (rec_time r) :: u64) = rec_time r" using c(4) by (simp add: unat_of_nat)
    with Cons.IH [of "pre @ [r]" fd2 b3 "of_nat (rec_time r)"] Cons.prems(1,2) F(2-5) A c(2) show ?thesis by (simp add: add.assoc)
  qed
  finally show ?case using V(2) by auto
qed

section \<open>Properties\<close>

text \<open>
  Property C7: the log survives a crash up to the record that is being written. The client writes the
  records of any stream, interrupted by signals and with rotations at any time, into files of whole
  records that together hold all of them once and in order. Whatever first \<open>k\<close> bytes a
  crash leaves of the \<open>i\<close>-th file, \<^verbatim>\<open>logtruncate\<close> cuts them down to the records that are there
  completely: the first \<open>j\<close>, where the next one does not fit into \<open>k\<close> bytes.
\<close>

theorem log_survives_crash:
  assumes "0 < ps" and "\<forall>e\<in>set es. ie_opens e \<and> (SIGUSR1 \<in> set (ie_signals e) \<longrightarrow> SIGUSR2 \<in> set (ie_wait e))"
    and "served s" and "all_in s = log_bytes rs" and "\<forall>r\<in>set (old @ rs). r \<noteq> [] \<and> length r < 2 ^ 32 - 4"
    and "v = \<lparr>v_prerotate = False, v_postrotate = post, v_log = log_bytes old, v_moved = []\<rparr>"
    and "length fresh = 4" and "whole_reads script" and "length (log_bytes (old @ rs)) < 2 ^ 62"
  shows "\<exists>v' rss. v_main ps True es v s = Inr (Exit_Success, (True, v'), []) \<and> concat rss = old @ rs \<and>
    v_moved v' @ [v_log v'] = map log_bytes rss \<and>
    (\<forall>i k. i < length rss \<longrightarrow>
      (\<exists>j. logtruncate fresh script True (take k ((v_moved v' @ [v_log v']) ! i)) = Inr (True, log_bytes (take j (rss ! i))) \<and>
        j \<le> length (rss ! i) \<and> (j < length (rss ! i) \<longrightarrow> k < length (log_bytes (take (Suc j) (rss ! i)))) \<and>
        length (log_bytes (take j (rss ! i))) \<le> k))"
proof -
  have e: "\<forall>e\<in>set es. iter_ok e" using assms(2) by (simp add: iter_ok_def)
  have r: "\<forall>r\<in>set rs. r \<noteq> [] \<and> length r < 2 ^ 32"
  proof
    fix x assume "x \<in> set rs"
    with assms(5) have "x \<noteq> [] \<and> length x < 2 ^ 32 - 4" by simp
    then show "x \<noteq> [] \<and> length x < 2 ^ 32" by simp
  qed
  have v: "\<not> v_prerotate v" "v_log v = log_bytes old" "v_moved v = []" using assms(6) by simp_all
  obtain v' rss where V: "v_main ps True es v s = Inr (Exit_Success, (True, v'), [])"
    "v_moved v' @ [v_log v'] = map log_bytes rss" "concat rss = old @ rs"
    using verbatim_keeps_records [OF assms(1) e assms(3,4) r v] by blast
  have "\<exists>j. logtruncate fresh script True (take k ((v_moved v' @ [v_log v']) ! i)) = Inr (True, log_bytes (take j (rss ! i))) \<and>
        j \<le> length (rss ! i) \<and> (j < length (rss ! i) \<longrightarrow> k < length (log_bytes (take (Suc j) (rss ! i)))) \<and>
        length (log_bytes (take j (rss ! i))) \<le> k" if i: "i < length rss" for i k
  proof -
    have c: "old @ rs = concat (take i rss) @ rss ! i @ concat (drop (Suc i) rss)"
      using V(3) id_take_nth_drop [OF i] by (metis concat.simps(2) concat_append)
    have "\<forall>r\<in>set (rss ! i). length r < 2 ^ 32 - 4" using assms(5) unfolding c by auto
    moreover have "length (log_bytes (rss ! i)) < 2 ^ 62" using assms(9) unfolding c log_bytes_simps by simp
    ultimately show ?thesis unfolding V(2) nth_map [OF i] by (intro truncate_recovers [OF assms(7,8)])
  qed
  with V show ?thesis by blast
qed

theorem log_survives_crash_witness:
  "\<exists>v' rss. v_main 4096 True [quiet, \<lparr>ie_signals = [SIGUSR1], ie_wait = [SIGUSR1, SIGUSR2], ie_moved = True, ie_opens = True\<rparr>] demo_vlog
      [RecvData (be32 2 @ [7]), RecvErr EINTR, RecvData ([8] @ be32 1 @ [9]), RecvData []] = Inr (Exit_Success, (True, v'), []) \<and>
    v_moved v' @ [v_log v'] = map log_bytes rss \<and> concat rss = [[7, 8], [9]]"
proof -
  let ?s = "[RecvData (be32 2 @ [7]), RecvErr EINTR, RecvData ([8] @ be32 1 @ [9]), RecvData []]"
  let ?es = "[quiet, \<lparr>ie_signals = [SIGUSR1], ie_wait = [SIGUSR1, SIGUSR2], ie_moved = True, ie_opens = True\<rparr>]"
  have s: "all_in ?s = log_bytes [[7, 8], [9]]" "served ?s" "demo_vlog = \<lparr>v_prerotate = False, v_postrotate = False, v_log = log_bytes [], v_moved = []\<rparr>"
    by (simp_all add: enc_frame_def demo_vlog_def)
  have e: "\<forall>e\<in>set ?es. ie_opens e \<and> (SIGUSR1 \<in> set (ie_signals e) \<longrightarrow> SIGUSR2 \<in> set (ie_wait e))" by (simp add: quiet_def)
  have r: "\<forall>r\<in>set ([] @ [[7, 8], [9]]). r \<noteq> [] \<and> length r < 2 ^ 32 - 4" "length (log_bytes ([] @ [[7, 8], [9]])) < 2 ^ 62"
    "length (zeros 4) = 4" "whole_reads [ReadUpTo 7]" by (simp_all add: whole_reads_def)
  show ?thesis using log_survives_crash [OF _ e s(2,1) r(1) s(3) r(3,4,2), of 4096] by auto
qed

text \<open>
  Property C8: the checker's verdict is exactly the plausibility of the records: on a file of records, with or
  without an incomplete one at its end, and however its reads are cut, it ends with status 0 when every
  record has a known type and a time near that of its predecessor, and with status 1 otherwise.
\<close>

theorem checker_verdict:
  assumes "0 < ps" and "giving script" and "\<forall>r\<in>set rs. checkable r" and "incomplete t"
  shows "logchecker ps script (log_bytes rs @ t) = Inr (if plausible 0 rs then 0 else 1)"
  using lc_loop_records [OF assms(1,4), of "log_bytes rs @ t" "[]" rs "fd_open script (log_bytes rs @ t)" "vb_new_n ps 4" 0]
    assms(2,3) vb_new_n_size [OF assms(1), of 4]
  by (simp add: logchecker_def fd_open_def)

theorem checker_verdict_witness:
  "logchecker 4096 [ReadUpTo 3] (log_bytes [be32 5 @ [DEBUG] @ be64 1000 @ [0], be32 5 @ [CTRL] @ be64 900 @ [0]] @ [0, 0]) = Inr 0 \<and>
   logchecker 4096 [] (log_bytes [be32 5 @ [CLIENT] @ be64 1000 @ [0]] @ [0, 0]) = Inr 1"
proof -
  let ?a = "be32 5 @ [DEBUG] @ be64 1000 @ [0]" and ?b = "be32 5 @ [CTRL] @ be64 900 @ [0]" and ?c = "be32 5 @ [CLIENT] @ be64 1000 @ [0]"
  have f: "field 5 8 (be32 5 @ [x] @ be64 w @ [0]) = be64 w" "(be32 5 @ [x] @ be64 w @ [0]) ! 4 = x" for x w
    by (simp_all add: field_def nth_append)
  have k: "checkable (be32 5 @ [x] @ be64 w @ [0])" if "x \<noteq> BITCOIN_MSG" "unat w + 120 < 2 ^ 64" for x w
    using that unfolding checkable_def rec_time_def f by simp
  have c: "checkable ?a" "checkable ?b" "checkable ?c" by (rule k; simp add: log_types)+
  have p: "plausible 0 [?a, ?b]" "\<not> plausible 0 [?c]" unfolding plausible.simps rec_time_def f by (simp_all add: known_type_def log_types)
  have i: "incomplete [0, 0]" by (simp add: incomplete_def)
  have "logchecker 4096 [ReadUpTo 3] (log_bytes [?a, ?b] @ [0, 0]) = Inr 0"
    using checker_verdict [OF _ _ _ i, of 4096 "[ReadUpTo 3]" "[?a, ?b]"] c p(1) by (simp add: giving_def)
  moreover have "logchecker 4096 [] (log_bytes [?c] @ [0, 0]) = Inr 1"
    using checker_verdict [OF _ _ _ i, of 4096 "[]" "[?c]"] c p(2) by (simp add: giving_def)
  ultimately show ?thesis by simp
qed

end
