(* ===== verification/Console.thy ===== *)
theory Console
  imports Log_Tools
begin

text \<open>
  The programs that print the log (\<^verbatim>\<open>logclient/src/console.cpp\<close> from the log server, \<^verbatim>\<open>logclient/src/console_from_file.cpp\<close>
  from a file) and the stream operators they use (\<^verbatim>\<open>shared/src/logger.cpp\<close>). What is written to the terminal is
  a list of bytes. \<^verbatim>\<open>localtime\<close> and \<^verbatim>\<open>inet_ntop\<close> are library functions and parameters, and so is the
  uninitialised memory of \<^verbatim>\<open>char str[24]\<close>.
\<close>

section \<open>Numbers and strings\<close>

definition digit :: "nat \<Rightarrow> byte" where
  "digit d = of_nat (if d < 10 then 48 + d else 87 + d)"

function show_in :: "nat \<Rightarrow> nat \<Rightarrow> byte list" where
  "show_in b n = (if b < 2 \<or> n < b then [digit n] else show_in b (n div b) @ [digit (n mod b)])"
  by pat_completeness auto
termination by (relation "measure snd") auto

declare show_in.simps [simp del]

definition dec :: "nat \<Rightarrow> byte list" where "dec n = show_in 10 n"
definition hex :: "nat \<Rightarrow> byte list" where "hex n = show_in 16 n"

definition show_int :: "int \<Rightarrow> byte list" where
  "show_int i = (if i < 0 then ascii ''-'' @ dec (nat (- i)) else dec (nat i))"

text \<open>\<^verbatim>\<open>setfill('0') << setw(2)\<close>\<close>

definition pad2 :: "byte list \<Rightarrow> byte list" where
  "pad2 s = replicate (2 - length s) 48 @ s"

text \<open>The characters up to the terminator, which must be in the memory.\<close>

fun cstr :: "byte list \<Rightarrow> byte list res" where
  "cstr [] = Inl Out_Of_Bounds"
| "cstr (b # bs) = (if b = 0 then Inr [] else bindR (cstr bs) (\<lambda>s. Inr (b # s)))"

definition newline :: "byte list" where "newline = [10]"

section \<open>Records as text\<close>

record tm =
  tm_year :: int
  tm_mon :: int
  tm_mday :: int
  tm_hour :: int
  tm_min :: int
  tm_sec :: int
  tm_gmtoff :: int

record text_env =
  te_localtime :: "u64 \<Rightarrow> tm"
  te_ntop :: "u16 \<Rightarrow> byte list \<Rightarrow> byte list"
  te_fresh :: "byte list"

definition time_to_str :: "tm \<Rightarrow> byte list" where
  "time_to_str t =
     (let date = show_int (1900 + tm_year t) @ ascii ''-'' @ pad2 (show_int (tm_mon t + 1)) @ ascii ''-'' @ pad2 (show_int (tm_mday t)) @
            ascii ''T'' @ pad2 (show_int (tm_hour t)) @ ascii '':'' @ pad2 (show_int (tm_min t)) @ ascii '':'' @ pad2 (show_int (tm_sec t)) in
      if tm_gmtoff t = 0 then date @ ascii ''Z''
      else
        let sign = (if tm_gmtoff t < 0 then ascii ''-'' else ascii ''+''); off = \<bar>tm_gmtoff t\<bar>;
            hours = off div (60 * 60); off1 = off - hours * 60 * 60; minutes = off1 div 60; seconds = off1 - minutes * 60 in
        date @ sign @ pad2 (show_int hours) @ ascii '':'' @ pad2 (show_int minutes) @ ascii '':'' @ pad2 (show_int seconds))"

text \<open>\<^verbatim>\<open>inet_ntop\<close> into \<^verbatim>\<open>char str[24]\<close>: a text that does not fit leaves the array as it is.\<close>

definition ntop24 :: "text_env \<Rightarrow> u16 \<Rightarrow> byte list \<Rightarrow> byte list" where
  "ntop24 te family a = (if length (te_ntop te family a) < 24 then te_ntop te family a else te_fresh te)"

definition show_sockaddr :: "text_env \<Rightarrow> byte list \<Rightarrow> nat \<Rightarrow> byte list res" where
  "show_sockaddr te m off =
     bindR (rd m off 2) (\<lambda>fam.
     if get16 fam = AF_INET then
       bindR (rd m off 8) (\<lambda>saddr.
       Inr (ntop24 te AF_INET (field 4 4 saddr) @ ascii '':'' @ dec (unat (ntoh16 (get16 (field 2 2 saddr))))))
     else if get16 fam = AF_INET6 then
       bindR (rd m off 24) (\<lambda>saddr.
       Inr (ntop24 te AF_INET6 (field 8 16 saddr) @ ascii '':'' @ dec (unat (ntoh16 (get16 (field 2 2 saddr))))))
     else Inr (te_fresh te @ ascii ''unsupported addr family: '' @ dec (unat (get16 fam))))"

text \<open>A \<^verbatim>\<open>packed_message\<close> in the memory: \<^verbatim>\<open>m->command\<close> is printed up to a terminator.\<close>

definition show_packed :: "byte list \<Rightarrow> nat \<Rightarrow> byte list res" where
  "show_packed m off =
     bindR (rd m off 24) (\<lambda>p.
     bindR (cstr (drop (off + 4) m)) (\<lambda>command.
     Inr (ascii ''MSG { length => '' @ dec (unat (get32 (field 16 4 p))) @ ascii '', magic => 0x'' @ hex (unat (get32 (field 0 4 p))) @
       ascii '', command => '' @ command @ ascii '', checksum => 0x'' @ hex (unat (get32 (field 20 4 p))) @
       ascii '', payload => ommitted'' @ ascii ''}'')))"

definition update_str :: "u32 \<Rightarrow> byte list" where
  "update_str update_type =
     (if update_type = CONNECT_SUCCESS then ascii ''CONNECT_SUCCESS''
      else if update_type = ACCEPT_SUCCESS then ascii ''ACCEPT_SUCCESS''
      else if update_type = ORDERLY_DISCONNECT then ascii ''ORDERLY_DISCONNECT''
      else if update_type = WRITE_DISCONNECT then ascii ''WRITE_DISCONNECT''
      else if update_type = UNEXPECTED_ERROR then ascii ''UNEXPECTED_ERROR''
      else if update_type = CONNECT_FAILURE then ascii ''CONNECT_FAILURE''
      else if update_type = PEER_RESET then ascii ''PEER_RESET''
      else if update_type = CONNECTOR_DISCONNECT then ascii ''CONNECTOR_DISCONNECT''
      else ascii ''Unknown update type('' @ dec (unat update_type) @ ascii '')'')"

text \<open>
  \<^verbatim>\<open>print_message\<close> on the memory of the buffer. The header has 13 bytes; a connection event is printed as a
  \<^verbatim>\<open>bitcoin_log_format\<close>, with two \<^verbatim>\<open>sockaddr_in\<close> at 21 and 37.
\<close>

definition console_print :: "text_env \<Rightarrow> byte list \<Rightarrow> byte list res" where
  "console_print te m =
     bindR (rd m 0 13) (\<lambda>log.
     let lt = log ! 4;
         prefix1 = time_to_str (te_localtime te (ntoh64 (get64 (field 5 8 log)))) @ ascii '' ('' @
           dec (unat (ntoh32 (get32 (field 0 4 log)))) @ ascii '') '' @ ascii (type_to_str lt) in
     if lt = BITCOIN_MSG then
       bindR (rd m 13 5) (\<lambda>msg.
       bindR (show_packed m 18) (\<lambda>s.
       Inr (prefix1 @ ascii '' ID:'' @ dec (unat (ntoh32 (get32 (field 0 4 msg)))) @ ascii '' IS_SENDER:'' @ dec (unat (msg ! 4)) @
         ascii '' '' @ s @ newline)))
     else if lt = BITCOIN then
       bindR (rd m 13 44) (\<lambda>msg.
       bindR (show_sockaddr te m 21) (\<lambda>remote.
       bindR (show_sockaddr te m 37) (\<lambda>local1.
       let out = prefix1 @ ascii '' ID:'' @ dec (unat (ntoh32 (get32 (field 0 4 msg)))) @ ascii '', UPDATE_TYPE: '' @
             update_str (ntoh32 (get32 (field 4 4 msg))) @ ascii '', REMOTE: '' @ remote @ ascii '', local: '' @ local1 in
       if ntoh32 (get32 (field 40 4 msg)) \<noteq> 0 then
         bindR (cstr (drop 57 m)) (\<lambda>s. Inr (out @ ascii '', text: '' @ s @ newline))
       else Inr (out @ newline))))
     else
       bindR (cstr (drop 13 m)) (\<lambda>s. Inr (prefix1 @ ascii '' '' @ s @ newline)))"

section \<open>console\<close>

text \<open>
  The loop of a blocking reader: one \<^verbatim>\<open>do_read\<close> per iteration, and the action when the announced bytes are
  there. It ends with the first result of a read that is not positive.
\<close>

function drain :: "nat \<Rightarrow> 's complete \<Rightarrow> 's \<Rightarrow> rbuf \<Rightarrow> sock_in \<Rightarrow> ('s \<times> rbuf \<times> sock_in \<times> io_ret) res" where
  "drain ps f st rb s =
     bindR (rb_do_read ps rb s) (\<lambda>(res, rb1, s1).
     if \<not> positive (fst res) then Inr (st, rb1, s1, fst res)
     else if rb_hungry rb1 then drain ps f st rb1 s1
     else
       bindR (f st (rb_cursor rb1) (rb_extract_buffer rb1)) (\<lambda>(st', cmd).
       bindR (apply_cmd cmd rb1) (\<lambda>rb2.
       drain ps f st' rb2 s1)))"
  by pat_completeness auto
termination
  by (relation "measure (\<lambda>(_, _, _, rb, s). load rb s)")
    (auto dest!: apply_cmd_load simp del: apply_cmd.simps intro: rb_do_read_consumes(2) dest: rb_do_read_consumes(2))

declare drain.simps [simp del]

definition console_complete :: "text_env \<Rightarrow> (bool \<times> byte list) complete" where
  "console_complete te st cursor input_buf =
     (case st of (reading_len, out) \<Rightarrow>
        if reading_len then
          bindR (vb_const_ptr input_buf) (\<lambda>m.
          bindR (rd m 0 4) (\<lambda>netlen.
          Inr ((False, out), Restart (unat (ntoh32 (get32 netlen))))))
        else
          bindR (vb_const_ptr input_buf) (\<lambda>m.
          bindR (console_print te m) (\<lambda>line.
          Inr ((True, out @ line), Restart 4))))"

definition console_main :: "text_env \<Rightarrow> nat \<Rightarrow> sock_in \<Rightarrow> (v_exit \<times> byte list) res" where
  "console_main te ps s =
     bindR (drain ps (console_complete te) (True, []) (rb_new ps 4) s) (\<lambda>((_, out), _, _, r).
     Inr (case r of IOk _ \<Rightarrow> Exit_Success | IErr e \<Rightarrow> Exit_Failure e, out))"

section \<open>console from file\<close>

definition PAGE_SIZE :: nat where "PAGE_SIZE = 4096"
definition MULT :: nat where "MULT = 10000"

text \<open>
  \<^verbatim>\<open>print_message\<close> is repeated in \<^verbatim>\<open>console_from_file.cpp\<close>, with the buffer as an argument.
\<close>

definition file_print :: "text_env \<Rightarrow> byte list \<Rightarrow> byte list res" where
  "file_print te buf = console_print te buf"

text \<open>
  \<open>fresh n\<close> is what \<^verbatim>\<open>n\<close> bytes of new memory hold. The product with 2 has 32 bits, and so has the new size; a size
  of 0 makes \<^verbatim>\<open>realloc\<close> return no memory, where the model stops.
\<close>

definition grow_buf :: "(nat \<Rightarrow> byte list) \<Rightarrow> byte list \<Rightarrow> u32 \<Rightarrow> byte list res" where
  "grow_buf fresh buf sz =
     (if sz = 0 then Inl Alloc_Fail
      else Inr (take (unat sz) buf @ fresh (unat sz - length buf)))"

definition new_size :: "u32 \<Rightarrow> u32" where
  "new_size to_read = of_nat ((unat (to_read * 2) div PAGE_SIZE + 1) * PAGE_SIZE)"

text \<open>
  The loop: \<open>None\<close> while the next thing to read is a length, \<open>Some to_read\<close> before a record. \<^verbatim>\<open>buf_size\<close> is the length of the
  buffer. A failed read gives \<open>-1\<close>, which as \<^verbatim>\<open>bytes_read\<close> is the largest 32-bit number.
\<close>

lemma sys_read_len:
  assumes "sys_read n fd = ((r, bs), fd')"
  shows "fd_file fd' = fd_file fd \<and> fd_pos fd \<le> fd_pos fd' \<and> (r = IOk 4 \<longrightarrow> fd_pos fd < fd_pos fd' \<and> fd_pos fd' \<le> length (fd_file fd))"
proof (cases r)
  case (IOk k)
  show ?thesis using sys_read_IOk(3,4,6) [OF assms [unfolded IOk]] IOk by auto
next
  case (IErr e)
  with assms show ?thesis by (auto simp: sys_read_def give_def Let_def split: list.splits read_ev.splits)
qed

function file_loop :: "text_env \<Rightarrow> (nat \<Rightarrow> byte list) \<Rightarrow> u32 option \<Rightarrow> byte list \<Rightarrow> byte list \<Rightarrow> fdesc \<Rightarrow> byte list res" where
  "file_loop te fresh st buf out fd =
     (case st of
        None \<Rightarrow>
          (case sys_read 4 fd of ((r, bs), fd1) \<Rightarrow>
             bindR (wr buf 0 bs) (\<lambda>buf1.
             if r \<noteq> IOk 4 then Inr out
             else
               bindR (rd buf1 0 4) (\<lambda>netlen.
               file_loop te fresh (Some (ntoh32 (get32 netlen))) buf1 out fd1)))
      | Some to_read \<Rightarrow>
          bindR (if unat to_read > length buf then grow_buf fresh buf (new_size to_read) else Inr buf) (\<lambda>buf1.
          case sys_read (unat to_read) fd of ((r, bs), fd1) \<Rightarrow>
            bindR (wr buf1 0 bs) (\<lambda>buf2.
            let bytes_read = (case r of IOk k \<Rightarrow> of_nat k | IErr _ \<Rightarrow> - 1) in
            if bytes_read \<noteq> to_read then Inr out
            else
              bindR (file_print te buf2) (\<lambda>line.
              file_loop te fresh None buf2 (out @ line) fd1))))"
  by pat_completeness auto
termination
  by (relation "measure (\<lambda>(_, _, st, _, _, fd). 2 * (length (fd_file fd) - fd_pos fd) + (case st of None \<Rightarrow> 0 | Some _ \<Rightarrow> 1))") (auto dest!: sym [THEN sys_read_len])

declare file_loop.simps [simp del]

definition file_main :: "text_env \<Rightarrow> (nat \<Rightarrow> byte list) \<Rightarrow> read_ev list \<Rightarrow> byte list \<Rightarrow> byte list res" where
  "file_main te fresh script file = file_loop te fresh None (fresh (PAGE_SIZE * MULT)) [] (fd_open script file)"

section \<open>A record is printed from its own bytes\<close>

text \<open>What succeeds on the bytes of a record gives the same when more memory follows.\<close>

definition res_le :: "'a res \<Rightarrow> 'a res \<Rightarrow> bool" where
  "res_le x y \<longleftrightarrow> (\<forall>z. x = Inr z \<longrightarrow> y = Inr z)"

lemma res_le_refl: "res_le x x"
  by (simp add: res_le_def)

lemma res_le_bind: "res_le x y \<Longrightarrow> (\<And>z. res_le (f z) (g z)) \<Longrightarrow> res_le (bindR x f) (bindR y g)"
  by (auto simp: res_le_def bindR_Inr_iff)

lemma res_le_if: "res_le x x' \<Longrightarrow> res_le y y' \<Longrightarrow> res_le (if b then x else y) (if b then x' else y')"
  by simp

lemma res_le_rd: "res_le (rd xs off n) (rd (xs @ ys) off n)"
  by (auto simp: res_le_def rd_Inr)

lemma res_le_cstr: "res_le (cstr xs) (cstr (xs @ ys))"
  by (induction xs) (auto simp: res_le_def bindR_Inr_iff)

lemma res_le_cstr_drop: "res_le (cstr (drop k xs)) (cstr (drop k (xs @ ys)))"
  using res_le_cstr [of "drop k xs" ys] by (cases "k \<le> length xs") (auto simp: res_le_def)

lemmas res_le_intros = res_le_refl res_le_rd res_le_cstr_drop res_le_if res_le_bind

lemma show_sockaddr_le: "res_le (show_sockaddr te xs off) (show_sockaddr te (xs @ ys) off)"
  unfolding show_sockaddr_def by (intro res_le_intros)

lemma show_packed_le: "res_le (show_packed xs off) (show_packed (xs @ ys) off)"
  unfolding show_packed_def by (intro res_le_intros)

lemma console_print_le: "res_le (console_print te xs) (console_print te (xs @ ys))"
  unfolding console_print_def Let_def by (intro show_sockaddr_le show_packed_le res_le_intros)

lemma console_print_more: "console_print te xs = Inr z \<Longrightarrow> console_print te (xs @ ys) = Inr z"
  using console_print_le [of te xs ys] by (simp add: res_le_def)

section \<open>The readers\<close>

lemma drain_fill:
  "drain ps f st rb s =
     bindR (read_fill ps rb s) (\<lambda>(r, rb1, s1).
     if \<not> positive r then Inr (st, rb1, s1, r)
     else
       bindR (f st (rb_cursor rb1) (rb_extract_buffer rb1)) (\<lambda>(st', cmd).
       bindR (apply_cmd cmd rb1) (\<lambda>rb2. drain ps f st' rb2 s1)))"
proof (induction ps rb s rule: read_fill.induct)
  case (1 ps rb s)
  show ?case
  proof (cases "rb_do_read ps rb s")
    case (Inl e)
    then show ?thesis by (simp add: drain.simps [of ps f st rb s] read_fill.simps [of ps rb s])
  next
    case (Inr x)
    obtain res rb1 s1 where x: "x = (res, rb1, s1)" by (metis surj_pair)
    show ?thesis
    proof (cases "positive (fst res) \<and> rb_hungry rb1")
      case True
      with "1.IH" [OF Inr x [symmetric] refl True] Inr x show ?thesis
        by (simp add: drain.simps [of ps f st rb s] read_fill.simps [of ps rb s])
    next
      case False
      with Inr x show ?thesis
        by (auto simp: drain.simps [of ps f st rb s] read_fill.simps [of ps rb s])
    qed
  qed
qed

lemma drain_read_loop:
  "read_loop ps f st rb s = Inr (st', rb', s', Some r) \<Longrightarrow> drain ps f st rb s = Inr (st', rb', s', r)"
proof (induction "load rb s" arbitrary: st rb s rule: less_induct)
  case less
  have h: "rb_hungry rb" using less.prems by (auto simp: read_loop.simps [of ps f st rb s] split: if_splits)
  obtain q rb1 s1 where F: "read_fill ps rb s = Inr (q, rb1, s1)"
    using less.prems h by (auto simp: read_loop.simps [of ps f st rb s] bindR_Inr_iff)
  show ?case
  proof (cases "positive q")
    case False
    with less.prems h F show ?thesis by (auto simp: read_loop.simps [of ps f st rb s] drain_fill [of ps f st' rb s])
  next
    case True
    with less.prems h F obtain st1 cmd rb2 where A: "f st (rb_cursor rb1) (rb_extract_buffer rb1) = Inr (st1, cmd)" "apply_cmd cmd rb1 = Inr rb2"
      "read_loop ps f st1 rb2 s1 = Inr (st', rb', s', Some r)"
      by (auto simp: read_loop.simps [of ps f st rb s] bindR_Inr_iff simp del: apply_cmd.simps)
    have "load rb2 s1 < load rb s" using read_fill_consumes [OF F True] apply_cmd_load [OF A(2)] by simp
    from less.hyps [OF this A(3)] A(1,2) F True show ?thesis by (simp add: drain_fill [of ps f st rb s] del: apply_cmd.simps)
  qed
qed

text \<open>A stream of records that is served to its end: the loop has acted on all of them.\<close>

lemma drain_stream:
  assumes "0 < ps" and "stream_run ps f st 0 4 (rb_buffer (rb_new ps 4)) (avail s) = Inr (st', 0, 4, b, [])"
  shows "\<exists>rb'. drain ps f st (rb_new ps 4) s = Inr (st', rb', snd (stop_ret s), fst (stop_ret s))"
proof -
  have "agrees s (Inr (st', 0, 4, b, [])) (read_loop ps f st (rb_new ps 4) s)"
    using read_loop_stream [OF assms(1), of s f st "rb_new ps 4"] assms(2) by simp
  then obtain rb' where "read_loop ps f st (rb_new ps 4) s = Inr (st', rb', snd (stop_ret s), Some (fst (stop_ret s)))"
    by (auto simp: agrees_def split: sum.splits)
  from drain_read_loop [OF this] show ?thesis by blast
qed

interpretation console_records: record_consumer "console_complete te" "Pair True" "Pair False"
  "\<lambda>n b out. bindR (vb_const_ptr b) (\<lambda>m. bindR (console_print te m) (\<lambda>line. Inr (out @ line)))"
  "\<lambda>r. r \<noteq> [] \<and> (\<exists>line. console_print te r = Inr line)" "\<lambda>r out. bindR (console_print te r) (\<lambda>line. Inr (out @ line))" for te
proof
  fix st :: "byte list" and b :: vbuf assume "4 \<le> vb_allocated b"
  then show "console_complete te (True, st) 4 b = Inr ((False, st), Restart (unat (ntoh32 (get32 (take 4 (vb_bytes b))))))"
    by (auto simp: console_complete_def vb_const_ptr_def rd_def vb_allocated_def)
next
  fix st :: "byte list" and n and b :: vbuf
  show "console_complete te (False, st) n b =
    bindR (bindR (vb_const_ptr b) (\<lambda>m. bindR (console_print te m) (\<lambda>line. Inr (st @ line)))) (\<lambda>st'. Inr ((True, st'), Restart 4))"
    by (simp add: console_complete_def bindR_assoc)
next
  fix n and b :: vbuf and st
  assume a: "n \<le> vb_allocated b" "take n (vb_bytes b) \<noteq> [] \<and> (\<exists>line. console_print te (take n (vb_bytes b)) = Inr line)"
  then obtain line where l: "console_print te (take n (vb_bytes b)) = Inr line" by blast
  then have "console_print te (vb_bytes b) = Inr line" using console_print_more [of te _ line "drop n (vb_bytes b)"] by (metis append_take_drop_id)
  with l a(2) show "bindR (vb_const_ptr b) (\<lambda>m. bindR (console_print te m) (\<lambda>line. Inr (st @ line))) =
    bindR (console_print te (take n (vb_bytes b))) (\<lambda>line. Inr (st @ line))"
    by (auto simp: vb_const_ptr_def)
qed

lemma foldR_lines:
  "list_all2 (\<lambda>r l. console_print te r = Inr l) rs ls \<Longrightarrow>
   foldR (\<lambda>r out. bindR (console_print te r) (\<lambda>line. Inr (out @ line))) rs out = Inr (out @ concat ls)"
  by (induction arbitrary: out rule: list_all2_induct) simp_all

lemma console_prints:
  assumes "0 < ps" and "\<forall>c\<in>set cs. c \<noteq> []" and "concat cs = log_bytes rs" and "\<forall>r\<in>set rs. r \<noteq> [] \<and> length r < 2 ^ 32"
    and "list_all2 (\<lambda>r l. console_print te r = Inr l) rs ls"
  shows "console_main te ps (map RecvData cs @ [RecvData []]) = Inr (Exit_Success, concat ls)"
proof -
  let ?s = "map RecvData cs @ [RecvData []]"
  have a: "avail ?s = log_bytes rs" "stop_ret ?s = (IOk 0, [])"
    using avail_map_data [OF assms(2), of "[RecvData []]"] stop_ret_map_data [OF assms(2), of "[RecvData []]"] assms(3) by simp_all
  have "\<forall>r\<in>set rs. r \<noteq> [] \<and> length r < 2 ^ 32 \<and> (r \<noteq> [] \<and> (\<exists>line. console_print te r = Inr line))"
    using assms(4,5) by (auto simp: list_all2_conv_all_nth in_set_conv_nth)
  from console_records.all_records [OF assms(1) this rb_new_allocated [OF assms(1)] foldR_lines [OF assms(5)]]
  obtain b where "stream_run ps (console_complete te) (True, []) 0 4 (rb_buffer (rb_new ps 4)) (avail ?s) = Inr ((True, [] @ concat ls), 0, 4, b, [])"
    unfolding a(1) log_bytes_def by blast
  from drain_stream [OF assms(1) this] a(2) show ?thesis by (auto simp: console_main_def)
qed

lemma new_size_fits:
  assumes "unat n < 2 ^ 31 - 2 ^ 12"
  shows "unat n \<le> unat (new_size n)" "new_size n \<noteq> 0"
proof -
  have d: "unat (n * 2) = unat n * 2" using assms by (simp add: unat_word_ariths)
  have "(unat n * 2 div 4096 + 1) * 4096 < 2 ^ 32" using assms by simp
  then have u: "unat (new_size n) = (unat n * 2 div 4096 + 1) * 4096" unfolding new_size_def d PAGE_SIZE_def unat_of_nat by simp
  then show "unat n \<le> unat (new_size n)" by simp
  from u have "unat (new_size n) \<noteq> 0" by simp
  then show "new_size n \<noteq> 0" by auto
qed

lemma grown:
  assumes "\<forall>n. length (fresh n) = n" and "unat n < 2 ^ 31 - 2 ^ 12"
  obtains buf1 where "(if unat n > length buf then grow_buf fresh buf (new_size n) else Inr buf) = Inr buf1" "unat n \<le> length buf1" "length buf \<le> length buf1"
  using new_size_fits [OF assms(2)] assms(1) by (cases "unat n > length buf") (auto simp: grow_buf_def)

lemma sys_read_plain: "fd_script fd = [] \<Longrightarrow> take n (drop (fd_pos fd) (fd_file fd)) = bs \<Longrightarrow>
   sys_read n fd = ((IOk (length bs), bs), fd\<lparr>fd_pos := fd_pos fd + length bs\<rparr>)"
  by (cases fd) (auto simp: sys_read_def give_def Let_def)

lemma drop_pos: "drop (fd_pos fd) (fd_file fd) = xs \<Longrightarrow> drop (fd_pos fd + k) (fd_file fd) = drop k xs"
  by (auto simp: add.commute)

text \<open>The length an incomplete record announces is one the buffer can grow to.\<close>

definition readable_tail :: "byte list \<Rightarrow> bool" where
  "readable_tail t \<longleftrightarrow> length t < 4 \<or> length t < 4 + unat (ntoh32 (get32 (take 4 t))) \<and> unat (ntoh32 (get32 (take 4 t))) < 2 ^ 31 - 2 ^ 12"

lemma read_length:
  assumes "fd_script fd = []" and "drop (fd_pos fd) (fd_file fd) = h @ rest" and "length h = 4" and "4 \<le> length buf"
  obtains buf1 where "length buf1 = length buf"
    "file_loop te fresh None buf out fd = file_loop te fresh (Some (ntoh32 (get32 h))) buf1 out (fd\<lparr>fd_pos := fd_pos fd + 4\<rparr>)"
proof (rule that [of "h @ drop 4 buf"])
  have "sys_read 4 fd = ((IOk (length h), h), fd\<lparr>fd_pos := fd_pos fd + length h\<rparr>)"
    by (rule sys_read_plain [OF assms(1)]) (use assms(2,3) in simp)
  then show "file_loop te fresh None buf out fd = file_loop te fresh (Some (ntoh32 (get32 h))) (h @ drop 4 buf) out (fd\<lparr>fd_pos := fd_pos fd + 4\<rparr>)"
    using assms(3,4) by (simp add: file_loop.simps [of te fresh None] wr_def rd_def)
qed (use assms(3,4) in simp)

lemma read_record:
  assumes "(if unat n > length buf then grow_buf fresh buf (new_size n) else Inr buf) = Inr buf1" and "sys_read (unat n) fd = ((IOk k, bs), fd1)"
  shows "file_loop te fresh (Some n) buf out fd =
    bindR (wr buf1 0 bs) (\<lambda>buf2. if of_nat k \<noteq> n then Inr out
      else bindR (file_print te buf2) (\<lambda>line. file_loop te fresh None buf2 (out @ line) fd1))"
  unfolding file_loop.simps [of te fresh "Some n"] option.case assms bindR.simps prod.case io_ret.case Let_def ..

lemma file_loop_tail:
  assumes "readable_tail t" and "\<forall>n. length (fresh n) = n" and "fd_script fd = []" and "drop (fd_pos fd) (fd_file fd) = t" and "4 \<le> length buf"
  shows "file_loop te fresh None buf out fd = Inr out"
proof (cases "length t < 4")
  case True
  then show ?thesis using sys_read_plain [OF assms(3), of 4 t] assms(4,5) by (simp add: file_loop.simps [of te fresh None] wr_def)
next
  case False
  let ?n = "ntoh32 (get32 (take 4 t))" and ?fd = "fd\<lparr>fd_pos := fd_pos fd + 4\<rparr>"
  have n: "length t < 4 + unat ?n" "unat ?n < 2 ^ 31 - 2 ^ 12" using assms(1) False by (auto simp: readable_tail_def)
  obtain buf1 where B: "file_loop te fresh None buf out fd = file_loop te fresh (Some ?n) buf1 out ?fd"
    by (rule read_length [OF assms(3), of "take 4 t" "drop 4 t" buf]) (use assms(4,5) False in auto)
  obtain buf2 where G: "(if unat ?n > length buf1 then grow_buf fresh buf1 (new_size ?n) else Inr buf1) = Inr buf2" "unat ?n \<le> length buf2"
    using grown [OF assms(2) n(2)] by metis
  have d: "drop (fd_pos ?fd) (fd_file ?fd) = drop 4 t" using drop_pos [OF assms(4), of 4] by simp
  have S: "sys_read (unat ?n) ?fd = ((IOk (length t - 4), drop 4 t), ?fd\<lparr>fd_pos := fd_pos fd + 4 + (length t - 4)\<rparr>)"
    using sys_read_plain [of ?fd "unat ?n" "drop 4 t"] assms(3) d n(1) False by simp
  have "length t - 4 < 2 ^ 32" using n False by simp
  then have "unat (of_nat (length t - 4) :: u32) = length t - 4" unfolding unat_of_nat by simp
  then have ne: "(of_nat (length t - 4) :: u32) \<noteq> ?n" using n(1) False by auto
  show ?thesis unfolding B read_record [OF G(1) S] using ne n(1) G(2) by (simp add: wr_def)
qed

lemma file_loop_records:
  assumes "readable_tail t" and "\<forall>n. length (fresh n) = n"
  shows "list_all2 (\<lambda>r l. console_print te r = Inr l) rs ls \<Longrightarrow> \<forall>r\<in>set rs. length r < 2 ^ 31 - 2 ^ 12 \<Longrightarrow>
    drop (fd_pos fd) (fd_file fd) = log_bytes rs @ t \<Longrightarrow> fd_script fd = [] \<Longrightarrow> 4 \<le> length buf \<Longrightarrow>
    file_loop te fresh None buf out fd = Inr (out @ concat ls)"
proof (induction arbitrary: fd buf out rule: list_all2_induct)
  case Nil
  then show ?case using file_loop_tail [OF assms] by simp
next
  case (Cons r rs l ls)
  have lr: "length r < 2 ^ 31 - 2 ^ 12" "length r < 2 ^ 32" using Cons.prems(1) by simp_all
  let ?h = "be32 (of_nat (length r))" and ?fd = "fd\<lparr>fd_pos := fd_pos fd + 4\<rparr>"
  have n: "unat (ntoh32 (get32 ?h)) = length r" by (rule get_frame_length [OF lr(2)])
  have w: "ntoh32 (get32 ?h) = of_nat (length r)" using arg_cong [OF n, of "of_nat :: nat \<Rightarrow> u32"] by simp
  have dr: "drop (fd_pos fd) (fd_file fd) = ?h @ r @ log_bytes rs @ t" using Cons.prems(2) by (simp add: enc_frame_def)
  obtain buf1 where B: "length buf1 = length buf" "file_loop te fresh None buf out fd = file_loop te fresh (Some (ntoh32 (get32 ?h))) buf1 out ?fd"
    by (rule read_length [OF Cons.prems(3) dr length_enc_words(4) Cons.prems(4)])
  have "unat (ntoh32 (get32 ?h)) < 2 ^ 31 - 2 ^ 12" using n lr(1) by simp
  then obtain buf2 where G: "(if unat (ntoh32 (get32 ?h)) > length buf1 then grow_buf fresh buf1 (new_size (ntoh32 (get32 ?h))) else Inr buf1) = Inr buf2"
    "unat (ntoh32 (get32 ?h)) \<le> length buf2" "length buf1 \<le> length buf2"
    by (rule grown [OF assms(2)])
  have d: "drop (fd_pos ?fd) (fd_file ?fd) = r @ log_bytes rs @ t" using drop_pos [OF dr, of 4] by simp
  let ?fd2 = "?fd\<lparr>fd_pos := fd_pos ?fd + length r\<rparr>"
  have S: "sys_read (unat (ntoh32 (get32 ?h))) ?fd = ((IOk (length r), r), ?fd2)"
    unfolding n using sys_read_plain [of ?fd "length r" r] Cons.prems(3) d by simp
  have G2: "length r \<le> length buf2" using G(2) unfolding n .
  have p: "file_print te (r @ drop (length r) buf2) = Inr l" using console_print_more [OF Cons.hyps(1)] by (simp add: file_print_def)
  have "file_loop te fresh None buf out fd = file_loop te fresh None (r @ drop (length r) buf2) (out @ l) ?fd2"
    unfolding B(2) read_record [OF G(1) S] using G2 p w by (simp add: wr_def)
  moreover have "drop (fd_pos ?fd2) (fd_file ?fd2) = log_bytes rs @ t" using drop_pos [OF d, of "length r"] by simp
  ultimately show ?case using Cons.IH [of ?fd2] Cons.prems(1,3,4) G2 G(3) B(1) by simp
qed

section \<open>Properties\<close>

text \<open>
  Property C9: both programs print the same. \<^verbatim>\<open>console\<close>, on a stream of records cut in any way, writes the text of
  every record once and in order and ends with the stream; \<^verbatim>\<open>console_from_file\<close> writes exactly the same
  from the file that holds these records, also when an incomplete record follows them.
\<close>

theorem console_programs_agree:
  assumes "0 < ps" and "\<forall>c\<in>set cs. c \<noteq> []" and "concat cs = log_bytes rs" and "\<forall>r\<in>set rs. r \<noteq> [] \<and> length r < 2 ^ 31 - 2 ^ 12"
    and "list_all2 (\<lambda>r l. console_print te r = Inr l) rs ls" and "\<forall>n. length (fresh n) = n" and "readable_tail t"
  shows "console_main te ps (map RecvData cs @ [RecvData []]) = Inr (Exit_Success, concat ls) \<and>
    file_main te fresh [] (log_bytes rs @ t) = Inr (concat ls)"
proof
  have "\<forall>r\<in>set rs. r \<noteq> [] \<and> length r < 2 ^ 32"
  proof
    fix x assume "x \<in> set rs"
    with assms(4) have "x \<noteq> [] \<and> length x < 2 ^ 31 - 2 ^ 12" by blast
    then show "x \<noteq> [] \<and> length x < 2 ^ 32" by simp
  qed
  with assms(1-3,5) show "console_main te ps (map RecvData cs @ [RecvData []]) = Inr (Exit_Success, concat ls)" by (intro console_prints)
  have "4 \<le> length (fresh (PAGE_SIZE * MULT))" using assms(6) by (simp add: PAGE_SIZE_def MULT_def)
  with file_loop_records [OF assms(7,6,5), of "fd_open [] (log_bytes rs @ t)" "fresh (PAGE_SIZE * MULT)" "[]"] assms(4)
  show "file_main te fresh [] (log_bytes rs @ t) = Inr (concat ls)" by (simp add: file_main_def fd_open_def)
qed

definition demo_text_env :: text_env where
  "demo_text_env = \<lparr>te_localtime = \<lambda>_. \<lparr>tm_year = 70, tm_mon = 0, tm_mday = 1, tm_hour = 0, tm_min = 0, tm_sec = 0, tm_gmtoff = 0\<rparr>,
     te_ntop = \<lambda>_ _. [], te_fresh = []\<rparr>"

theorem console_programs_agree_witness:
  "\<exists>l. console_main demo_text_env 4096 (map RecvData [log_bytes [be32 5 @ [DEBUG] @ be64 1000 @ [65, 0]]] @ [RecvData []]) = Inr (Exit_Success, l) \<and>
    file_main demo_text_env zeros [] (log_bytes [be32 5 @ [DEBUG] @ be64 1000 @ [65, 0]] @ [0, 0]) = Inr l"
proof -
  let ?r = "be32 5 @ [DEBUG] @ be64 1000 @ [65, 0]"
  have "\<exists>l. console_print demo_text_env ?r = Inr l"
    by (simp add: console_print_def rd_def log_types Let_def nth_append)
  then obtain l where l: "list_all2 (\<lambda>r l. console_print demo_text_env r = Inr l) [?r] [l]" by auto
  have "log_bytes [?r] \<noteq> []" by (simp add: enc_frame_def)
  then have c: "\<forall>c\<in>set [log_bytes [?r]]. c \<noteq> []" "concat [log_bytes [?r]] = log_bytes [?r]" by simp_all
  have r: "\<forall>r\<in>set [?r]. r \<noteq> [] \<and> length r < 2 ^ 31 - 2 ^ 12" "\<forall>n. length (zeros n) = n" "readable_tail [0, 0]" "0 < (4096 :: nat)"
    by (simp_all add: readable_tail_def)
  show ?thesis using console_programs_agree [OF r(4) c r(1) l r(2,3)] by auto
qed

text \<open>
  Property C39: a length of \<open>2 ^ 31\<close> in a file overflows the buffer of \<^verbatim>\<open>console_from_file\<close>. The doubled length wraps to
  zero, the buffer shrinks to a page, and the read that follows writes all bytes of the file
  behind it, past the end of that page.
\<close>

theorem long_record_overflows:
  assumes "\<forall>n. length (fresh n) = n" and "4096 < length xs"
  shows "file_main te fresh [] (be32 0x80000000 @ xs) = Inl Out_Of_Bounds"
proof -
  let ?buf = "fresh (PAGE_SIZE * MULT)" and ?fd = "fd_open [] (be32 0x80000000 @ xs)" and ?n = "0x80000000 :: u32"
  have b: "length ?buf = 40960000" using assms(1) by (simp add: PAGE_SIZE_def MULT_def)
  obtain buf1 where B: "length buf1 = length ?buf"
    "file_loop te fresh None ?buf [] ?fd = file_loop te fresh (Some (ntoh32 (get32 (be32 ?n)))) buf1 [] (?fd\<lparr>fd_pos := fd_pos ?fd + 4\<rparr>)"
    by (rule read_length [of ?fd "be32 ?n" xs ?buf]) (simp_all add: fd_open_def b)
  have n: "ntoh32 (get32 (be32 ?n)) = ?n" by (simp add: ntoh32_get32)
  have s: "new_size ?n = 4096" by (simp add: new_size_def PAGE_SIZE_def)
  let ?bs = "take (unat ?n) xs"
  have S: "sys_read (unat ?n) (?fd\<lparr>fd_pos := fd_pos ?fd + 4\<rparr>) = ((IOk (length ?bs), ?bs), ?fd\<lparr>fd_pos := fd_pos ?fd + 4 + length ?bs\<rparr>)"
    using sys_read_plain [of "?fd\<lparr>fd_pos := fd_pos ?fd + 4\<rparr>" "unat ?n" ?bs] by (simp add: fd_open_def)
  have l: "4096 < length ?bs" using assms(2) by simp
  have G: "(if unat ?n > length buf1 then grow_buf fresh buf1 (new_size ?n) else Inr buf1) = Inr (take 4096 buf1 @ fresh 0)"
    using B(1) b by (simp add: s grow_buf_def)
  have "length (take 4096 buf1 @ fresh 0) = 4096" using B(1) b assms(1) by simp
  with l have "wr (take 4096 buf1 @ fresh 0) 0 ?bs = Inl Out_Of_Bounds" by (simp add: wr_def del: length_append length_take)
  then show ?thesis unfolding file_main_def B(2) n read_record [OF G S] by simp
qed

theorem long_record_overflows_witness:
  "file_main demo_text_env zeros [] (be32 0x80000000 @ zeros 5000) = Inl Out_Of_Bounds"
  by (rule long_record_overflows) simp_all

end
