(* ===== verification/Schedule.thy ===== *)
theory Schedule
  imports Console
begin

text \<open>
  When the crawler starts its next round (\<^verbatim>\<open>next_getaddr\<close> of \<^verbatim>\<open>clients/getaddr.cpp\<close>): the first time of a daily schedule of
  hours and minutes that is not over. \<^verbatim>\<open>localtime\<close> and \<^verbatim>\<open>mktime\<close> are parameters; \<^verbatim>\<open>mktime\<close> gives a time and the
  structure it leaves behind, which the loops go on with. The search runs over the days and has no bound of its own: not returning is
  \<open>None\<close>.
\<close>

section \<open>The search\<close>

record calendar =
  cal_localtime :: "int \<Rightarrow> tm"
  cal_mktime :: "tm \<Rightarrow> int \<times> tm"

fun try_minutes :: "calendar \<Rightarrow> int \<Rightarrow> int list \<Rightarrow> tm \<Rightarrow> int option \<times> tm" where
  "try_minutes cal now [] timeinfo = (None, timeinfo)"
| "try_minutes cal now (m # minutes) timeinfo =
     (case cal_mktime cal (timeinfo\<lparr>tm_min := m\<rparr>) of (when, timeinfo1) \<Rightarrow>
        if when - now > 0 then (Some when, timeinfo1) else try_minutes cal now minutes timeinfo1)"

fun try_hours :: "calendar \<Rightarrow> int \<Rightarrow> int list \<Rightarrow> int list \<Rightarrow> tm \<Rightarrow> int option \<times> tm" where
  "try_hours cal now minutes [] timeinfo = (None, timeinfo)"
| "try_hours cal now minutes (h # hours) timeinfo =
     (case try_minutes cal now minutes (timeinfo\<lparr>tm_hour := h\<rparr>) of
        (Some next, timeinfo1) \<Rightarrow> (Some next, timeinfo1)
      | (None, timeinfo1) \<Rightarrow> try_hours cal now minutes hours timeinfo1)"

partial_function (option) try_days :: "calendar \<Rightarrow> int \<Rightarrow> int list \<Rightarrow> int list \<Rightarrow> int \<Rightarrow> int option" where
  "try_days cal now hours minutes base =
     (case fst (try_hours cal now minutes hours (cal_localtime cal base)) of
        Some next \<Rightarrow> Some next
      | None \<Rightarrow> try_days cal now hours minutes (base + 86400))"

text \<open>\<open>clock\<close> is the answer of \<^verbatim>\<open>time(NULL)\<close>.\<close>

definition next_getaddr :: "calendar \<Rightarrow> int list \<Rightarrow> int list \<Rightarrow> int \<Rightarrow> int \<Rightarrow> int option" where
  "next_getaddr cal hours minutes clock now = try_days cal now hours minutes clock"

section \<open>Correctness\<close>

text \<open>The times of the schedule on the day of \<open>base\<close>, in the order of the lists.\<close>

definition slot :: "calendar \<Rightarrow> int \<Rightarrow> int \<Rightarrow> int \<Rightarrow> int" where
  "slot cal base h m = fst (cal_mktime cal ((cal_localtime cal base)\<lparr>tm_hour := h, tm_min := m\<rparr>))"

definition slots :: "calendar \<Rightarrow> int list \<Rightarrow> int list \<Rightarrow> int \<Rightarrow> int list" where
  "slots cal hours minutes base = concat (map (\<lambda>h. map (slot cal base h) minutes) hours)"

text \<open>
  What the search relies on: \<^verbatim>\<open>mktime\<close> changes nothing in a structure whose hour and minute are in range, and a time of a day is at most
  25 hours, the length of the longest one, behind any moment of that day.
\<close>

definition cal_ok :: "calendar \<Rightarrow> int list \<Rightarrow> int list \<Rightarrow> bool" where
  "cal_ok cal hours minutes \<longleftrightarrow>
     (\<forall>base. \<forall>h\<in>set hours. \<forall>m\<in>set minutes.
        snd (cal_mktime cal ((cal_localtime cal base)\<lparr>tm_hour := h, tm_min := m\<rparr>)) = (cal_localtime cal base)\<lparr>tm_hour := h, tm_min := m\<rparr> \<and>
        base - 90000 \<le> slot cal base h m)"

text \<open>The structures that the loops of a day go through: the one of the day with another hour and minute.\<close>

definition of_day :: "calendar \<Rightarrow> int \<Rightarrow> tm \<Rightarrow> bool" where
  "of_day cal base t \<longleftrightarrow> t\<lparr>tm_hour := 0, tm_min := 0\<rparr> = (cal_localtime cal base)\<lparr>tm_hour := 0, tm_min := 0\<rparr>"

lemma of_day_set: "of_day cal base t \<Longrightarrow> t\<lparr>tm_hour := h, tm_min := m\<rparr> = (cal_localtime cal base)\<lparr>tm_hour := h, tm_min := m\<rparr>"
  by (cases t; cases "cal_localtime cal base") (simp add: of_day_def)

lemma of_day_upd [simp]:
  "of_day cal base (cal_localtime cal base)" "of_day cal base t \<Longrightarrow> of_day cal base (t\<lparr>tm_hour := h\<rparr>)" "of_day cal base t \<Longrightarrow> of_day cal base (t\<lparr>tm_min := m\<rparr>)"
  by (cases t; simp add: of_day_def)+

lemma find_append: "find P (xs @ ys) = (case find P xs of None \<Rightarrow> find P ys | Some x \<Rightarrow> Some x)"
  by (induction xs) simp_all

lemma try_minutes_find:
  assumes "\<forall>m\<in>set minutes. snd (cal_mktime cal ((cal_localtime cal base)\<lparr>tm_hour := h, tm_min := m\<rparr>)) = (cal_localtime cal base)\<lparr>tm_hour := h, tm_min := m\<rparr>"
    and "of_day cal base t" and "tm_hour t = h"
  shows "fst (try_minutes cal now minutes t) = find (\<lambda>t. now < t) (map (slot cal base h) minutes) \<and>
    of_day cal base (snd (try_minutes cal now minutes t))"
  using assms
proof (induction minutes arbitrary: t)
  case (Cons m minutes)
  let ?d = "(cal_localtime cal base)\<lparr>tm_hour := h, tm_min := m\<rparr>"
  have e: "t\<lparr>tm_min := m\<rparr> = ?d" using of_day_set [OF Cons.prems(2), where h = h and m = m] Cons.prems(3) by (cases t) simp
  have k: "cal_mktime cal ?d = (slot cal base h m, ?d)" using Cons.prems(1) by (simp add: slot_def prod_eq_iff)
  have "of_day cal base ?d" by simp
  with Cons.IH [of ?d] Cons.prems(1) show ?case by (simp add: e k)
qed simp

lemma try_hours_find:
  assumes "cal_ok cal hours minutes" and "of_day cal base t"
  shows "fst (try_hours cal now minutes hours t) = find (\<lambda>t. now < t) (slots cal hours minutes base)"
  using assms
proof (induction hours arbitrary: t)
  case Nil
  show ?case by (simp add: slots_def)
next
  case (Cons h hours)
  have M: "fst (try_minutes cal now minutes (t\<lparr>tm_hour := h\<rparr>)) = find (\<lambda>t. now < t) (map (slot cal base h) minutes) \<and>
    of_day cal base (snd (try_minutes cal now minutes (t\<lparr>tm_hour := h\<rparr>)))"
    by (rule try_minutes_find) (use Cons.prems in \<open>simp_all add: cal_ok_def\<close>)
  have "cal_ok cal hours minutes" using Cons.prems(1) by (simp add: cal_ok_def)
  from Cons.IH [OF this] M show ?case
    by (cases "try_minutes cal now minutes (t\<lparr>tm_hour := h\<rparr>)") (auto simp: slots_def find_append split: option.splits)
qed

lemma try_days_find:
  assumes "cal_ok cal hours minutes" and "find (\<lambda>t. now < t) (concat (map (\<lambda>d. slots cal hours minutes (base + 86400 * int d)) [0..<n])) = Some t"
  shows "try_days cal now hours minutes base = Some t"
  using assms(2)
proof (induction n arbitrary: base)
  case (Suc n)
  note H = try_hours_find [OF assms(1) of_day_upd(1), of now base]
  have c: "map (\<lambda>d. slots cal hours minutes (base + 86400 * int d)) [0..<Suc n] =
    slots cal hours minutes base # map (\<lambda>d. slots cal hours minutes (base + 86400 + 86400 * int d)) [0..<n]"
    by (simp add: upt_conv_Cons map_Suc_upt [symmetric] algebra_simps del: upt_Suc)
  show ?case
  proof (cases "find (\<lambda>t. now < t) (slots cal hours minutes base)")
    case None
    with Suc.prems have "find (\<lambda>t. now < t) (concat (map (\<lambda>d. slots cal hours minutes (base + 86400 + 86400 * int d)) [0..<n])) = Some t"
      by (simp only: c concat.simps find_append option.case)
    from Suc.IH [OF this] None H show ?thesis by (simp add: try_days.simps [of _ _ _ _ base])
  next
    case (Some t1)
    with Suc.prems have "t1 = t" by (simp only: c concat.simps find_append option.case option.inject)
    with Some H show ?thesis by (simp add: try_days.simps [of _ _ _ _ base])
  qed
qed simp

text \<open>A schedule without an hour or without a minute makes the search run for ever.\<close>

lemma empty_slots: "hours = [] \<or> minutes = [] \<Longrightarrow> fst (try_hours cal now minutes hours t) = None"
  by (induction hours arbitrary: t) (auto split: prod.splits)

theorem empty_schedule_hangs:
  assumes "hours = [] \<or> minutes = []"
  shows "next_getaddr cal hours minutes clock now = None"
proof -
  have "h \<noteq> [] \<and> m \<noteq> []" if "try_days c n h m b = Some t" for c n h m b t
  proof (rule try_days.raw_induct [OF _ that])
    fix f c n h m b t
    assume IH: "\<And>c n h m b t. f c n h m b = Some t \<Longrightarrow> h \<noteq> [] \<and> m \<noteq> []"
      and R: "(case fst (try_hours c n m h (cal_localtime c b)) of None \<Rightarrow> f c n h m (b + 86400) | Some x \<Rightarrow> Some x) = Some t"
    show "h \<noteq> [] \<and> m \<noteq> []"
      using IH [of c n h m "b + 86400" t] R empty_slots [of h m c n] by (cases "h = [] \<or> m = []") auto
  qed
  with assms have "\<And>t. try_days cal now hours minutes clock \<noteq> Some t" by blast
  then show ?thesis by (cases "try_days cal now hours minutes clock") (auto simp: next_getaddr_def)
qed


text \<open>A calendar without offset: the time is counted in days, hours and minutes.\<close>

definition demo_calendar :: calendar where
  "demo_calendar =
     \<lparr>cal_localtime = \<lambda>t. \<lparr>tm_year = 0, tm_mon = 0, tm_mday = t div 86400, tm_hour = t mod 86400 div 3600, tm_min = t mod 3600 div 60, tm_sec = t mod 60, tm_gmtoff = 0\<rparr>,
      cal_mktime = \<lambda>t. (tm_mday t * 86400 + tm_hour t * 3600 + tm_min t * 60 + tm_sec t, t)\<rparr>"


end
