(* ===== verification/Log_Fixer.thy ===== *)
theory Log_Fixer
  imports Log_Tools
begin

text \<open>
  \<^verbatim>\<open>tools/src/logfixer.cpp\<close>: the lengths of a file that lost them are guessed. The program maps the file, looks for
  bytes that are types of records followed by a plausible time, and writes what lies between two of
  them as a record. The mapping has whole pages, with zeros behind the file; an access behind it is a fault,
  which ends the program after what it has written. \<^verbatim>\<open>time_t\<close> is a signed number.
\<close>

section \<open>The program\<close>

text \<open>\<^verbatim>\<open>while(++mult * page_size < size)\<close>\<close>

function page_mult :: "nat \<Rightarrow> nat \<Rightarrow> nat \<Rightarrow> nat" where
  "page_mult ps size1 k = (if 0 < ps \<and> Suc k * ps < size1 then page_mult ps size1 (Suc k) else Suc k)"
  by pat_completeness auto
termination
  by (relation "measure (\<lambda>(ps, size1, k). size1 - k * ps)") auto

declare page_mult.simps [simp del]

definition get_bytes :: "nat \<Rightarrow> byte list \<Rightarrow> byte list" where
  "get_bytes ps file = (let n = page_mult ps (length file) 0 * ps in file @ zeros (n - length file))"

definition is_type :: "byte \<Rightarrow> bool" where
  "is_type t \<longleftrightarrow> t = DEBUG \<or> t = CTRL \<or> t = ERROR \<or> t = BITCOIN \<or> t = BITCOIN_MSG \<or> t = CONNECTOR \<or> t = CLIENT"

text \<open>\<^verbatim>\<open>while(!is_type(*buf)) { ++buf; }\<close>: \<open>None\<close> when it runs out of the mapping.\<close>

function find_type :: "byte list \<Rightarrow> nat \<Rightarrow> nat option" where
  "find_type m buf = (if buf < length m then if is_type (m ! buf) then Some buf else find_type m (Suc buf) else None)"
  by pat_completeness auto
termination by (relation "measure (\<lambda>(m, buf). length m - buf)") auto

declare find_type.simps [simp del]

lemma find_type_bounds: "find_type m buf = Some k \<Longrightarrow> buf \<le> k \<and> k < length m \<and> is_type (m ! k)"
  by (induction m buf rule: find_type.induct) (auto simp: find_type.simps split: if_splits)

text \<open>
  The state of the loop: the position, the start and the time of the record that is open, and what has been written. The
  result says whether the loop ended, and not with a fault.
\<close>

function fix_loop :: "byte list \<Rightarrow> nat \<Rightarrow> (nat \<times> int) option \<Rightarrow> byte list \<Rightarrow> byte list \<times> bool" where
  "fix_loop m buf last1 out =
     (if buf < length m then
        case find_type m buf of
          None \<Rightarrow> (out, False)
        | Some buf1 \<Rightarrow>
            (case rd m (buf1 + 1) 8 of
               Inl e \<Rightarrow> (out, False)
             | Inr ts \<Rightarrow>
                 let time = sint (ntoh64 (get64 ts)) in
                 case last1 of
                   None \<Rightarrow> fix_loop m (buf1 + 1) (Some (buf1, time)) out
                 | Some (last2, last_time) \<Rightarrow>
                     if time - last_time \<ge> 0 \<and> time - last_time < 5 * 60
                     then fix_loop m (buf1 + 1) (Some (buf1, time))
                            (out @ le32 (hton32 (of_nat (buf1 - last2))) @ take (buf1 - last2) (drop last2 m))
                     else fix_loop m (buf1 + 1) last1 out)
      else (out, True))"
  by pat_completeness auto
termination
  by (relation "measure (\<lambda>(m, buf, _, _). length m - buf)") (auto dest: find_type_bounds)

declare fix_loop.simps [simp del]

definition logfixer :: "nat \<Rightarrow> byte list \<Rightarrow> byte list \<times> bool" where
  "logfixer ps file = fix_loop (get_bytes ps file) 0 None []"

section \<open>What is written\<close>

text \<open>The output so far is a log, and its records lie side by side in the memory up to the open record.\<close>

definition fixed :: "byte list \<Rightarrow> nat \<Rightarrow> (nat \<times> int) option \<Rightarrow> byte list \<Rightarrow> bool" where
  "fixed m buf last1 out \<longleftrightarrow>
     (\<exists>rs j. out = log_bytes rs \<and> (\<forall>r\<in>set rs. r \<noteq> [] \<and> is_type (hd r)) \<and>
        (case last1 of
           None \<Rightarrow> rs = []
         | Some (k, _) \<Rightarrow> j \<le> k \<and> k < buf \<and> k < length m \<and> is_type (m ! k) \<and> concat rs = take (k - j) (drop j m)))"

lemma fixed_write:
  assumes "fixed m buf (Some (k, t)) out" and "buf \<le> b" and "b < length m" and "is_type (m ! b)" and "length m < 2 ^ 32"
  shows "fixed m (b + 1) (Some (b, t')) (out @ le32 (hton32 (of_nat (b - k))) @ take (b - k) (drop k m))"
proof -
  obtain rs j where F: "out = log_bytes rs" "\<forall>r\<in>set rs. r \<noteq> [] \<and> is_type (hd r)" "j \<le> k" "k < buf" "k < length m" "is_type (m ! k)"
    "concat rs = take (k - j) (drop j m)" using assms(1) by (auto simp: fixed_def)
  let ?r = "take (b - k) (drop k m)"
  have l: "length ?r = b - k" "0 < b - k" using assms(2,3) F(4) by auto
  have "hd ?r = m ! k" using l(2) F(5) by (simp add: hd_drop_conv_nth)
  moreover have "?r \<noteq> []" using l F(5) by auto
  moreover have "out @ le32 (hton32 (of_nat (b - k))) @ ?r = log_bytes (rs @ [?r])" using l(1) F(1) by (simp add: enc_frame_def le32_hton32)
  moreover have "concat (rs @ [?r]) = take (b - j) (drop j m)"
  proof -
    have "take (b - j) (drop j m) = take (k - j) (drop j m) @ take (b - k) (drop (k - j) (drop j m))"
      using take_add [of "k - j" "b - k" "drop j m"] F(3,4) assms(2) by simp
    then show ?thesis using F(3,7) by simp
  qed
  ultimately show ?thesis unfolding fixed_def using F(2,3,4,6) assms(2-4)
    by (intro exI [of _ "rs @ [?r]"] exI [of _ j]) (auto simp: hd_drop_conv_nth)
qed

lemma fix_loop_fixed:
  "length m < 2 ^ 32 \<Longrightarrow> fixed m buf last1 out \<Longrightarrow> \<exists>buf' last'. fixed m buf' last' (fst (fix_loop m buf last1 out))"
proof (induction "length m - buf" arbitrary: buf last1 out rule: less_induct)
  case less
  show ?case
  proof (cases "buf < length m \<and> (\<exists>b ts. find_type m buf = Some b \<and> rd m (b + 1) 8 = Inr ts)")
    case False
    then have "fst (fix_loop m buf last1 out) = out" by (auto simp: fix_loop.simps [of m buf] split: option.splits sum.splits)
    with less.prems(2) show ?thesis by metis
  next
    case True
    then obtain b ts where T: "buf < length m" "find_type m buf = Some b" "rd m (b + 1) 8 = Inr ts" by blast
    note B = find_type_bounds [OF T(2)]
    let ?t = "sint (ntoh64 (get64 ts))"
    have d: "length m - (b + 1) < length m - buf" using B by linarith
    note IH = less.hyps [OF d less.prems(1)]
    show ?thesis
    proof (cases last1)
      case None
      with less.prems(2) have "out = log_bytes []" by (auto simp: fixed_def)
      with B have "fixed m (b + 1) (Some (b, ?t)) out" unfolding fixed_def by (intro exI [of _ "[]"] exI [of _ b]) simp
      from IH [OF this] None T show ?thesis by (simp add: fix_loop.simps [of m buf])
    next
      case (Some p)
      then obtain k t where p: "last1 = Some (k, t)" by (cases p) auto
      show ?thesis
      proof (cases "?t - t \<ge> 0 \<and> ?t - t < 5 * 60")
        case True
        have "fixed m (b + 1) (Some (b, ?t)) (out @ le32 (hton32 (of_nat (b - k))) @ take (b - k) (drop k m))"
          using fixed_write less.prems B p by blast
        from IH [OF this] p T True show ?thesis by (simp add: fix_loop.simps [of m buf])
      next
        case False
        have "fixed m (b + 1) last1 out" using less.prems(2) p B unfolding fixed_def by fastforce
        moreover have "fix_loop m buf last1 out = fix_loop m (b + 1) last1 out"
          using p T False by (auto simp: fix_loop.simps [of m buf])
        ultimately show ?thesis using IH by metis
      qed
    qed
  qed
qed

text \<open>
  Whatever the file holds, and also when the program ends with a fault, what it has written is a log: whole
  records, each of which starts with the type of a record, that put together are one piece of the file.
\<close>

lemma fixer_writes_log:
  assumes "length (get_bytes ps file) < 2 ^ 32"
  shows "\<exists>rs i n. fst (logfixer ps file) = log_bytes rs \<and> (\<forall>r\<in>set rs. r \<noteq> [] \<and> is_type (hd r)) \<and>
    concat rs = take n (drop i (get_bytes ps file))"
proof -
  have "fixed (get_bytes ps file) 0 None []" by (simp add: fixed_def)
  from fix_loop_fixed [OF assms this] obtain buf' last' where "fixed (get_bytes ps file) buf' last' (fst (logfixer ps file))" by (auto simp: logfixer_def)
  then obtain rs j where F: "fst (logfixer ps file) = log_bytes rs" "\<forall>r\<in>set rs. r \<noteq> [] \<and> is_type (hd r)"
    "case last' of None \<Rightarrow> rs = []
      | Some (k, _) \<Rightarrow> j \<le> k \<and> k < buf' \<and> k < length (get_bytes ps file) \<and> is_type (get_bytes ps file ! k) \<and>
          concat rs = take (k - j) (drop j (get_bytes ps file))"
    unfolding fixed_def by blast
  have "\<exists>i n. concat rs = take n (drop i (get_bytes ps file))"
  proof (cases last')
    case None
    then show ?thesis using F(3) by (intro exI [of _ 0]) simp
  next
    case (Some p)
    then show ?thesis using F(3) by (cases p) auto
  qed
  with F(1,2) show ?thesis by blast
qed

text \<open>
  The search for the next type has no bound, and the loop only goes on where a whole time lies behind the
  type: the program never gets to the end of its loop, whatever the file holds, but always ends with a fault.
\<close>

lemma page_mult_pos: "0 < page_mult ps n k"
  by (induction ps n k rule: page_mult.induct) (simp add: page_mult.simps)

lemma fixer_faults:
  assumes "0 < ps"
  shows "\<not> snd (logfixer ps file)"
proof -
  let ?m = "get_bytes ps file"
  have pos: "0 < length ?m" using assms page_mult_pos [of ps "length file" 0] by (auto simp: get_bytes_def Let_def)
  have "buf < length ?m \<Longrightarrow> \<not> snd (fix_loop ?m buf last1 out)" for buf last1 out
  proof (induction "length ?m - buf" arbitrary: buf last1 out rule: less_induct)
    case less
    show ?case
    proof (cases "\<exists>b ts. find_type ?m buf = Some b \<and> rd ?m (b + 1) 8 = Inr ts")
      case False
      then show ?thesis using less.prems by (auto simp: fix_loop.simps [of ?m buf] split: option.splits sum.splits)
    next
      case True
      then obtain b ts where T: "find_type ?m buf = Some b" "rd ?m (b + 1) 8 = Inr ts" by blast
      have B: "buf \<le> b" "b < length ?m" "b + 1 < length ?m" using find_type_bounds [OF T(1)] T(2) by (auto simp: rd_Inr)
      have d: "length ?m - (b + 1) < length ?m - buf" using B by linarith
      show ?thesis using less.hyps [OF d B(3)] T less.prems by (auto simp: fix_loop.simps [of ?m buf] Let_def split: option.splits)
    qed
  qed
  from this [of 0 None "[]", OF pos] show ?thesis by (simp add: logfixer_def)
qed



end
