(* ===== verification/Node_List.thy ===== *)
theory Node_List
  imports Client_Lib Log_Fixer Console
begin

text \<open>
  The client \<^verbatim>\<open>clients/get_nodes.cpp\<close> with the second \<^verbatim>\<open>get_all_cxn\<close> of \<^verbatim>\<open>clients/lib.hpp\<close>: it prints the connections of the connector
  and writes their remote addresses into a mapped file. The mapping is a list of bytes, zeros at first; a store behind it is a fault. The
  answers of \<^verbatim>\<open>mkstemp\<close>, \<^verbatim>\<open>ftruncate\<close> and \<^verbatim>\<open>mmap\<close> are taken to be good ones.
\<close>

section \<open>The program\<close>

text \<open>The callback is made when the number of connections is known.\<close>

definition get_all_cxn_gen :: "byte list \<Rightarrow> (nat \<Rightarrow> 's res) \<Rightarrow> (byte list \<Rightarrow> nat \<Rightarrow> 's \<Rightarrow> 's res) \<Rightarrow> sock_out \<Rightarrow> sock_in \<Rightarrow>
    (nat \<times> 's option \<times> sock_out \<times> sock_in) res" where
  "get_all_cxn_gen fresh callgen callback out inp =
     bindR (get_all_cxn_prefix fresh out inp) (\<lambda>(len, out', inp').
     bindR (assertR (len mod 42 = 0)) (\<lambda>_.
     let addresses = len div 42 in
     if addresses = 0 then Inr (0, None, out', inp')
     else
       bindR (callgen addresses) (\<lambda>st.
       bindR (cxn_loop callback 0 len st inp') (\<lambda>(st', inp''). Inr (addresses, Some st', out', inp'')))))"

text \<open>What the callback prints: the two \<^verbatim>\<open>wire_addr\<close> at 4 and 23 are taken for a \<^verbatim>\<open>sockaddr\<close>.\<close>

definition node_text :: "text_env \<Rightarrow> byte list \<Rightarrow> byte list res" where
  "node_text te info =
     bindR (rd info 0 4) (\<lambda>handle_id.
     bindR (show_sockaddr te info 4) (\<lambda>remote.
     bindR (show_sockaddr te info 23) (\<lambda>local1.
     Inr (ascii ''handle_id: '' @ dec (unat (ntoh32 (get32 handle_id))) @ newline @ ascii ''remote: '' @ remote @ newline @
       ascii ''local: '' @ local1 @ newline @ replicate 72 45 @ newline))))"

text \<open>\<^verbatim>\<open>memcpy(data + elt, &info->remote_addr, sizeof(info->remote_addr))\<close>: steps of 16 bytes, the size of \<^verbatim>\<open>sockaddr_in\<close>, and 19 bytes of \<^verbatim>\<open>wire_addr\<close>.\<close>

definition node_cb :: "text_env \<Rightarrow> byte list \<Rightarrow> nat \<Rightarrow> byte list \<times> byte list \<Rightarrow> (byte list \<times> byte list) res" where
  "node_cb te info elt st =
     (case st of (out, data) \<Rightarrow>
        bindR (node_text te info) (\<lambda>t.
        bindR (wr data (16 * elt) (field 4 19 info)) (\<lambda>data'.
        Inr (out @ t, data'))))"

definition node_gen :: "nat \<Rightarrow> nat \<Rightarrow> (byte list \<times> byte list) res" where
  "node_gen ps addresses = Inr ([], zeros (page_mult ps (addresses * 16) 0 * ps))"

text \<open>The number of connections, and what was printed and what the file holds at the end.\<close>

definition get_nodes :: "text_env \<Rightarrow> nat \<Rightarrow> byte list \<Rightarrow> sock_out \<Rightarrow> sock_in \<Rightarrow> (nat \<times> (byte list \<times> byte list) option \<times> sock_out \<times> sock_in) res" where
  "get_nodes te ps fresh out inp = get_all_cxn_gen fresh (node_gen ps) (node_cb te) out inp"

section \<open>The calls\<close>

fun cxn_calls :: "(byte list \<Rightarrow> nat \<Rightarrow> 's \<Rightarrow> 's res) \<Rightarrow> nat \<Rightarrow> byte list list \<Rightarrow> 's \<Rightarrow> 's res" where
  "cxn_calls cb i [] st = Inr st"
| "cxn_calls cb i (x # xs) st = bindR (cb x i st) (cxn_calls cb (i + 1) xs)"

lemma cxn_loop_calls:
  "\<forall>x\<in>set infos. length x = 42 \<Longrightarrow> \<forall>c\<in>set cs. c \<noteq> [] \<Longrightarrow> concat cs = concat infos @ ys \<Longrightarrow>
   \<exists>s. cxn_loop cb i (42 * length infos) st (map RecvData cs) = bindR (cxn_calls cb i infos st) (\<lambda>st'. Inr (st', s))"
proof (induction infos arbitrary: i st cs)
  case Nil
  then show ?case by (simp add: cxn_loop.simps)
next
  case (Cons x infos)
  obtain cs1 where R: "recv_waitall 42 (map RecvData cs) = ((IOk 42, x), map RecvData cs1)" "concat cs1 = concat infos @ ys" "\<forall>c\<in>set cs1. c \<noteq> []"
    using recv_waitall_data [OF Cons.prems(2), of x 42 "concat infos @ ys"] Cons.prems(1,3) by auto
  have l: "\<forall>x\<in>set infos. length x = 42" using Cons.prems(1) by simp
  show ?case
  proof (cases "cb x i st")
    case (Inl e)
    with R(1) show ?thesis by (simp add: cxn_loop.simps [of _ i])
  next
    case (Inr st1)
    with Cons.IH [OF l R(3,2), of "i + 1" st1] R(1) show ?thesis by (simp add: cxn_loop.simps [of _ i])
  qed
qed

lemma get_all_cxn_gen_data:
  assumes "length fresh = 15" and "blocking (so_script out)" and "15 \<le> room (so_script out)"
    and "\<forall>x\<in>set infos. length x = 42" and "42 * length infos < 2 ^ 32" and "infos \<noteq> []"
    and "\<forall>c\<in>set cs. c \<noteq> []" and "concat cs = be32 (of_nat (42 * length infos)) @ concat infos"
  shows "\<exists>out' s. get_all_cxn_gen fresh callgen cb out (map RecvData cs) =
      bindR (callgen (length infos)) (\<lambda>st. bindR (cxn_calls cb 0 infos st) (\<lambda>st'. Inr (length infos, Some st', out', s)))"
proof -
  obtain out' cs1 where P: "get_all_cxn_prefix fresh out (map RecvData cs) = Inr (42 * length infos, out', map RecvData cs1)"
    "concat cs1 = concat infos" "\<forall>c\<in>set cs1. c \<noteq> []"
    using get_all_cxn_prefix_data [OF assms(1-3,5,7,8)] by blast
  show ?thesis
  proof (cases "callgen (length infos)")
    case (Inl e)
    then show ?thesis using P(1) assms(6) by (simp add: get_all_cxn_gen_def)
  next
    case (Inr st)
    obtain s where S: "cxn_loop cb 0 (42 * length infos) st (map RecvData cs1) = bindR (cxn_calls cb 0 infos st) (\<lambda>st'. Inr (st', s))"
      using cxn_loop_calls [OF assms(4) P(3), of "[]" cb 0 st] P(2) by auto
    show ?thesis using P(1) S Inr assms(6) by (intro exI [of _ out'] exI [of _ s]) (simp add: get_all_cxn_gen_def bindR_assoc)
  qed
qed

section \<open>What the file holds\<close>

lemma wr_fits: "off + length ys \<le> length xs \<Longrightarrow> wr xs off ys = Inr (take off xs @ ys @ drop (off + length ys) xs)"
  by (simp add: wr_def)

lemma length_field_19: "length x = 42 \<Longrightarrow> length (field 4 19 x) = 19"
  by (simp add: field_def)

lemma field_19_split: "field 4 19 x = field 4 16 x @ field 20 3 x"
  using take_add [of 16 3 "drop 4 x"] by (simp add: field_def)

text \<open>The part of an address behind its first 16 bytes is overwritten by the next one.\<close>

lemma node_calls_data:
  "list_all2 (\<lambda>x t. length x = 42 \<and> node_text te x = Inr t) infos ts \<Longrightarrow> infos \<noteq> [] \<Longrightarrow> 16 * (i + length infos) + 3 \<le> length d \<Longrightarrow>
   cxn_calls (node_cb te) i infos (out, d) =
     Inr (out @ concat ts, take (16 * i) d @ concat (map (field 4 16) infos) @ field 20 3 (last infos) @ drop (16 * (i + length infos) + 3) d)"
proof (induction arbitrary: i out d rule: list_all2_induct)
  case (Cons x xs t ts)
  let ?d = "take (16 * i) d @ field 4 19 x @ drop (16 * i + 19) d"
  have x: "length x = 42" "node_text te x = Inr t" using Cons.hyps(1) by simp_all
  note l = length_field_19 [OF x(1)]
  have w: "wr d (16 * i) (field 4 19 x) = Inr ?d" using wr_fits [of "16 * i" "field 4 19 x" d] l Cons.prems(2) by simp
  have c: "node_cb te x i (out, d) = Inr (out @ t, ?d)" by (simp add: node_cb_def x(2) w)
  have i: "length (take (16 * i) d) = 16 * i" using Cons.prems(2) by simp
  have s: "?d = (take (16 * i) d @ field 4 16 x) @ field 20 3 x @ drop (16 * i + 19) d" by (simp add: field_19_split)
  have f: "length (field 4 16 x) = 16" "length (field 20 3 x) = 3" using x(1) by (simp_all add: field_def)
  show ?case
  proof (cases "xs = []")
    case True
    then have "ts = []" using Cons.hyps(2) by simp
    with True show ?thesis by (simp add: c field_19_split add.commute)
  next
    case False
    have ld: "length ?d = length d" using l Cons.prems(2) False by (cases xs) auto
    have t16: "take (16 * (i + 1)) ?d = take (16 * i) d @ field 4 16 x" unfolding s using i f(1) by simp
    have dr: "drop k ?d = drop k d" if "16 * i + 19 \<le> k" for k
      using that i l by (auto simp: drop_append)
    have k: "16 * i + 19 \<le> 16 * (i + 1 + length xs) + 3" using False by (cases xs) auto
    from Cons.IH [OF False, of "i + 1" ?d "out @ t"] Cons.prems(2) ld
    have "cxn_calls (node_cb te) (i + 1) xs (out @ t, ?d) =
      Inr ((out @ t) @ concat ts, take (16 * (i + 1)) ?d @ concat (map (field 4 16) xs) @ field 20 3 (last xs) @ drop (16 * (i + 1 + length xs) + 3) ?d)"
      by simp
    then show ?thesis unfolding t16 dr [OF k] using False by (simp add: c)
  qed
qed simp

lemma node_calls_fault:
  "list_all2 (\<lambda>x t. length x = 42 \<and> node_text te x = Inr t) infos ts \<Longrightarrow> infos \<noteq> [] \<Longrightarrow> 16 * (i + length infos) \<le> length d \<Longrightarrow>
   length d < 16 * (i + length infos) + 3 \<Longrightarrow> cxn_calls (node_cb te) i infos (out, d) = Inl Out_Of_Bounds"
proof (induction arbitrary: i out d rule: list_all2_induct)
  case (Cons x xs t ts)
  have x: "length x = 42" "node_text te x = Inr t" using Cons.hyps(1) by simp_all
  note l = length_field_19 [OF x(1)]
  show ?case
  proof (cases "xs = []")
    case True
    with Cons.prems(3) l have "wr d (16 * i) (field 4 19 x) = Inl Out_Of_Bounds" by (simp add: wr_def)
    then show ?thesis by (simp add: node_cb_def x(2))
  next
    case False
    let ?d = "take (16 * i) d @ field 4 19 x @ drop (16 * i + 19) d"
    have k: "16 * i + 19 \<le> length d" using False Cons.prems(2) by (cases xs) auto
    have w: "wr d (16 * i) (field 4 19 x) = Inr ?d" using wr_fits [of "16 * i" "field 4 19 x" d] l k by simp
    have "length ?d = length d" using l k by auto
    with Cons.IH [OF False, of "i + 1" ?d "out @ t"] Cons.prems(2,3) w show ?thesis by (simp add: node_cb_def x(2))
  qed
qed simp

lemma page_mult_bound: "0 < ps \<Longrightarrow> n \<le> page_mult ps n k * ps"
  by (induction ps n k rule: page_mult.induct) (auto simp: page_mult.simps)

section \<open>Properties\<close>

text \<open>
  Property C37: the file of \<^verbatim>\<open>get_nodes\<close> does not hold the addresses. The program prints every connection once and in order, but of every
  remote address only the first 16 of 19 bytes stay in the file, without the end of an IPv6 address and without the
  port, except for the last one; and when the entries fill the pages of the file, the last address is written behind them and the program ends with a fault.
\<close>

theorem node_file_truncates:
  assumes "0 < ps" and "length fresh = 15" and "blocking (so_script out)" and "15 \<le> room (so_script out)"
    and "infos \<noteq> []" and "42 * length infos < 2 ^ 32" and "list_all2 (\<lambda>x t. length x = 42 \<and> node_text te x = Inr t) infos ts"
    and "\<forall>c\<in>set cs. c \<noteq> []" and "concat cs = be32 (of_nat (42 * length infos)) @ concat infos"
  shows "let n = length infos; mapped = page_mult ps (n * 16) 0 * ps in
    if 16 * n + 3 \<le> mapped
    then \<exists>out' s. get_nodes te ps fresh out (map RecvData cs) =
      Inr (n, Some (concat ts, concat (map (field 4 16) infos) @ field 20 3 (last infos) @ zeros (mapped - (16 * n + 3))), out', s)
    else get_nodes te ps fresh out (map RecvData cs) = Inl Out_Of_Bounds"
proof -
  let ?n = "length infos" and ?d = "zeros (page_mult ps (length infos * 16) 0 * ps)"
  have l: "\<forall>x\<in>set infos. length x = 42" using assms(7) by (auto simp: list_all2_conv_all_nth in_set_conv_nth)
  have b: "16 * (0 + ?n) \<le> length ?d" using page_mult_bound [OF assms(1), of "?n * 16" 0] by simp
  obtain out' s where G: "get_nodes te ps fresh out (map RecvData cs) =
      bindR (node_gen ps ?n) (\<lambda>st. bindR (cxn_calls (node_cb te) 0 infos st) (\<lambda>st'. Inr (?n, Some st', out', s)))"
    using get_all_cxn_gen_data [OF assms(2-4) l assms(6,5,8,9)] unfolding get_nodes_def by blast
  show ?thesis
  proof (cases "16 * ?n + 3 \<le> page_mult ps (?n * 16) 0 * ps")
    case True
    with node_calls_data [OF assms(7,5), of 0 ?d "[]"] G show ?thesis by (simp add: node_gen_def Let_def)
  next
    case False
    with node_calls_fault [OF assms(7,5) b, of "[]"] G show ?thesis by (simp add: node_gen_def Let_def)
  qed
qed

text \<open>A connection as the connector lists it, and its text.\<close>

definition demo_info :: "byte list" where
  "demo_info = be32 7 @ [4] @ [1, 2, 3, 4] @ zeros 12 @ [32, 141] @ [4] @ [5, 6, 7, 8] @ zeros 12 @ [32, 141]"

lemma demo_info_text: "length demo_info = 42 \<and> (\<exists>t. node_text demo_text_env demo_info = Inr t)"
  by (simp add: demo_info_def node_text_def show_sockaddr_def rd_def get16_def AF_INET_def AF_INET6_def)

theorem node_file_truncates_witness:
  "(\<exists>t out' s. get_nodes demo_text_env 64 (zeros 15) \<lparr>so_script = replicate 15 (WriteOk 4), so_written = []\<rparr> [RecvData (be32 42 @ demo_info)] =
      Inr (1, Some (t, field 4 16 demo_info @ field 20 3 demo_info @ zeros 45), out', s)) \<and>
   get_nodes demo_text_env 16 (zeros 15) \<lparr>so_script = replicate 15 (WriteOk 4), so_written = []\<rparr> [RecvData (be32 42 @ demo_info)] = Inl Out_Of_Bounds"
proof -
  obtain t where t: "list_all2 (\<lambda>x t. length x = 42 \<and> node_text demo_text_env x = Inr t) [demo_info] [t]" using demo_info_text by auto
  have o: "blocking (replicate n (WriteOk 4))" "room (replicate n (WriteOk 4)) = n" for n by (induction n) simp_all
  have m: "page_mult 64 16 0 = 1" "page_mult 16 16 0 = 1" by (simp_all add: page_mult.simps)
  note T = node_file_truncates [where fresh = "zeros 15" and out = "\<lparr>so_script = replicate 15 (WriteOk 4), so_written = []\<rparr>" and
    te = demo_text_env and infos = "[demo_info]" and ts = "[t]" and cs = "[be32 42 @ demo_info]", OF _ _ _ _ _ _ t]
  have ne: "be32 42 @ demo_info \<noteq> []" by (simp add: demo_info_def)
  from T [of 64] T [of 16] ne show ?thesis by (simp add: o m Let_def del: replicate.simps) blast
qed

end
