(* ===== verification/Iobuf.thy ===== *)
theory Iobuf
  imports Prelude
begin

text \<open>
  \<^verbatim>\<open>cvector\<close> (\<^verbatim>\<open>shared/includes/cvector.hpp\<close>), a vector over memory that is not initialised, and \<^verbatim>\<open>iobuf\<close>
  (\<^verbatim>\<open>shared/src/iobuf.cpp\<close>), a buffer with a position built on it. The programs link them without using them.
  \<open>fresh n\<close> is what \<open>n\<close> elements of new memory hold; no result may depend on it.
  The members that do not type-check when they are instantiated have no counterpart: the constructor from a
  pointer, which takes the function \<^verbatim>\<open>size\<close> for a number, \<^verbatim>\<open>shrink_to_fit\<close>, which swaps the arguments of \<^verbatim>\<open>copy\<close>,
  and \<^verbatim>\<open>erase\<close>, which writes through a constant iterator.
\<close>

section \<open>cvector\<close>

text \<open>\<open>None\<close> is the null pointer that a move leaves behind.\<close>

record 'a cvector =
  cv_container :: "'a list option"
  cv_allocated :: nat
  cv_size :: nat

definition cv_new :: "(nat \<Rightarrow> 'a list) \<Rightarrow> nat \<Rightarrow> 'a cvector" where
  "cv_new fresh initial_capacity = \<lparr>cv_container = Some (fresh initial_capacity), cv_allocated = initial_capacity, cv_size = 0\<rparr>"

text \<open>The range from \<^verbatim>\<open>begin()\<close> to \<^verbatim>\<open>end()\<close>.\<close>

definition cv_items :: "'a cvector \<Rightarrow> 'a list" where
  "cv_items v = (case cv_container v of None \<Rightarrow> [] | Some c \<Rightarrow> take (cv_size v) c)"

text \<open>New memory with the elements copied to its start.\<close>

definition cv_moved_to :: "(nat \<Rightarrow> 'a list) \<Rightarrow> nat \<Rightarrow> 'a cvector \<Rightarrow> 'a list" where
  "cv_moved_to fresh n v = cv_items v @ drop (length (cv_items v)) (fresh n)"

definition cv_copy :: "(nat \<Rightarrow> 'a list) \<Rightarrow> 'a cvector \<Rightarrow> 'a cvector" where
  "cv_copy fresh other = other\<lparr>cv_container := Some (cv_moved_to fresh (cv_allocated other) other)\<rparr>"

text \<open>The new object and what is left of the old one.\<close>

definition cv_move :: "'a cvector \<Rightarrow> 'a cvector \<times> 'a cvector" where
  "cv_move other = (other, \<lparr>cv_container = None, cv_allocated = 0, cv_size = 0\<rparr>)"

definition cv_swap :: "'a cvector \<Rightarrow> 'a cvector \<Rightarrow> 'a cvector \<times> 'a cvector" where
  "cv_swap this other = (other, this)"

definition cv_assign :: "(nat \<Rightarrow> 'a list) \<Rightarrow> 'a cvector \<Rightarrow> 'a cvector \<Rightarrow> 'a cvector" where
  "cv_assign fresh this other = fst (cv_swap this (cv_copy fresh other))"

definition cv_at :: "'a cvector \<Rightarrow> nat \<Rightarrow> 'a res" where
  "cv_at v pos = (case cv_container v of None \<Rightarrow> Inl Dangling | Some c \<Rightarrow> if pos < length c then Inr (c ! pos) else Inl Out_Of_Bounds)"

definition cv_front :: "'a cvector \<Rightarrow> 'a res" where
  "cv_front v = cv_at v 0"

text \<open>\<^verbatim>\<open>out_of_range\<close> is a \<open>Runtime_Error\<close> here.\<close>

definition cv_back :: "'a cvector \<Rightarrow> 'a res" where
  "cv_back v = (if cv_size v > 0 then cv_at v (cv_size v - 1) else Inl Runtime_Error)"

definition cv_empty :: "'a cvector \<Rightarrow> bool" where
  "cv_empty v = (cv_size v \<noteq> 0)"

definition cv_reserve :: "(nat \<Rightarrow> 'a list) \<Rightarrow> nat \<Rightarrow> 'a cvector \<Rightarrow> 'a cvector" where
  "cv_reserve fresh new_cap v =
     (if new_cap > cv_allocated v
      then v\<lparr>cv_container := Some (cv_moved_to fresh new_cap v), cv_allocated := new_cap\<rparr> else v)"

definition cv_clear :: "'a cvector \<Rightarrow> 'a cvector" where
  "cv_clear v = v\<lparr>cv_size := 0\<rparr>"

definition cv_push_back :: "(nat \<Rightarrow> 'a list) \<Rightarrow> 'a \<Rightarrow> 'a cvector \<Rightarrow> 'a cvector res" where
  "cv_push_back fresh value v =
     (let v1 = (if cv_container v = None then v\<lparr>cv_container := Some (fresh 16), cv_allocated := 16\<rparr> else v);
          v2 = (if cv_size v1 = cv_allocated v1 then cv_reserve fresh (cv_allocated v1 * 2) v1 else v1) in
      case cv_container v2 of
        None \<Rightarrow> Inl Dangling
      | Some c \<Rightarrow>
          if cv_size v2 < length c
          then Inr (v2\<lparr>cv_container := Some (c[cv_size v2 := value]), cv_size := cv_size v2 + 1\<rparr>)
          else Inl Out_Of_Bounds)"

text \<open>The size is unsigned and wraps below zero.\<close>

definition cv_pop_back :: "'a cvector \<Rightarrow> 'a cvector" where
  "cv_pop_back v = v\<lparr>cv_size := (if cv_size v = 0 then 2 ^ 64 - 1 else cv_size v - 1)\<rparr>"

definition cv_lazy_resize :: "(nat \<Rightarrow> 'a list) \<Rightarrow> nat \<Rightarrow> 'a cvector \<Rightarrow> 'a cvector" where
  "cv_lazy_resize fresh count1 v =
     (let v1 = (if count1 > cv_size v then cv_reserve fresh count1 v else v) in v1\<lparr>cv_size := count1\<rparr>)"

definition cv_resize :: "(nat \<Rightarrow> 'a list) \<Rightarrow> nat \<Rightarrow> 'a \<Rightarrow> 'a cvector \<Rightarrow> 'a cvector res" where
  "cv_resize fresh count1 value v =
     (if count1 > cv_size v then
        let v1 = cv_reserve fresh count1 v; cur = cv_size v in
        case cv_container v1 of
          None \<Rightarrow> Inl Dangling
        | Some c \<Rightarrow>
            if count1 \<le> length c
            then Inr (v1\<lparr>cv_container := Some (take cur c @ replicate (count1 - cur) value @ drop count1 c), cv_size := count1\<rparr>)
            else Inl Out_Of_Bounds
      else Inr (v\<lparr>cv_size := count1\<rparr>))"

section \<open>iobuf\<close>

record iobuf =
  io_buffer :: "byte cvector"
  io_loc :: nat

definition io_new :: "(nat \<Rightarrow> byte list) \<Rightarrow> iobuf" where
  "io_new fresh = \<lparr>io_buffer = cv_new fresh 16, io_loc = 0\<rparr>"

definition io_seek :: "nat \<Rightarrow> iobuf \<Rightarrow> iobuf res" where
  "io_seek new_loc b = bindR (assertR (new_loc \<le> cv_size (io_buffer b))) (\<lambda>_. Inr (b\<lparr>io_loc := new_loc\<rparr>))"

definition io_extract :: "(nat \<Rightarrow> byte list) \<Rightarrow> nat \<Rightarrow> iobuf \<Rightarrow> byte cvector \<times> iobuf" where
  "io_extract fresh k_bytes b =
     (case cv_swap (cv_new fresh 16) (io_buffer b) of (retbuf, buffer) \<Rightarrow>
        (cv_lazy_resize fresh k_bytes retbuf, b\<lparr>io_buffer := buffer, io_loc := 0\<rparr>))"

definition io_grow :: "(nat \<Rightarrow> byte list) \<Rightarrow> nat \<Rightarrow> iobuf \<Rightarrow> iobuf" where
  "io_grow fresh x b = (if x > cv_size (io_buffer b) then b\<lparr>io_buffer := cv_lazy_resize fresh x (io_buffer b)\<rparr> else b)"

definition io_shrink :: "(nat \<Rightarrow> byte list) \<Rightarrow> nat \<Rightarrow> iobuf \<Rightarrow> iobuf" where
  "io_shrink fresh x b = (if x < cv_size (io_buffer b) then b\<lparr>io_buffer := cv_lazy_resize fresh x (io_buffer b)\<rparr> else b)"

text \<open>\<^verbatim>\<open>iobuf_spec::append\<close> copies to the position and leaves it where it is.\<close>

definition io_append :: "(nat \<Rightarrow> byte list) \<Rightarrow> byte list \<Rightarrow> iobuf \<Rightarrow> iobuf res" where
  "io_append fresh bs b =
     (let b1 = io_grow fresh (io_loc b + length bs) b in
      case cv_container (io_buffer b1) of
        None \<Rightarrow> if bs = [] then Inr b1 else Inl Dangling
      | Some c \<Rightarrow>
          bindR (wr c (io_loc b1) bs) (\<lambda>c'.
          Inr (b1\<lparr>io_buffer := (io_buffer b1)\<lparr>cv_container := Some c'\<rparr>\<rparr>)))"

section \<open>Vectors as lists\<close>

definition cv_ok :: "'a cvector \<Rightarrow> bool" where
  "cv_ok v \<longleftrightarrow>
     (case cv_container v of
        None \<Rightarrow> cv_allocated v = 0 \<and> cv_size v = 0
      | Some c \<Rightarrow> length c = cv_allocated v \<and> 0 < cv_allocated v \<and> cv_size v \<le> cv_allocated v)"

lemma cv_items_length: "cv_ok v \<Longrightarrow> length (cv_items v) = cv_size v"
  by (auto simp: cv_ok_def cv_items_def split: option.splits)

lemma cv_reserve_ok:
  assumes "\<forall>n. length (fresh n) = n" and "cv_ok v"
  shows "cv_ok (cv_reserve fresh n v)" "cv_items (cv_reserve fresh n v) = cv_items v" "cv_size (cv_reserve fresh n v) = cv_size v"
    "n \<le> cv_allocated (cv_reserve fresh n v)" "0 < n \<Longrightarrow> cv_container (cv_reserve fresh n v) \<noteq> None"
proof -
  have l: "length (cv_items v) = cv_size v" by (rule cv_items_length [OF assms(2)])
  have s: "cv_size v \<le> cv_allocated v" using assms(2) by (auto simp: cv_ok_def split: option.splits)
  show "cv_ok (cv_reserve fresh n v)" using assms l s by (auto simp: cv_reserve_def cv_ok_def cv_moved_to_def)
  show "cv_items (cv_reserve fresh n v) = cv_items v" using l by (simp add: cv_reserve_def cv_items_def [of "v\<lparr>cv_container := x, cv_allocated := y\<rparr>" for x y] cv_moved_to_def)
  show "cv_size (cv_reserve fresh n v) = cv_size v" "n \<le> cv_allocated (cv_reserve fresh n v)" by (simp_all add: cv_reserve_def)
  show "0 < n \<Longrightarrow> cv_container (cv_reserve fresh n v) \<noteq> None" using assms(2) by (auto simp: cv_reserve_def cv_ok_def split: option.splits)
qed

lemma cv_push_back_ok:
  assumes "\<forall>n. length (fresh n) = n" and "cv_ok v"
  shows "\<exists>v'. cv_push_back fresh x v = Inr v' \<and> cv_ok v' \<and> cv_items v' = cv_items v @ [x]"
proof -
  define v1 where "v1 = (if cv_container v = None then v\<lparr>cv_container := Some (fresh 16), cv_allocated := 16\<rparr> else v)"
  have v1: "cv_ok v1" "cv_items v1 = cv_items v" "cv_container v1 \<noteq> None" using assms by (auto simp: v1_def cv_ok_def cv_items_def split: option.splits)
  define v2 where "v2 = (if cv_size v1 = cv_allocated v1 then cv_reserve fresh (cv_allocated v1 * 2) v1 else v1)"
  have p: "0 < cv_allocated v1" "cv_size v1 \<le> cv_allocated v1" using v1(1,3) by (auto simp: cv_ok_def)
  have v2: "cv_ok v2" "cv_items v2 = cv_items v" "cv_container v2 \<noteq> None" "cv_size v2 < cv_allocated v2"
    using cv_reserve_ok [OF assms(1) v1(1), of "cv_allocated v1 * 2"] v1 p by (auto simp: v2_def)
  then obtain c where c: "cv_container v2 = Some c" "cv_size v2 < length c" "length c = cv_allocated v2" by (auto simp: cv_ok_def)
  let ?v = "v2\<lparr>cv_container := Some (c[cv_size v2 := x]), cv_size := cv_size v2 + 1\<rparr>"
  have "cv_push_back fresh x v = Inr ?v" unfolding cv_push_back_def Let_def v1_def [symmetric] v2_def [symmetric] using c by simp
  moreover have "cv_ok ?v" using c p v2(4) by (simp add: cv_ok_def)
  moreover have "cv_items ?v = cv_items v @ [x]" using c v2(2) by (simp add: cv_items_def take_Suc_conv_app_nth)
  ultimately show ?thesis by blast
qed

lemma cv_resize_ok:
  assumes "\<forall>n. length (fresh n) = n" and "cv_ok v"
  shows "\<exists>v'. cv_resize fresh n x v = Inr v' \<and> cv_ok v' \<and> cv_items v' = take n (cv_items v) @ replicate (n - length (cv_items v)) x"
proof (cases "n > cv_size v")
  case True
  note R = cv_reserve_ok [OF assms, of n]
  obtain c where c: "cv_container (cv_reserve fresh n v) = Some c" "length c = cv_allocated (cv_reserve fresh n v)" using R(1,5) True by (auto simp: cv_ok_def)
  have "take (cv_size v) c = cv_items v" using R(2,3) c(1) by (simp add: cv_items_def)
  with True c R(3,4) cv_items_length [OF assms(2)] show ?thesis by (auto simp: cv_resize_def Let_def cv_ok_def cv_items_def)
next
  case False
  with assms(2) cv_items_length [OF assms(2)] show ?thesis by (auto simp: cv_resize_def cv_ok_def cv_items_def min_def split: option.splits)
qed

lemma cv_copy_ok:
  assumes "\<forall>n. length (fresh n) = n" and "cv_ok v" and "cv_container v \<noteq> None"
  shows "cv_ok (cv_copy fresh v)" "cv_items (cv_copy fresh v) = cv_items v"
  using assms cv_items_length [OF assms(2)] by (auto simp: cv_copy_def cv_ok_def cv_moved_to_def) (auto simp: cv_items_def)

text \<open>The operations on a vector as steps, and what they are on lists.\<close>

datatype 'a vop = Push 'a | Pop | Clear | Reserve nat | Resize nat 'a | Recopy

fun cv_step :: "(nat \<Rightarrow> 'a list) \<Rightarrow> 'a vop \<Rightarrow> 'a cvector \<Rightarrow> 'a cvector res" where
  "cv_step fresh (Push x) v = cv_push_back fresh x v"
| "cv_step fresh Pop v = Inr (cv_pop_back v)"
| "cv_step fresh Clear v = Inr (cv_clear v)"
| "cv_step fresh (Reserve n) v = Inr (cv_reserve fresh n v)"
| "cv_step fresh (Resize n x) v = cv_resize fresh n x v"
| "cv_step fresh Recopy v = Inr (cv_assign fresh v v)"

fun list_step :: "'a vop \<Rightarrow> 'a list \<Rightarrow> 'a list" where
  "list_step (Push x) xs = xs @ [x]"
| "list_step Pop xs = butlast xs"
| "list_step Clear xs = []"
| "list_step (Reserve n) xs = xs"
| "list_step (Resize n x) xs = take n xs @ replicate (n - length xs) x"
| "list_step Recopy xs = xs"

text \<open>
  A vector that implements lists: an invariant, the list it stands for, and a step for every operation. A
  sequence of steps is then a sequence of list operations.
\<close>

fun vrun :: "('op \<Rightarrow> 's \<Rightarrow> 's res) \<Rightarrow> 'op list \<Rightarrow> 's \<Rightarrow> 's res" where
  "vrun step [] v = Inr v"
| "vrun step (p # ps) v = bindR (step p v) (vrun step ps)"

fun vguarded :: "('op \<Rightarrow> 'a list \<Rightarrow> bool) \<Rightarrow> ('op \<Rightarrow> 'a list \<Rightarrow> 'a list) \<Rightarrow> 'op list \<Rightarrow> 'a list \<Rightarrow> bool" where
  "vguarded guard spec [] xs = True"
| "vguarded guard spec (p # ps) xs = (guard p xs \<and> vguarded guard spec ps (spec p xs))"

locale list_machine =
  fixes ok :: "'s \<Rightarrow> bool" and items :: "'s \<Rightarrow> 'a list" and step :: "'op \<Rightarrow> 's \<Rightarrow> 's res"
    and spec :: "'op \<Rightarrow> 'a list \<Rightarrow> 'a list" and guard :: "'op \<Rightarrow> 'a list \<Rightarrow> bool"
  assumes step_ok: "ok v \<Longrightarrow> guard p (items v) \<Longrightarrow> \<exists>v'. step p v = Inr v' \<and> ok v' \<and> items v' = spec p (items v)"
begin

lemma run_ok: "ok v \<Longrightarrow> vguarded guard spec ps (items v) \<Longrightarrow> \<exists>v'. vrun step ps v = Inr v' \<and> ok v' \<and> items v' = fold spec ps (items v)"
proof (induction ps arbitrary: v)
  case (Cons p ps)
  then obtain v1 where V: "step p v = Inr v1" "ok v1" "items v1 = spec p (items v)" using step_ok by fastforce
  with Cons.IH [OF V(2)] Cons.prems(2) show ?case by auto
qed simp

end

definition cv_guard :: "'a vop \<Rightarrow> 'a list \<Rightarrow> bool" where
  "cv_guard p xs \<longleftrightarrow> (p = Pop \<longrightarrow> xs \<noteq> [])"

text \<open>The invariant of a vector that has memory and has not been moved from.\<close>

definition cv_live :: "'a cvector \<Rightarrow> bool" where
  "cv_live v \<longleftrightarrow> cv_ok v \<and> cv_container v \<noteq> None"

lemma cv_step_ok:
  assumes "\<forall>n. length (fresh n) = n" and "cv_live v" and "p = Pop \<longrightarrow> cv_items v \<noteq> []"
  shows "\<exists>v'. cv_step fresh p v = Inr v' \<and> cv_live v' \<and> cv_items v' = list_step p (cv_items v)"
proof -
  have v: "cv_ok v" "cv_container v \<noteq> None" using assms(2) by (simp_all add: cv_live_def)
  note L = cv_items_length [OF v(1)]
  show ?thesis
  proof (cases p)
    case (Push x)
    obtain v' where P: "cv_push_back fresh x v = Inr v'" "cv_ok v'" "cv_items v' = cv_items v @ [x]" using cv_push_back_ok [OF assms(1) v(1)] by blast
    then have "cv_container v' \<noteq> None" by (auto simp: cv_items_def split: option.splits)
    with P Push show ?thesis by (simp add: cv_live_def)
  next
    case Pop
    then show ?thesis using v L assms(3) by (auto simp: cv_live_def cv_pop_back_def cv_ok_def cv_items_def butlast_take min_def)
  next
    case Clear
    then show ?thesis using v by (auto simp: cv_live_def cv_clear_def cv_ok_def cv_items_def)
  next
    case (Reserve n)
    then show ?thesis using v cv_reserve_ok [OF assms(1) v(1), of n] by (auto simp: cv_live_def cv_reserve_def)
  next
    case (Resize n x)
    obtain v' where P: "cv_resize fresh n x v = Inr v'" "cv_ok v'" "cv_items v' = take n (cv_items v) @ replicate (n - length (cv_items v)) x"
      using cv_resize_ok [OF assms(1) v(1)] by blast
    moreover from P(1) have "cv_container v' \<noteq> None" using v(2) by (auto simp: cv_resize_def Let_def split: if_splits option.splits)
    ultimately show ?thesis using Resize by (simp add: cv_live_def)
  next
    case Recopy
    then show ?thesis using cv_copy_ok [OF assms(1) v] by (simp add: cv_live_def cv_assign_def cv_swap_def) (simp add: cv_copy_def)
  qed
qed

text \<open>Any new memory: \<open>g n i\<close> is what it holds at position \<open>i\<close> when \<open>n\<close> elements are allocated.\<close>

interpretation cv_list: list_machine cv_live cv_items "cv_step (\<lambda>n. map (g n) [0..<n])" list_step cv_guard for g
  by unfold_locales (rule cv_step_ok; simp add: cv_guard_def)

section \<open>Positions\<close>

text \<open>What \<^verbatim>\<open>append\<close> does to the bytes of a buffer: they are replaced from the position on, and the buffer grows when they do not fit.\<close>

lemma cv_lazy_resize_ok:
  assumes "\<forall>n. length (fresh n) = n" and "cv_ok v" and "cv_size v < n"
  shows "cv_ok (cv_lazy_resize fresh n v)" "cv_container (cv_lazy_resize fresh n v) \<noteq> None" "cv_size (cv_lazy_resize fresh n v) = n"
    "take (cv_size v) (cv_items (cv_lazy_resize fresh n v)) = cv_items v"
proof -
  note R = cv_reserve_ok [OF assms(1,2), of n]
  obtain c where c: "cv_container (cv_reserve fresh n v) = Some c" "length c = cv_allocated (cv_reserve fresh n v)" using R(1,5) assms(3) by (auto simp: cv_ok_def)
  have e: "cv_lazy_resize fresh n v = (cv_reserve fresh n v)\<lparr>cv_size := n\<rparr>" using assms(3) by (simp add: cv_lazy_resize_def)
  show "cv_ok (cv_lazy_resize fresh n v)" "cv_container (cv_lazy_resize fresh n v) \<noteq> None" "cv_size (cv_lazy_resize fresh n v) = n"
    using c R(1,4) assms(3) by (auto simp: e cv_ok_def)
  show "take (cv_size v) (cv_items (cv_lazy_resize fresh n v)) = cv_items v"
    using c R(2,3) assms(3) unfolding e by (simp add: cv_items_def min_def)
qed

lemma io_append_ok:
  assumes "\<forall>n. length (fresh n) = n" and "cv_live (io_buffer b)" and "io_loc b \<le> cv_size (io_buffer b)"
  shows "\<exists>b'. io_append fresh bs b = Inr b' \<and> cv_live (io_buffer b') \<and> io_loc b' = io_loc b \<and>
    cv_items (io_buffer b') = take (io_loc b) (cv_items (io_buffer b)) @ bs @ drop (io_loc b + length bs) (cv_items (io_buffer b))"
proof -
  let ?v = "io_buffer b" and ?l = "io_loc b" and ?n = "io_loc b + length bs"
  have v: "cv_ok ?v" "cv_container ?v \<noteq> None" using assms(2) by (simp_all add: cv_live_def)
  note L = cv_items_length [OF v(1)]
  define b1 where "b1 = io_grow fresh ?n b"
  have B: "cv_ok (io_buffer b1)" "cv_container (io_buffer b1) \<noteq> None" "io_loc b1 = ?l" "cv_size (io_buffer b1) = max ?n (cv_size ?v)"
    "take ?l (cv_items (io_buffer b1)) = take ?l (cv_items ?v)" "drop ?n (cv_items (io_buffer b1)) = drop ?n (cv_items ?v)"
  proof -
    show "cv_ok (io_buffer b1)" "cv_container (io_buffer b1) \<noteq> None" "io_loc b1 = ?l" "cv_size (io_buffer b1) = max ?n (cv_size ?v)"
      using cv_lazy_resize_ok [OF assms(1) v(1), of ?n] v by (auto simp: b1_def io_grow_def max_def)
    have "take ?l (cv_items ?v) = take ?l (take (cv_size ?v) (cv_items (io_buffer b1)))"
      using cv_lazy_resize_ok(4) [OF assms(1) v(1), of ?n] L by (auto simp: b1_def io_grow_def simp del: take_take)
    then show "take ?l (cv_items (io_buffer b1)) = take ?l (cv_items ?v)" using assms(3) by (simp add: min_def)
    show "drop ?n (cv_items (io_buffer b1)) = drop ?n (cv_items ?v)"
      using cv_items_length [OF \<open>cv_ok (io_buffer b1)\<close>] \<open>cv_size (io_buffer b1) = _\<close> L by (cases "?n > cv_size ?v") (auto simp: b1_def io_grow_def max_def)
  qed
  then obtain c where c: "cv_container (io_buffer b1) = Some c" "cv_size (io_buffer b1) \<le> length c" "length c = cv_allocated (io_buffer b1)" "0 < length c" by (auto simp: cv_ok_def)
  have n: "?n \<le> length c" "?n \<le> cv_size (io_buffer b1)" using B(4) c(2) by auto
  let ?c = "take ?l c @ bs @ drop ?n c"
  let ?b = "b1\<lparr>io_buffer := (io_buffer b1)\<lparr>cv_container := Some ?c\<rparr>\<rparr>"
  have "io_append fresh bs b = Inr ?b" using c(1) n(1) B(3) by (simp add: io_append_def Let_def b1_def [symmetric] wr_def)
  moreover have "cv_live (io_buffer ?b)" using c n(1) by (simp add: cv_live_def cv_ok_def)
  moreover have "cv_items (io_buffer ?b) = take ?l (cv_items ?v) @ bs @ drop ?n (cv_items ?v)"
  proof -
    have i: "cv_items (io_buffer b1) = take (cv_size (io_buffer b1)) c" using c(1) by (simp add: cv_items_def)
    have "cv_items (io_buffer ?b) = take (cv_size (io_buffer b1)) ?c" by (simp add: cv_items_def)
    also have "\<dots> = take ?l c @ bs @ take (cv_size (io_buffer b1) - ?n) (drop ?n c)"
    proof -
      have "length (take ?l c) = ?l" using n(1) by simp
      moreover obtain m where "cv_size (io_buffer b1) = ?n + m" using n(2) by (metis le_Suc_ex)
      ultimately show ?thesis by (simp add: take_append del: length_take take_take)
    qed
    also have "\<dots> = take ?l (cv_items (io_buffer b1)) @ bs @ drop ?n (cv_items (io_buffer b1))" using n unfolding i by (simp add: drop_take min_def)
    finally show ?thesis using B(5,6) by simp
  qed
  ultimately show ?thesis using B(3) by auto
qed

section \<open>Properties\<close>

text \<open>
  A \<^verbatim>\<open>cvector\<close> is a list. Over any sequence of its operations in which nothing is popped from an
  empty vector, no access leaves the memory and the elements are those of the list to which the
  same operations are applied, whatever new memory holds; memory is never smaller than the elements.
\<close>

theorem cvector_refines_list:
  assumes "\<forall>n. length (fresh n) = n" and "cv_live v" and "vguarded cv_guard list_step ps (cv_items v)"
  shows "\<exists>v'. vrun (cv_step fresh) ps v = Inr v' \<and> cv_items v' = fold list_step ps (cv_items v) \<and>
    length (cv_items v') = cv_size v' \<and> cv_size v' \<le> cv_allocated v'"
proof -
  have "fresh = (\<lambda>n. map (\<lambda>i. fresh n ! i) [0..<n])" by (rule ext) (metis assms(1) map_nth)
  then obtain v' where V: "vrun (cv_step fresh) ps v = Inr v'" "cv_live v'" "cv_items v' = fold list_step ps (cv_items v)"
    using cv_list.run_ok [OF assms(2,3), of "\<lambda>n i. fresh n ! i"] by auto
  then have "cv_size v' \<le> cv_allocated v'" "length (cv_items v') = cv_size v'" using cv_items_length [of v'] by (auto simp: cv_live_def cv_ok_def)
  with V show ?thesis by blast
qed

theorem cvector_refines_list_witness:
  "\<exists>v'. vrun (cv_step (\<lambda>n. replicate n 7)) [Push 1, Push 2, Resize 4 9, Pop, Recopy] (cv_new (\<lambda>n. replicate n 7) 1) = Inr v' \<and> cv_items v' = [1, 2, 9 :: byte]"
proof -
  have "cv_live (cv_new (\<lambda>n. replicate n 7) 1 :: byte cvector)" "cv_items (cv_new (\<lambda>n. replicate n 7) 1 :: byte cvector) = []"
    by (simp_all add: cv_live_def cv_new_def cv_ok_def cv_items_def)
  then show ?thesis using cvector_refines_list [of "\<lambda>n. replicate n (7 :: byte)" "cv_new (\<lambda>n. replicate n 7) 1" "[Push 1, Push 2, Resize 4 9, Pop, Recopy]"]
    by (auto simp: cv_guard_def numeral_2_eq_2)
qed

text \<open>
  A vector of capacity zero overflows: doubling the capacity leaves it at zero, and the first
  element is written behind the memory. A copy of a vector that was moved from is such a vector.
\<close>

theorem zero_capacity_overflows:
  assumes "\<forall>n. length (fresh n) = n"
  shows "cv_push_back fresh x (cv_new fresh 0) = Inl Out_Of_Bounds"
    and "cv_push_back fresh x (cv_copy fresh (snd (cv_move v))) = Inl Out_Of_Bounds"
  using assms by (simp_all add: cv_push_back_def cv_new_def cv_reserve_def cv_copy_def cv_move_def cv_moved_to_def cv_items_def)

end
