(* ===== verification/Spec2Isabelle.thy ===== *)
theory Spec2Isabelle
  imports Startup Getaddr_Rounds Schedule Node_List Iobuf
begin

text \<open>
  A verification development for coinscope, a set of programs that observe the Bitcoin network. Paths are those
  of the repository under \<^verbatim>\<open>src/\<close>.

  \<^bold>\<open>The programs.\<close> The \<^emph>\<open>connector\<close> (\<^verbatim>\<open>connector/\<close>) is an event loop that keeps thousands of Bitcoin connections, made by itself, through
  a Tor proxy or by peers. It answers pings and the handshake on its own; for everything else its clients give it commands
  over a \<^emph>\<open>control protocol\<close>: register a message, send it to connections, list, open and close connections. Everything that
  it sends, receives and decides it reports to the \<^emph>\<open>log server\<close> (\<^verbatim>\<open>logserver/\<close>), which collects records from any number of producers and
  distributes them to consumers by type. Consumers are the \<^emph>\<open>log keeper\<close> (\<^verbatim>\<open>logclient/verbatim.cpp\<close>), which writes the log to
  rotated files, the \<^emph>\<open>console programs\<close>, which print it, and the clients (\<^verbatim>\<open>clients/\<close>), of which the \<^emph>\<open>crawler\<close> \<^verbatim>\<open>getaddr.cpp\<close> is the
  main one: it reads the log for addresses and events and drives the connector with commands. Three tools (\<^verbatim>\<open>tools/\<close>)
  repair, cut and check the files. All of them share \<^verbatim>\<open>shared/\<close>: copy-on-write buffers, a read and a write buffer over
  non-blocking sockets, the Bitcoin messages and the logger.

  \<^bold>\<open>How the model is made.\<close> Every function of the code is one definition, written in the order of its statements. A throw, a failed
  assertion, an access outside of a block or through a dead pointer is a value of \<open>failure\<close> in the result type \<open>res\<close>, so a
  theorem that an operation returns \<open>Inr\<close> says that none of these happens. Objects are records; a method takes and returns
  them, with the rest of the world where it touches it. Memory is lists of bytes with bounds-checked access, and an explicit heap with
  addresses and reference counts where sharing matters. Numbers of the wire formats and bit masks are words of their width;
  sizes are natural numbers, and their overflow is written out where the code computes in 32 bits. The answers of the kernel are
  scripts: a list of what each \<^verbatim>\<open>recv\<close>, \<^verbatim>\<open>read\<close> or \<^verbatim>\<open>write\<close> will do. Uninitialised memory, random numbers, the hash function, the
  configuration, the calendar and the text functions of the C library are parameters (the records \<open>env\<close>, \<open>cenv\<close>, \<open>ga_env\<close>, \<open>net_env\<close>,
  \<open>text_env\<close>, \<open>calendar\<close>; the arguments \<open>fresh\<close> and \<open>ps\<close>, the page size). There is no fuel: the loops over sockets and
  files end because every iteration uses up some of its script, its input or its file, which is the measure of their termination proofs. The one
  loop of which the code does not say why it ends, over the days of the schedule, is a partial function, and that it returns is a theorem.

  \<^bold>\<open>Shared code.\<close> \<^verbatim>\<open>Prelude\<close> has the types, results, byte encodings and their lemmas (\<^verbatim>\<open>network.hpp\<close>). \<^verbatim>\<open>Cow_Heap\<close> and
  \<^verbatim>\<open>Cow_Buffer\<close> model \<^verbatim>\<open>alloc_buffer\<close> and \<^verbatim>\<open>mmap_buffer\<close> on a heap with reference counts; their common contract is the
  locale \<open>cow_buffer\<close>, interpreted by both. \<^verbatim>\<open>Wrapped_Buffer\<close> has \<^verbatim>\<open>wrapped_buffer\<close> and proves that it refines \<open>vbuf\<close>, a
  buffer that is a value; everything above computes with \<open>vbuf\<close>. Shown: copies are snapshots, nothing leaks, dangles or is freed twice. \<^verbatim>\<open>Sys_IO\<close>
  has the scripts. \<^verbatim>\<open>Read_Buffer\<close> has the class and the loop that the handlers repeat around it: what the
  loop computes is a function of the byte stream, however the kernel cuts it and however often the event loop calls; the locales \<open>framed_reader\<close>
  and \<open>hungry_reader\<close> carry an invariant over it. \<^verbatim>\<open>Write_Buffer\<close> has the queue of buffers, an implementation of the
  locale \<open>byte_queue\<close>. \<^verbatim>\<open>Record_Reader\<close> has the readers of length-prefixed records (\<open>record_reader\<close>, \<open>record_consumer\<close>), interpreted by
  the log server, the watcher, the log keeper and the console. \<^verbatim>\<open>Bitcoin_Msg\<close> has the Bitcoin messages (\<^verbatim>\<open>bitcoin.cpp\<close>) and
  socket addresses, \<^verbatim>\<open>Logger\<close> the log calls and the buffer behind them (\<^verbatim>\<open>logger.cpp\<close>): the log server gets the records in the order of
  the calls. \<^verbatim>\<open>Iobuf\<close> has the containers \<^verbatim>\<open>cvector\<close> and \<^verbatim>\<open>iobuf\<close> with the locale \<open>list_machine\<close>: a vector refines a list.

  \<^bold>\<open>The connector.\<close> \<^verbatim>\<open>Blacklist\<close> has the set of refused addresses. \<^verbatim>\<open>Bitcoin_Handler\<close> has \<^verbatim>\<open>handler\<close>, \<^verbatim>\<open>connect_handler\<close>
  and \<^verbatim>\<open>accept_handler\<close> of \<^verbatim>\<open>bitcoin_handler.cpp\<close>; \<^verbatim>\<open>Bitcoin_Session\<close> the invariant of one connection, \<^verbatim>\<open>Connections\<close> that of all of them, and
  \<^verbatim>\<open>Bitcoin_Peers\<close> the theorems over every run: what is sent is what is logged, no event fails, pending output is armed,
  both handshakes. \<^verbatim>\<open>Tor_Handler\<close> has the SOCKS5 state machine. \<^verbatim>\<open>Command_Handler\<close> has the control connections
  (\<^verbatim>\<open>command_handler.cpp\<close>), \<^verbatim>\<open>Control_Session\<close> their invariant, with the contract \<open>command_target\<close> (and \<open>staying_target\<close>) of the commands that
  go through the table of connections, and \<^verbatim>\<open>Control_Frames\<close> what a client gets for its frames. \<^verbatim>\<open>Connector\<close> puts the three together: an event
  relation over all handlers, with the invariant and the safety of every interleaving. \<^verbatim>\<open>Startup\<close> has the listeners, the external
  address and the reload of the blacklist (\<^verbatim>\<open>main.cpp\<close>).

  \<^bold>\<open>The log.\<close> \<^verbatim>\<open>Collector\<close> and \<^verbatim>\<open>Input_Cxn\<close> are the log server (\<^verbatim>\<open>collector.cpp\<close>, \<^verbatim>\<open>output_cxn.cpp\<close>, \<^verbatim>\<open>input_cxn.cpp\<close>): a
  consumer gets exactly the records of its types in order, or is dropped. \<^verbatim>\<open>Verbatim\<close> is the log keeper with its
  signals, \<^verbatim>\<open>Log_Tools\<close> has \<^verbatim>\<open>logtruncate.cpp\<close> and \<^verbatim>\<open>logchecker.cpp\<close>, \<^verbatim>\<open>Log_Fixer\<close> has \<^verbatim>\<open>logfixer.cpp\<close>: the log survives a crash up to its last
  whole record, and the checker decides exactly a predicate on records. \<^verbatim>\<open>Console\<close> has both console programs and the stream operators
  of \<^verbatim>\<open>logger.cpp\<close>: they print the same.

  \<^bold>\<open>The clients.\<close> \<^verbatim>\<open>Easy_Message\<close> has the message classes of \<^verbatim>\<open>shared/src/connector.cpp\<close>, each a \<open>frame_maker\<close> of the control
  protocol. \<^verbatim>\<open>Client_Lib\<close> has \<^verbatim>\<open>lib.hpp\<close>, with the list of connections from the table of the connector to the callback of the
  client; \<^verbatim>\<open>Node_List\<close> has \<^verbatim>\<open>get_nodes.cpp\<close>. \<^verbatim>\<open>Bcwatch\<close> has the watcher of connection events, \<^verbatim>\<open>Getaddr\<close> the handlers of the crawler,
  \<^verbatim>\<open>Getaddr_Rounds\<close> its rounds from end to end and the invariant of its runs, \<^verbatim>\<open>Schedule\<close> the time of its next round.

  \<^bold>\<open>Limits of the statements.\<close> Lengths that travel in 32 bits are assumed to fit where a statement needs it, and page sizes to be
  positive; both appear as hypotheses. The target is little-endian with 64-bit sizes, as \<^verbatim>\<open>bitcoin.hpp\<close> assumes. A Bitcoin handler reads past
  the memory of a command that is not terminated when it reports it, and a control frame can make the connector read behind its
  end or use an erased iterator: the safety theorems name these outcomes, and separate theorems show that they occur. Times of the
  connector are clock ticks.

  \<^bold>\<open>Not modelled.\<close> Reading the configuration with libconfig, opening and connecting sockets, forking and the event loop
  itself are calls of libraries and of the system (\<^verbatim>\<open>config.cpp\<close>, \<^verbatim>\<open>network.cpp\<close>, both \<^verbatim>\<open>main.cpp\<close> beyond the parts named above); the hash
  functions of \<^verbatim>\<open>crypto.cpp\<close> wrap a library. The iterator classes inside the copy-on-write buffers are not used by any program. The clients
  \<^verbatim>\<open>cycle.cpp\<close> and \<^verbatim>\<open>kill_dupes.cpp\<close>, and the set-up of \<^verbatim>\<open>getaddr.cpp\<close>, use the address of a listed connection with a type it does not have, so they
  have no meaning to model; \<^verbatim>\<open>connect.cpp\<close> is a demonstration that stops at a placeholder. The members of \<^verbatim>\<open>cvector\<close> that do
  not type-check are left out for the same reason. The text of control messages in log lines, drawn from a stream operator, is a parameter.
\<close>

end
